(* ===== verification/Prelude.thy ===== *)
theory Prelude
  imports Main "HOL-Library.Word"
begin

unbundle bit_operations_syntax

text \<open>
  What every component theory shares: the machine types of the 64-bit targets, the faults that a
  raw-pointer program can run into, the sum-typed sequencing of fallible steps, the heap behind
  \<^verbatim>\<open>std::alloc\<close> and \<^verbatim>\<open>Box\<close>, the lemmas that turn masked indices into
  \<open>div\<close> and \<open>mod\<close>, and the interface locale of transition systems with an invariant.
\<close>

section \<open>Machine types\<close>

type_synonym usize = "64 word"
type_synonym u64 = "64 word"
type_synonym ptr = "64 word"

text \<open>\<^verbatim>\<open>ptr::null_mut()\<close>, \<^verbatim>\<open>usize::MAX\<close> and \<^verbatim>\<open>isize::MAX\<close>.\<close>

abbreviation null :: ptr where
  "null \<equiv> 0"

definition usize_max :: usize where
  "usize_max = - 1"

definition isize_max :: int where
  "isize_max = 2 ^ 63 - 1"

text \<open>Two's complement wrap-around of an \<^verbatim>\<open>isize\<close>.\<close>

definition isize :: "int \<Rightarrow> int" where
  "isize z = (z + 2 ^ 63) mod 2 ^ 64 - 2 ^ 63"

lemma isize_id: "- (2 ^ 63) \<le> z \<Longrightarrow> z < 2 ^ 63 \<Longrightarrow> isize z = z"
  unfolding isize_def by (subst mod_pos_pos_trivial) auto

section \<open>Faults and sequencing\<close>

text \<open>
  The ways a run can leave the program's intended behaviour. \<open>Spin\<close> is a busy-wait loop whose
  exit condition is false in the present state: the loop waits for another thread.
\<close>

datatype fault =
    UseAfterFree
  | DoubleFree
  | UninitRead
  | OutOfBounds
  | AllocError
  | Panic
  | Spin

type_synonym 'a res = "fault + 'a"

fun bindE :: "'a res \<Rightarrow> ('a \<Rightarrow> 'b res) \<Rightarrow> 'b res" where
  "bindE (Inl e) f = Inl e"
| "bindE (Inr x) f = f x"

definition assertE :: "bool \<Rightarrow> unit res" where
  "assertE b = (if b then Inr () else Inl Panic)"

lemma assertE_simps [simp]: "assertE True = Inr ()" "assertE False = Inl Panic"
  by (simp_all add: assertE_def)

lemma bindE_eq_Inr: "bindE m f = Inr y \<longleftrightarrow> (\<exists>x. m = Inr x \<and> f x = Inr y)"
  by (cases m) auto

lemma bindE_eq_Inl: "bindE m f = Inl e \<longleftrightarrow> m = Inl e \<or> (\<exists>x. m = Inr x \<and> f x = Inl e)"
  by (cases m) auto

lemma bindE_assoc: "bindE (bindE m f) g = bindE m (\<lambda>x. bindE (f x) g)"
  by (cases m) auto

lemma assertE_eq_Inr [simp]: "assertE b = Inr u \<longleftrightarrow> b"
  by (cases b) auto

lemma assertE_eq_Inl [simp]: "assertE b = Inl e \<longleftrightarrow> \<not> b \<and> e = Panic"
  by (cases b) auto

section \<open>The heap\<close>

text \<open>
  A heap maps the address of a live allocation to the object in it; the null pointer is never an
  address of it. The allocator is an argument of the operations that allocate: it may return any
  free address (also one that was used before), or fail, in which case
  \<^verbatim>\<open>handle_alloc_error\<close> aborts. \<open>valid_alloc k\<close> is what the callers rely on: a fresh,
  non-null address with \<open>k\<close> low bits clear (the alignment of the type) and the top bit clear
  (user-space addresses).
\<close>

type_synonym 'b heap = "ptr \<rightharpoonup> 'b"
type_synonym 'b allocator = "'b heap \<Rightarrow> ptr option"

definition alloc :: "'b allocator \<Rightarrow> 'b \<Rightarrow> 'b heap \<Rightarrow> (ptr \<times> 'b heap) res" where
  "alloc al b h = (case al h of None \<Rightarrow> Inl AllocError | Some a \<Rightarrow> Inr (a, h(a \<mapsto> b)))"

definition deref :: "'b heap \<Rightarrow> ptr \<Rightarrow> 'b res" where
  "deref h p = (case h p of None \<Rightarrow> Inl UseAfterFree | Some b \<Rightarrow> Inr b)"

definition modify :: "ptr \<Rightarrow> ('b \<Rightarrow> 'b) \<Rightarrow> 'b heap \<Rightarrow> 'b heap res" where
  "modify p f h = (case h p of None \<Rightarrow> Inl UseAfterFree | Some b \<Rightarrow> Inr (h(p \<mapsto> f b)))"

definition box_free :: "ptr \<Rightarrow> 'b heap \<Rightarrow> 'b heap res" where
  "box_free p h = (case h p of None \<Rightarrow> Inl DoubleFree | Some _ \<Rightarrow> Inr (h(p := None)))"

definition aligned :: "nat \<Rightarrow> ptr \<Rightarrow> bool" where
  "aligned k p \<longleftrightarrow> take_bit k p = 0"

definition valid_alloc :: "nat \<Rightarrow> 'b allocator \<Rightarrow> bool" where
  "valid_alloc k al \<longleftrightarrow>
     (\<forall>h a. al h = Some a \<longrightarrow> h a = None \<and> a \<noteq> null \<and> aligned k a \<and> \<not> bit a 63)"

text \<open>A concrete allocator for the witnesses: the first free address of a list of candidates.\<close>

fun first_fit :: "ptr list \<Rightarrow> 'b allocator" where
  "first_fit [] h = None"
| "first_fit (a # as) h = (if h a = None then Some a else first_fit as h)"

lemma first_fit_Some: "first_fit as h = Some a \<Longrightarrow> a \<in> set as \<and> h a = None"
  by (induction as) (auto split: if_splits)

lemma valid_first_fit:
  assumes "list_all (\<lambda>a. a \<noteq> null \<and> aligned k a \<and> \<not> bit a 63) as"
  shows "valid_alloc k (first_fit as)"
  using assms unfolding valid_alloc_def list_all_iff by (blast dest: first_fit_Some)

text \<open>Three cache-line aligned addresses.\<close>

abbreviation "three_blocks \<equiv> first_fit [4096, 8192, 12288]"

lemma aligned_mono: "aligned k p \<Longrightarrow> j \<le> k \<Longrightarrow> aligned j p"
  unfolding aligned_def using take_bit_take_bit [of j k p] by (simp add: min_absorb1)

lemma valid_alloc_mono: "valid_alloc k al \<Longrightarrow> j \<le> k \<Longrightarrow> valid_alloc j al"
  unfolding valid_alloc_def by (blast intro: aligned_mono)

lemma valid_three_blocks: "valid_alloc 6 three_blocks"
  by (rule valid_first_fit) (simp add: aligned_def take_bit_eq_mod bit_iff_odd)

named_theorems heap_simps \<open>one-step unfolding of heap accesses on a known cell\<close>

lemma deref_Some [heap_simps]: "h p = Some b \<Longrightarrow> deref h p = Inr b"
  by (simp add: deref_def)

lemma modify_Some [heap_simps]: "h p = Some b \<Longrightarrow> modify p f h = Inr (h(p \<mapsto> f b))"
  by (simp add: modify_def)

lemma box_free_Some [heap_simps]: "h p = Some b \<Longrightarrow> box_free p h = Inr (h(p := None))"
  by (simp add: box_free_def)

lemma alloc_Some [heap_simps]: "al h = Some a \<Longrightarrow> alloc al b h = Inr (a, h(a \<mapsto> b))"
  by (simp add: alloc_def)

lemma alloc_None [heap_simps]: "al h = None \<Longrightarrow> alloc al b h = Inl AllocError"
  by (simp add: alloc_def)

lemma deref_eq_Inr: "deref h p = Inr b \<longleftrightarrow> h p = Some b"
  by (auto simp: deref_def split: option.splits)

lemma alloc_eq_Inr: "alloc al b h = Inr (a, h') \<longleftrightarrow> al h = Some a \<and> h' = h(a \<mapsto> b)"
  by (auto simp: alloc_def split: option.splits)

lemma valid_allocD:
  assumes "valid_alloc k al" and "al h = Some a"
  shows "h a = None" and "a \<noteq> null" and "aligned k a" and "\<not> bit a 63"
  using assms by (auto simp: valid_alloc_def)

section \<open>Masked indices\<close>

lemma mask_word_minus: "(2 ^ k - 1 :: 'a::len word) = mask k"
  by (simp add: mask_eq_exp_minus_1)

lemma unat_and_mask: "unat (x AND mask k :: 'a::len word) = unat x mod 2 ^ k"
  by (simp flip: take_bit_eq_mask take_bit_eq_mod add: unsigned_take_bit_eq)

lemma unat_and_mask_less: "k < LENGTH('a) \<Longrightarrow> unat (x AND mask k :: 'a::len word) < 2 ^ k"
  by (simp add: unat_and_mask)

lemma and_mask_split: "(x AND NOT (mask k)) + (x AND mask k) = (x :: 'a::len word)"
proof -
  have "(x AND NOT (mask k)) AND (x AND mask k) = 0"
    by (rule bit_word_eqI) (auto simp: bit_simps)
  then have "(x AND NOT (mask k)) + (x AND mask k) = (x AND NOT (mask k)) OR (x AND mask k)"
    by (rule disjunctive_add_eq_or)
  also have "\<dots> = x"
    by (rule bit_word_eqI) (auto simp: bit_simps)
  finally show ?thesis .
qed

lemma unat_and_not_mask: "unat (x AND NOT (mask k) :: 'a::len word) = unat x div 2 ^ k * 2 ^ k"
proof -
  have eq: "x AND NOT (mask k) = x - (x AND mask k)"
    using and_mask_split [of x k] by (simp add: algebra_simps)
  have "unat (x AND mask k) \<le> unat x"
    by (simp add: unat_and_mask)
  then have "(x AND mask k) \<le> x"
    by (simp add: word_le_nat_alt)
  then have "unat (x AND NOT (mask k)) = unat x - unat x mod 2 ^ k"
    by (simp add: eq unat_sub unat_and_mask)
  then show ?thesis
    by (simp add: minus_mod_eq_div_mult)
qed

lemma and_mask_eq_0_iff: "(x AND mask k :: 'a::len word) = 0 \<longleftrightarrow> unat x mod 2 ^ k = 0"
  by (metis unat_and_mask unat_eq_zero)

lemma mod_exp_of_word_add:
  assumes "k \<le> LENGTH('a)"
  shows "unat (x + of_nat n :: 'a::len word) mod 2 ^ k = (unat x + n) mod 2 ^ k"
proof -
  have d: "(2::nat) ^ k dvd 2 ^ LENGTH('a)"
    using assms by (rule le_imp_power_dvd)
  have "unat (x + of_nat n) = (unat x + unat (of_nat n :: 'a word)) mod 2 ^ LENGTH('a)"
    by (rule unat_word_ariths(1))
  also have "unat (of_nat n :: 'a word) = n mod 2 ^ LENGTH('a)"
    by (simp add: unat_of_nat)
  finally have "unat (x + of_nat n) = (unat x + n) mod 2 ^ LENGTH('a)"
    by (simp add: mod_add_right_eq)
  with d show ?thesis
    by (simp add: mod_mod_cancel)
qed

lemma unat_of_nat_less: "n < 2 ^ LENGTH('a) \<Longrightarrow> unat (of_nat n :: 'a::len word) = n"
  by (simp add: unat_of_nat)

lemma unat_add_of_nat_diff: "n < 2 ^ LENGTH('a) \<Longrightarrow> unat (x + of_nat n - x :: 'a::len word) = n"
  by (simp add: unat_of_nat)

lemma word_add_of_nat_eq_iff:
  "n < 2 ^ LENGTH('a) \<Longrightarrow> (x :: 'a::len word) = x + of_nat n \<longleftrightarrow> n = 0"
  by (auto simp: word_of_nat_eq_0_iff dest: dvd_imp_le)

section \<open>Deleting the element at an index\<close>

definition remove_at :: "nat \<Rightarrow> 'a list \<Rightarrow> 'a list" where
  "remove_at i xs = take i xs @ drop (Suc i) xs"

lemma length_remove_at [simp]: "i < length xs \<Longrightarrow> length (remove_at i xs) = length xs - 1"
  by (simp add: remove_at_def)

lemma nth_remove_at:
  "i < length xs \<Longrightarrow> remove_at i xs ! j = xs ! (if j < i then j else Suc j)"
  by (simp add: remove_at_def nth_append min_def)

lemma set_remove_at:
  assumes "distinct xs" "i < length xs"
  shows "set (remove_at i xs) = set xs - {xs ! i}"
proof -
  have eq: "xs = take i xs @ xs ! i # drop (Suc i) xs" by (rule id_take_nth_drop [OF assms(2)])
  then have "set xs = set (take i xs) \<union> insert (xs ! i) (set (drop (Suc i) xs))"
    by (metis set_append list.simps(15))
  moreover have "xs ! i \<notin> set (take i xs) \<union> set (drop (Suc i) xs)"
    using assms(1) by (subst (asm) eq) (simp only: distinct_append distinct.simps set_append list.set, blast)
  ultimately show ?thesis unfolding remove_at_def by auto
qed

lemma distinct_remove_at: "distinct xs \<Longrightarrow> distinct (remove_at i xs)"
  by (simp add: remove_at_def set_take_disj_set_drop_if_distinct)

section \<open>Positions in blocks of size \<open>B\<close>\<close>

lemma pos_in_block:
  assumes "p mod B + j < (B :: nat)"
  shows "(p + j) div B = p div B" and "(p + j) mod B = p mod B + j"
proof -
  have "p + j = (p mod B + j) + p div B * B"
    by (simp add: algebra_simps)
  then have "(p + j) div B = p div B + (p mod B + j) div B" "(p + j) mod B = (p mod B + j) mod B"
    using assms by (metis div_mult_self3 add.commute not_less_zero gr_zeroI, metis mod_mult_self1)
  with assms show "(p + j) div B = p div B" "(p + j) mod B = p mod B + j"
    by simp_all
qed

lemma pos_block_end:
  assumes "p mod B + j = (B :: nat)" "0 < B"
  shows "(p + j) div B = Suc (p div B)" and "(p + j) mod B = 0"
proof -
  have "p = p div B * B + p mod B" by simp
  with assms(1) have "p + j = B + p div B * B" by linarith
  then have "p + j = Suc (p div B) * B" by simp
  with assms(2) show "(p + j) div B = Suc (p div B)" "(p + j) mod B = 0"
    by (metis nonzero_mult_div_cancel_right gr_implies_not0, metis mod_mult_self2_is_0)
qed

lemma round_up_block:
  assumes "0 < (B :: nat)" shows "x + (B - x mod B) = B * Suc (x div B)"
proof -
  have "x mod B \<le> x" "x mod B \<le> B" using assms by (simp_all add: less_imp_le)
  then have "x + (B - x mod B) = (x - x mod B) + B" by simp
  then show ?thesis by (simp add: minus_mod_eq_mult_div)
qed

lemma Suc_div_same: "Suc p mod B \<noteq> 0 \<Longrightarrow> Suc p div B = p div B"
  by (simp add: div_Suc)

lemma Suc_div_next: "Suc p mod B = 0 \<Longrightarrow> 0 < B \<Longrightarrow> Suc p div B = Suc (p div B)"
  by (simp add: div_Suc)

section \<open>Sums over tasks\<close>

text \<open>The effect of one task's move on a sum of weights of program counters.\<close>

lemma sum_upd:
  fixes f :: "'p \<Rightarrow> int" and m t :: nat
  assumes "t < m"
  shows "(\<Sum>u<m. f ((g(t := p)) u)) = (\<Sum>u<m. f (g u)) - f (g t) + f p"
proof -
  have "(\<Sum>u<m. f ((g(t := p)) u)) = f p + (\<Sum>u\<in>{..<m} - {t}. f ((g(t := p)) u))"
    using assms by (subst sum.remove [of _ t]) auto
  also have "(\<Sum>u\<in>{..<m} - {t}. f ((g(t := p)) u)) = (\<Sum>u\<in>{..<m} - {t}. f (g u))"
    by (rule sum.cong) auto
  finally have "(\<Sum>u<m. f ((g(t := p)) u)) = f p + (\<Sum>u\<in>{..<m} - {t}. f (g u))" .
  moreover have "(\<Sum>u<m. f (g u)) = f (g t) + (\<Sum>u\<in>{..<m} - {t}. f (g u))"
    using assms by (subst sum.remove [of _ t]) auto
  ultimately show ?thesis by simp
qed

section \<open>Counting the tasks in a role\<close>

lemma ex_fun_upd: "f u \<noteq> p \<Longrightarrow> (\<exists>v. (f(u := q)) v = p) \<longleftrightarrow> q = p \<or> (\<exists>v. f v = p)"
  by (metis fun_upd_apply)

lemma card_fun_upd:
  assumes "finite {u. P (f u)}"
  shows "finite {u. P ((f(t := p)) u)}"
    and "card {u. P ((f(t := p)) u)} + (if P (f t) then 1 else 0) = card {u. P (f u)} + (if P p then 1 else 0)"
proof -
  have e: "{u. P ((f(t := p)) u)} = (if P p then insert t {u. P (f u)} else {u. P (f u)} - {t})" by auto
  show "finite {u. P ((f(t := p)) u)}" unfolding e using assms by simp
  show "card {u. P ((f(t := p)) u)} + (if P (f t) then 1 else 0) = card {u. P (f u)} + (if P p then 1 else 0)"
  proof (cases "P (f t)")
    case True
    then have "0 < card {u. P (f u)}" using assms by (auto simp: card_gt_0_iff)
    with True assms show ?thesis unfolding e by (auto simp: insert_absorb card_Diff_singleton)
  next
    case False
    with assms show ?thesis unfolding e by auto
  qed
qed

section \<open>Transition systems\<close>

text \<open>
  The interface between a step relation and the safety proofs over it: an initial predicate, the
  steps, and an invariant that holds initially and is kept by every step.
\<close>

inductive reach :: "('s \<Rightarrow> bool) \<Rightarrow> ('s \<Rightarrow> 's \<Rightarrow> bool) \<Rightarrow> 's \<Rightarrow> bool" for start step where
  reach_start: "start s \<Longrightarrow> reach start step s"
| reach_step: "reach start step s \<Longrightarrow> step s t \<Longrightarrow> reach start step t"

text \<open>Running a list of actions of a system given by a partial next-state function.\<close>

fun run_acts :: "('a \<Rightarrow> 's \<Rightarrow> 's option) \<Rightarrow> 'a list \<Rightarrow> 's \<Rightarrow> 's option" where
  "run_acts next [] s = Some s"
| "run_acts next (a # as) s = (case next a s of None \<Rightarrow> None | Some s' \<Rightarrow> run_acts next as s')"

lemma run_acts_reach:
  assumes "\<And>a s s'. next a s = Some s' \<Longrightarrow> step s s'" "run_acts next as s = Some s'" "reach start step s"
  shows "reach start step s'"
  using assms(2,3)
proof (induction as arbitrary: s)
  case (Cons a as)
  then obtain r where r: "next a s = Some r" "run_acts next as r = Some s'" by (auto split: option.splits)
  from Cons.IH [OF r(2) reach_step [OF Cons.prems(2) assms(1) [OF r(1)]]] show ?case .
qed simp

locale invariant_system =
  fixes start :: "'s \<Rightarrow> bool" and step :: "'s \<Rightarrow> 's \<Rightarrow> bool" and inv :: "'s \<Rightarrow> bool"
  assumes inv_start: "start s \<Longrightarrow> inv s"
    and inv_step: "inv s \<Longrightarrow> step s t \<Longrightarrow> inv t"
begin

lemma inv_reach: "reach start step s \<Longrightarrow> inv s"
  by (induction rule: reach.induct) (auto intro: inv_start inv_step)

lemma inv_steps: "step\<^sup>*\<^sup>* s t \<Longrightarrow> inv s \<Longrightarrow> inv t"
  by (induction rule: rtranclp_induct) (auto intro: inv_step)

lemma reach_steps: "step\<^sup>*\<^sup>* s t \<Longrightarrow> reach start step s \<Longrightarrow> reach start step t"
  by (induction rule: rtranclp_induct) (auto intro: reach_step)

end

text \<open>
  Systems whose steps show events: runs record the events of all steps, and a list of actions of the next-state
  function is a run.
\<close>

fun exec_acts :: "('a \<Rightarrow> 's \<Rightarrow> ('e \<times> 's) option) \<Rightarrow> 'a list \<Rightarrow> 's \<Rightarrow> ('e list \<times> 's) option" where
  "exec_acts next [] s = Some ([], s)"
| "exec_acts next (a # as) s = (case next a s of
     None \<Rightarrow> None
   | Some (e, s') \<Rightarrow> map_option (\<lambda>(es, s''). (e # es, s'')) (exec_acts next as s'))"

lemma exec_acts_length: "exec_acts nxt as s = Some (es, s') \<Longrightarrow> length es = length as"
  by (induction as arbitrary: es s) (auto split: option.splits)

locale event_runs =
  fixes run :: "'e list \<Rightarrow> 's \<Rightarrow> bool" and nxt :: "'a \<Rightarrow> 's \<Rightarrow> ('e \<times> 's) option"
  assumes run_nxt: "run es s \<Longrightarrow> nxt a s = Some (e, s') \<Longrightarrow> run (es @ [e]) s'"
begin

lemma exec_run: "run es s \<Longrightarrow> exec_acts nxt as s = Some (fs, s') \<Longrightarrow> run (es @ fs) s'"
proof (induction as arbitrary: es s fs)
  case (Cons a as)
  from Cons.prems(2) obtain e r gs where r: "nxt a s = Some (e, r)" "exec_acts nxt as r = Some (gs, s')" "fs = e # gs"
    by (auto split: option.splits prod.splits)
  from Cons.IH [OF run_nxt [OF Cons.prems(1) r(1)] r(2)] show ?case by (simp add: r(3))
qed simp

lemma exec_run_from: "run [] s \<Longrightarrow> exec_acts nxt as s = Some (fs, s') \<Longrightarrow> run fs s'"
  using exec_run [of "[]"] by simp

end

end
