(* ===== verification/Queue_Spec.thy ===== *)
theory Queue_Spec
  imports Prelude
begin

text \<open>
  The contract the queues of \<^verbatim>\<open>may_queue\<close> share, as the clients in
  \<^verbatim>\<open>src/sync\<close>, \<^verbatim>\<open>src/scheduler.rs\<close> and \<^verbatim>\<open>src/timeout_list.rs\<close> use it:
  a representation relation between the queue's memory and the list of queued values,
  \<^verbatim>\<open>push\<close> appends, \<^verbatim>\<open>pop\<close> takes the oldest value or reports an empty queue, and
  neither faults. The \<^verbatim>\<open>while pop().is_some() {}\<close> loop of every \<^verbatim>\<open>Drop\<close> and
  \<^verbatim>\<open>drop_port\<close> is defined once here and proved to empty the queue.
\<close>

section \<open>Draining a queue\<close>

text \<open>
  \<^verbatim>\<open>while self.pop().is_some() {}\<close>, with the popped values collected. The first argument bounds
  the number of iterations; running out of it is \<open>Spin\<close>.
\<close>

fun drain :: "nat \<Rightarrow> ('q \<Rightarrow> ('a option \<times> 'q) res) \<Rightarrow> 'q \<Rightarrow> ('a list \<times> 'q) res" where
  "drain 0 pop q = Inl Spin"
| "drain (Suc n) pop q =
     bindE (pop q) (\<lambda>(r, q').
       case r of
         None \<Rightarrow> Inr ([], q')
       | Some x \<Rightarrow> bindE (drain n pop q') (\<lambda>(xs, q''). Inr (x # xs, q'')))"

section \<open>The pop side\<close>

locale pop_queue =
  fixes rep :: "'q \<Rightarrow> 'a list \<Rightarrow> bool"
    and pop :: "'q \<Rightarrow> ('a option \<times> 'q) res"
  assumes pop_nil: "rep q [] \<Longrightarrow> \<exists>q'. pop q = Inr (None, q') \<and> rep q' []"
    and pop_cons: "rep q (x # xs) \<Longrightarrow> \<exists>q'. pop q = Inr (Some x, q') \<and> rep q' xs"
begin

lemma drain_all:
  assumes "rep q xs" and "length xs < n"
  shows "\<exists>q'. drain n pop q = Inr (xs, q') \<and> rep q' []"
  using assms
proof (induction xs arbitrary: q n)
  case Nil
  from Nil.prems obtain m where "n = Suc m" by (cases n) auto
  with pop_nil [OF Nil.prems(1)] show ?case by auto
next
  case (Cons x xs)
  from Cons.prems obtain m where n: "n = Suc m" and m: "length xs < m" by (cases n) auto
  from pop_cons [OF Cons.prems(1)] obtain q1
    where q1: "pop q = Inr (Some x, q1)" "rep q1 xs" by blast
  from Cons.IH [OF q1(2) m] obtain q2
    where "drain m pop q1 = Inr (xs, q2)" "rep q2 []" by blast
  with q1 n show ?case by auto
qed

lemma pop_no_fault: "rep q xs \<Longrightarrow> \<exists>r q'. pop q = Inr (r, q')"
  by (cases xs) (auto dest: pop_nil pop_cons)

lemma pop_result:
  assumes "rep q xs" and "pop q = Inr (r, q')"
  shows "rep q' (tl xs) \<and> r = (case xs of [] \<Rightarrow> None | x # _ \<Rightarrow> Some x)"
proof (cases xs)
  case Nil
  with assms pop_nil [of q] show ?thesis by auto
next
  case (Cons x ys)
  with assms pop_cons [of q x ys] show ?thesis by auto
qed

end

section \<open>FIFO queues\<close>

text \<open>
  The representation is indexed by the number of pushes that still fit: the indices of the block
  queues are 64-bit words, and only a total of less than \<open>2 ^ 64\<close> entries is supported.
\<close>

datatype 'a queue_op = Push 'a | Pop

fun spec_run :: "'a queue_op list \<Rightarrow> 'a list \<Rightarrow> 'a option list \<times> 'a list" where
  "spec_run [] xs = ([], xs)"
| "spec_run (Push v # ops) xs = spec_run ops (xs @ [v])"
| "spec_run (Pop # ops) xs =
     (let (rs, ys) = spec_run ops (tl xs)
      in ((case xs of [] \<Rightarrow> None | x # _ \<Rightarrow> Some x) # rs, ys))"

fun queue_run ::
  "('a \<Rightarrow> 'q \<Rightarrow> 'q res) \<Rightarrow> ('q \<Rightarrow> ('a option \<times> 'q) res) \<Rightarrow> 'a queue_op list \<Rightarrow> 'q
     \<Rightarrow> ('a option list \<times> 'q) res" where
  "queue_run push pop [] q = Inr ([], q)"
| "queue_run push pop (Push v # ops) q = bindE (push v q) (queue_run push pop ops)"
| "queue_run push pop (Pop # ops) q =
     bindE (pop q) (\<lambda>(r, q').
       bindE (queue_run push pop ops q') (\<lambda>(rs, q''). Inr (r # rs, q'')))"

locale fifo_queue =
  fixes rep :: "nat \<Rightarrow> 'q \<Rightarrow> 'a list \<Rightarrow> bool"
    and pop :: "'q \<Rightarrow> ('a option \<times> 'q) res"
    and push :: "'a \<Rightarrow> 'q \<Rightarrow> 'q res"
  assumes popq: "pop_queue (rep k) pop"
    and push_ok:
      "rep (Suc k) q xs \<Longrightarrow>
         (\<exists>q'. push v q = Inr q' \<and> rep k q' (xs @ [v])) \<or> push v q = Inl AllocError"
    and rep_mono: "rep (Suc k) q xs \<Longrightarrow> rep k q xs"

sublocale fifo_queue \<subseteq> pop_queue "rep k" pop for k
  by (rule popq)

context fifo_queue
begin

lemma push_result: "rep (Suc k) q xs \<Longrightarrow> push v q = Inr q' \<Longrightarrow> rep k q' (xs @ [v])"
  using push_ok [of k q xs v] by auto

text \<open>
  Any sequence of operations returns exactly what the list specification returns, unless an
  allocation fails on the way.
\<close>

lemma run_refines:
  assumes "rep (length ops) q xs"
  shows "queue_run push pop ops q = Inl AllocError \<or>
    (\<exists>q'. queue_run push pop ops q = Inr (fst (spec_run ops xs), q') \<and>
       rep 0 q' (snd (spec_run ops xs)))"
  using assms
proof (induction ops arbitrary: q xs)
  case Nil
  then show ?case by simp
next
  case (Cons a ops)
  then have r: "rep (Suc (length ops)) q xs" by simp
  show ?case
  proof (cases a)
    case (Push v)
    from push_ok [OF r, of v] consider
        "push v q = Inl AllocError"
      | q' where "push v q = Inr q'" "rep (length ops) q' (xs @ [v])" by blast
    then show ?thesis
    proof cases
      case 1
      then show ?thesis by (simp add: Push)
    next
      case 2
      then show ?thesis using Cons.IH [OF 2(2)] by (simp add: Push)
    qed
  next
    case Pop
    note r' = rep_mono [OF r]
    from pop_no_fault [OF r'] obtain v q' where q': "pop q = Inr (v, q')" by blast
    note pr = pop_result [OF r' q']
    from Cons.IH [OF conjunct1 [OF pr]] show ?thesis
      using q' pr by (auto simp: Pop bindE_eq_Inl Let_def split: prod.splits)
  qed
qed

end

section \<open>Queues with removable entries\<close>

text \<open>
  The contract of the timer's queues: a push hands out a handle and tells whether the queue was
  empty, the oldest value is popped if it satisfies a test, and a handle is used up by removing its
  entry, which takes effect only for an entry that is queued and not the last one. \<open>rep q xs H\<close> is the
  queue with the values \<open>xs\<close> and the outstanding handles \<open>H\<close>.
\<close>

locale handle_queue =
  fixes rep :: "'q \<Rightarrow> 'a list \<Rightarrow> 'h set \<Rightarrow> bool"
    and push :: "'a \<Rightarrow> 'q \<Rightarrow> (('h \<times> bool) \<times> 'q) res"
    and pop_if :: "('a \<Rightarrow> bool) \<Rightarrow> 'q \<Rightarrow> ('a option \<times> 'q) res"
    and peek :: "'q \<Rightarrow> 'a option res"
    and is_empty :: "'q \<Rightarrow> bool"
    and remove :: "'h \<Rightarrow> 'q \<Rightarrow> ('a option \<times> 'q) res"
  assumes push_ok:
      "rep q xs H \<Longrightarrow> push v q = Inl AllocError \<or>
         (\<exists>a q'. push v q = Inr ((a, xs = []), q') \<and> a \<notin> H \<and> rep q' (xs @ [v]) (insert a H))"
    and pop_if_ok:
      "rep q xs H \<Longrightarrow>
         \<exists>q'. pop_if f q = Inr (case xs of [] \<Rightarrow> None | x # _ \<Rightarrow> if f x then Some x else None, q') \<and>
           rep q' (case xs of [] \<Rightarrow> [] | x # ys \<Rightarrow> if f x then ys else xs) H"
    and peek_ok: "rep q xs H \<Longrightarrow> peek q = Inr (case xs of [] \<Rightarrow> None | x # _ \<Rightarrow> Some x)"
    and is_empty_ok: "rep q xs H \<Longrightarrow> is_empty q \<longleftrightarrow> xs = []"
    and remove_ok:
      "rep q xs H \<Longrightarrow> p \<in> H \<Longrightarrow>
         \<exists>q'. (remove p q = Inr (None, q') \<and> rep q' xs (H - {p})) \<or>
           (\<exists>as x bs. xs = as @ x # bs \<and> bs \<noteq> [] \<and> remove p q = Inr (Some x, q') \<and>
              rep q' (as @ bs) (H - {p}))"
begin

text \<open>\<^verbatim>\<open>while let Some(x) = pop_if(&p) \{ ... \}\<close>\<close>

lemma drain_pop_if:
  assumes "rep q xs H" "length xs < n"
  shows "\<exists>q'. drain n (pop_if p) q = Inr (takeWhile p xs, q') \<and> rep q' (dropWhile p xs) H"
  using assms
proof (induction xs arbitrary: q n)
  case Nil
  from Nil.prems obtain m where "n = Suc m" by (cases n) auto
  with pop_if_ok [OF Nil.prems(1), of p] show ?case by auto
next
  case (Cons x xs)
  from Cons.prems obtain m where n: "n = Suc m" and m: "length xs < m" by (cases n) auto
  from pop_if_ok [OF Cons.prems(1), of p] obtain q1
    where q1: "pop_if p q = Inr (if p x then Some x else None, q1)" "rep q1 (if p x then xs else x # xs) H" by auto
  show ?case
  proof (cases "p x")
    case True
    with Cons.IH [of q1 m] q1 m obtain q2
      where "drain m (pop_if p) q1 = Inr (takeWhile p xs, q2)" "rep q2 (dropWhile p xs) H" by auto
    with q1 n True show ?thesis by auto
  next
    case False
    with q1 n show ?thesis by auto
  qed
qed

text \<open>A removal keeps the relative order of the values that stay.\<close>

lemma remove_filters:
  assumes "rep q xs H" "p \<in> H" "remove p q = Inr (r, q')"
  shows "\<exists>ys. rep q' ys (H - {p}) \<and> set ys \<subseteq> set xs \<and> (sorted_wrt P xs \<longrightarrow> sorted_wrt P ys) \<and>
    (xs \<noteq> [] \<longrightarrow> ys \<noteq> [] \<and> last ys = last xs) \<and> length xs = length ys + (if r = None then 0 else 1)"
proof -
  from remove_ok [OF assms(1,2)] assms(3) consider
      "r = None" "rep q' xs (H - {p})"
    | as x bs where "xs = as @ x # bs" "bs \<noteq> []" "r = Some x" "rep q' (as @ bs) (H - {p})" by auto
  then show ?thesis
  proof cases
    case 1
    then show ?thesis by (intro exI [of _ xs]) simp
  next
    case 2
    then show ?thesis by (intro exI [of _ "as @ bs"]) (auto simp: sorted_wrt_append)
  qed
qed

end

end
