(* ===== verification/Block_Layout.thy ===== *)
theory Block_Layout
  imports Prelude
begin

text \<open>
  The geometry the three block queues (\<^verbatim>\<open>spsc\<close>, \<^verbatim>\<open>mpsc\<close>, \<^verbatim>\<open>spmc\<close>) share. A chain of
  blocks of \<open>B\<close> slots is a list of addresses \<open>cs\<close>; position \<open>p\<close> of the chain is slot \<open>p mod B\<close> of
  block \<open>cs ! (p div B)\<close>. A list of values is laid out from a position when the slots from there on
  hold its elements in order.
\<close>

definition lays :: "nat \<Rightarrow> (ptr \<Rightarrow> nat \<Rightarrow> 'a option) \<Rightarrow> ptr list \<Rightarrow> nat \<Rightarrow> 'a list \<Rightarrow> bool" where
  "lays B sl cs p xs \<longleftrightarrow>
     (\<forall>i < length xs. sl (cs ! ((p + i) div B)) ((p + i) mod B) = Some (xs ! i))"

lemma lays_Nil [simp]: "lays B sl cs p []"
  by (simp add: lays_def)

lemma pos_inj:
  assumes "distinct cs" "p div B < length cs" "q div B < length cs"
    and "cs ! (p div B) = cs ! (q div B)" "p mod B = q mod B"
  shows "p = q"
proof -
  have "p div B = q div B"
    using assms(1-4) by (simp add: nth_eq_iff_index_eq)
  with assms(5) show ?thesis
    by (metis div_mult_mod_eq)
qed

lemma lays_cong:
  assumes "lays B sl cs p xs"
    and "\<And>i. i < length xs \<Longrightarrow>
           sl' (cs' ! ((p' + i) div B)) ((p' + i) mod B) = sl (cs ! ((p + i) div B)) ((p + i) mod B)"
  shows "lays B sl' cs' p' xs"
  using assms by (simp add: lays_def)

lemma lays_snoc:
  "lays B sl cs p (xs @ [v]) \<longleftrightarrow>
     lays B sl cs p xs \<and>
     sl (cs ! ((p + length xs) div B)) ((p + length xs) mod B) = Some v"
  by (auto simp: lays_def nth_append less_Suc_eq)

lemma lays_Cons:
  "lays B sl cs p (x # xs) \<longleftrightarrow>
     sl (cs ! (p div B)) (p mod B) = Some x \<and> lays B sl cs (Suc p) xs"
proof
  assume L: "lays B sl cs p (x # xs)"
  have "sl (cs ! ((Suc p + i) div B)) ((Suc p + i) mod B) = Some (xs ! i)" if "i < length xs" for i
    using L that by (auto simp: lays_def dest: spec [of _ "Suc i"])
  with L show "sl (cs ! (p div B)) (p mod B) = Some x \<and> lays B sl cs (Suc p) xs"
    by (auto simp: lays_def dest: spec [of _ 0])
next
  assume R: "sl (cs ! (p div B)) (p mod B) = Some x \<and> lays B sl cs (Suc p) xs"
  have "sl (cs ! ((p + i) div B)) ((p + i) mod B) = Some ((x # xs) ! i)"
    if "i < length (x # xs)" for i
    using R that by (cases i) (auto simp: lays_def)
  then show "lays B sl cs p (x # xs)"
    by (auto simp: lays_def)
qed

text \<open>Slots that the layout does not use may change.\<close>

lemma lays_upd_other:
  assumes "lays B sl cs p xs" "distinct cs" "(p + length xs) div B < length cs" "0 < B"
    and "\<And>c i. (c, i) \<noteq> (cs ! (r div B), r mod B) \<Longrightarrow> c \<in> set cs \<Longrightarrow> sl' c i = sl c i"
    and "r div B < length cs" "r < p \<or> p + length xs \<le> r"
  shows "lays B sl' cs p xs"
proof (rule lays_cong [OF assms(1)])
  fix i assume i: "i < length xs"
  let ?q = "p + i"
  have q: "?q div B < length cs"
    using i assms(3) by (meson add_le_cancel_left div_le_mono less_imp_le le_less_trans)
  have "?q \<noteq> r"
    using assms(7) i by auto
  then have "(cs ! (?q div B), ?q mod B) \<noteq> (cs ! (r div B), r mod B)"
    using pos_inj [OF assms(2) q assms(6)] by auto
  with q show "sl' (cs ! (?q div B)) (?q mod B) = sl (cs ! (?q div B)) (?q mod B)"
    by (intro assms(5)) auto
qed

text \<open>Adding a block at the end of the chain, and moving the first block to the end.\<close>

lemma lays_app:
  assumes "lays B sl cs p xs" "(p + length xs) div B \<le> length cs" "0 < B"
    and "\<And>i. i < length xs \<Longrightarrow> (p + i) div B < length cs"
  shows "lays B sl (cs @ ds) p xs"
  by (rule lays_cong [OF assms(1)]) (simp add: nth_append assms(4))

lemma pos_drop_first:
  assumes "B \<le> p" "0 < (B :: nat)"
  shows "(p + i) div B = Suc ((p - B + i) div B)" and "(p + i) mod B = (p - B + i) mod B"
proof -
  obtain m where m: "p = B + m"
    using assms(1) le_Suc_ex by blast
  show "(p + i) div B = Suc ((p - B + i) div B)" "(p + i) mod B = (p - B + i) mod B"
    using assms(2) by (simp_all add: m add.assoc div_add_self1)
qed

lemma lays_drop_first:
  assumes "lays B sl (c # cs) p xs" "B \<le> p" "0 < B"
  shows "lays B sl cs (p - B) xs"
  by (rule lays_cong [OF assms(1)]) (simp add: pos_drop_first [OF assms(2,3)])

end
