(* ===== verification/Spsc_Queue.thy ===== *)
theory Spsc_Queue
  imports Queue_Spec Block_Layout
begin

unbundle bit_operations_syntax

text \<open>
  The single-producer single-consumer block queue of \<^verbatim>\<open>may_queue/src/spsc.rs\<close>, with the
  default feature \<^verbatim>\<open>inner_cache\<close>: consumed blocks stay linked between \<^verbatim>\<open>first\<close> and
  \<^verbatim>\<open>head.block\<close> and are handed out again by \<^verbatim>\<open>alloc_node\<close>. Each operation is one
  definition over the queue's fields and its heap of blocks. The lemmas show that the memory always
  represents a list of values, that no operation reads an unwritten or moved-out slot or a freed
  block, and that \<^verbatim>\<open>Drop\<close> frees every block.
\<close>

section \<open>Blocks\<close>

definition spsc_BLOCK_SHIFT :: nat where
  "spsc_BLOCK_SHIFT = 5"

definition spsc_BLOCK_SIZE :: usize where
  "spsc_BLOCK_SIZE = push_bit spsc_BLOCK_SHIFT 1"

definition spsc_BLOCK_MASK :: usize where
  "spsc_BLOCK_MASK = spsc_BLOCK_SIZE - 1"

text \<open>
  A slot is \<^verbatim>\<open>UnsafeCell<MaybeUninit<T>>\<close>: \<open>None\<close> until it is written, and again after its
  value was moved out by \<^verbatim>\<open>get\<close>.
\<close>

record 'a sblock =
  sb_data :: "'a option list"
  sb_next :: ptr

definition spsc_block_new :: "'a sblock allocator \<Rightarrow> 'a sblock heap \<Rightarrow> (ptr \<times> 'a sblock heap) res" where
  "spsc_block_new al h =
     alloc al \<lparr>sb_data = replicate (unat spsc_BLOCK_SIZE) None, sb_next = null\<rparr> h"

definition spsc_set :: "usize \<Rightarrow> 'a \<Rightarrow> 'a sblock \<Rightarrow> 'a sblock" where
  "spsc_set index v b =
     b\<lparr>sb_data := (sb_data b)[unat (index AND spsc_BLOCK_MASK) := Some v]\<rparr>"

definition spsc_block_peek :: "'a sblock \<Rightarrow> usize \<Rightarrow> 'a res" where
  "spsc_block_peek b index =
     (case sb_data b ! unat (index AND spsc_BLOCK_MASK) of
        None \<Rightarrow> Inl UninitRead
      | Some v \<Rightarrow> Inr v)"

definition spsc_get :: "nat \<Rightarrow> 'a sblock \<Rightarrow> ('a \<times> 'a sblock) res" where
  "spsc_get i b =
     (if i < length (sb_data b)
      then case sb_data b ! i of
             None \<Rightarrow> Inl UninitRead
           | Some v \<Rightarrow> Inr (v, b\<lparr>sb_data := (sb_data b)[i := None]\<rparr>)
      else Inl OutOfBounds)"

text \<open>\<^verbatim>\<open>(start..start + len).map(|id| self.get(id)).collect()\<close>\<close>

fun spsc_get_range :: "nat \<Rightarrow> nat \<Rightarrow> 'a sblock \<Rightarrow> ('a list \<times> 'a sblock) res" where
  "spsc_get_range i 0 b = Inr ([], b)"
| "spsc_get_range i (Suc len) b =
     bindE (spsc_get i b) (\<lambda>(v, b').
       bindE (spsc_get_range (Suc i) len b') (\<lambda>(vs, b''). Inr (v # vs, b'')))"

definition spsc_copy_to_bulk :: "usize \<Rightarrow> usize \<Rightarrow> 'a sblock \<Rightarrow> ('a list \<times> 'a sblock) res" where
  "spsc_copy_to_bulk start end b =
     (let len = end - start;
          start' = start AND spsc_BLOCK_MASK
      in spsc_get_range (unat start') (unat len) b)"

definition spsc_bulk_end :: "usize \<Rightarrow> usize \<Rightarrow> usize" where
  "spsc_bulk_end start end =
     (let block_end = (start + spsc_BLOCK_SIZE) AND NOT spsc_BLOCK_MASK
      in min end block_end)"

section \<open>The queue\<close>

text \<open>
  The two \<^verbatim>\<open>Position\<close>s are the fields \<open>sq_tail_index\<close>, \<open>sq_tail_block\<close> and \<open>sq_head_index\<close>,
  \<open>sq_head_block\<close>.
\<close>

record 'a spsc =
  sq_heap :: "'a sblock heap"
  sq_tail_index :: usize
  sq_tail_block :: ptr
  sq_head_index :: usize
  sq_head_block :: ptr
  sq_first :: ptr
  sq_last_head :: ptr

definition spsc_new :: "'a sblock allocator \<Rightarrow> 'a spsc res" where
  "spsc_new al =
     bindE (spsc_block_new al Map.empty) (\<lambda>(init_block, h).
       Inr \<lparr>sq_heap = h, sq_tail_index = 0, sq_tail_block = init_block,
            sq_head_index = 0, sq_head_block = init_block,
            sq_first = init_block, sq_last_head = init_block\<rparr>)"

definition spsc_alloc_node :: "'a sblock allocator \<Rightarrow> 'a spsc \<Rightarrow> (ptr \<times> 'a spsc) res" where
  "spsc_alloc_node al q =
     (let first = sq_first q; last_head = sq_last_head q in
      if first \<noteq> last_head
      then bindE (deref (sq_heap q) first) (\<lambda>b. Inr (first, q\<lparr>sq_first := sb_next b\<rparr>))
      else
        let last_head' = sq_head_block q;
            q1 = q\<lparr>sq_last_head := last_head'\<rparr> in
        if first \<noteq> last_head'
        then bindE (deref (sq_heap q1) first) (\<lambda>b. Inr (first, q1\<lparr>sq_first := sb_next b\<rparr>))
        else bindE (spsc_block_new al (sq_heap q1)) (\<lambda>(p, h). Inr (p, q1\<lparr>sq_heap := h\<rparr>)))"

definition spsc_push :: "'a sblock allocator \<Rightarrow> 'a \<Rightarrow> 'a spsc \<Rightarrow> 'a spsc res" where
  "spsc_push al v q =
     (let tail = sq_tail_block q; push_index = sq_tail_index q in
      bindE (modify tail (spsc_set push_index v) (sq_heap q)) (\<lambda>h1.
        let q1 = q\<lparr>sq_heap := h1\<rparr>; new_index = push_index + 1 in
        bindE
          (if new_index AND spsc_BLOCK_MASK = 0
           then bindE (spsc_alloc_node al q1) (\<lambda>(new_tail, q2).
                  bindE (modify tail (sb_next_update (\<lambda>_. new_tail)) (sq_heap q2)) (\<lambda>h2.
                    Inr (q2\<lparr>sq_heap := h2, sq_tail_block := new_tail\<rparr>)))
           else Inr q1)
          (\<lambda>q3. Inr (q3\<lparr>sq_tail_index := new_index\<rparr>))))"

definition spsc_peek :: "'a spsc \<Rightarrow> 'a option res" where
  "spsc_peek q =
     (if sq_head_index q = sq_tail_index q then Inr None
      else bindE (deref (sq_heap q) (sq_head_block q)) (\<lambda>b.
             bindE (spsc_block_peek b (sq_head_index q)) (\<lambda>v. Inr (Some v))))"

definition spsc_pop :: "'a spsc \<Rightarrow> ('a option \<times> 'a spsc) res" where
  "spsc_pop q =
     (let index = sq_head_index q; push_index = sq_tail_index q in
      if index = push_index then Inr (None, q)
      else
        let head = sq_head_block q in
        bindE (deref (sq_heap q) head) (\<lambda>b.
        bindE (spsc_get (unat (index AND spsc_BLOCK_MASK)) b) (\<lambda>(v, b').
          let q1 = q\<lparr>sq_heap := (sq_heap q)(head \<mapsto> b')\<rparr>;
              new_index = index + 1;
              q2 = (if new_index AND spsc_BLOCK_MASK = 0
                    then q1\<lparr>sq_head_block := sb_next b'\<rparr> else q1)
          in Inr (Some v, q2\<lparr>sq_head_index := new_index\<rparr>))))"

definition spsc_len :: "'a spsc \<Rightarrow> usize" where
  "spsc_len q = sq_tail_index q - sq_head_index q"

definition spsc_is_empty :: "'a spsc \<Rightarrow> bool" where
  "spsc_is_empty q \<longleftrightarrow> spsc_len q = 0"

definition spsc_bulk_pop :: "'a spsc \<Rightarrow> ('a list \<times> 'a spsc) res" where
  "spsc_bulk_pop q =
     (let index = sq_head_index q; push_index = sq_tail_index q in
      if index = push_index then Inr ([], q)
      else
        let head = sq_head_block q in
        bindE (deref (sq_heap q) head) (\<lambda>b.
          let end = spsc_bulk_end index push_index in
          bindE (spsc_copy_to_bulk index end b) (\<lambda>(value, b').
            let q1 = q\<lparr>sq_heap := (sq_heap q)(head \<mapsto> b')\<rparr>;
                new_index = end;
                q2 = (if new_index AND spsc_BLOCK_MASK = 0
                      then q1\<lparr>sq_head_block := sb_next b'\<rparr> else q1)
            in Inr (value, q2\<lparr>sq_head_index := new_index\<rparr>))))"

text \<open>
  The loop of \<^verbatim>\<open>Drop\<close> that frees the cached blocks, at most \<open>n\<close> of them.
\<close>

fun spsc_free_chain :: "nat \<Rightarrow> ptr \<Rightarrow> ptr \<Rightarrow> 'a sblock heap \<Rightarrow> 'a sblock heap res" where
  "spsc_free_chain 0 first tail h = (if first = tail then Inr h else Inl Spin)"
| "spsc_free_chain (Suc n) first tail h =
     (if first = tail then Inr h
      else bindE (deref h first) (\<lambda>b.
           bindE (box_free first h) (spsc_free_chain n (sb_next b) tail)))"

text \<open>
  \<^verbatim>\<open>Drop for Queue\<close>: the values it drains, and the heap it leaves behind. \<open>n\<close> bounds the
  iterations of its two loops.
\<close>

definition spsc_drop :: "nat \<Rightarrow> 'a spsc \<Rightarrow> ('a list \<times> 'a sblock heap) res" where
  "spsc_drop n q =
     bindE (drain n spsc_pop q) (\<lambda>(xs, q1).
       let head = sq_head_block q1; tail = sq_tail_block q1 in
       bindE (assertE (head = tail)) (\<lambda>_.
       bindE (spsc_free_chain n (sq_first q1) tail (sq_heap q1)) (\<lambda>h.
       bindE (box_free head h) (\<lambda>h'. Inr (xs, h')))))"

section \<open>Representation\<close>

lemma spsc_consts: "spsc_BLOCK_SIZE = 32" "spsc_BLOCK_MASK = mask 5"
  by (simp_all add: spsc_BLOCK_SIZE_def spsc_BLOCK_MASK_def spsc_BLOCK_SHIFT_def
      mask_eq_exp_minus_1 push_bit_eq_mult)

lemma unat_spsc_mask: "unat (x AND spsc_BLOCK_MASK) = unat x mod 32"
  using unat_and_mask [of x 5] by (simp add: spsc_consts)

lemma spsc_mask_0: "x AND spsc_BLOCK_MASK = 0 \<longleftrightarrow> unat x mod 32 = 0"
  using and_mask_eq_0_iff [of x 5] by (simp add: spsc_consts)

definition spsc_slot :: "'a sblock heap \<Rightarrow> ptr \<Rightarrow> nat \<Rightarrow> 'a option" where
  "spsc_slot h c i = (case h c of None \<Rightarrow> None | Some b \<Rightarrow> sb_data b ! i)"

text \<open>
  The chain of live blocks from \<open>sq_first\<close> to \<open>sq_tail_block\<close>, and the position of the head in it.
  The blocks before the head are the cached ones.
\<close>

definition spsc_chain :: "'a sblock heap \<Rightarrow> ptr list \<Rightarrow> bool" where
  "spsc_chain h cs \<longleftrightarrow>
     distinct cs \<and> cs \<noteq> [] \<and> dom h = set cs \<and>
     (\<forall>c b. h c = Some b \<longrightarrow> length (sb_data b) = 32) \<and>
     (\<forall>i b. Suc i < length cs \<longrightarrow> h (cs ! i) = Some b \<longrightarrow> sb_next b = cs ! Suc i)"

definition spsc_shape :: "'a spsc \<Rightarrow> ptr list \<Rightarrow> nat \<Rightarrow> 'a list \<Rightarrow> bool" where
  "spsc_shape q cs p xs \<longleftrightarrow>
     spsc_chain (sq_heap q) cs \<and>
     sq_first q = cs ! 0 \<and> sq_tail_block q = last cs \<and> sq_head_block q = cs ! (p div 32) \<and>
     (\<exists>j \<le> p div 32. sq_last_head q = cs ! j) \<and>
     unat (sq_head_index q) mod 32 = p mod 32 \<and>
     (p + length xs) div 32 = length cs - 1 \<and>
     lays 32 (spsc_slot (sq_heap q)) cs p xs \<and>
     sq_tail_index q = sq_head_index q + of_nat (length xs) \<and> length xs < 2 ^ 64"

definition spsc_rep :: "'a spsc \<Rightarrow> 'a list \<Rightarrow> bool" where
  "spsc_rep q xs \<longleftrightarrow> (\<exists>cs p. spsc_shape q cs p xs)"

lemma spsc_chain_block:
  assumes "spsc_chain h cs" "c \<in> set cs"
  obtains b where "h c = Some b" "length (sb_data b) = 32"
proof -
  from assms have "c \<in> dom h" and "\<And>c b. h c = Some b \<Longrightarrow> length (sb_data b) = 32"
    by (auto simp: spsc_chain_def)
  then show thesis using that by blast
qed

lemma spsc_chain_upd:
  assumes "spsc_chain h cs" "h c = Some b" "length (sb_data b') = 32" "sb_next b' = sb_next b"
  shows "spsc_chain (h(c \<mapsto> b')) cs"
  using assms unfolding spsc_chain_def by auto

lemma spsc_shape_len:
  assumes "spsc_shape q cs p xs"
  shows "spsc_len q = of_nat (length xs)"
    and "sq_head_index q = sq_tail_index q \<longleftrightarrow> xs = []"
  using assms word_add_of_nat_eq_iff [of "length xs" "sq_head_index q"]
  by (auto simp: spsc_shape_def spsc_len_def)

lemma spsc_shape_pos:
  assumes "spsc_shape q cs p xs"
  shows "p div 32 < length cs" and "(p + length xs) div 32 < length cs"
proof -
  have "cs \<noteq> []" and e: "(p + length xs) div 32 = length cs - 1"
    using assms by (auto simp: spsc_shape_def spsc_chain_def)
  then have "0 < length cs" by simp
  with e show l: "(p + length xs) div 32 < length cs" by linarith
  show "p div 32 < length cs"
    by (rule le_less_trans [OF _ l]) (simp add: div_le_mono)
qed

lemma spsc_tail_index_mod:
  assumes "spsc_shape q cs p xs"
  shows "unat (sq_tail_index q) mod 32 = (p + length xs) mod 32"
proof -
  have "unat (sq_tail_index q) mod 32 = (unat (sq_head_index q) + length xs) mod 32"
    using assms mod_exp_of_word_add [of 5 "sq_head_index q" "length xs"]
    by (simp add: spsc_shape_def)
  also have "\<dots> = (p + length xs) mod 32"
  proof -
    have "unat (sq_head_index q) mod 32 = p mod 32"
      using assms by (simp add: spsc_shape_def)
    then show ?thesis by (metis mod_add_left_eq)
  qed
  finally show ?thesis .
qed

lemma spsc_slot_upd_same: "h c = Some b \<Longrightarrow> spsc_slot (h(c \<mapsto> b')) c i = sb_data b' ! i"
  by (simp add: spsc_slot_def)

lemma spsc_slot_upd_other: "c' \<noteq> c \<Longrightarrow> spsc_slot (h(c := x)) c' i = spsc_slot h c' i"
  by (simp add: spsc_slot_def)

section \<open>push\<close>

lemma spsc_slot_next:
  "h c = Some b \<Longrightarrow> spsc_slot (h(c \<mapsto> b\<lparr>sb_next := x\<rparr>)) = spsc_slot h"
  by (auto simp: spsc_slot_def fun_eq_iff)

lemma spsc_chain_recycle:
  assumes "spsc_chain h (c # cs)" "cs \<noteq> []" "h (last cs) = Some b"
  shows "spsc_chain (h(last cs \<mapsto> b\<lparr>sb_next := c\<rparr>)) (cs @ [c])"
proof -
  have d: "distinct (c # cs)" and dm: "dom h = set (c # cs)"
    and len: "\<And>c b. h c = Some b \<Longrightarrow> length (sb_data b) = 32"
    and nx: "\<And>i b. Suc i < length (c # cs) \<Longrightarrow> h ((c # cs) ! i) = Some b \<Longrightarrow>
               sb_next b = (c # cs) ! Suc i"
    using assms(1) unfolding spsc_chain_def by blast+
  have "sb_next b' = (cs @ [c]) ! Suc i"
    if i: "Suc i < length (cs @ [c])"
      and b': "(h(last cs \<mapsto> b\<lparr>sb_next := c\<rparr>)) ((cs @ [c]) ! i) = Some b'" for i b'
  proof (cases "Suc i < length cs")
    case True
    then have "cs ! i \<noteq> last cs"
      using d by (simp add: last_conv_nth nth_eq_iff_index_eq assms(2))
    with True b' have "h ((c # cs) ! Suc i) = Some b'"
      by (simp add: nth_append)
    with nx [of "Suc i" b'] True show ?thesis by (simp add: nth_append)
  next
    case False
    with i have "i = length cs - 1" and ne: "Suc i = length cs" by auto
    with b' assms(2) show ?thesis
      by (auto simp: nth_append last_conv_nth)
  qed
  moreover have "dom (h(last cs \<mapsto> b\<lparr>sb_next := c\<rparr>)) = set (cs @ [c])"
    using dm assms(2) by auto
  ultimately show ?thesis
    using d len assms(3) unfolding spsc_chain_def by auto
qed

lemma spsc_chain_extend:
  assumes "spsc_chain h cs" "h a = None" "h (last cs) = Some b" "length (sb_data nb) = 32"
  shows "spsc_chain (h(a \<mapsto> nb, last cs \<mapsto> b\<lparr>sb_next := a\<rparr>)) (cs @ [a])"
proof -
  have d: "distinct cs" "cs \<noteq> []" and dm: "dom h = set cs"
    and len: "\<And>c b. h c = Some b \<Longrightarrow> length (sb_data b) = 32"
    and nx: "\<And>i b. Suc i < length cs \<Longrightarrow> h (cs ! i) = Some b \<Longrightarrow> sb_next b = cs ! Suc i"
    using assms(1) unfolding spsc_chain_def by blast+
  have a: "a \<notin> set cs"
    using dm assms(2) by blast
  have "sb_next b' = (cs @ [a]) ! Suc i"
    if i: "Suc i < length (cs @ [a])"
      and b': "(h(a \<mapsto> nb, last cs \<mapsto> b\<lparr>sb_next := a\<rparr>)) ((cs @ [a]) ! i) = Some b'" for i b'
  proof (cases "Suc i < length cs")
    case True
    then have "cs ! i \<noteq> last cs" and "cs ! i \<noteq> a"
      using d a by (auto simp: last_conv_nth nth_eq_iff_index_eq)
    with True b' have "h (cs ! i) = Some b'"
      by (simp add: nth_append)
    with nx [of i b'] True show ?thesis by (simp add: nth_append)
  next
    case False
    with i have ne: "Suc i = length cs" by auto
    then have "(cs @ [a]) ! i = last cs"
      using d by (simp add: nth_append last_conv_nth ne [symmetric])
    with b' ne show ?thesis
      by (auto simp: nth_append)
  qed
  moreover have "dom (h(a \<mapsto> nb, last cs \<mapsto> b\<lparr>sb_next := a\<rparr>)) = set (cs @ [a])"
    using dm d by auto
  ultimately show ?thesis
    using d a len assms(3,4) unfolding spsc_chain_def by auto
qed

text \<open>The store into the tail slot, before the index is published.\<close>

lemma spsc_push_set:
  assumes S: "spsc_shape q cs p xs"
  obtains b where "sq_heap q (last cs) = Some b"
    and "spsc_chain ((sq_heap q)(last cs \<mapsto> spsc_set (sq_tail_index q) v b)) cs"
    and "lays 32 (spsc_slot ((sq_heap q)(last cs \<mapsto> spsc_set (sq_tail_index q) v b))) cs p (xs @ [v])"
proof -
  let ?t = "p + length xs"
  have C: "spsc_chain (sq_heap q) cs" and L: "lays 32 (spsc_slot (sq_heap q)) cs p xs"
    and e: "?t div 32 = length cs - 1"
    using S by (auto simp: spsc_shape_def)
  have cs: "cs \<noteq> []" "distinct cs"
    using C by (auto simp: spsc_chain_def)
  obtain b where b: "sq_heap q (last cs) = Some b" "length (sb_data b) = 32"
    using spsc_chain_block [OF C last_in_set [OF cs(1)]] .
  let ?b = "spsc_set (sq_tail_index q) v b"
  have lst: "cs ! (?t div 32) = last cs"
    using cs e by (simp add: last_conv_nth)
  have t: "unat (sq_tail_index q AND spsc_BLOCK_MASK) = ?t mod 32"
    using spsc_tail_index_mod [OF S] by (simp add: unat_spsc_mask)
  have "spsc_chain ((sq_heap q)(last cs \<mapsto> ?b)) cs"
    using C b by (intro spsc_chain_upd) (auto simp: spsc_set_def)
  moreover have "lays 32 (spsc_slot ((sq_heap q)(last cs \<mapsto> ?b))) cs p xs"
    by (rule lays_upd_other [OF L cs(2) _ _ _ _, of ?t])
      (use spsc_shape_pos [OF S] lst b t in
        \<open>auto simp: spsc_slot_def spsc_set_def nth_list_update split: option.splits\<close>)
  moreover have "spsc_slot ((sq_heap q)(last cs \<mapsto> ?b)) (last cs) (?t mod 32) = Some v"
    using b t by (simp add: spsc_slot_def spsc_set_def)
  ultimately show ?thesis
    using that b lst by (simp add: lays_snoc)
qed

lemma spsc_alloc_recycle:
  assumes "spsc_chain (sq_heap q) (c # c' # cs)" "sq_first q = c" "j \<le> k" "0 < k" "0 < j \<or> sq_head_block q = (c # c' # cs) ! k"
    and "sq_last_head q = (c # c' # cs) ! j" "k < length (c # c' # cs)"
  shows "\<exists>j' \<le> k. 0 < j' \<and> spsc_alloc_node al q =
    Inr (c, q\<lparr>sq_first := c', sq_last_head := (c # c' # cs) ! j'\<rparr>)"
proof -
  let ?cs = "c # c' # cs"
  have d: "distinct ?cs"
    using assms(1) unfolding spsc_chain_def by blast
  obtain b where b: "sq_heap q c = Some b"
    using spsc_chain_block [OF assms(1), of c] by auto
  have nb: "sb_next b = c'"
    using assms(1) b unfolding spsc_chain_def by (force dest: spec [of _ 0])
  have ne: "?cs ! i \<noteq> c" if "0 < i" "i < length ?cs" for i
    using d that nth_eq_iff_index_eq [of ?cs i 0] by force
  show ?thesis
  proof (cases "j = 0")
    case True
    then have "spsc_alloc_node al q = Inr (c, q\<lparr>sq_first := c', sq_last_head := ?cs ! k\<rparr>)"
      using assms ne [of k] b nb by (simp add: spsc_alloc_node_def Let_def deref_def)
    with assms(4) show ?thesis by blast
  next
    case False
    then have "spsc_alloc_node al q = Inr (c, q\<lparr>sq_first := c', sq_last_head := ?cs ! j\<rparr>)"
      using assms ne [of j] b nb by (simp add: spsc_alloc_node_def Let_def deref_def)
    with False assms(3) show ?thesis by blast
  qed
qed

lemma spsc_push_fresh:
  assumes S: "spsc_shape q cs p xs"
    and Ch1: "spsc_chain ((sq_heap q)(last cs \<mapsto> b1)) cs"
    and L1: "lays 32 (spsc_slot ((sq_heap q)(last cs \<mapsto> b1))) cs p (xs @ [v])"
    and new: "ni = sq_head_index q + of_nat (length (xs @ [v]))" and room: "Suc (length xs) < 2 ^ 64"
    and st: "Suc (p + length xs) div 32 = length cs"
    and k: "p div 32 = 0" and al: "valid_alloc k al"
    and q1: "q1 = q\<lparr>sq_heap := (sq_heap q)(last cs \<mapsto> b1)\<rparr>"
  shows "spsc_alloc_node al q1 = Inl AllocError \<or>
    (\<exists>nt q2 h2. spsc_alloc_node al q1 = Inr (nt, q2) \<and>
       modify (last cs) (sb_next_update (\<lambda>_. nt)) (sq_heap q2) = Inr h2 \<and>
       spsc_shape (q2\<lparr>sq_heap := h2, sq_tail_block := nt, sq_tail_index := ni\<rparr>) (cs @ [nt]) p (xs @ [v]))"
proof -
  define h1 where "h1 = (sq_heap q)(last cs \<mapsto> b1)"
  let ?nb = "\<lparr>sb_data = replicate (unat spsc_BLOCK_SIZE) None, sb_next = null\<rparr>"
  have F: "sq_first q = cs ! 0" "sq_last_head q = cs ! 0" "sq_head_block q = cs ! 0"
    using S k by (auto simp: spsc_shape_def)
  show ?thesis
  proof (cases "al h1")
    case None
    then show ?thesis
      using F by (simp add: spsc_alloc_node_def q1 spsc_block_new_def alloc_None h1_def)
  next
    case (Some a)
    note a = valid_allocD [OF al Some]
    have l: "h1 (last cs) = Some b1" by (simp add: h1_def)
    with a(1) have al': "a \<noteq> last cs" by auto
    let ?h = "h1(a \<mapsto> ?nb)" and ?h2 = "h1(a \<mapsto> ?nb, last cs \<mapsto> b1\<lparr>sb_next := a\<rparr>)"
    have "spsc_alloc_node al q1 = Inr (a, q1\<lparr>sq_last_head := cs ! 0, sq_heap := ?h\<rparr>)"
      using F Some by (simp add: spsc_alloc_node_def q1 spsc_block_new_def alloc_Some h1_def)
    moreover have "modify (last cs) (sb_next_update (\<lambda>_. a)) ?h = Inr ?h2"
      using l al' by (simp add: modify_Some)
    moreover have "spsc_chain ?h2 (cs @ [a])"
      by (rule spsc_chain_extend) (use Ch1 a l in \<open>auto simp: h1_def spsc_consts\<close>)
    moreover have "spsc_slot ?h2 c i = spsc_slot h1 c i" if "c \<in> set cs" for c i
      using that Ch1 a l by (auto simp: spsc_slot_def h1_def spsc_chain_def)
    then have "lays 32 (spsc_slot ?h2) (cs @ [a]) p (xs @ [v])"
    proof (intro lays_cong [OF L1], unfold h1_def [symmetric])
      fix i assume "i < length (xs @ [v])"
      then have "(p + i) div 32 \<le> (p + length xs) div 32"
        by (intro div_le_mono) auto
      also have "\<dots> < length cs" by (rule spsc_shape_pos(2) [OF S])
      finally show "spsc_slot ?h2 ((cs @ [a]) ! ((p + i) div 32)) ((p + i) mod 32) =
          spsc_slot h1 (cs ! ((p + i) div 32)) ((p + i) mod 32)"
        using \<open>\<And>c i. c \<in> set cs \<Longrightarrow> spsc_slot ?h2 c i = spsc_slot h1 c i\<close> by (simp add: nth_append)
    qed
    ultimately show ?thesis
      using S new room st F k Ch1 unfolding spsc_shape_def q1
      by (auto simp: nth_append spsc_chain_def)
  qed
qed

lemma spsc_push_recycle:
  assumes S: "spsc_shape q cs p xs"
    and Ch1: "spsc_chain ((sq_heap q)(last cs \<mapsto> b1)) cs"
    and L1: "lays 32 (spsc_slot ((sq_heap q)(last cs \<mapsto> b1))) cs p (xs @ [v])"
    and new: "ni = sq_head_index q + of_nat (length (xs @ [v]))" and room: "Suc (length xs) < 2 ^ 64"
    and st: "Suc (p + length xs) div 32 = length cs"
    and k: "0 < p div 32"
    and q1: "q1 = q\<lparr>sq_heap := (sq_heap q)(last cs \<mapsto> b1)\<rparr>"
  shows "\<exists>nt q2 h2 cs'. spsc_alloc_node al q1 = Inr (nt, q2) \<and>
       modify (last cs) (sb_next_update (\<lambda>_. nt)) (sq_heap q2) = Inr h2 \<and>
       spsc_shape (q2\<lparr>sq_heap := h2, sq_tail_block := nt, sq_tail_index := ni\<rparr>) cs' (p - 32) (xs @ [v])"
proof -
  define h1 where "h1 = (sq_heap q)(last cs \<mapsto> b1)"
  have p: "p div 32 < length cs" by (rule spsc_shape_pos(1) [OF S])
  with k obtain c c' ds where cs: "cs = c # c' # ds"
    by (metis One_nat_def Suc_lessI length_0_conv length_Cons less_numeral_extra(3) list.exhaust
        not_less0 nat_neq_iff less_trans_Suc less_Suc0)
  obtain j where j: "j \<le> p div 32" "sq_last_head q = cs ! j"
    using S by (auto simp: spsc_shape_def)
  have F: "sq_first q = c" "sq_head_block q = cs ! (p div 32)"
    using S by (auto simp: spsc_shape_def cs)
  obtain j' where j': "j' \<le> p div 32" "0 < j'"
    and A: "spsc_alloc_node al q1 = Inr (c, q1\<lparr>sq_first := c', sq_last_head := cs ! j'\<rparr>)"
    using spsc_alloc_recycle [of q1 c c' ds j "p div 32" al] Ch1 F j k p by (auto simp: cs q1)
  let ?ds = "c' # ds"
  have lst: "last cs = last ?ds" by (simp add: cs)
  have l: "h1 (last ?ds) = Some b1" by (simp add: h1_def lst)
  let ?h2 = "h1(last ?ds \<mapsto> b1\<lparr>sb_next := c\<rparr>)"
  have "modify (last cs) (sb_next_update (\<lambda>_. c)) h1 = Inr ?h2"
    using l by (simp add: modify_Some lst)
  moreover have "spsc_chain ?h2 (?ds @ [c])"
    by (rule spsc_chain_recycle) (use Ch1 l in \<open>auto simp: h1_def cs\<close>)
  moreover have p32: "32 \<le> p" using k by (simp add: div_greater_zero_iff)
  have "lays 32 (spsc_slot h1) ?ds (p - 32) (xs @ [v])"
    by (rule lays_drop_first [OF _ p32]) (use L1 in \<open>simp_all add: h1_def cs\<close>)
  have sl: "spsc_slot ?h2 = spsc_slot h1"
    by (rule spsc_slot_next) (rule l)
  have dm: "(p + i) div 32 = Suc ((p - 32 + i) div 32)" "(p + i) mod 32 = (p - 32 + i) mod 32" for i
    using pos_drop_first [OF p32] by auto
  have e: "Suc (p - 32 + length xs) div 32 = length ?ds"
    using st dm(1) [of "Suc (length xs)"] by (simp add: cs)
  have small: "(p - 32 + i) div 32 < length ?ds" if "i \<le> length xs" for i
  proof -
    have "(p + i) div 32 \<le> (p + length xs) div 32" using that by (intro div_le_mono) auto
    also have "\<dots> < length cs" by (rule spsc_shape_pos(2) [OF S])
    finally show ?thesis by (simp add: dm(1) cs)
  qed
  have "lays 32 (spsc_slot h1) (?ds @ [c]) (p - 32) (xs @ [v])"
    by (rule lays_app) (use \<open>lays 32 (spsc_slot h1) ?ds (p - 32) (xs @ [v])\<close> e small in auto)
  then have "lays 32 (spsc_slot ?h2) (?ds @ [c]) (p - 32) (xs @ [v])"
    by (simp only: sl)
  moreover have "cs ! (p div 32) = (?ds @ [c]) ! ((p - 32) div 32)"
    using dm(1) [of 0] small [of 0] nth_append [of ?ds "[c]" "(p - 32) div 32"] by (simp add: cs)
  moreover obtain j2 where j2: "j' = Suc j2" "j2 \<le> (p - 32) div 32"
    using j' dm(1) [of 0] by (cases j') auto
  moreover have "cs ! j' = (?ds @ [c]) ! j2"
    using j2 small [of 0] nth_append [of ?ds "[c]" j2] by (simp add: cs)
  ultimately have "spsc_shape (q1\<lparr>sq_first := c', sq_last_head := cs ! j', sq_heap := ?h2,
      sq_tail_block := c, sq_tail_index := ni\<rparr>) (?ds @ [c]) (p - 32) (xs @ [v])"
    using S new room e dm(2) [of 0] unfolding spsc_shape_def q1 by auto
  with A \<open>modify (last cs) (sb_next_update (\<lambda>_. c)) h1 = Inr ?h2\<close> show ?thesis
    by (auto simp: q1 h1_def)
qed

lemma spsc_push_step:
  assumes S: "spsc_shape q cs p xs" and room: "Suc (length xs) < 2 ^ 64"
    and al: "valid_alloc k al"
  shows "spsc_push al v q = Inl AllocError \<or>
    (\<exists>q' cs' p'. spsc_push al v q = Inr q' \<and> spsc_shape q' cs' p' (xs @ [v]))"
proof -
  let ?t = "p + length xs"
  obtain b where b: "sq_heap q (last cs) = Some b"
    and Ch1: "spsc_chain ((sq_heap q)(last cs \<mapsto> spsc_set (sq_tail_index q) v b)) cs"
    and L1: "lays 32 (spsc_slot ((sq_heap q)(last cs \<mapsto> spsc_set (sq_tail_index q) v b))) cs p (xs @ [v])"
    using spsc_push_set [OF S] .
  define b1 where "b1 = spsc_set (sq_tail_index q) v b"
  define h1 where "h1 = (sq_heap q)(last cs \<mapsto> b1)"
  define q1 where "q1 = q\<lparr>sq_heap := h1\<rparr>"
  have tb: "sq_tail_block q = last cs" and ti: "sq_tail_index q = sq_head_index q + of_nat (length xs)"
    and e: "?t div 32 = length cs - 1"
    using S by (auto simp: spsc_shape_def)
  have m: "modify (sq_tail_block q) (spsc_set (sq_tail_index q) v) (sq_heap q) = Inr h1"
    by (simp add: tb b modify_Some h1_def b1_def)
  have ne: "cs \<noteq> []" using Ch1 by (auto simp: spsc_chain_def)
  have new: "sq_tail_index q + 1 = sq_head_index q + of_nat (length (xs @ [v]))"
    by (simp add: ti)
  have newmod: "unat (sq_tail_index q + 1) mod 32 = Suc ?t mod 32"
    using mod_exp_of_word_add [of 5 "sq_tail_index q" 1] spsc_tail_index_mod [OF S]
    by (simp add: mod_Suc_eq) (metis mod_Suc_eq)
  show ?thesis
  proof (cases "Suc ?t mod 32 = 0")
    case False
    then have "spsc_push al v q = Inr (q1\<lparr>sq_tail_index := sq_tail_index q + 1\<rparr>)"
      using m newmod by (simp add: spsc_push_def Let_def spsc_mask_0 q1_def)
    moreover have "spsc_shape (q1\<lparr>sq_tail_index := sq_tail_index q + 1\<rparr>) cs p (xs @ [v])"
      using S Ch1 L1 e new room Suc_div_same [OF False]
      unfolding spsc_shape_def q1_def h1_def b1_def by auto
    ultimately show ?thesis by blast
  next
    case True
    have st: "Suc ?t div 32 = length cs"
      using Suc_div_next [OF True] e ne by simp
    have push: "spsc_push al v q = bindE (spsc_alloc_node al q1) (\<lambda>(nt, q2).
        bindE (modify (last cs) (sb_next_update (\<lambda>_. nt)) (sq_heap q2)) (\<lambda>h2.
          Inr (q2\<lparr>sq_heap := h2, sq_tail_block := nt, sq_tail_index := sq_tail_index q + 1\<rparr>)))"
      using m newmod True
      by (simp add: spsc_push_def Let_def spsc_mask_0 q1_def tb bindE_assoc split_def)
    show ?thesis
    proof (cases "p div 32 = 0")
      case True
      then show ?thesis
        using spsc_push_fresh [OF S Ch1 L1 new room st True al refl] push
        unfolding q1_def h1_def b1_def by auto
    next
      case False
      then show ?thesis
        using spsc_push_recycle [OF S Ch1 L1 new room st _ refl, of al] push
        unfolding q1_def h1_def b1_def by auto
    qed
  qed
qed

section \<open>pop and bulk_pop\<close>

lemma spsc_get_range_ok:
  assumes "length (sb_data b) = 32" "i + length ys \<le> 32"
    and "\<And>j. j < length ys \<Longrightarrow> sb_data b ! (i + j) = Some (ys ! j)"
  shows "\<exists>d. spsc_get_range i (length ys) b = Inr (ys, b\<lparr>sb_data := d\<rparr>) \<and> length d = 32 \<and>
    (\<forall>j. j < i \<or> i + length ys \<le> j \<longrightarrow> d ! j = sb_data b ! j)"
  using assms
proof (induction ys arbitrary: i b)
  case Nil
  then show ?case by (auto intro!: exI [of _ "sb_data b"])
next
  case (Cons y ys)
  let ?b = "b\<lparr>sb_data := (sb_data b)[i := None]\<rparr>"
  have g: "spsc_get i b = Inr (y, ?b)"
    using Cons.prems(1,2) Cons.prems(3) [of 0] by (simp add: spsc_get_def)
  have "sb_data ?b ! (Suc i + j) = Some (ys ! j)" if "j < length ys" for j
    using Cons.prems(3) [of "Suc j"] that by simp
  then obtain d where d: "spsc_get_range (Suc i) (length ys) ?b = Inr (ys, ?b\<lparr>sb_data := d\<rparr>)"
      "length d = 32" "\<forall>j. j < Suc i \<or> Suc i + length ys \<le> j \<longrightarrow> d ! j = sb_data ?b ! j"
    using Cons.IH [of ?b "Suc i"] Cons.prems(1,2) by auto
  have "spsc_get_range i (length (y # ys)) b = Inr (y # ys, b\<lparr>sb_data := d\<rparr>)"
    using g d(1) by simp
  moreover have "d ! j = sb_data b ! j" if "j < i \<or> i + length (y # ys) \<le> j" for j
    using d(3) that by (auto simp: nth_list_update)
  ultimately show ?case using d(2) by blast
qed

lemma spsc_head_block:
  assumes S: "spsc_shape q cs p (ys @ zs)" and room: "p mod 32 + length ys \<le> 32"
  obtains b where "sq_heap q (sq_head_block q) = Some b" "length (sb_data b) = 32"
    and "\<And>j. j < length ys \<Longrightarrow> sb_data b ! (p mod 32 + j) = Some (ys ! j)"
proof -
  have C: "spsc_chain (sq_heap q) cs" and hb: "sq_head_block q = cs ! (p div 32)"
    and L: "lays 32 (spsc_slot (sq_heap q)) cs p (ys @ zs)"
    using S by (auto simp: spsc_shape_def)
  obtain b where b: "sq_heap q (cs ! (p div 32)) = Some b" "length (sb_data b) = 32"
    using spsc_chain_block [OF C nth_mem [OF spsc_shape_pos(1) [OF S]]] .
  have "sb_data b ! (p mod 32 + j) = Some (ys ! j)" if j: "j < length ys" for j
  proof -
    have "(p + j) div 32 = p div 32" "(p + j) mod 32 = p mod 32 + j"
      using room j pos_in_block [of p 32 j] by auto
    then show ?thesis
      using L j b by (auto simp: lays_def spsc_slot_def nth_append dest!: spec [of _ j])
  qed
  with b hb show thesis by (intro that [of b]) auto
qed

lemma spsc_consume:
  assumes S: "spsc_shape q cs p (ys @ zs)" and room: "p mod 32 + length ys \<le> 32"
    and b: "sq_heap q (sq_head_block q) = Some b" "length d = 32"
    and d: "\<And>j. j < p mod 32 \<or> p mod 32 + length ys \<le> j \<Longrightarrow> d ! j = sb_data b ! j"
    and hi: "hi = sq_head_index q + of_nat (length ys)"
    and hb: "hb = (if unat hi mod 32 = 0 \<and> ys \<noteq> [] then sb_next b else sq_head_block q)"
  shows "spsc_shape (q\<lparr>sq_heap := (sq_heap q)(sq_head_block q \<mapsto> b\<lparr>sb_data := d\<rparr>),
      sq_head_block := hb, sq_head_index := hi\<rparr>) cs (p + length ys) zs"
proof -
  let ?c = "cs ! (p div 32)" and ?n = "length ys"
  have C: "spsc_chain (sq_heap q) cs" and c: "sq_head_block q = ?c"
    and L: "lays 32 (spsc_slot (sq_heap q)) cs p (ys @ zs)"
    and e: "(p + length (ys @ zs)) div 32 = length cs - 1"
    and hm: "unat (sq_head_index q) mod 32 = p mod 32"
    using S by (auto simp: spsc_shape_def)
  let ?h = "(sq_heap q)(?c \<mapsto> b\<lparr>sb_data := d\<rparr>)"
  have him: "unat hi mod 32 = (p + ?n) mod 32"
    using mod_exp_of_word_add [of 5 "sq_head_index q" ?n] hm
    by (simp add: hi) (metis mod_add_left_eq)
  have ch: "spsc_chain ?h cs"
    using C b c by (intro spsc_chain_upd [OF C]) auto
  have la: "lays 32 (spsc_slot ?h) cs (p + ?n) zs"
    unfolding lays_def
  proof (intro allI impI)
    fix i assume i: "i < length zs"
    let ?r = "p + ?n + i"
    have orig: "spsc_slot (sq_heap q) (cs ! (?r div 32)) (?r mod 32) = Some (zs ! i)"
      using L i by (auto simp: lays_def nth_append add.assoc dest: spec [of _ "?n + i"])
    have rl: "?r div 32 < length cs"
      by (rule le_less_trans [OF div_le_mono spsc_shape_pos(2) [OF S]]) (use i in simp)
    have "d ! (?r mod 32) = sb_data b ! (?r mod 32)" if "cs ! (?r div 32) = ?c"
    proof -
      have "?r div 32 = p div 32"
        using that C rl spsc_shape_pos(1) [OF S] by (simp add: spsc_chain_def nth_eq_iff_index_eq)
      then have "p mod 32 + ?n \<le> ?r mod 32"
        using div_mult_mod_eq [of ?r 32] div_mult_mod_eq [of p 32] by linarith
      then show ?thesis by (rule d [OF disjI2])
    qed
    then show "spsc_slot ?h (cs ! (?r div 32)) (?r mod 32) = Some (zs ! i)"
      using orig b c by (auto simp: spsc_slot_def)
  qed
  have hbk: "hb = cs ! ((p + ?n) div 32)"
  proof (cases "(p + ?n) mod 32 = 0 \<and> ys \<noteq> []")
    case True
    then have full: "p mod 32 + ?n = 32"
      using room pos_in_block(2) [of p 32 ?n] by (cases "p mod 32 + ?n < 32") auto
    note nx = pos_block_end(1) [OF full]
    have "Suc (p div 32) < length cs"
      using le_less_trans [OF div_le_mono spsc_shape_pos(2) [OF S], of "p + ?n"] nx by simp
    then have "sb_next b = cs ! Suc (p div 32)"
      using C b(1) c by (auto simp: spsc_chain_def)
    with True nx him hb show ?thesis by simp
  next
    case False
    then have "(p + ?n) div 32 = p div 32"
      using room pos_in_block [of p 32 ?n] pos_block_end [of p 32 ?n]
      by (cases "p mod 32 + ?n < 32") auto
    with False hb him c show ?thesis by auto
  qed
  have "p div 32 \<le> (p + ?n) div 32" by (simp add: div_le_mono)
  with S ch la hbk him hi e c show ?thesis
    unfolding spsc_shape_def by (auto simp: add.assoc intro: order_trans)
qed

lemma spsc_pop_step:
  assumes S: "spsc_shape q cs p (x # xs)"
  shows "\<exists>q'. spsc_pop q = Inr (Some x, q') \<and> spsc_shape q' cs (Suc p) xs"
proof -
  have room: "p mod 32 + length [x] \<le> 32"
    using mod_less_divisor [of 32 p] by simp
  from S have S': "spsc_shape q cs p ([x] @ xs)" by simp
  obtain b where b: "sq_heap q (sq_head_block q) = Some b" "length (sb_data b) = 32"
      "\<And>j. j < length [x] \<Longrightarrow> sb_data b ! (p mod 32 + j) = Some ([x] ! j)"
    using spsc_head_block [OF S' room] by blast
  define d where "d = (sb_data b)[p mod 32 := None]"
  define hi where "hi = sq_head_index q + 1"
  define hb where "hb = (if unat hi mod 32 = 0 then sb_next b else sq_head_block q)"
  have ne: "sq_head_index q \<noteq> sq_tail_index q"
    using spsc_shape_len(2) [OF S] by simp
  have "unat (sq_head_index q) mod 32 = p mod 32"
    using S by (simp add: spsc_shape_def)
  then have "spsc_pop q = Inr (Some x, q\<lparr>sq_heap := (sq_heap q)(sq_head_block q \<mapsto> b\<lparr>sb_data := d\<rparr>),
      sq_head_block := hb, sq_head_index := hi\<rparr>)"
    using ne b(1,2) b(3) [of 0]
    by (simp add: spsc_pop_def Let_def deref_Some unat_spsc_mask spsc_get_def spsc_mask_0
        d_def hb_def hi_def)
  moreover have "spsc_shape (q\<lparr>sq_heap := (sq_heap q)(sq_head_block q \<mapsto> b\<lparr>sb_data := d\<rparr>),
      sq_head_block := hb, sq_head_index := hi\<rparr>) cs (p + length [x]) xs"
    by (rule spsc_consume [OF S' room b(1)]) (auto simp: d_def hi_def hb_def b(2))
  ultimately show ?thesis by simp
qed

lemma spsc_pop_empty: "spsc_shape q cs p [] \<Longrightarrow> spsc_pop q = Inr (None, q)"
  using spsc_shape_len(2) [of q cs p "[]"] by (simp add: spsc_pop_def)

lemma round_up_32: "(x + 32) div 32 * 32 = x + (32 - x mod 32)" for x :: nat
proof -
  have "(x + 32) div 32 = x div 32 + 1" by simp
  then have "(x + 32) div 32 * 32 = x div 32 * 32 + 32" by (simp only: add_mult_distrib mult_1)
  moreover have "x div 32 * 32 + x mod 32 = x" by (rule div_mult_mod_eq)
  moreover have "x mod 32 < 32" by simp
  ultimately show ?thesis by linarith
qed

lemma unat_spsc_bulk_end:
  assumes "unat start + 32 < 2 ^ 64"
  shows "unat (spsc_bulk_end start end) = min (unat end) (unat start + (32 - unat start mod 32))"
proof -
  have "unat (start + 32) = unat start + 32"
    using assms by (simp add: unat_word_ariths)
  then have "unat ((start + 32) AND NOT (mask 5)) = (unat start + 32) div 32 * 32"
    using unat_and_not_mask [of "start + 32" 5] by simp
  also have "\<dots> = unat start + (32 - unat start mod 32)"
    by (rule round_up_32)
  finally show ?thesis
    by (simp add: spsc_bulk_end_def spsc_consts min_def word_le_nat_alt)
qed

text \<open>
  \<^verbatim>\<open>bulk_pop\<close> takes the queued values up to the end of the head block. \<^verbatim>\<open>bulk_end\<close>
  computes \<^verbatim>\<open>start + BLOCK_SIZE\<close> without wrapping, so the indices must not be within a
  block of \<open>2 ^ 64\<close>.
\<close>

lemma spsc_bulk_pop_step:
  assumes S: "spsc_shape q cs p xs" and ix: "unat (sq_head_index q) + length xs + 32 < 2 ^ 64"
  shows "\<exists>q'. spsc_bulk_pop q = Inr (take (32 - p mod 32) xs, q') \<and>
    spsc_shape q' cs (p + min (length xs) (32 - p mod 32)) (drop (32 - p mod 32) xs)"
proof (cases "xs = []")
  case True
  then show ?thesis
    using S spsc_shape_len(2) [OF S] by (simp add: spsc_bulk_pop_def)
next
  case False
  let ?m = "32 - p mod 32"
  let ?ys = "take ?m xs" and ?zs = "drop ?m xs"
  let ?i = "sq_head_index q"
  have hm: "unat ?i mod 32 = p mod 32" and ti: "sq_tail_index q = ?i + of_nat (length xs)"
    using S by (auto simp: spsc_shape_def)
  have ut: "unat (sq_tail_index q) = unat ?i + length xs"
    using ix by (simp add: ti unat_word_ariths unat_of_nat)
  define en where "en = spsc_bulk_end ?i (sq_tail_index q)"
  have uen: "unat en = unat ?i + length ?ys"
    using ix mod_less_divisor [of 32 p]
    by (simp add: en_def unat_spsc_bulk_end ut hm min_add_distrib_right [symmetric] min.commute
        del: mod_less_divisor)
  then have en: "en = ?i + of_nat (length ?ys)"
    using ix by (intro word_unat_eq_iff [THEN iffD2]) (simp add: unat_word_ariths unat_of_nat)
  have room: "p mod 32 + length ?ys \<le> 32"
    using mod_less_divisor [of 32 p] by simp
  have S': "spsc_shape q cs p (?ys @ ?zs)" using S by simp
  obtain b where b: "sq_heap q (sq_head_block q) = Some b" "length (sb_data b) = 32"
      "\<And>j. j < length ?ys \<Longrightarrow> sb_data b ! (p mod 32 + j) = Some (?ys ! j)"
    using spsc_head_block [OF S' room] by blast
  obtain d where d: "spsc_get_range (p mod 32) (length ?ys) b = Inr (?ys, b\<lparr>sb_data := d\<rparr>)"
      "length d = 32" "\<forall>j. j < p mod 32 \<or> p mod 32 + length ?ys \<le> j \<longrightarrow> d ! j = sb_data b ! j"
    using spsc_get_range_ok [OF b(2) room b(3)] by blast
  define hb where "hb = (if unat en mod 32 = 0 then sb_next b else sq_head_block q)"
  have "unat (en - ?i) = length ?ys"
    using ix by (simp add: en unat_of_nat)
  then have "spsc_bulk_pop q = Inr (?ys, q\<lparr>sq_heap := (sq_heap q)(sq_head_block q \<mapsto> b\<lparr>sb_data := d\<rparr>),
      sq_head_block := hb, sq_head_index := en\<rparr>)"
    using False spsc_shape_len(2) [OF S] b(1) d(1)
    by (simp add: spsc_bulk_pop_def Let_def deref_Some spsc_copy_to_bulk_def unat_spsc_mask hm
        spsc_mask_0 en_def [symmetric] hb_def)
  moreover have "spsc_shape (q\<lparr>sq_heap := (sq_heap q)(sq_head_block q \<mapsto> b\<lparr>sb_data := d\<rparr>),
      sq_head_block := hb, sq_head_index := en\<rparr>) cs (p + length ?ys) ?zs"
    by (rule spsc_consume [OF S' room b(1) d(2) _ en])
      (use d(3) False mod_less_divisor [of 32 p] in \<open>auto simp: hb_def\<close>)
  ultimately show ?thesis by (simp add: min.commute)
qed

section \<open>new and drop\<close>

lemma spsc_new_step:
  assumes "valid_alloc k al" "spsc_new al = Inr q"
  shows "spsc_shape q [sq_first q] 0 []"
  using assms
  by (auto simp: spsc_new_def spsc_block_new_def bindE_eq_Inr alloc_eq_Inr spsc_shape_def
      spsc_chain_def spsc_consts split: if_splits)

lemma spsc_free_chain_ok:
  assumes "\<And>i. i < length cs \<Longrightarrow> \<exists>b. h (cs ! i) = Some b \<and> sb_next b = (cs @ [t]) ! Suc i"
    and "distinct (cs @ [t])" "length cs \<le> n" "f = (cs @ [t]) ! 0"
  shows "spsc_free_chain n f t h = Inr (h |` (- set cs))"
  using assms
proof (induction cs arbitrary: f h n)
  case Nil
  then show ?case by (cases n) auto
next
  case (Cons c cs)
  then obtain m where n: "n = Suc m" by (cases n) auto
  from Cons.prems(1) [of 0] obtain b where b: "h c = Some b" "sb_next b = (cs @ [t]) ! 0"
    by auto
  have "spsc_free_chain m ((cs @ [t]) ! 0) t (h(c := None)) = Inr ((h(c := None)) |` (- set cs))"
  proof (rule Cons.IH)
    show "\<exists>b. (h(c := None)) (cs ! i) = Some b \<and> sb_next b = (cs @ [t]) ! Suc i" if "i < length cs" for i
      using Cons.prems(1) [of "Suc i"] Cons.prems(2) that by (auto simp: in_set_conv_nth)
  qed (use Cons.prems n in auto)
  then show ?case
    using b Cons.prems(2,4) n by (auto simp: deref_Some box_free_Some restrict_map_def fun_eq_iff)
qed

lemma spsc_drop_step:
  assumes S: "spsc_shape q cs p []" and n: "length cs \<le> n"
  shows "bindE (spsc_free_chain n (sq_first q) (sq_tail_block q) (sq_heap q)) (box_free (sq_head_block q))
    = Inr Map.empty \<and> sq_head_block q = sq_tail_block q"
proof -
  have C: "spsc_chain (sq_heap q) cs" and F: "sq_first q = cs ! 0" "sq_tail_block q = last cs"
      "sq_head_block q = cs ! (p div 32)" and e: "p div 32 = length cs - 1"
    using S by (auto simp: spsc_shape_def)
  have ne: "cs \<noteq> []" and dm: "dom (sq_heap q) = set cs" and ds: "distinct cs"
    using C by (auto simp: spsc_chain_def)
  have hd: "sq_head_block q = last cs"
    using F(3) e ne by (simp add: last_conv_nth)
  let ?bs = "butlast cs"
  have cs: "?bs @ [last cs] = cs" using ne by simp
  have "spsc_free_chain n (cs ! 0) (last cs) (sq_heap q) = Inr (sq_heap q |` (- set ?bs))"
  proof (rule spsc_free_chain_ok)
    fix i assume i: "i < length ?bs"
    then have "cs ! i \<in> set cs" by simp
    with C obtain b where "sq_heap q (cs ! i) = Some b" by (rule spsc_chain_block)
    moreover have "?bs ! i = cs ! i" using i by (simp add: nth_butlast)
    ultimately show "\<exists>b. sq_heap q (?bs ! i) = Some b \<and> sb_next b = (?bs @ [last cs]) ! Suc i"
      using C i by (simp add: cs spsc_chain_def)
  qed (use ds n in \<open>simp_all add: cs\<close>)
  moreover have "last cs \<notin> set ?bs"
    using ds by (subst (asm) cs [symmetric]) (simp del: append_butlast_last_id)
  moreover obtain b where "sq_heap q (last cs) = Some b"
    using spsc_chain_block [OF C last_in_set [OF ne]] by blast
  ultimately show ?thesis
  proof -
    assume a: "spsc_free_chain n (cs ! 0) (last cs) (sq_heap q) = Inr (sq_heap q |` (- set ?bs))"
      "last cs \<notin> set ?bs" "sq_heap q (last cs) = Some b"
    have "(sq_heap q |` (- set ?bs))(last cs := None) = Map.empty"
    proof
      fix c
      show "((sq_heap q |` (- set ?bs))(last cs := None)) c = None"
        using dm cs by (auto simp: restrict_map_def)
          (metis (no_types, lifting) Un_iff butlast.simps(1) domIff empty_iff empty_set insert_iff list.simps(15) not_Some_eq set_append)+
    qed
    with a F hd show ?thesis by (simp add: box_free_Some restrict_map_def)
  qed
qed

section \<open>The queue as an implementation of the contract\<close>

text \<open>
  The chain of blocks does not change while values are popped: \<^verbatim>\<open>pop\<close> implements the
  contract on every fixed chain, and so on the queue.
\<close>

interpretation spsc_pops: pop_queue "\<lambda>q xs. \<exists>p. spsc_shape q cs p xs" spsc_pop for cs
  by unfold_locales (blast dest: spsc_pop_step spsc_pop_empty)+

text \<open>The producer's side also needs an allocator.\<close>

locale spsc_allocator =
  fixes k :: nat and al :: "'a sblock allocator"
  assumes valid: "valid_alloc k al"

definition spsc_repk :: "nat \<Rightarrow> 'a spsc \<Rightarrow> 'a list \<Rightarrow> bool" where
  "spsc_repk k q xs \<longleftrightarrow> spsc_rep q xs \<and> length xs + k < 2 ^ 64"

interpretation spsc_repk: pop_queue "spsc_repk m" spsc_pop for m
proof
  fix q :: "'a spsc"
  assume "spsc_repk m q []"
  then show "\<exists>q'. spsc_pop q = Inr (None, q') \<and> spsc_repk m q' []"
    unfolding spsc_repk_def spsc_rep_def using spsc_pop_empty by blast
next
  fix q :: "'a spsc" and x xs
  assume "spsc_repk m q (x # xs)"
  then show "\<exists>q'. spsc_pop q = Inr (Some x, q') \<and> spsc_repk m q' xs"
    unfolding spsc_repk_def spsc_rep_def by (elim conjE exE) (use spsc_pop_step in force)
qed

sublocale spsc_allocator \<subseteq> spsc: fifo_queue spsc_repk spsc_pop "spsc_push al"
proof (unfold_locales; (rule spsc_repk.pop_nil spsc_repk.pop_cons, assumption)?)
  fix q :: "'a spsc" and xs v m
  assume "spsc_repk (Suc m) q xs"
  then show "(\<exists>q'. spsc_push al v q = Inr q' \<and> spsc_repk m q' (xs @ [v])) \<or> spsc_push al v q = Inl AllocError"
    unfolding spsc_repk_def spsc_rep_def using spsc_push_step [OF _ _ valid] by fastforce
qed (simp add: spsc_repk_def)

interpretation spsc_three: spsc_allocator 6 three_blocks
  by unfold_locales (rule valid_three_blocks)

lemma spsc_rep_new: "valid_alloc k al \<Longrightarrow> spsc_new al = Inr q \<Longrightarrow> spsc_rep q []"
  using spsc_new_step [of k al q] by (auto simp: spsc_rep_def)

lemma spsc_rep_len: "spsc_rep q xs \<Longrightarrow> unat (spsc_len q) = length xs"
  using spsc_shape_len(1) by (fastforce simp: spsc_rep_def spsc_shape_def unat_of_nat)

lemma spsc_rep_peek:
  assumes "spsc_rep q xs"
  shows "spsc_peek q = Inr (case xs of [] \<Rightarrow> None | x # _ \<Rightarrow> Some x)"
proof -
  from assms obtain cs p where S: "spsc_shape q cs p xs" by (auto simp: spsc_rep_def)
  show ?thesis
  proof (cases xs)
    case Nil
    with S show ?thesis using spsc_shape_len(2) [OF S] by (simp add: spsc_peek_def)
  next
    case (Cons x ys)
    with S have "spsc_shape q cs p ([x] @ ys)" by simp
    moreover have "p mod 32 + length [x] \<le> 32"
      using mod_less_divisor [of 32 p] by simp
    ultimately obtain b where "sq_heap q (sq_head_block q) = Some b"
        "\<And>j. j < length [x] \<Longrightarrow> sb_data b ! (p mod 32 + j) = Some ([x] ! j)"
      by (rule spsc_head_block) blast
    then show ?thesis
      using S Cons spsc_shape_len(2) [OF S]
      by (auto simp: spsc_peek_def deref_Some spsc_block_peek_def unat_spsc_mask spsc_shape_def)
  qed
qed

lemma spsc_rep_drop:
  assumes "spsc_rep q xs" and "length xs < n" and "card (dom (sq_heap q)) \<le> n"
  shows "spsc_drop n q = Inr (xs, Map.empty)"
proof -
  from assms obtain cs p where S: "spsc_shape q cs p xs" by (auto simp: spsc_rep_def)
  then have "length cs = card (dom (sq_heap q))"
    by (simp add: spsc_shape_def spsc_chain_def distinct_card)
  with assms have cs: "length cs \<le> n" by simp
  from S assms(2) obtain q' p' where d: "drain n spsc_pop q = Inr (xs, q')" and S': "spsc_shape q' cs p' []"
    using spsc_pops.drain_all by blast
  then show ?thesis
    using spsc_drop_step [OF S' cs] by (auto simp: spsc_drop_def Let_def bindE_eq_Inr)
qed

lemma spsc_rep_bulk_pop:
  assumes "spsc_rep q xs" and "unat (sq_head_index q) + length xs + 32 < 2 ^ 64"
  shows "\<exists>q'. spsc_bulk_pop q = Inr (take (32 - unat (sq_head_index q) mod 32) xs, q') \<and>
    spsc_rep q' (drop (32 - unat (sq_head_index q) mod 32) xs)"
proof -
  from assms obtain cs p where S: "spsc_shape q cs p xs" by (auto simp: spsc_rep_def)
  then have "unat (sq_head_index q) mod 32 = p mod 32" by (simp add: spsc_shape_def)
  with spsc_bulk_pop_step [OF S assms(2)] show ?thesis unfolding spsc_rep_def by metis
qed

text \<open>A run from a new queue over a valid allocator.\<close>

context spsc_allocator
begin

lemma run_new:
  assumes "spsc_new al = Inr q" and "length ops < 2 ^ 64"
  shows "queue_run (spsc_push al) spsc_pop ops q = Inl AllocError \<or>
    (\<exists>q'. queue_run (spsc_push al) spsc_pop ops q = Inr (fst (spec_run ops []), q') \<and>
       spsc_rep q' (snd (spec_run ops [])))"
  using spsc.run_refines [of ops q "[]"] spsc_rep_new [OF valid assms(1)] assms(2)
  by (auto simp: spsc_repk_def)

end

section \<open>Properties\<close>

text \<open>
  Any sequence of \<^verbatim>\<open>push\<close> and \<^verbatim>\<open>pop\<close> on a new queue returns exactly what an
  unbounded FIFO list returns and leaves \<^verbatim>\<open>len\<close> at the length of that list; the only other
  outcome is the abort of a failed allocation. No unwritten or moved-out slot is read and no freed
  block is touched.
\<close>

theorem spsc_refines_fifo:
  assumes "valid_alloc k al" and "spsc_new al = Inr q" and "length ops < 2 ^ 64"
  shows "queue_run (spsc_push al) spsc_pop ops q = Inl AllocError \<or>
    (\<exists>q'. queue_run (spsc_push al) spsc_pop ops q = Inr (fst (spec_run ops []), q') \<and>
       unat (spsc_len q') = length (snd (spec_run ops [])) \<and>
       spsc_is_empty q' = (snd (spec_run ops []) = []))"
proof -
  from assms(1) have A: "spsc_allocator k al" by unfold_locales
  note run = spsc_allocator.run_new [OF A assms(2,3)]
  have "spsc_is_empty q' = (ys = [])" if "spsc_rep q' ys" for q' and ys :: "'a list"
    using spsc_rep_len [OF that] by (metis spsc_is_empty_def length_0_conv unat_eq_zero)
  with run show ?thesis by (auto dest: spsc_rep_len)
qed

text \<open>
  After any run from a new queue, \<^verbatim>\<open>peek\<close> returns the oldest queued value without
  faulting, and dropping the queue drops exactly the queued values, oldest first, passes its
  \<^verbatim>\<open>assert_eq!(head, tail)\<close> and frees every block exactly once: the loops end within
  \<open>n\<close> iterations for any \<open>n\<close> above the number of values and of blocks.
\<close>

theorem spsc_drop_frees_all:
  assumes "valid_alloc k al" and "spsc_new al = Inr q" and "length ops < 2 ^ 64"
    and "queue_run (spsc_push al) spsc_pop ops q = Inr (rs, q')"
    and "unat (spsc_len q') < n" and "card (dom (sq_heap q')) \<le> n"
  shows "spsc_drop n q' = Inr (snd (spec_run ops []), Map.empty) \<and>
    spsc_peek q' = Inr (case snd (spec_run ops []) of [] \<Rightarrow> None | x # _ \<Rightarrow> Some x)"
proof -
  from assms(1) have A: "spsc_allocator k al" by unfold_locales
  from spsc_allocator.run_new [OF A assms(2,3)] assms(4)
  have "spsc_rep q' (snd (spec_run ops []))" by auto
  with assms(5,6) show ?thesis
    by (simp add: spsc_rep_drop spsc_rep_peek spsc_rep_len)
qed

lemma spsc_mask_31: "spsc_BLOCK_MASK = 31"
  by (simp add: spsc_BLOCK_MASK_def spsc_consts(1))

lemma spsc_sample_run:
  obtains q q' :: "nat spsc" where "spsc_new three_blocks = Inr q"
    and "queue_run (spsc_push three_blocks) spsc_pop [Push 1, Push 2, Pop, Push 3] q = Inr ([Some 1], q')"
    and "card (dom (sq_heap q')) = 1" and "sq_head_index q' = 1" and "spsc_len q' = 2"
proof -
  obtain q :: "nat spsc" where q: "spsc_new three_blocks = Inr q"
    by (simp add: spsc_new_def spsc_block_new_def alloc_def)
  show thesis
    by (rule that [OF q])
      (use q in \<open>auto simp: spsc_new_def spsc_block_new_def alloc_def spsc_push_def spsc_pop_def
        spsc_set_def spsc_get_def modify_def deref_def spsc_len_def spsc_consts(1) spsc_mask_31 Let_def\<close>)
qed

text \<open>
  \<^verbatim>\<open>bulk_pop\<close> returns, in order, the queued values up to the end of the head block,
  and leaves the rest queued: a following \<^verbatim>\<open>pop\<close> continues where it stopped. It returns an
  empty vector only for an empty queue.
\<close>

theorem spsc_bulk_pop_prefix:
  assumes "valid_alloc k al" and "spsc_new al = Inr q" and "length ops < 2 ^ 64"
    and "queue_run (spsc_push al) spsc_pop ops q = Inr (rs, q')"
    and "unat (sq_head_index q') + unat (spsc_len q') + 32 < 2 ^ 64"
  shows "\<exists>ys zs q2. spsc_bulk_pop q' = Inr (ys, q2) \<and> snd (spec_run ops []) = ys @ zs \<and>
    (ys = [] \<longleftrightarrow> spsc_is_empty q') \<and> unat (spsc_len q2) = length zs \<and>
    (\<exists>q3. spsc_pop q2 = Inr (case zs of [] \<Rightarrow> None | z # _ \<Rightarrow> Some z, q3))"
proof -
  from assms(1) have A: "spsc_allocator k al" by unfold_locales
  let ?xs = "snd (spec_run ops [])" and ?m = "32 - unat (sq_head_index q') mod 32"
  from spsc_allocator.run_new [OF A assms(2,3)] assms(4) have R: "spsc_rep q' ?xs" by auto
  with assms(5) have "unat (sq_head_index q') + length ?xs + 32 < 2 ^ 64" by (simp add: spsc_rep_len)
  from spsc_rep_bulk_pop [OF R this] obtain q2
    where q2: "spsc_bulk_pop q' = Inr (take ?m ?xs, q2)" "spsc_rep q2 (drop ?m ?xs)" by blast
  have "take ?m ?xs = [] \<longleftrightarrow> spsc_is_empty q'"
    using spsc_rep_len [OF R] mod_less_divisor [of 32 "unat (sq_head_index q')"]
    by (auto simp: spsc_is_empty_def unat_eq_zero simp del: mod_less_divisor)
  moreover have "\<exists>q3. spsc_pop q2 = Inr (case zs of [] \<Rightarrow> None | z # _ \<Rightarrow> Some z, q3)"
    if "spsc_rep q2 zs" for zs
    using spsc_pops.pop_no_fault spsc_pops.pop_result that unfolding spsc_rep_def by metis
  ultimately show ?thesis
    using q2 by (intro exI [of _ "take ?m ?xs"] exI [of _ "drop ?m ?xs"] exI [of _ q2])
      (auto simp: spsc_rep_len)
qed

end
