(* ===== verification/Numbered_Blocks.thy ===== *)
theory Numbered_Blocks
  imports Prelude
begin

unbundle bit_operations_syntax

text \<open>
  The memory shape that the multi-producer and the multi-consumer block queues share: live blocks
  carry consecutive numbers \<open>lo..hi\<close>, block \<open>j\<close> at address \<open>A j\<close> is linked to block \<open>j + 1\<close>, and
  the entry with index \<open>i\<close> is slot \<open>i mod B\<close> of block \<open>i div B\<close>. Also the tagged pointers of
  \<^verbatim>\<open>BlockPtr\<close>: a block address with an index in its low bits and a lock flag in bit 63.
\<close>

section \<open>Tagged block pointers\<close>

text \<open>The flag \<^verbatim>\<open>1 << 63\<close>.\<close>

definition lock_bit :: ptr where
  "lock_bit = push_bit 63 1"

definition block_addr :: "nat \<Rightarrow> ptr \<Rightarrow> bool" where
  "block_addr k a \<longleftrightarrow> a \<noteq> null \<and> aligned k a \<and> \<not> bit a 63"

lemma valid_alloc_addr:
  "valid_alloc k al \<Longrightarrow> al h = Some a \<Longrightarrow> h a = None \<and> block_addr k a"
  by (auto simp: valid_alloc_def block_addr_def)

lemma aligned_bit: "aligned k p \<Longrightarrow> n < k \<Longrightarrow> \<not> bit p n"
  using bit_take_bit_iff [of k p n] by (simp add: aligned_def)

lemma bit_nat_high: "n < 2 ^ k \<Longrightarrow> k \<le> m \<Longrightarrow> \<not> bit (n :: nat) m"
  using bit_take_bit_iff [of k n m] by (simp add: take_bit_nat_eq_self)

lemma bit_lock_bit [simp]: "bit lock_bit n \<longleftrightarrow> n = 63"
  unfolding lock_bit_def bit_push_bit_iff by (auto simp: bit_1_iff)

lemma pack_index:
  assumes "aligned k a" "n < 2 ^ k"
  shows "(a OR of_nat n) AND mask k = of_nat n" and "(a OR of_nat n) AND NOT (mask k) = a"
proof -
  have "\<not> (i < k \<and> bit a i)" and "\<not> (k \<le> i \<and> bit n i)" for i
    using aligned_bit [OF assms(1)] bit_nat_high [OF assms(2)] by blast+
  then show "(a OR of_nat n) AND mask k = of_nat n" and "(a OR of_nat n) AND NOT (mask k) = a"
    by (auto intro!: bit_word_eqI simp: bit_simps) (metis not_le)+
qed

lemma pack_unlocked:
  assumes "block_addr k a" "n < 2 ^ k" "k \<le> 63"
  shows "(a OR of_nat n) AND NOT lock_bit = a OR of_nat n"
  using bit_nat_high [OF assms(2), of 63] assms
  by (auto intro!: bit_word_eqI simp: bit_simps block_addr_def)

lemma addr_unlocked: "block_addr k a \<Longrightarrow> a AND NOT lock_bit = a"
  by (auto intro!: bit_word_eqI simp: bit_simps block_addr_def)

lemma pack_lock_ne:
  assumes "block_addr k a" "block_addr k a'" "n < 2 ^ k" "k \<le> 63"
  shows "(a OR of_nat n) OR lock_bit \<noteq> a' OR of_nat n"
proof
  assume "(a OR of_nat n) OR lock_bit = a' OR of_nat n"
  then have "bit ((a OR of_nat n) OR lock_bit) 63 = bit (a' OR of_nat n :: ptr) 63" by simp
  then show False
    using assms bit_nat_high [OF assms(3,4)] by (auto simp: bit_simps block_addr_def)
qed

section \<open>Numbered blocks\<close>

definition nblocks ::
  "nat \<Rightarrow> ('b \<Rightarrow> ptr) \<Rightarrow> (nat \<Rightarrow> 'b \<Rightarrow> bool) \<Rightarrow> 'b heap \<Rightarrow> (nat \<Rightarrow> ptr) \<Rightarrow> nat \<Rightarrow> nat \<Rightarrow> bool" where
  "nblocks k nx ok h A lo hi \<longleftrightarrow>
     inj_on A {lo..hi} \<and> dom h = A ` {lo..hi} \<and> (\<forall>j\<in>{lo..hi}. block_addr k (A j)) \<and>
     (\<forall>j\<in>{lo..hi}. \<exists>b. h (A j) = Some b \<and> ok j b \<and> nx b = (if j < hi then A (Suc j) else null))"

lemma nblocksE:
  assumes "nblocks k nx ok h A lo hi" "lo \<le> j" "j \<le> hi"
  obtains b where "h (A j) = Some b" "ok j b" "nx b = (if j < hi then A (Suc j) else null)"
    "block_addr k (A j)"
  using assms unfolding nblocks_def by (metis atLeastAtMost_iff)

lemma nblocks_addr: "nblocks k nx ok h A lo hi \<Longrightarrow> lo \<le> j \<Longrightarrow> j \<le> hi \<Longrightarrow> block_addr k (A j)"
  by (auto simp: nblocks_def)

lemma nblocks_inj:
  "nblocks k nx ok h A lo hi \<Longrightarrow> i \<in> {lo..hi} \<Longrightarrow> j \<in> {lo..hi} \<Longrightarrow> A i = A j \<longleftrightarrow> i = j"
  by (auto simp: nblocks_def inj_on_def)

lemma nblocks_upd:
  assumes N: "nblocks k nx ok h A lo hi" and j: "lo \<le> j" "j \<le> hi"
    and b: "h (A j) = Some b" "ok j b'" "nx b' = nx b"
  shows "nblocks k nx ok (h(A j \<mapsto> b')) A lo hi"
proof -
  have "\<exists>b. (h(A j \<mapsto> b')) (A i) = Some b \<and> ok i b \<and> nx b = (if i < hi then A (Suc i) else null)"
    if i: "i \<in> {lo..hi}" for i
  proof (cases "i = j")
    case True
    with N j obtain b0 where "h (A j) = Some b0" "nx b0 = (if j < hi then A (Suc j) else null)"
      by (metis nblocksE)
    with True b show ?thesis by simp
  next
    case False
    then have "A i \<noteq> A j" using nblocks_inj [OF N i, of j] j by simp
    then show ?thesis using N i unfolding nblocks_def by (metis fun_upd_apply)
  qed
  moreover have "dom (h(A j \<mapsto> b')) = A ` {lo..hi}"
    using N b(1) unfolding nblocks_def by (auto simp: domI)
  ultimately show ?thesis using N unfolding nblocks_def by blast
qed

lemma nblocks_extend:
  assumes N: "nblocks k nx ok h A lo hi" and le: "lo \<le> hi"
    and a: "h a = None" "block_addr k a" and nb: "ok (Suc hi) nb" "nx nb = null"
    and b: "h (A hi) = Some b" "ok hi b'" "nx b' = a"
  shows "nblocks k nx ok (h(a \<mapsto> nb, A hi \<mapsto> b')) (A(Suc hi := a)) lo (Suc hi)"
proof -
  have dm: "dom h = A ` {lo..hi}" and inj: "inj_on A {lo..hi}"
    using N by (auto simp: nblocks_def)
  have fresh: "a \<notin> A ` {lo..hi}" using dm a(1) by blast
  have hi: "A hi \<noteq> a" using fresh le by auto
  have set: "{lo..Suc hi} = insert (Suc hi) {lo..hi}" using le by auto
  have "\<exists>b. (h(a \<mapsto> nb, A hi \<mapsto> b')) ((A(Suc hi := a)) i) = Some b \<and> ok i b \<and>
      nx b = (if i < Suc hi then (A(Suc hi := a)) (Suc i) else null)" if i: "i \<in> {lo..Suc hi}" for i
  proof -
    consider "i = Suc hi" | "i = hi" | "i \<in> {lo..hi}" "i < hi" using i by force
    then show ?thesis
    proof cases
      case 3
      then have "A i \<noteq> A hi" "A i \<noteq> a" using nblocks_inj [OF N 3(1), of hi] le fresh by auto
      moreover obtain b0 where "h (A i) = Some b0" "ok i b0" "nx b0 = A (Suc i)"
        using N 3 nblocksE [OF N, of i] by auto
      ultimately show ?thesis using 3 by simp
    qed (use hi nb b in auto)
  qed
  moreover have "inj_on (A(Suc hi := a)) {lo..Suc hi}"
    using inj fresh by (auto simp: set inj_on_def)
  moreover have "dom (h(a \<mapsto> nb, A hi \<mapsto> b')) = (A(Suc hi := a)) ` {lo..Suc hi}"
    using dm le by (auto simp: set)
  moreover have "block_addr k ((A(Suc hi := a)) i)" if "i \<in> {lo..Suc hi}" for i
    using N a(2) that by (auto simp: nblocks_def set)
  ultimately show ?thesis unfolding nblocks_def by blast
qed

lemma nblocks_free:
  assumes N: "nblocks k nx ok h A lo hi" and le: "lo < hi"
  shows "nblocks k nx ok (h(A lo := None)) A (Suc lo) hi"
proof -
  have ne: "A i \<noteq> A lo" if "i \<in> {Suc lo..hi}" for i
    using nblocks_inj [OF N, of i lo] that le by auto
  have "dom (h(A lo := None)) = A ` {Suc lo..hi}"
  proof -
    have "{lo..hi} = insert lo {Suc lo..hi}" using le by auto
    then have "dom h = insert (A lo) (A ` {Suc lo..hi})" using N by (simp add: nblocks_def)
    then show ?thesis using ne by auto
  qed
  moreover have "\<exists>b. (h(A lo := None)) (A i) = Some b \<and> ok i b \<and>
      nx b = (if i < hi then A (Suc i) else null)" if "i \<in> {Suc lo..hi}" for i
    using N that ne [OF that] unfolding nblocks_def by auto
  ultimately show ?thesis
    using N unfolding nblocks_def by (auto simp: inj_on_def)
qed

lemma nblocks_single:
  assumes "block_addr k a" "ok lo b" "nx b = null"
  shows "nblocks k nx ok [a \<mapsto> b] (\<lambda>_. a) lo lo"
  using assms by (simp add: nblocks_def)

lemma nblocks_card: "nblocks k nx ok h A lo hi \<Longrightarrow> card (dom h) = Suc hi - lo"
  by (simp add: nblocks_def card_image)

lemma nblocks_mono:
  assumes "nblocks k nx ok h A lo hi" "\<And>j b. lo \<le> j \<Longrightarrow> j \<le> hi \<Longrightarrow> h (A j) = Some b \<Longrightarrow> ok j b \<Longrightarrow> ok' j b"
  shows "nblocks k nx ok' h A lo hi"
  using assms unfolding nblocks_def by (metis atLeastAtMost_iff)

section \<open>Entries by index\<close>

text \<open>The slot of entry \<open>i\<close>, given the slots \<open>sl b\<close> of a block.\<close>

definition entry :: "nat \<Rightarrow> ('b \<Rightarrow> 's list) \<Rightarrow> 'b heap \<Rightarrow> (nat \<Rightarrow> ptr) \<Rightarrow> nat \<Rightarrow> 's option" where
  "entry B sl h A i =
     (case h (A (i div B)) of None \<Rightarrow> None
      | Some b \<Rightarrow> if i mod B < length (sl b) then Some (sl b ! (i mod B)) else None)"

lemma entry_block:
  "h (A (i div B)) = Some b \<Longrightarrow> i mod B < length (sl b) \<Longrightarrow> entry B sl h A i = Some (sl b ! (i mod B))"
  by (simp add: entry_def)

lemma entry_upd:
  assumes N: "nblocks k nx ok h A lo hi" and "lo \<le> j" "j \<le> hi" "lo \<le> i div B" "i div B \<le> hi"
    and b: "h (A j) = Some b" "sl b' = (sl b)[n := s]" and "n < B" "length (sl b) = B"
  shows "entry B sl (h(A j \<mapsto> b')) A i = (if i = j * B + n then Some s else entry B sl h A i)"
proof (cases "i div B = j")
  case True
  then have "i = j * B + n \<longleftrightarrow> i mod B = n"
    using div_mult_mod_eq [of i B] by (metis add_left_cancel)
  then show ?thesis using True b assms(8,9) by (auto simp: entry_def nth_list_update)
next
  case False
  then have "A (i div B) \<noteq> A j" using nblocks_inj [OF N, of "i div B" j] assms by auto
  moreover have "i \<noteq> j * B + n" using False assms(8) by auto
  ultimately show ?thesis by (simp add: entry_def)
qed

lemma entry_agree:
  assumes N: "nblocks k nx ok h A lo hi" and "lo \<le> j" "j \<le> hi" "lo \<le> i div B" "i div B \<le> hi"
    and b: "h (A j) = Some b" "length (sl b') = length (sl b)"
    and eq: "i div B = j \<Longrightarrow> sl b' ! (i mod B) = sl b ! (i mod B)"
  shows "entry B sl (h(A j \<mapsto> b')) A i = entry B sl h A i"
proof (cases "i div B = j")
  case True
  with b eq show ?thesis by (simp add: entry_def)
next
  case False
  then have "A (i div B) \<noteq> A j" using nblocks_inj [OF N, of "i div B" j] assms by auto
  then show ?thesis by (simp add: entry_def)
qed

lemma entry_free:
  assumes "nblocks k nx ok h A lo hi" "lo < i div B" "i div B \<le> hi"
  shows "entry B sl (h(A lo := None)) A i = entry B sl h A i"
  using nblocks_inj [OF assms(1), of "i div B" lo] assms(2,3) by (simp add: entry_def)

lemma entry_extend:
  assumes N: "nblocks k nx ok h A lo hi" and "lo \<le> i div B" "i div B \<le> hi"
    and a: "h a = None" and b: "h (A hi) = Some b" "sl b' = sl b"
  shows "entry B sl (h(a \<mapsto> nb, A hi \<mapsto> b')) (A(Suc hi := a)) i = entry B sl h A i"
proof -
  obtain c where c: "h (A (i div B)) = Some c" using nblocksE [OF N assms(2,3)] by blast
  then have "A (i div B) \<noteq> a" using a by auto
  with b c assms(3) show ?thesis by (auto simp: entry_def)
qed

lemma entry_extend_new:
  assumes "i div B = Suc hi" "A hi \<noteq> a" "i mod B < length (sl nb)"
  shows "entry B sl (h(a \<mapsto> nb, A hi \<mapsto> b')) (A(Suc hi := a)) i = Some (sl nb ! (i mod B))"
  using assms by (simp add: entry_def)

end
