(* ===== verification/Mpsc_Queue.thy ===== *)
theory Mpsc_Queue
  imports Queue_Spec Numbered_Blocks
begin

unbundle bit_operations_syntax

text \<open>
  The multi-producer single-consumer block queue of \<^verbatim>\<open>may_queue/src/mpsc.rs\<close>. The tail is a
  tagged pointer: producers take slot numbers from its low bits by compare-and-exchange, and the one
  that takes the last slot locks it with bit 63 while it installs the block after the next one. The
  consumer frees a consumed block one block late. Each operation is one definition over the queue's
  fields and its heap of blocks, run without interference; a busy-wait on another thread is the
  fault \<open>Spin\<close>. Index arithmetic is that of a release build.
\<close>

section \<open>Blocks\<close>

definition mpsc_BLOCK_SHIFT :: nat where
  "mpsc_BLOCK_SHIFT = 6"

definition mpsc_BLOCK_SIZE :: usize where
  "mpsc_BLOCK_SIZE = push_bit mpsc_BLOCK_SHIFT 1"

definition mpsc_BLOCK_MASK :: usize where
  "mpsc_BLOCK_MASK = mpsc_BLOCK_SIZE - 1"

text \<open>
  A slot's value is \<open>None\<close> until it is written, and again after its value was moved out; the
  \<^verbatim>\<open>ready\<close> flag stays set.
\<close>

record 'a mslot =
  ms_value :: "'a option"
  ms_ready :: usize

record 'a mblock =
  mb_data :: "'a mslot list"
  mb_next :: ptr
  mb_start :: usize

definition mpsc_zeroed :: "usize \<Rightarrow> 'a mblock" where
  "mpsc_zeroed index =
     \<lparr>mb_data = replicate (unat mpsc_BLOCK_SIZE) \<lparr>ms_value = None, ms_ready = 0\<rparr>,
      mb_next = null, mb_start = index\<rparr>"

definition mpsc_new_box ::
  "'a mblock allocator \<Rightarrow> usize \<Rightarrow> 'a mblock heap \<Rightarrow> (ptr \<times> 'a mblock heap) res" where
  "mpsc_new_box al index h = alloc al (mpsc_zeroed index) h"

definition mpsc_set :: "nat \<Rightarrow> 'a \<Rightarrow> 'a mblock \<Rightarrow> 'a mblock res" where
  "mpsc_set i v b =
     (if i < length (mb_data b)
      then Inr (b\<lparr>mb_data := (mb_data b)[i := \<lparr>ms_value = Some v, ms_ready = 1\<rparr>]\<rparr>)
      else Inl OutOfBounds)"

text \<open>\<^verbatim>\<open>data.value.get().read().assume_init()\<close>: moves the value out of slot \<open>i\<close>.\<close>

definition mpsc_read :: "nat \<Rightarrow> 'a mblock \<Rightarrow> ('a \<times> 'a mblock) res" where
  "mpsc_read i b =
     (case ms_value (mb_data b ! i) of
        None \<Rightarrow> Inl UninitRead
      | Some v \<Rightarrow> Inr (v, b\<lparr>mb_data := (mb_data b)[i := (mb_data b ! i)\<lparr>ms_value := None\<rparr>]\<rparr>))"

definition mpsc_try_get :: "nat \<Rightarrow> 'a mblock \<Rightarrow> ('a option \<times> 'a mblock) res" where
  "mpsc_try_get i b =
     (if i < length (mb_data b)
      then if ms_ready (mb_data b ! i) \<noteq> 0
           then bindE (mpsc_read i b) (\<lambda>(v, b'). Inr (Some v, b'))
           else Inr (None, b)
      else Inl OutOfBounds)"

definition mpsc_get :: "nat \<Rightarrow> 'a mblock \<Rightarrow> ('a \<times> 'a mblock) res" where
  "mpsc_get i b =
     (if i < length (mb_data b)
      then if ms_ready (mb_data b ! i) = 0 then Inl Spin else mpsc_read i b
      else Inl OutOfBounds)"

definition mpsc_block_peek :: "nat \<Rightarrow> 'a mblock \<Rightarrow> 'a res" where
  "mpsc_block_peek i b =
     (if i < length (mb_data b)
      then if ms_ready (mb_data b ! i) = 0 then Inl Spin
           else case ms_value (mb_data b ! i) of None \<Rightarrow> Inl UninitRead | Some v \<Rightarrow> Inr v
      else Inl OutOfBounds)"

definition mpsc_wait_next_block :: "'a mblock \<Rightarrow> ptr res" where
  "mpsc_wait_next_block b = (if mb_next b = null then Inl Spin else Inr (mb_next b))"

fun mpsc_get_range :: "nat \<Rightarrow> nat \<Rightarrow> 'a mblock \<Rightarrow> ('a list \<times> 'a mblock) res" where
  "mpsc_get_range i 0 b = Inr ([], b)"
| "mpsc_get_range i (Suc len) b =
     bindE (mpsc_get i b) (\<lambda>(v, b').
       bindE (mpsc_get_range (Suc i) len b') (\<lambda>(vs, b''). Inr (v # vs, b'')))"

definition mpsc_copy_to_bulk :: "usize \<Rightarrow> usize \<Rightarrow> 'a mblock \<Rightarrow> ('a list \<times> 'a mblock) res" where
  "mpsc_copy_to_bulk start end b =
     (let len = end - start;
          start' = start AND mpsc_BLOCK_MASK
      in mpsc_get_range (unat start') (unat len) b)"

definition mpsc_bulk_end :: "usize \<Rightarrow> usize \<Rightarrow> usize" where
  "mpsc_bulk_end start end =
     (let block_end = (start + mpsc_BLOCK_SIZE) AND NOT mpsc_BLOCK_MASK
      in min end block_end)"

definition mpsc_unpack :: "ptr \<Rightarrow> ptr \<times> usize" where
  "mpsc_unpack p = (let index = p AND mpsc_BLOCK_MASK in (p AND NOT mpsc_BLOCK_MASK, index))"

definition mpsc_pack :: "ptr \<Rightarrow> usize \<Rightarrow> ptr" where
  "mpsc_pack p index = p OR index"

section \<open>The queue\<close>

record 'a mpsc =
  mq_heap :: "'a mblock heap"
  mq_tail :: ptr
  mq_head_index :: usize
  mq_head_block :: ptr
  mq_old_block :: ptr

definition mpsc_new :: "'a mblock allocator \<Rightarrow> 'a mpsc res" where
  "mpsc_new al =
     bindE (mpsc_new_box al 0 Map.empty) (\<lambda>(init_block, h1).
     bindE (mpsc_new_box al mpsc_BLOCK_SIZE h1) (\<lambda>(next_block, h2).
     bindE (modify init_block (mb_next_update (\<lambda>_. next_block)) h2) (\<lambda>h3.
       Inr \<lparr>mq_heap = h3, mq_tail = init_block, mq_head_index = 0, mq_head_block = init_block,
            mq_old_block = null\<rparr>)))"

text \<open>What \<^verbatim>\<open>push\<close> does once its compare-and-exchange took slot \<open>i\<close> of block \<open>block_ptr\<close>.\<close>

definition mpsc_push_commit ::
  "'a mblock allocator \<Rightarrow> ptr \<Rightarrow> usize \<Rightarrow> 'a \<Rightarrow> 'a mpsc \<Rightarrow> 'a mpsc res" where
  "mpsc_push_commit al block_ptr i v q =
     bindE (deref (mq_heap q) block_ptr) (\<lambda>b.
     bindE (mpsc_set (unat i) v b) (\<lambda>block.
       let h1 = (mq_heap q)(block_ptr \<mapsto> block) in
       if i = mpsc_BLOCK_MASK
       then bindE (mpsc_new_box al (mb_start block + mpsc_BLOCK_SIZE * 2) h1) (\<lambda>(new_block, h2).
            bindE (mpsc_wait_next_block block) (\<lambda>next_block.
            bindE (modify next_block (mb_next_update (\<lambda>_. new_block)) h2) (\<lambda>h3.
              Inr (q\<lparr>mq_heap := h3, mq_tail := next_block\<rparr>))))
       else Inr (q\<lparr>mq_heap := h1\<rparr>)))"

text \<open>The loop of \<^verbatim>\<open>push\<close>, with at most \<open>n\<close> attempts; \<open>tail\<close> is the value last read.\<close>

fun mpsc_push_loop :: "nat \<Rightarrow> 'a mblock allocator \<Rightarrow> ptr \<Rightarrow> 'a \<Rightarrow> 'a mpsc \<Rightarrow> 'a mpsc res" where
  "mpsc_push_loop 0 al tail v q = Inl Spin"
| "mpsc_push_loop (Suc n) al tail0 v q =
     (let tail = tail0 AND NOT lock_bit;
          (block_ptr, i) = mpsc_unpack tail;
          new_tail = (if i < mpsc_BLOCK_MASK then mpsc_pack block_ptr (i + 1) else tail OR lock_bit)
      in if mq_tail q = tail
         then mpsc_push_commit al block_ptr i v (q\<lparr>mq_tail := new_tail\<rparr>)
         else mpsc_push_loop n al (mq_tail q) v q)"

definition mpsc_push :: "nat \<Rightarrow> 'a mblock allocator \<Rightarrow> 'a \<Rightarrow> 'a mpsc \<Rightarrow> 'a mpsc res" where
  "mpsc_push n al v q = mpsc_push_loop n al (mq_tail q) v q"

definition mpsc_push_index :: "'a mpsc \<Rightarrow> usize res" where
  "mpsc_push_index q =
     (let (tail_block, i) = mpsc_unpack (mq_tail q);
          tail_block = tail_block AND NOT lock_bit
      in bindE (deref (mq_heap q) tail_block) (\<lambda>b. Inr (mb_start b + i)))"

definition mpsc_swap_and_free_old_block :: "ptr \<Rightarrow> 'a mpsc \<Rightarrow> 'a mpsc res" where
  "mpsc_swap_and_free_old_block block q =
     (let old = mq_old_block q; q1 = q\<lparr>mq_old_block := block\<rparr> in
      if old \<noteq> null then bindE (box_free old (mq_heap q1)) (\<lambda>h. Inr (q1\<lparr>mq_heap := h\<rparr>))
      else Inr q1)"

text \<open>
  The end of \<^verbatim>\<open>pop\<close>, \<^verbatim>\<open>fast_bulk_pop\<close> and \<^verbatim>\<open>bulk_pop\<close>: commit the new index and, when the
  block is used up, release it and move to the next one.
\<close>

definition mpsc_advance :: "ptr \<Rightarrow> usize \<Rightarrow> bool \<Rightarrow> 'a mpsc \<Rightarrow> 'a mpsc res" where
  "mpsc_advance head_ptr new_index at_end q =
     (let q1 = q\<lparr>mq_head_index := new_index\<rparr> in
      if at_end
      then bindE (mpsc_swap_and_free_old_block head_ptr q1) (\<lambda>q2.
           bindE (deref (mq_heap q2) head_ptr) (\<lambda>head.
           bindE (mpsc_wait_next_block head) (\<lambda>next_block.
             Inr (q2\<lparr>mq_head_block := next_block\<rparr>))))
      else Inr q1)"

definition mpsc_pop :: "'a mpsc \<Rightarrow> ('a option \<times> 'a mpsc) res" where
  "mpsc_pop q =
     (let head_ptr = mq_head_block q;
          pop_index = mq_head_index q;
          i = pop_index AND mpsc_BLOCK_MASK;
          finish = (\<lambda>v b'.
            bindE (mpsc_advance head_ptr (pop_index + 1) (i = mpsc_BLOCK_MASK)
                     (q\<lparr>mq_heap := (mq_heap q)(head_ptr \<mapsto> b')\<rparr>)) (\<lambda>q'. Inr (Some v, q')))
      in
      bindE (deref (mq_heap q) head_ptr) (\<lambda>head.
      bindE (mpsc_try_get (unat i) head) (\<lambda>(r, b).
        case r of
          Some v \<Rightarrow> finish v b
        | None \<Rightarrow>
            bindE (mpsc_push_index q) (\<lambda>push_index.
              if pop_index \<ge> push_index then Inr (None, q)
              else bindE (mpsc_get (unat i) head) (\<lambda>(v, b'). finish v b')))))"

text \<open>The \<^verbatim>\<open>for\<close> loop of \<^verbatim>\<open>fast_bulk_pop\<close> over the slots \<open>i..i + len\<close>.\<close>

fun mpsc_try_get_range :: "nat \<Rightarrow> nat \<Rightarrow> 'a mblock \<Rightarrow> ('a list \<times> 'a mblock) res" where
  "mpsc_try_get_range i 0 b = Inr ([], b)"
| "mpsc_try_get_range i (Suc len) b =
     bindE (mpsc_try_get i b) (\<lambda>(r, b').
       case r of
         None \<Rightarrow> Inr ([], b')
       | Some v \<Rightarrow> bindE (mpsc_try_get_range (Suc i) len b') (\<lambda>(vs, b''). Inr (v # vs, b'')))"

definition mpsc_fast_bulk_pop :: "usize \<Rightarrow> ptr \<Rightarrow> 'a mpsc \<Rightarrow> ('a list \<times> 'a mpsc) res" where
  "mpsc_fast_bulk_pop index head_ptr q =
     bindE (deref (mq_heap q) head_ptr) (\<lambda>head.
       let block_end = (index + mpsc_BLOCK_SIZE) AND NOT mpsc_BLOCK_MASK;
           len = block_end - index;
           start = index AND mpsc_BLOCK_MASK
       in
       bindE (mpsc_try_get_range (unat start) (unat len) head) (\<lambda>(value, b').
         if value = [] then Inr ([], q)
         else
           let new_index = index + of_nat (length value) in
           bindE (mpsc_advance head_ptr new_index (new_index AND mpsc_BLOCK_MASK = 0)
                    (q\<lparr>mq_heap := (mq_heap q)(head_ptr \<mapsto> b')\<rparr>)) (\<lambda>q'. Inr (value, q'))))"

definition mpsc_bulk_pop :: "'a mpsc \<Rightarrow> ('a list \<times> 'a mpsc) res" where
  "mpsc_bulk_pop q =
     (let pop_index = mq_head_index q; head_ptr = mq_head_block q in
      bindE (mpsc_fast_bulk_pop pop_index head_ptr q) (\<lambda>(v, q1).
        if v \<noteq> [] then Inr (v, q1)
        else
          bindE (mpsc_push_index q1) (\<lambda>push_index.
            if pop_index \<ge> push_index then Inr ([], q1)
            else
              let end = mpsc_bulk_end pop_index push_index in
              bindE (deref (mq_heap q1) head_ptr) (\<lambda>head.
              bindE (mpsc_copy_to_bulk pop_index end head) (\<lambda>(value, b').
              bindE (mpsc_advance head_ptr end (end AND mpsc_BLOCK_MASK = 0)
                       (q1\<lparr>mq_heap := (mq_heap q1)(head_ptr \<mapsto> b')\<rparr>)) (\<lambda>q'. Inr (value, q')))))))"

definition mpsc_peek :: "'a mpsc \<Rightarrow> 'a option res" where
  "mpsc_peek q =
     (let pop_index = mq_head_index q in
      bindE (mpsc_push_index q) (\<lambda>push_index.
        if pop_index \<ge> push_index then Inr None
        else bindE (deref (mq_heap q) (mq_head_block q)) (\<lambda>head.
             bindE (mpsc_block_peek (unat (pop_index AND mpsc_BLOCK_MASK)) head) (\<lambda>v.
               Inr (Some v)))))"

definition mpsc_len :: "'a mpsc \<Rightarrow> usize res" where
  "mpsc_len q =
     (let pop_index = mq_head_index q in
      bindE (mpsc_push_index q) (\<lambda>push_index.
        if pop_index \<ge> push_index then Inr 0 else Inr (push_index - pop_index)))"

definition mpsc_is_empty :: "'a mpsc \<Rightarrow> bool res" where
  "mpsc_is_empty q = bindE (mpsc_len q) (\<lambda>n. Inr (n = 0))"

text \<open>
  \<^verbatim>\<open>Drop for Queue\<close>: the values it drains and the heap it leaves. \<open>n\<close> bounds the drain loop.
\<close>

definition mpsc_drop :: "nat \<Rightarrow> 'a mpsc \<Rightarrow> ('a list \<times> 'a mblock heap) res" where
  "mpsc_drop n q =
     bindE (drain n mpsc_pop q) (\<lambda>(xs, q1).
       let head = mq_head_block q1; (block, i) = mpsc_unpack (mq_tail q1) in
       bindE (assertE (block = head)) (\<lambda>_.
       bindE (deref (mq_heap q1) block) (\<lambda>b.
         let next_block = mb_next b in
         bindE (assertE (next_block \<noteq> null)) (\<lambda>_.
         bindE (box_free block (mq_heap q1)) (\<lambda>h1.
         bindE (box_free next_block h1) (\<lambda>h2.
         bindE (mpsc_swap_and_free_old_block null (q1\<lparr>mq_heap := h2\<rparr>)) (\<lambda>q2.
           Inr (xs, mq_heap q2))))))))"

section \<open>Representation\<close>

lemma mpsc_consts: "mpsc_BLOCK_SIZE = 64" "mpsc_BLOCK_MASK = mask 6" "mpsc_BLOCK_MASK = 63"
  by (simp_all add: mpsc_BLOCK_SIZE_def mpsc_BLOCK_MASK_def mpsc_BLOCK_SHIFT_def
      mask_eq_exp_minus_1 push_bit_eq_mult)

lemma unat_mpsc_mask: "unat (x AND mpsc_BLOCK_MASK) = unat x mod 64"
  using unat_and_mask [of x 6] by (simp add: mpsc_consts(2))

lemma mpsc_mask_0: "x AND mpsc_BLOCK_MASK = 0 \<longleftrightarrow> unat x mod 64 = 0"
  using and_mask_eq_0_iff [of x 6] by (simp add: mpsc_consts(2))

lemma mpsc_mask_eq: "x AND mpsc_BLOCK_MASK = mpsc_BLOCK_MASK \<longleftrightarrow> unat x mod 64 = 63"
proof -
  have "unat mpsc_BLOCK_MASK = 63" by (simp add: mpsc_consts(3))
  then show ?thesis by (metis unat_mpsc_mask word_unat_eq_iff)
qed

lemma unat_of_nat_mod64 [simp]: "unat (of_nat (n mod 64) :: usize) = n mod 64"
  by (simp add: unat_of_nat) 

text \<open>
  \<open>P\<close> is the pop index, \<open>P + length xs\<close> the push index, \<open>A j\<close> the address of the block that starts at
  \<open>64 * j\<close>. The block of the push index and the one after it are always installed, and the block
  before the head may wait in \<open>mq_old_block\<close>.
\<close>

definition mpsc_ok :: "nat \<Rightarrow> 'a mblock \<Rightarrow> bool" where
  "mpsc_ok j b \<longleftrightarrow> mb_start b = of_nat (64 * j) \<and> length (mb_data b) = 64"

definition mpsc_lo :: "'a mpsc \<Rightarrow> nat \<Rightarrow> nat" where
  "mpsc_lo q P = (if mq_old_block q = null then P div 64 else P div 64 - 1)"

abbreviation "mpsc_blocks \<equiv> nblocks 6 mb_next mpsc_ok"
abbreviation "mpsc_entry \<equiv> entry 64 mb_data"

definition mpsc_entries :: "'a mblock heap \<Rightarrow> (nat \<Rightarrow> ptr) \<Rightarrow> nat \<Rightarrow> 'a list \<Rightarrow> bool" where
  "mpsc_entries h A P xs \<longleftrightarrow>
     (\<forall>i < length xs. mpsc_entry h A (P + i) = Some \<lparr>ms_value = Some (xs ! i), ms_ready = 1\<rparr>) \<and>
     (\<forall>i \<ge> P + length xs. i div 64 \<le> Suc ((P + length xs) div 64) \<longrightarrow>
        mpsc_entry h A i = Some \<lparr>ms_value = None, ms_ready = 0\<rparr>)"

definition mpsc_shape :: "'a mpsc \<Rightarrow> (nat \<Rightarrow> ptr) \<Rightarrow> nat \<Rightarrow> 'a list \<Rightarrow> bool" where
  "mpsc_shape q A P xs \<longleftrightarrow>
     mpsc_blocks (mq_heap q) A (mpsc_lo q P) (Suc ((P + length xs) div 64)) \<and>
     P + length xs < 2 ^ 64 \<and>
     mq_head_index q = of_nat P \<and> mq_head_block q = A (P div 64) \<and>
     mq_tail q = A ((P + length xs) div 64) OR of_nat ((P + length xs) mod 64) \<and>
     (mq_old_block q = null \<or> 0 < P div 64 \<and> mq_old_block q = A (P div 64 - 1)) \<and>
     mpsc_entries (mq_heap q) A P xs"

lemma mpsc_lo_le: "mpsc_lo q P \<le> P div 64"
  by (simp add: mpsc_lo_def)

lemma mpsc_unpack_addr:
  assumes "block_addr 6 a" "n < 64"
  shows "mpsc_unpack (a OR of_nat n) = (a, of_nat n)"
    and "(a OR of_nat n) AND NOT lock_bit = a OR of_nat n"
  using pack_index [of 6 a n] pack_unlocked [of 6 a n] assms
  by (simp_all add: mpsc_unpack_def mpsc_consts(2) block_addr_def)

lemma mpsc_shape_blockE:
  assumes "mpsc_shape q A P xs" "P div 64 \<le> j" "j \<le> Suc ((P + length xs) div 64)"
  obtains b where "mq_heap q (A j) = Some b" "mpsc_ok j b" "block_addr 6 (A j)"
    "mb_next b = (if j \<le> (P + length xs) div 64 then A (Suc j) else null)"
proof -
  have "mpsc_blocks (mq_heap q) A (mpsc_lo q P) (Suc ((P + length xs) div 64))"
    using assms(1) by (simp add: mpsc_shape_def)
  then show thesis
    by (rule nblocksE [where j = j])
      (use assms mpsc_lo_le [of q P] that in \<open>auto simp: less_Suc_eq_le\<close>)
qed

lemma mpsc_push_index_ok:
  assumes S: "mpsc_shape q A P xs"
  shows "mpsc_push_index q = Inr (of_nat (P + length xs))"
proof -
  let ?N = "P + length xs"
  obtain b where b: "mq_heap q (A (?N div 64)) = Some b" "mpsc_ok (?N div 64) b"
      "block_addr 6 (A (?N div 64))"
    by (rule mpsc_shape_blockE [OF S, of "?N div 64"]) (auto simp: div_le_mono)
  have "mpsc_unpack (mq_tail q) = (A (?N div 64), of_nat (?N mod 64))"
    using S mpsc_unpack_addr(1) [OF b(3), of "?N mod 64"] by (simp add: mpsc_shape_def)
  moreover have "mb_start b + of_nat (?N mod 64) = of_nat ?N"
  proof -
    have "of_nat (64 * (?N div 64) + ?N mod 64) = (of_nat ?N :: usize)" by simp
    then show ?thesis using b(2) unfolding mpsc_ok_def by (metis of_nat_add)
  qed
  ultimately show ?thesis
    using b by (simp add: mpsc_push_index_def deref_Some addr_unlocked)
qed

section \<open>push\<close>

lemma mpsc_zeroed_simps [simp]:
  "mb_next (mpsc_zeroed i) = null" "mb_start (mpsc_zeroed i) = i"
  "mb_data (mpsc_zeroed i) = replicate 64 \<lparr>ms_value = None, ms_ready = 0\<rparr>"
  by (simp_all add: mpsc_zeroed_def mpsc_consts)

lemma mpsc_entries_write:
  assumes B: "mpsc_blocks h A lo (Suc ((P + length xs) div 64))" "lo \<le> P div 64"
    and E: "mpsc_entries h A P xs"
    and b: "h (A ((P + length xs) div 64)) = Some b" "length (mb_data b) = 64"
    and h': "h' = h(A ((P + length xs) div 64) \<mapsto>
      b\<lparr>mb_data := (mb_data b)[(P + length xs) mod 64 := \<lparr>ms_value = Some v, ms_ready = 1\<rparr>]\<rparr>)"
  shows "\<forall>i < length (xs @ [v]). mpsc_entry h' A (P + i) =
      Some \<lparr>ms_value = Some ((xs @ [v]) ! i), ms_ready = 1\<rparr>"
    and "\<forall>i \<ge> P + length (xs @ [v]). i div 64 \<le> Suc ((P + length xs) div 64) \<longrightarrow>
      mpsc_entry h' A i = Some \<lparr>ms_value = None, ms_ready = 0\<rparr>"
proof -
  let ?N = "P + length xs"
  have le: "P div 64 \<le> ?N div 64" by (simp add: div_le_mono)
  have en: "mpsc_entry h' A i =
      (if i = ?N then Some \<lparr>ms_value = Some v, ms_ready = 1\<rparr> else mpsc_entry h A i)"
    if "P \<le> i" "i div 64 \<le> Suc (?N div 64)" for i
  proof -
    have "lo \<le> i div 64" using div_le_mono [OF that(1), of 64] B(2) by linarith
    then show ?thesis
      using entry_upd [OF B(1), of "?N div 64" i 64 b mb_data] le that B(2) b
      by (simp add: h')
  qed
  show "\<forall>i < length (xs @ [v]). mpsc_entry h' A (P + i) =
      Some \<lparr>ms_value = Some ((xs @ [v]) ! i), ms_ready = 1\<rparr>"
  proof (intro allI impI)
    fix i assume i: "i < length (xs @ [v])"
    then have "(P + i) div 64 \<le> ?N div 64" by (intro div_le_mono) simp
    with i E en [of "P + i"] show "mpsc_entry h' A (P + i) =
        Some \<lparr>ms_value = Some ((xs @ [v]) ! i), ms_ready = 1\<rparr>"
      by (auto simp: mpsc_entries_def nth_append less_Suc_eq)
  qed
  show "\<forall>i \<ge> P + length (xs @ [v]). i div 64 \<le> Suc (?N div 64) \<longrightarrow>
      mpsc_entry h' A i = Some \<lparr>ms_value = None, ms_ready = 0\<rparr>"
    using E en by (auto simp: mpsc_entries_def)
qed

lemma mpsc_entries_extend:
  assumes B: "mpsc_blocks h A lo (Suc j)" and lo: "lo \<le> P div 64"
    and N: "(P + length xs) div 64 = Suc j" "(P + length xs) mod 64 = 0"
    and E: "\<forall>i < length xs. mpsc_entry h A (P + i) = Some \<lparr>ms_value = Some (xs ! i), ms_ready = 1\<rparr>"
      "\<forall>i \<ge> P + length xs. i div 64 \<le> Suc j \<longrightarrow> mpsc_entry h A i = Some \<lparr>ms_value = None, ms_ready = 0\<rparr>"
    and a: "h a = None" and c: "h (A (Suc j)) = Some c"
  shows "mpsc_entries (h(a \<mapsto> mpsc_zeroed s, A (Suc j) \<mapsto> c\<lparr>mb_next := a\<rparr>)) (A(Suc (Suc j) := a)) P xs"
proof -
  let ?h = "h(a \<mapsto> mpsc_zeroed s, A (Suc j) \<mapsto> c\<lparr>mb_next := a\<rparr>)" and ?A = "A(Suc (Suc j) := a)"
  have old: "mpsc_entry ?h ?A i = mpsc_entry h A i" if "P \<le> i" "i div 64 \<le> Suc j" for i
    using entry_extend [OF B _ that(2) a c, of mb_data "c\<lparr>mb_next := a\<rparr>"]
      div_le_mono [OF that(1), of 64] lo by simp
  have new: "mpsc_entry ?h ?A i = Some \<lparr>ms_value = None, ms_ready = 0\<rparr>" if "i div 64 = Suc (Suc j)" for i
    using entry_extend_new [of i 64 "Suc j" A a mb_data "mpsc_zeroed s"] that a c by fastforce
  have "(P + i) div 64 \<le> Suc j" if "i < length xs" for i
    using div_le_mono [of "P + i" "P + length xs" 64] that N by simp
  then have 1: "mpsc_entry ?h ?A (P + i) = Some \<lparr>ms_value = Some (xs ! i), ms_ready = 1\<rparr>"
    if "i < length xs" for i using E(1) old [of "P + i"] that by simp
  have 2: "mpsc_entry ?h ?A i = Some \<lparr>ms_value = None, ms_ready = 0\<rparr>"
    if "P + length xs \<le> i" "i div 64 \<le> Suc (Suc j)" for i
    using that E(2) old [of i] new [of i] by (cases "i div 64 = Suc (Suc j)") simp_all
  from 1 2 show ?thesis
    unfolding mpsc_entries_def N by blast
qed

lemma mpsc_push_step:
  assumes S: "mpsc_shape q A P xs" and room: "Suc (P + length xs) < 2 ^ 64"
    and al: "valid_alloc 6 al" and n: "0 < n"
  shows "mpsc_push n al v q = Inl AllocError \<or>
    (\<exists>q' A'. mpsc_push n al v q = Inr q' \<and> mpsc_shape q' A' P (xs @ [v]))"
proof -
  let ?N = "P + length xs" and ?h = "mq_heap q"
  let ?j = "?N div 64" and ?i = "?N mod 64"
  obtain m where m: "n = Suc m" using n by (cases n) auto
  have le: "P div 64 \<le> ?j" by (simp add: div_le_mono)
  have lo: "mpsc_lo q P \<le> ?j" using mpsc_lo_le le by (rule order_trans)
  obtain b where b: "?h (A ?j) = Some b" "mpsc_ok ?j b" "block_addr 6 (A ?j)" "mb_next b = A (Suc ?j)"
    by (rule mpsc_shape_blockE [OF S le]) auto
  have bl: "length (mb_data b) = 64" using b(2) by (simp add: mpsc_ok_def)
  have B: "mpsc_blocks ?h A (mpsc_lo q P) (Suc ?j)" and E: "mpsc_entries ?h A P xs"
    and tl: "mq_tail q = A ?j OR of_nat ?i"
    using S by (auto simp: mpsc_shape_def)
  define b1 where "b1 = b\<lparr>mb_data := (mb_data b)[?i := \<lparr>ms_value = Some v, ms_ready = 1\<rparr>]\<rparr>"
  define h1 where "h1 = ?h(A ?j \<mapsto> b1)"
  have B1: "mpsc_blocks h1 A (mpsc_lo q P) (Suc ?j)"
    unfolding h1_def by (rule nblocks_upd [OF B lo _ b(1)]) (use b in \<open>auto simp: b1_def mpsc_ok_def\<close>)
  note E1 = mpsc_entries_write [OF B mpsc_lo_le E b(1) bl h1_def [unfolded b1_def]]
  have up: "mpsc_unpack (mq_tail q) = (A ?j, of_nat ?i)" "mq_tail q AND NOT lock_bit = mq_tail q"
    using mpsc_unpack_addr [OF b(3), of ?i] by (simp_all add: tl)
  have set: "mpsc_set ?i v b = Inr b1" using bl by (simp add: mpsc_set_def b1_def)
  have mk: "(of_nat ?i :: usize) = mpsc_BLOCK_MASK \<longleftrightarrow> ?i = 63"
      "(of_nat ?i :: usize) < mpsc_BLOCK_MASK \<longleftrightarrow> ?i < 63"
    by (simp_all add: word_unat_eq_iff word_less_nat_alt mpsc_consts(3) del: of_nat_mod)
  define q1 where "q1 = q\<lparr>mq_heap := h1\<rparr>"
  show ?thesis
  proof (cases "?i = 63")
    case False
    then have d: "Suc ?N div 64 = ?j" "Suc ?N mod 64 = Suc ?i" and i: "?i < 63"
      using mod_less_divisor [of 64 ?N] by (auto simp: div_Suc mod_Suc)
    then have pk: "mpsc_pack (A ?j) (of_nat ?i + 1) = A ?j OR of_nat (Suc ?i)"
      by (simp add: mpsc_pack_def add.commute)
    have "mpsc_push n al v q = Inr (q1\<lparr>mq_tail := A ?j OR of_nat (Suc ?i)\<rparr>)"
      using up b(1) set i False
      by (simp add: m mpsc_push_def mpsc_push_commit_def deref_Some mk pk q1_def h1_def
          del: of_nat_mod of_nat_Suc)
    moreover have "mpsc_shape (q1\<lparr>mq_tail := A ?j OR of_nat (Suc ?i)\<rparr>) A P (xs @ [v])"
      using S B1 E1 room d unfolding mpsc_shape_def mpsc_entries_def mpsc_lo_def q1_def
      by (simp del: of_nat_mod of_nat_Suc)
    ultimately show ?thesis by blast
  next
    case True
    have d: "Suc ?N div 64 = Suc ?j" "Suc ?N mod 64 = 0"
      using True by (auto simp: div_Suc mod_Suc)
    obtain c where c: "?h (A (Suc ?j)) = Some c" "mpsc_ok (Suc ?j) c" "block_addr 6 (A (Suc ?j))"
      by (rule mpsc_shape_blockE [OF S, of "Suc ?j"]) (use le in auto)
    have st: "mb_start b1 + mpsc_BLOCK_SIZE * 2 = of_nat (64 * Suc (Suc ?j))"
      using b(2) by (simp add: b1_def mpsc_ok_def mpsc_consts(1))
    have ne: "A (Suc ?j) \<noteq> A ?j"
      using nblocks_inj [OF B, of "Suc ?j" ?j] lo by simp
    then have c1: "h1 (A (Suc ?j)) = Some c" by (simp add: h1_def c(1))
    have nx: "mpsc_wait_next_block b1 = Inr (A (Suc ?j))"
      using b(4) c(3) by (simp add: mpsc_wait_next_block_def b1_def block_addr_def)
    show ?thesis
    proof (cases "al h1")
      case None
      then have "mpsc_push n al v q = Inl AllocError"
        using up b(1) set True
        by (simp add: m mpsc_push_def mpsc_push_commit_def deref_Some mk mpsc_consts(3) h1_def [symmetric]
            mpsc_new_box_def alloc_None Let_def del: of_nat_mod)
      then show ?thesis ..
    next
      case (Some a)
      note a = valid_alloc_addr [OF al Some]
      define h2 where "h2 = h1(a \<mapsto> mpsc_zeroed (mb_start b1 + mpsc_BLOCK_SIZE * 2), A (Suc ?j) \<mapsto> c\<lparr>mb_next := a\<rparr>)"
      define q2 where "q2 = q\<lparr>mq_heap := h2, mq_tail := A (Suc ?j)\<rparr>"
      have ca: "a \<noteq> A (Suc ?j)" using a c1 by auto
      have "mpsc_push n al v q = Inr q2"
        using up b(1) set True Some nx c1 ca
        by (simp add: m mpsc_push_def mpsc_push_commit_def deref_Some mk mpsc_consts(3) h1_def [symmetric]
            mpsc_new_box_def alloc_Some modify_Some Let_def q2_def h2_def
            del: of_nat_mod of_nat_Suc of_nat_mult)
      moreover have B2: "mpsc_blocks h2 (A(Suc (Suc ?j) := a)) (mpsc_lo q P) (Suc (Suc ?j))"
        unfolding h2_def
        by (rule nblocks_extend [OF B1 _ _ _ _ _ c1]) (use a c(2) lo in \<open>auto simp: mpsc_ok_def st\<close>)
      moreover have "mpsc_entries h2 (A(Suc (Suc ?j) := a)) P (xs @ [v])"
        unfolding h2_def
        by (rule mpsc_entries_extend [OF B1 mpsc_lo_le _ _ E1 conjunct1 [OF a] c1]) (use d in simp_all)
      moreover have "P div 64 < Suc (Suc ?j)" "A ?j = (A(Suc (Suc ?j) := a)) ?j" using le by auto
      ultimately have "mpsc_shape q2 (A(Suc (Suc ?j) := a)) P (xs @ [v])"
        using S room d c(3) unfolding mpsc_shape_def mpsc_lo_def q2_def by auto
      with \<open>mpsc_push n al v q = Inr q2\<close> show ?thesis by blast
    qed
  qed
qed

section \<open>pop and bulk_pop\<close>

lemma mpsc_swap_step:
  assumes B: "mpsc_blocks (mq_heap q) A (mpsc_lo q P) hi" and hi: "P div 64 \<le> hi"
    and old: "mq_old_block q = null \<or> 0 < P div 64 \<and> mq_old_block q = A (P div 64 - 1)"
  shows "\<exists>h'. mpsc_swap_and_free_old_block p q = Inr (q\<lparr>mq_heap := h', mq_old_block := p\<rparr>) \<and>
    mpsc_blocks h' A (P div 64) hi \<and> (\<forall>i. P div 64 \<le> i div 64 \<longrightarrow> i div 64 \<le> hi \<longrightarrow>
       mpsc_entry h' A i = mpsc_entry (mq_heap q) A i)"
proof (cases "mq_old_block q = null")
  case True
  with B show ?thesis
    by (intro exI [of _ "mq_heap q"]) (simp add: mpsc_swap_and_free_old_block_def mpsc_lo_def Let_def)
next
  case False
  with old have o: "mq_old_block q = A (P div 64 - 1)" and p: "0 < P div 64" by auto
  have lo: "mpsc_lo q P = P div 64 - 1" using False by (simp add: mpsc_lo_def)
  obtain b where "mq_heap q (A (P div 64 - 1)) = Some b"
    by (rule nblocksE [OF B, of "P div 64 - 1"]) (use lo hi in auto)
  then have "mpsc_swap_and_free_old_block p q =
      Inr (q\<lparr>mq_heap := (mq_heap q)(A (P div 64 - 1) := None), mq_old_block := p\<rparr>)"
    using False o by (simp add: mpsc_swap_and_free_old_block_def box_free_Some Let_def)
  moreover have "mpsc_blocks ((mq_heap q)(A (P div 64 - 1) := None)) A (P div 64) hi"
    using nblocks_free [OF B] lo hi p by simp
  moreover have "mpsc_entry ((mq_heap q)(A (P div 64 - 1) := None)) A i = mpsc_entry (mq_heap q) A i"
    if "P div 64 \<le> i div 64" "i div 64 \<le> hi" for i
    using entry_free [OF B, of i 64 mb_data] less_le_trans [OF diff_less [OF _ p] that(1), of 1] lo that(2)
    by simp
  ultimately show ?thesis by blast
qed

lemma mpsc_entries_cong:
  assumes "mpsc_entries h A P xs"
    and "\<And>i. P \<le> i \<Longrightarrow> i div 64 \<le> Suc ((P + length xs) div 64) \<Longrightarrow> mpsc_entry h' A i = mpsc_entry h A i"
  shows "mpsc_entries h' A P xs"
proof -
  have "(P + i) div 64 \<le> Suc ((P + length xs) div 64)" if "i < length xs" for i
    using div_le_mono [of "P + i" "P + length xs" 64] that by simp
  with assms show ?thesis unfolding mpsc_entries_def by simp
qed

lemma mpsc_entries_drop:
  assumes "mpsc_entries h A P (ys @ zs)" shows "mpsc_entries h A (P + length ys) zs"
proof -
  have "mpsc_entry h A (P + length ys + i) = Some \<lparr>ms_value = Some (zs ! i), ms_ready = 1\<rparr>"
    if "i < length zs" for i
    using assms that by (auto simp: mpsc_entries_def add.assoc dest: spec [of _ "length ys + i"])
  with assms show ?thesis by (auto simp: mpsc_entries_def add.assoc)
qed

lemma mpsc_consume_heap:
  assumes S: "mpsc_shape q A P (ys @ zs)"
    and b: "mq_heap q (A (P div 64)) = Some b" "length d = 64"
    and d: "\<And>j. j < 64 \<Longrightarrow> P mod 64 + length ys \<le> j \<Longrightarrow> d ! j = mb_data b ! j"
  shows "mpsc_blocks ((mq_heap q)(A (P div 64) \<mapsto> b\<lparr>mb_data := d\<rparr>)) A (mpsc_lo q P)
      (Suc ((P + length (ys @ zs)) div 64))"
    and "mpsc_entries ((mq_heap q)(A (P div 64) \<mapsto> b\<lparr>mb_data := d\<rparr>)) A (P + length ys) zs"
proof -
  let ?c = "P div 64" and ?n = "length ys" and ?N = "P + length (ys @ zs)"
  let ?h = "(mq_heap q)(A ?c \<mapsto> b\<lparr>mb_data := d\<rparr>)"
  have B: "mpsc_blocks (mq_heap q) A (mpsc_lo q P) (Suc (?N div 64))"
    and E: "mpsc_entries (mq_heap q) A P (ys @ zs)"
    using S by (auto simp: mpsc_shape_def)
  have cl: "?c \<le> ?N div 64" by (simp add: div_le_mono)
  have bok: "mpsc_ok ?c b"
    by (rule mpsc_shape_blockE [OF S order_refl]) (use b(1) cl in auto)
  show "mpsc_blocks ?h A (mpsc_lo q P) (Suc (?N div 64))"
    by (rule nblocks_upd [OF B mpsc_lo_le _ b(1)]) (use bok b(2) cl in \<open>auto simp: mpsc_ok_def\<close>)
  show "mpsc_entries ?h A (P + ?n) zs"
  proof (rule mpsc_entries_cong [OF mpsc_entries_drop [OF E]])
    fix i assume i: "P + ?n \<le> i" "i div 64 \<le> Suc ((P + ?n + length zs) div 64)"
    show "mpsc_entry ?h A i = mpsc_entry (mq_heap q) A i"
    proof (rule entry_agree [OF B mpsc_lo_le])
      show "mpsc_lo q P \<le> i div 64"
        using div_le_mono [of P i 64] i(1) mpsc_lo_le [of q P] by linarith
      show "mb_data (b\<lparr>mb_data := d\<rparr>) ! (i mod 64) = mb_data b ! (i mod 64)" if "i div 64 = ?c"
      proof -
        have "P mod 64 + ?n \<le> i mod 64"
          using i(1) that div_mult_mod_eq [of i 64] div_mult_mod_eq [of P 64] by linarith
        then show ?thesis using d by simp
      qed
    qed (use i b bok cl in \<open>auto simp: mpsc_ok_def add.assoc\<close>)
  qed
qed

lemma mpsc_consume:
  assumes S: "mpsc_shape q A P (ys @ zs)" and room: "P mod 64 + length ys \<le> 64"
    and b: "mq_heap q (A (P div 64)) = Some b" "length d = 64"
    and d: "\<And>j. j < 64 \<Longrightarrow> P mod 64 + length ys \<le> j \<Longrightarrow> d ! j = mb_data b ! j"
    and en: "at_end \<longleftrightarrow> P mod 64 + length ys = 64" and ni: "new_index = of_nat (P + length ys)"
  shows "\<exists>q'. mpsc_advance (A (P div 64)) new_index at_end
      (q\<lparr>mq_heap := (mq_heap q)(A (P div 64) \<mapsto> b\<lparr>mb_data := d\<rparr>)\<rparr>) = Inr q' \<and>
    mpsc_shape q' A (P + length ys) zs"
proof -
  let ?c = "P div 64" and ?n = "length ys" and ?N = "P + length (ys @ zs)"
  define q1 where "q1 = q\<lparr>mq_heap := (mq_heap q)(A ?c \<mapsto> b\<lparr>mb_data := d\<rparr>), mq_head_index := new_index\<rparr>"
  note C = mpsc_consume_heap [OF S b d]
  have cl: "?c \<le> ?N div 64" by (simp add: div_le_mono)
  have old: "mq_old_block q1 = null \<or> 0 < ?c \<and> mq_old_block q1 = A (?c - 1)"
    using S by (auto simp: mpsc_shape_def q1_def)
  have nx: "mb_next b = A (Suc ?c)" "block_addr 6 (A ?c)"
    by (rule mpsc_shape_blockE [OF S order_refl]; use b(1) cl in auto)+
  have nn: "A (Suc ?c) \<noteq> null"
    by (rule mpsc_shape_blockE [OF S, of "Suc ?c"]) (use cl in \<open>auto simp: block_addr_def\<close>)
  show ?thesis
  proof (cases "P mod 64 + ?n = 64")
    case False
    then have dv: "(P + ?n) div 64 = ?c" using pos_in_block(1) [of P 64 ?n] room by simp
    show ?thesis
      using False S C dv en ni
      by (auto simp: mpsc_advance_def mpsc_shape_def mpsc_lo_def add.assoc)
  next
    case True
    then have dv: "(P + ?n) div 64 = Suc ?c" using pos_block_end(1) [of P 64 ?n] by simp
    have lo: "mpsc_lo q1 P = mpsc_lo q P" by (simp add: mpsc_lo_def q1_def)
    have "mpsc_blocks (mq_heap q1) A (mpsc_lo q1 P) (Suc (?N div 64))"
      unfolding lo using C(1) by (simp add: q1_def)
    note sw = mpsc_swap_step [OF this _ old, of "A ?c"]
    obtain h' where h': "mpsc_swap_and_free_old_block (A ?c) q1 =
          Inr (q1\<lparr>mq_heap := h', mq_old_block := A ?c\<rparr>)"
        "mpsc_blocks h' A ?c (Suc (?N div 64))"
        "\<forall>i. ?c \<le> i div 64 \<longrightarrow> i div 64 \<le> Suc (?N div 64) \<longrightarrow> mpsc_entry h' A i = mpsc_entry (mq_heap q1) A i"
      using sw cl by auto
    obtain b' where b': "h' (A ?c) = Some b'" "mb_next b' = A (Suc ?c)"
      by (rule nblocksE [OF h'(2), of ?c]) (use cl in \<open>auto simp: less_Suc_eq_le\<close>)
    let ?q = "q1\<lparr>mq_heap := h', mq_old_block := A ?c, mq_head_block := A (Suc ?c)\<rparr>"
    have "mpsc_advance (A ?c) new_index at_end (q\<lparr>mq_heap := (mq_heap q)(A ?c \<mapsto> b\<lparr>mb_data := d\<rparr>)\<rparr>) = Inr ?q"
      using True h'(1) b' nn en
      by (simp add: mpsc_advance_def q1_def [symmetric] deref_Some mpsc_wait_next_block_def)
    moreover have "mpsc_entries h' A (P + ?n) zs"
    proof (rule mpsc_entries_cong [OF C(2)])
      fix i assume "P + ?n \<le> i" "i div 64 \<le> Suc ((P + ?n + length zs) div 64)"
      moreover have "?c \<le> i div 64" using \<open>P + ?n \<le> i\<close> by (intro div_le_mono) simp
      ultimately show "mpsc_entry h' A i = mpsc_entry ((mq_heap q)(A ?c \<mapsto> b\<lparr>mb_data := d\<rparr>)) A i"
        using h'(3) by (simp add: q1_def add.assoc)
    qed
    moreover have "mpsc_lo ?q (P + ?n) = ?c"
      using nx(2) dv by (simp add: mpsc_lo_def block_addr_def)
    ultimately show ?thesis
      using S h'(2) dv ni by (auto simp: mpsc_shape_def add.assoc q1_def)
  qed
qed

text \<open>
  The slots of the head block from position \<open>P mod 64\<close> on hold the oldest values, and the slot after
  the last one is not ready.
\<close>

lemma mpsc_head_block:
  assumes S: "mpsc_shape q A P (ys @ zs)" and room: "P mod 64 + length ys \<le> 64"
  obtains b where "mq_heap q (mq_head_block q) = Some b" "length (mb_data b) = 64"
    "mq_head_block q = A (P div 64)"
    "\<And>j. j < length ys \<Longrightarrow> mb_data b ! (P mod 64 + j) = \<lparr>ms_value = Some (ys ! j), ms_ready = 1\<rparr>"
    "zs = [] \<Longrightarrow> P mod 64 + length ys < 64 \<Longrightarrow> ms_ready (mb_data b ! (P mod 64 + length ys)) = 0"
proof -
  let ?c = "P div 64"
  have E: "mpsc_entries (mq_heap q) A P (ys @ zs)" and hb: "mq_head_block q = A ?c"
    using S by (auto simp: mpsc_shape_def)
  have cl: "?c \<le> (P + length (ys @ zs)) div 64" by (simp add: div_le_mono)
  obtain b where b: "mq_heap q (A ?c) = Some b" "length (mb_data b) = 64"
    by (rule mpsc_shape_blockE [OF S order_refl]) (use cl in \<open>auto simp: mpsc_ok_def\<close>)
  have en: "mpsc_entry (mq_heap q) A (P + j) = Some (mb_data b ! (P mod 64 + j))"
    if "P mod 64 + j < 64" for j
    using pos_in_block [OF that] b that by (simp add: entry_def)
  have "mb_data b ! (P mod 64 + j) = \<lparr>ms_value = Some (ys ! j), ms_ready = 1\<rparr>" if "j < length ys" for j
    using E en [of j] that room by (auto simp: mpsc_entries_def nth_append dest!: spec [of _ j])
  moreover have "ms_ready (mb_data b ! (P mod 64 + length ys)) = 0"
    if "zs = []" "P mod 64 + length ys < 64"
  proof -
    have "mpsc_entry (mq_heap q) A (P + length ys) = Some \<lparr>ms_value = None, ms_ready = 0\<rparr>"
      using E that unfolding mpsc_entries_def by simp
    with en [OF that(2)] show ?thesis by (metis mslot.select_convs(2) option.inject)
  qed
  ultimately show thesis using that b hb by auto
qed

lemma mpsc_shape_index:
  assumes "mpsc_shape q A P xs"
  shows "unat (mq_head_index q AND mpsc_BLOCK_MASK) = P mod 64"
    and "mq_head_index q AND mpsc_BLOCK_MASK = mpsc_BLOCK_MASK \<longleftrightarrow> P mod 64 = 63"
    and "mq_head_index q \<ge> of_nat (P + length xs) \<longleftrightarrow> xs = []"
  using assms
  by (auto simp: mpsc_shape_def unat_mpsc_mask mpsc_mask_eq unat_of_nat word_le_nat_alt
      simp del: of_nat_add)

lemma mpsc_pop_step:
  assumes S: "mpsc_shape q A P (x # xs)"
  shows "\<exists>q'. mpsc_pop q = Inr (Some x, q') \<and> mpsc_shape q' A (Suc P) xs"
proof -
  have S': "mpsc_shape q A P ([x] @ xs)" and room: "P mod 64 + length [x] \<le> 64"
    using S mod_less_divisor [of 64 P] by simp_all
  obtain b where b: "mq_heap q (mq_head_block q) = Some b" "length (mb_data b) = 64"
      "mq_head_block q = A (P div 64)" "mb_data b ! (P mod 64) = \<lparr>ms_value = Some x, ms_ready = 1\<rparr>"
    using mpsc_head_block [OF S' room] by (metis (no_types, lifting) length_Cons add_0_right
        zero_less_Suc nth_Cons_0)
  define d where "d = (mb_data b)[P mod 64 := \<lparr>ms_value = None, ms_ready = 1\<rparr>]"
  have g: "mpsc_try_get (P mod 64) b = Inr (Some x, b\<lparr>mb_data := d\<rparr>)"
    using b by (simp add: mpsc_try_get_def mpsc_read_def d_def)
  obtain q' where q': "mpsc_advance (A (P div 64)) (mq_head_index q + 1) (P mod 64 = 63)
      (q\<lparr>mq_heap := (mq_heap q)(A (P div 64) \<mapsto> b\<lparr>mb_data := d\<rparr>)\<rparr>) = Inr q'"
      "mpsc_shape q' A (P + length [x]) xs"
    using mpsc_consume [OF S' room, of b d "P mod 64 = 63" "mq_head_index q + 1"] b S
    by (auto simp: d_def mpsc_shape_def)
  have "mpsc_pop q = Inr (Some x, q')"
    using b(1,3) g q'(1) mpsc_shape_index(1,2) [OF S] by (simp add: mpsc_pop_def Let_def deref_Some)
  with q'(2) show ?thesis by simp
qed

lemma mpsc_pop_empty:
  assumes S: "mpsc_shape q A P []" shows "mpsc_pop q = Inr (None, q)"
proof -
  have S': "mpsc_shape q A P ([] @ [])" and room: "P mod 64 + length [] \<le> 64"
    using S mod_less_divisor [of 64 P] by simp_all
  obtain b where b: "mq_heap q (mq_head_block q) = Some b" "length (mb_data b) = 64"
      "ms_ready (mb_data b ! (P mod 64)) = 0"
    by (rule mpsc_head_block [OF S' room]) auto
  then have "mpsc_try_get (P mod 64) b = Inr (None, b)" by (simp add: mpsc_try_get_def)
  with b show ?thesis
    using mpsc_shape_index [OF S] mpsc_push_index_ok [OF S]
    by (simp add: mpsc_pop_def Let_def deref_Some)
qed

lemma mpsc_try_get_range_ok:
  assumes "length (mb_data b) = 64" "i + m \<le> 64" "length ys \<le> m"
    and "\<And>j. j < length ys \<Longrightarrow> mb_data b ! (i + j) = \<lparr>ms_value = Some (ys ! j), ms_ready = 1\<rparr>"
    and "length ys < m \<Longrightarrow> ms_ready (mb_data b ! (i + length ys)) = 0"
  shows "\<exists>d. mpsc_try_get_range i m b = Inr (ys, b\<lparr>mb_data := d\<rparr>) \<and> length d = 64 \<and>
    (\<forall>j. j < i \<or> i + length ys \<le> j \<longrightarrow> d ! j = mb_data b ! j)"
  using assms
proof (induction ys arbitrary: i b m)
  case Nil
  then show ?case
    by (cases m) (auto simp: mpsc_try_get_def intro!: exI [of _ "mb_data b"])
next
  case (Cons y ys)
  let ?b = "b\<lparr>mb_data := (mb_data b)[i := \<lparr>ms_value = None, ms_ready = 1\<rparr>]\<rparr>"
  obtain m' where m: "m = Suc m'" using Cons.prems(3) by (cases m) auto
  have g: "mpsc_try_get i b = Inr (Some y, ?b)"
    using Cons.prems(1,2) Cons.prems(4) [of 0] m by (simp add: mpsc_try_get_def mpsc_read_def)
  have s: "mb_data ?b ! (Suc i + j) = \<lparr>ms_value = Some (ys ! j), ms_ready = 1\<rparr>" if "j < length ys" for j
    using Cons.prems(4) [of "Suc j"] that by simp
  have r: "length ys < m' \<Longrightarrow> ms_ready (mb_data ?b ! (Suc i + length ys)) = 0"
    using Cons.prems(5) m by simp
  have p: "length (mb_data ?b) = 64" "Suc i + m' \<le> 64" "length ys \<le> m'"
    using Cons.prems(1-3) m by auto
  obtain d where d: "mpsc_try_get_range (Suc i) m' ?b = Inr (ys, ?b\<lparr>mb_data := d\<rparr>)"
      "length d = 64" "\<forall>j. j < Suc i \<or> Suc i + length ys \<le> j \<longrightarrow> d ! j = mb_data ?b ! j"
    using Cons.IH [OF p s r] by blast
  have "mpsc_try_get_range i m b = Inr (y # ys, b\<lparr>mb_data := d\<rparr>)"
    using g d(1) m by simp
  moreover have "d ! j = mb_data b ! j" if "j < i \<or> i + length (y # ys) \<le> j" for j
    using d(3) that by (auto simp: nth_list_update)
  ultimately show ?case using d(2) by blast
qed

lemma mpsc_block_rest:
  "unat (((index + mpsc_BLOCK_SIZE) AND NOT mpsc_BLOCK_MASK) - index) = 64 - unat index mod 64"
  if "unat index + 64 < 2 ^ 64"
proof -
  let ?e = "(index + mpsc_BLOCK_SIZE) AND NOT mpsc_BLOCK_MASK"
  have "unat (index + mpsc_BLOCK_SIZE) = unat index + 64"
    using that by (simp add: mpsc_consts(1) unat_word_ariths)
  then have "unat ?e = (unat index + 64) div 64 * 64"
    using unat_and_not_mask [of "index + mpsc_BLOCK_SIZE" 6] by (simp add: mpsc_consts(2))
  moreover have "(unat index + 64) div 64 = unat index div 64 + 1" by simp
  moreover have "unat index div 64 * 64 + unat index mod 64 = unat index" by (rule div_mult_mod_eq)
  moreover have "unat index mod 64 < 64" by simp
  ultimately have "unat ?e = unat index + (64 - unat index mod 64)" by linarith
  then show ?thesis
    by (simp add: unat_sub word_le_nat_alt)
qed

text \<open>
  Without interference \<^verbatim>\<open>fast_bulk_pop\<close> takes everything queued up to the end of the head
  block, and the slow path of \<^verbatim>\<open>bulk_pop\<close> only sees an empty queue.
\<close>

lemma mpsc_bulk_pop_step:
  assumes S: "mpsc_shape q A P xs" and ix: "P + 64 < 2 ^ 64"
  shows "\<exists>q'. mpsc_bulk_pop q = Inr (take (64 - P mod 64) xs, q') \<and>
    mpsc_shape q' A (P + min (length xs) (64 - P mod 64)) (drop (64 - P mod 64) xs)"
proof -
  let ?m = "64 - P mod 64" and ?c = "P div 64" and ?i = "mq_head_index q"
  let ?ys = "take ?m xs" and ?zs = "drop ?m xs"
  have S': "mpsc_shape q A P (?ys @ ?zs)" and room: "P mod 64 + length ?ys \<le> 64"
    using S mod_less_divisor [of 64 P] by simp_all
  have ui: "unat ?i = P" using S by (simp add: mpsc_shape_def unat_of_nat)
  obtain b where b: "mq_heap q (mq_head_block q) = Some b" "length (mb_data b) = 64"
      "mq_head_block q = A ?c"
      "\<And>j. j < length ?ys \<Longrightarrow> mb_data b ! (P mod 64 + j) = \<lparr>ms_value = Some (?ys ! j), ms_ready = 1\<rparr>"
      "?zs = [] \<Longrightarrow> P mod 64 + length ?ys < 64 \<Longrightarrow> ms_ready (mb_data b ! (P mod 64 + length ?ys)) = 0"
    by (rule mpsc_head_block [OF S' room]) blast
  have nr: "length ?ys < ?m \<Longrightarrow> ms_ready (mb_data b ! (P mod 64 + length ?ys)) = 0"
    by (rule b(5)) auto
  have bounds: "P mod 64 + ?m \<le> 64" "length ?ys \<le> ?m" using mod_less_divisor [of 64 P] by auto
  obtain d where d: "mpsc_try_get_range (P mod 64) ?m b = Inr (?ys, b\<lparr>mb_data := d\<rparr>)"
      "length d = 64" "\<forall>j. j < P mod 64 \<or> P mod 64 + length ?ys \<le> j \<longrightarrow> d ! j = mb_data b ! j"
    using mpsc_try_get_range_ok [OF b(2) bounds b(4) nr] by blast
  have rest: "unat (((?i + mpsc_BLOCK_SIZE) AND NOT mpsc_BLOCK_MASK) - ?i) = ?m"
    using mpsc_block_rest [of ?i] ix ui by simp
  show ?thesis
  proof (cases "xs = []")
    case True
    then show ?thesis
      using S b(1,3) d(1) rest mpsc_shape_index [OF S] mpsc_push_index_ok [OF S]
      by (simp add: mpsc_bulk_pop_def mpsc_fast_bulk_pop_def Let_def deref_Some)
  next
    case False
    then have ne: "?ys \<noteq> []" using mod_less_divisor [of 64 P] by simp
    let ?ni = "?i + of_nat (length ?ys)"
    have ni: "?ni = of_nat (P + length ?ys)" using S by (simp add: mpsc_shape_def)
    have at: "?ni AND mpsc_BLOCK_MASK = 0 \<longleftrightarrow> P mod 64 + length ?ys = 64"
    proof -
      have "P + length xs < 2 ^ 64" "length ?ys \<le> length xs" using S by (simp_all add: mpsc_shape_def)
      then have "P + length ?ys < 2 ^ 64" by linarith
      then have "unat ?ni mod 64 = (P + length ?ys) mod 64" unfolding ni by (simp add: unat_of_nat del: of_nat_add)
      moreover have "(P + length ?ys) mod 64 = 0 \<longleftrightarrow> P mod 64 + length ?ys = 64"
        using pos_in_block(2) [of P 64 "length ?ys"] pos_block_end(2) [of P 64 "length ?ys"] room ne
        by (cases "P mod 64 + length ?ys < 64") auto
      ultimately show ?thesis by (simp add: mpsc_mask_0)
    qed
    obtain q' where q': "mpsc_advance (A ?c) ?ni (?ni AND mpsc_BLOCK_MASK = 0)
        (q\<lparr>mq_heap := (mq_heap q)(A ?c \<mapsto> b\<lparr>mb_data := d\<rparr>)\<rparr>) = Inr q'"
        "mpsc_shape q' A (P + length ?ys) ?zs"
      using mpsc_consume [OF S' room _ d(2) _ at ni, of b] b(1,3) d(3) by auto
    have "mpsc_bulk_pop q = Inr (?ys, q')"
      using ne b(1,3) d(1) rest q'(1) mpsc_shape_index(1) [OF S]
      by (simp add: mpsc_bulk_pop_def mpsc_fast_bulk_pop_def Let_def deref_Some del: take_eq_Nil)
    with q'(2) show ?thesis by (simp add: min.commute)
  qed
qed

section \<open>new and drop\<close>

lemma mpsc_new_step:
  assumes al: "valid_alloc 6 al" and q: "mpsc_new al = Inr q"
  shows "\<exists>A. mpsc_shape q A 0 []"
proof -
  obtain a1 a2 where a1: "al Map.empty = Some a1" and a2: "al [a1 \<mapsto> mpsc_zeroed 0] = Some a2"
    using q by (auto simp: mpsc_new_def mpsc_new_box_def bindE_eq_Inr alloc_eq_Inr)
  have ad: "block_addr 6 a1" "block_addr 6 a2" and ne: "a2 \<noteq> a1"
    using valid_alloc_addr [OF al a1] valid_alloc_addr [OF al a2] by (auto split: if_splits)
  let ?z = "mpsc_zeroed 0 :: 'a mblock"
  define h where "h = [a1 \<mapsto> ?z, a2 \<mapsto> mpsc_zeroed 64, a1 \<mapsto> ?z\<lparr>mb_next := a2\<rparr>]"
  have qd: "q = \<lparr>mq_heap = h, mq_tail = a1, mq_head_index = 0, mq_head_block = a1, mq_old_block = null\<rparr>"
    using q a1 a2 ne by (auto simp: mpsc_new_def mpsc_new_box_def alloc_Some modify_Some mpsc_consts h_def)
  have "mpsc_blocks [a1 \<mapsto> ?z] (\<lambda>_. a1) 0 0"
    by (rule nblocks_single) (use ad in \<open>auto simp: mpsc_ok_def\<close>)
  then have B: "mpsc_blocks h ((\<lambda>_. a1)(Suc 0 := a2)) 0 (Suc 0)"
    unfolding h_def by (rule nblocks_extend) (use ad ne in \<open>auto simp: mpsc_ok_def\<close>)
  have E: "mpsc_entry h ((\<lambda>_. a1)(Suc 0 := a2)) i = Some \<lparr>ms_value = None, ms_ready = 0\<rparr>" if i: "i div 64 \<le> Suc 0" for i
  proof -
    consider "i div 64 = 0" | "i div 64 = Suc 0" using i by linarith
    then show ?thesis by cases (use ne in \<open>auto simp: entry_def h_def\<close>)
  qed
  from B E ad show ?thesis
    by (intro exI [of _ "(\<lambda>_. a1)(Suc 0 := a2)"]) (simp add: mpsc_shape_def qd mpsc_lo_def mpsc_entries_def)
qed

lemma mpsc_drop_step:
  assumes S: "mpsc_shape q A P []"
  shows "\<exists>b h1 h2 q2. mpsc_unpack (mq_tail q) = (mq_head_block q, of_nat (P mod 64)) \<and>
    mq_heap q (mq_head_block q) = Some b \<and> mb_next b \<noteq> null \<and>
    box_free (mq_head_block q) (mq_heap q) = Inr h1 \<and> box_free (mb_next b) h1 = Inr h2 \<and>
    mpsc_swap_and_free_old_block null (q\<lparr>mq_heap := h2\<rparr>) = Inr q2 \<and> mq_heap q2 = Map.empty"
proof -
  let ?c = "P div 64"
  have B: "mpsc_blocks (mq_heap q) A (mpsc_lo q P) (Suc ?c)" and hb: "mq_head_block q = A ?c"
    and old: "mq_old_block q = null \<or> 0 < ?c \<and> mq_old_block q = A (?c - 1)"
    and tl: "mq_tail q = A ?c OR of_nat (P mod 64)"
    using S by (auto simp: mpsc_shape_def)
  obtain b where b: "mq_heap q (A ?c) = Some b" "mb_next b = A (Suc ?c)" "block_addr 6 (A ?c)"
    by (rule mpsc_shape_blockE [OF S order_refl]) auto
  obtain c where c: "mq_heap q (A (Suc ?c)) = Some c" "block_addr 6 (A (Suc ?c))"
    by (rule mpsc_shape_blockE [OF S, of "Suc ?c"]) auto
  have ne: "A (Suc ?c) \<noteq> A ?c" using nblocks_inj [OF B, of "Suc ?c" ?c] mpsc_lo_le [of q P] by simp
  let ?h = "(mq_heap q)(A ?c := None, A (Suc ?c) := None)"
  have up: "mpsc_unpack (mq_tail q) = (A ?c, of_nat (P mod 64))"
    using mpsc_unpack_addr(1) [OF b(3), of "P mod 64"] tl by simp
  have "\<exists>q2. mpsc_swap_and_free_old_block null (q\<lparr>mq_heap := ?h\<rparr>) = Inr q2 \<and> mq_heap q2 = Map.empty"
  proof (cases "mq_old_block q = null")
    case True
    then have "dom (mq_heap q) = A ` {?c..Suc ?c}" using B by (simp add: nblocks_def mpsc_lo_def)
    also have "{?c..Suc ?c} = {?c, Suc ?c}" by auto
    finally have "dom ?h = {}" by auto
    then have "?h = Map.empty" by (simp only: dom_eq_empty_conv)
    with True show ?thesis by (simp add: mpsc_swap_and_free_old_block_def)
  next
    case False
    with old have o: "mq_old_block q = A (?c - 1)" and p: "0 < ?c" by auto
    have s: "{mpsc_lo q P..Suc ?c} = {?c - 1, ?c, Suc ?c}" using False p by (auto simp: mpsc_lo_def)
    have n1: "A (?c - 1) \<noteq> A ?c" "A (?c - 1) \<noteq> A (Suc ?c)"
      using nblocks_inj [OF B, of "?c - 1" ?c] nblocks_inj [OF B, of "?c - 1" "Suc ?c"] p
      by (auto simp: s)
    have dm: "dom (mq_heap q) = A ` {?c - 1, ?c, Suc ?c}" using B by (simp add: nblocks_def s)
    then have "A (?c - 1) \<in> dom (mq_heap q)" by simp
    then obtain d where d: "mq_heap q (A (?c - 1)) = Some d" by blast
    have "dom (?h(A (?c - 1) := None)) = {}" using dm by auto
    then have "?h(A (?c - 1) := None) = Map.empty" by (simp only: dom_eq_empty_conv)
    with False o n1 d show ?thesis
      by (simp add: mpsc_swap_and_free_old_block_def box_free_Some)
  qed
  then show ?thesis
    using b c ne up by (simp add: hb box_free_Some block_addr_def)
qed

section \<open>The queue as an implementation of the contract\<close>

definition mpsc_rep :: "nat \<Rightarrow> 'a mpsc \<Rightarrow> 'a list \<Rightarrow> bool" where
  "mpsc_rep k q xs \<longleftrightarrow> (\<exists>A P. mpsc_shape q A P xs \<and> P + length xs + k < 2 ^ 64)"

interpretation mpsc_pops: pop_queue "mpsc_rep k" mpsc_pop for k
proof
  fix q :: "'a mpsc" and x xs
  assume "mpsc_rep k q (x # xs)"
  then show "\<exists>q'. mpsc_pop q = Inr (Some x, q') \<and> mpsc_rep k q' xs"
    unfolding mpsc_rep_def by (elim exE conjE) (use mpsc_pop_step in force)
qed (use mpsc_pop_empty in \<open>auto simp: mpsc_rep_def\<close>)

locale mpsc_allocator =
  fixes al :: "'a mblock allocator" and spins :: nat
  assumes valid: "valid_alloc 6 al" and spins: "0 < spins"

sublocale mpsc_allocator \<subseteq> mpsc: fifo_queue mpsc_rep mpsc_pop "mpsc_push spins al"
proof (unfold_locales; (rule mpsc_pops.pop_nil mpsc_pops.pop_cons, assumption)?)
  fix q :: "'a mpsc" and xs v m
  assume "mpsc_rep (Suc m) q xs"
  then obtain A P where S: "mpsc_shape q A P xs" "Suc (P + length xs + m) < 2 ^ 64"
    by (auto simp: mpsc_rep_def)
  then show "(\<exists>q'. mpsc_push spins al v q = Inr q' \<and> mpsc_rep m q' (xs @ [v])) \<or>
      mpsc_push spins al v q = Inl AllocError"
    unfolding mpsc_rep_def using mpsc_push_step [OF S(1) _ valid spins, of v] by fastforce
next
  fix q :: "'a mpsc" and xs v m
  assume "mpsc_rep (Suc m) q xs"
  then show "mpsc_rep m q xs" unfolding mpsc_rep_def by (metis add_Suc_right Suc_lessD)
qed

lemma mpsc_rep_drop:
  assumes "mpsc_rep k q xs" "length xs < n"
  shows "mpsc_drop n q = Inr (xs, Map.empty)"
proof -
  from mpsc_pops.drain_all [OF assms] obtain q' A P
    where d: "drain n mpsc_pop q = Inr (xs, q')" and S: "mpsc_shape q' A P []"
    by (auto simp: mpsc_rep_def)
  from mpsc_drop_step [OF S] d show ?thesis
    by (auto simp: mpsc_drop_def Let_def deref_Some)
qed

lemma mpsc_rep_len:
  assumes "mpsc_rep k q xs"
  shows "mpsc_len q = Inr (of_nat (length xs))" and "length xs < 2 ^ 64"
proof -
  from assms obtain A P where S: "mpsc_shape q A P xs" by (auto simp: mpsc_rep_def)
  then show "length xs < 2 ^ 64" by (simp add: mpsc_shape_def)
  show "mpsc_len q = Inr (of_nat (length xs))"
    using S mpsc_push_index_ok [OF S] mpsc_shape_index(3) [OF S]
    by (auto simp: mpsc_len_def mpsc_shape_def)
qed

lemma mpsc_rep_peek:
  assumes "mpsc_rep k q xs"
  shows "mpsc_peek q = Inr (case xs of [] \<Rightarrow> None | x # _ \<Rightarrow> Some x)"
proof -
  from assms obtain A P where S: "mpsc_shape q A P xs" by (auto simp: mpsc_rep_def)
  note ix = mpsc_push_index_ok [OF S] mpsc_shape_index [OF S]
  show ?thesis
  proof (cases xs)
    case Nil
    with ix show ?thesis by (simp add: mpsc_peek_def)
  next
    case (Cons x ys)
    with S have S': "mpsc_shape q A P ([x] @ ys)" by simp
    have "P mod 64 + length [x] \<le> 64" using mod_less_divisor [of 64 P] by simp
    from mpsc_head_block [OF S' this] obtain b where "mq_heap q (mq_head_block q) = Some b"
        "length (mb_data b) = 64" "mb_data b ! (P mod 64 + 0) = \<lparr>ms_value = Some ([x] ! 0), ms_ready = 1\<rparr>"
      by (metis (no_types, lifting) length_Cons zero_less_Suc)
    then show ?thesis
      using ix Cons by (simp add: mpsc_peek_def deref_Some mpsc_block_peek_def)
  qed
qed

interpretation mpsc_three: mpsc_allocator three_blocks 1
  by unfold_locales (simp_all add: valid_three_blocks)

context mpsc_allocator
begin

lemma run_new:
  assumes "mpsc_new al = Inr q" and "length ops < 2 ^ 64"
  shows "queue_run (mpsc_push spins al) mpsc_pop ops q = Inl AllocError \<or>
    (\<exists>q'. queue_run (mpsc_push spins al) mpsc_pop ops q = Inr (fst (spec_run ops []), q') \<and>
       mpsc_rep 0 q' (snd (spec_run ops [])))"
proof -
  have "mpsc_rep (length ops) q []"
    unfolding mpsc_rep_def using mpsc_new_step [OF valid assms(1)] assms(2)
    by (auto intro!: exI [of _ "0::nat"])
  then show ?thesis by (rule mpsc.run_refines)
qed

end

text \<open>A concrete run.\<close>

lemma mpsc_sample_run:
  obtains q q' :: "nat mpsc" where "mpsc_new three_blocks = Inr q"
    and "queue_run (mpsc_push 1 three_blocks) mpsc_pop [Push 1, Push 2, Pop, Push 3] q = Inr ([Some 1], q')"
    and "mq_head_index q' = 1"
proof -
  obtain q :: "nat mpsc" where q: "mpsc_new three_blocks = Inr q"
    by (simp add: mpsc_new_def mpsc_new_box_def alloc_def modify_def)
  show thesis
    by (rule that [OF q])
      (use q in \<open>auto simp: mpsc_new_def mpsc_new_box_def alloc_def modify_def mpsc_push_def
        mpsc_push_commit_def mpsc_pop_def mpsc_set_def mpsc_try_get_def mpsc_read_def mpsc_advance_def
        deref_def mpsc_unpack_def mpsc_pack_def lock_bit_def mpsc_consts(1,3) Let_def\<close>)
qed

section \<open>Properties\<close>

text \<open>
  C26: any sequence of \<^verbatim>\<open>push\<close> and \<^verbatim>\<open>pop\<close> on a new queue returns exactly what a FIFO
  list returns, with \<^verbatim>\<open>len\<close> and \<^verbatim>\<open>peek\<close> agreeing; the only other outcome is the abort of a
  failed allocation. No busy-wait is entered, no slot is read twice or before it is written, and no
  freed block is touched.
\<close>

theorem mpsc_refines_fifo:
  assumes "valid_alloc 6 al" and "0 < spins" and "mpsc_new al = Inr q" and "length ops < 2 ^ 64"
  shows "queue_run (mpsc_push spins al) mpsc_pop ops q = Inl AllocError \<or>
    (\<exists>q'. queue_run (mpsc_push spins al) mpsc_pop ops q = Inr (fst (spec_run ops []), q') \<and>
       mpsc_len q' = Inr (of_nat (length (snd (spec_run ops [])))) \<and>
       mpsc_is_empty q' = Inr (snd (spec_run ops []) = []) \<and>
       mpsc_peek q' = Inr (case snd (spec_run ops []) of [] \<Rightarrow> None | x # _ \<Rightarrow> Some x))"
proof -
  from assms(1,2) have A: "mpsc_allocator al spins" by unfold_locales
  have "mpsc_is_empty q' = Inr (ys = [])" if "mpsc_rep 0 q' ys" for q' and ys :: "'a list"
    using mpsc_rep_len [OF that] by (simp add: mpsc_is_empty_def word_of_nat_eq_0_iff)
      (auto dest: dvd_imp_le)
  with mpsc_allocator.run_new [OF A assms(3,4)] show ?thesis
    by (auto simp: mpsc_rep_len mpsc_rep_peek)
qed

theorem mpsc_refines_fifo_witness:
  "\<exists>q q'::nat mpsc. mpsc_new three_blocks = Inr q \<and>
     queue_run (mpsc_push 1 three_blocks) mpsc_pop [Push 1, Push 2, Pop, Push 3] q = Inr ([Some 1], q') \<and>
     mpsc_len q' = Inr 2 \<and> mpsc_peek q' = Inr (Some 2)"
  by (rule mpsc_sample_run)
    (use mpsc_refines_fifo [OF valid_three_blocks, where spins = 1 and
        ops = "[Push 1, Push 2, Pop, Push 3]"] in fastforce)

text \<open>
  After any run, dropping the queue drops exactly the queued values in order, passes its two
  assertions, and frees every block (the tail block, the block installed ahead of it and the
  delayed \<^verbatim>\<open>old_block\<close>) exactly once.
\<close>

theorem mpsc_drop_frees_all:
  assumes "valid_alloc 6 al" and "0 < spins" and "mpsc_new al = Inr q" and "length ops < 2 ^ 64"
    and "queue_run (mpsc_push spins al) mpsc_pop ops q = Inr (rs, q')"
    and "length (snd (spec_run ops [])) < n"
  shows "mpsc_drop n q' = Inr (snd (spec_run ops []), Map.empty)"
proof -
  from assms(1,2) have A: "mpsc_allocator al spins" by unfold_locales
  from mpsc_allocator.run_new [OF A assms(3,4)] assms(5)
  have "mpsc_rep 0 q' (snd (spec_run ops []))" by auto
  then show ?thesis using assms(6) by (rule mpsc_rep_drop)
qed

text \<open>
  \<^verbatim>\<open>bulk_pop\<close> returns, in order, the queued values up to the end of the head block and
  leaves the rest queued; it returns an empty vector only for an empty queue.
\<close>

theorem mpsc_bulk_pop_prefix:
  assumes "valid_alloc 6 al" and "0 < spins" and "mpsc_new al = Inr q" and "length ops < 2 ^ 64"
    and "queue_run (mpsc_push spins al) mpsc_pop ops q = Inr (rs, q')"
    and "unat (mq_head_index q') + 64 < 2 ^ 64"
  shows "\<exists>ys zs q2. mpsc_bulk_pop q' = Inr (ys, q2) \<and> snd (spec_run ops []) = ys @ zs \<and>
    length ys = min (length (ys @ zs)) (64 - unat (mq_head_index q') mod 64) \<and>
    (ys = [] \<longleftrightarrow> mpsc_is_empty q' = Inr True) \<and> mpsc_len q2 = Inr (of_nat (length zs)) \<and>
    mpsc_peek q2 = Inr (case zs of [] \<Rightarrow> None | z # _ \<Rightarrow> Some z)"
proof -
  from assms(1,2) have A: "mpsc_allocator al spins" by unfold_locales
  let ?xs = "snd (spec_run ops [])"
  from mpsc_allocator.run_new [OF A assms(3,4)] assms(5) have R: "mpsc_rep 0 q' ?xs" by auto
  then obtain B P where S: "mpsc_shape q' B P ?xs" by (auto simp: mpsc_rep_def)
  then have P: "unat (mq_head_index q') = P" by (simp add: mpsc_shape_def unat_of_nat)
  let ?m = "64 - P mod 64"
  from mpsc_bulk_pop_step [OF S] assms(6) obtain q2 P' where
      q2: "mpsc_bulk_pop q' = Inr (take ?m ?xs, q2)" and S2: "mpsc_shape q2 B P' (drop ?m ?xs)"
    by (auto simp: P)
  then have R2: "mpsc_rep 0 q2 (drop ?m ?xs)" by (auto simp: mpsc_rep_def mpsc_shape_def)
  have "mpsc_is_empty q' = Inr (?xs = [])"
    using mpsc_rep_len [OF R] by (simp add: mpsc_is_empty_def word_of_nat_eq_0_iff)
      (auto dest: dvd_imp_le)
  then have "take ?m ?xs = [] \<longleftrightarrow> mpsc_is_empty q' = Inr True"
    using mod_less_divisor [of 64 P] by (auto simp del: mod_less_divisor)
  then show ?thesis
    using q2 mpsc_rep_len [OF R2] mpsc_rep_peek [OF R2] P
    by (intro exI [of _ "take ?m ?xs"] exI [of _ "drop ?m ?xs"] exI [of _ q2]) simp
qed

text \<open>
  The tagged tail pointer. Packing a slot number into a block address and unpacking it again
  gives both back, the lock flag leaves the slot number alone and is removed by the mask that
  \<^verbatim>\<open>push\<close> and \<^verbatim>\<open>push_index\<close> apply, and a locked tail differs from every unlocked one, so the
  compare-and-exchange of a second producer fails while the lock is held.
\<close>

theorem mpsc_pack_unpack:
  assumes "aligned 6 p" and "p \<noteq> null" and "\<not> bit p 63" and "i \<le> mpsc_BLOCK_MASK"
  shows "mpsc_unpack (mpsc_pack p i) = (p, i) \<and>
    snd (mpsc_unpack (mpsc_pack p i OR lock_bit)) = i \<and>
    (mpsc_pack p i OR lock_bit) AND NOT lock_bit = mpsc_pack p i \<and>
    fst (mpsc_unpack (mpsc_pack p i OR lock_bit)) AND NOT lock_bit = p \<and>
    (\<forall>x. mpsc_pack p i OR lock_bit \<noteq> x AND NOT lock_bit)"
proof -
  have a: "block_addr 6 p" using assms by (simp add: block_addr_def)
  define n where "n = unat i"
  have n: "n < 64" and i: "i = of_nat n"
    using assms(4) by (simp_all add: n_def word_le_nat_alt mpsc_consts(3))
  have b: "\<not> bit i 63" "\<not> bit p 63"
    using bit_nat_high [of n 6 63] n assms(3) by (auto simp: i bit_simps)
  have 1: "mpsc_unpack (mpsc_pack p i) = (p, i)"
    using mpsc_unpack_addr(1) [OF a n] by (simp add: mpsc_pack_def i)
  have 2: "snd (mpsc_unpack (x OR lock_bit)) = snd (mpsc_unpack x)" for x
    by (auto intro!: bit_word_eqI simp: mpsc_unpack_def mpsc_consts(2) bit_simps)
  have 3: "(mpsc_pack p i OR lock_bit) AND NOT lock_bit = mpsc_pack p i"
    using b by (auto intro!: bit_word_eqI simp: mpsc_pack_def bit_simps)
  have 4: "fst (mpsc_unpack (x OR lock_bit)) AND NOT lock_bit = fst (mpsc_unpack (x AND NOT lock_bit))" for x
    by (auto intro!: bit_word_eqI simp: mpsc_unpack_def mpsc_consts(2) bit_simps)
  have 5: "mpsc_pack p i OR lock_bit \<noteq> x AND NOT lock_bit" for x
  proof
    assume "mpsc_pack p i OR lock_bit = x AND NOT lock_bit"
    then have "bit (mpsc_pack p i OR lock_bit) 63 = bit (x AND NOT lock_bit) 63" by simp
    then show False by (simp add: bit_simps)
  qed
  have 6: "mpsc_pack p i AND NOT lock_bit = mpsc_pack p i"
    using b by (auto intro!: bit_word_eqI simp: mpsc_pack_def bit_simps)
  show ?thesis using 1 2 3 4 5 6 by simp
qed

end
