(* ===== verification/Spmc_Queue.thy ===== *)
theory Spmc_Queue
  imports Queue_Spec Numbered_Blocks
begin

unbundle bit_operations_syntax

text \<open>
  The single-producer multi-consumer block queue of \<^verbatim>\<open>may_queue/src/spmc.rs\<close>, the run queue
  of a scheduler worker, with its \<^verbatim>\<open>Local\<close> and \<^verbatim>\<open>Steal\<close> handles. The head is a tagged
  pointer from which consumers take slots by compare-and-exchange; a block counts the slots that
  are still unread and is freed by the consumer that reads the last one. Each operation is one
  definition over the queue's fields and its heap of blocks, run without interference; a wait for
  another thread is the fault \<open>Spin\<close>. Index arithmetic is that of a release build.
\<close>

section \<open>Blocks\<close>

definition spmc_BLOCK_SHIFT :: nat where
  "spmc_BLOCK_SHIFT = 5"

definition spmc_BLOCK_SIZE :: usize where
  "spmc_BLOCK_SIZE = push_bit spmc_BLOCK_SHIFT 1"

definition spmc_BLOCK_MASK :: usize where
  "spmc_BLOCK_MASK = spmc_BLOCK_SIZE - 1"

record 'a cblock =
  cb_data :: "'a option list"
  cb_used :: usize
  cb_next :: ptr
  cb_start :: usize

definition spmc_fresh :: "usize \<Rightarrow> 'a cblock" where
  "spmc_fresh index =
     \<lparr>cb_data = replicate (unat spmc_BLOCK_SIZE) None, cb_used = spmc_BLOCK_SIZE, cb_next = null,
      cb_start = index\<rparr>"

definition spmc_block_new ::
  "'a cblock allocator \<Rightarrow> usize \<Rightarrow> 'a cblock heap \<Rightarrow> (ptr \<times> 'a cblock heap) res" where
  "spmc_block_new al index h = alloc al (spmc_fresh index) h"

definition spmc_set :: "usize \<Rightarrow> 'a \<Rightarrow> 'a cblock \<Rightarrow> 'a cblock" where
  "spmc_set index v b =
     b\<lparr>cb_data := (cb_data b)[unat (index AND spmc_BLOCK_MASK) := Some v]\<rparr>"

definition spmc_get :: "nat \<Rightarrow> 'a cblock \<Rightarrow> ('a \<times> 'a cblock) res" where
  "spmc_get i b =
     (if i < length (cb_data b)
      then case cb_data b ! i of
             None \<Rightarrow> Inl UninitRead
           | Some v \<Rightarrow> Inr (v, b\<lparr>cb_data := (cb_data b)[i := None]\<rparr>)
      else Inl OutOfBounds)"

text \<open>\<^verbatim>\<open>used.fetch_sub(size)\<close>, and whether these were the last unread slots.\<close>

definition spmc_mark_slots_read :: "usize \<Rightarrow> 'a cblock \<Rightarrow> bool \<times> 'a cblock" where
  "spmc_mark_slots_read sz b =
     (let old = cb_used b in (old = sz, b\<lparr>cb_used := old - sz\<rparr>))"

fun spmc_get_range :: "nat \<Rightarrow> nat \<Rightarrow> 'a cblock \<Rightarrow> ('a list \<times> 'a cblock) res" where
  "spmc_get_range i 0 b = Inr ([], b)"
| "spmc_get_range i (Suc len) b =
     bindE (spmc_get i b) (\<lambda>(v, b').
       bindE (spmc_get_range (Suc i) len b') (\<lambda>(vs, b''). Inr (v # vs, b'')))"

definition spmc_copy_to_bulk :: "usize \<Rightarrow> usize \<Rightarrow> 'a cblock \<Rightarrow> ('a list \<times> 'a cblock) res" where
  "spmc_copy_to_bulk start end b =
     (let len = end - start;
          start' = start AND spmc_BLOCK_MASK
      in spmc_get_range (unat start') (unat len) b)"

definition spmc_unpack :: "ptr \<Rightarrow> ptr \<times> usize" where
  "spmc_unpack p = (let index = p AND spmc_BLOCK_MASK in (p AND NOT spmc_BLOCK_MASK, index))"

definition spmc_pack :: "ptr \<Rightarrow> usize \<Rightarrow> ptr" where
  "spmc_pack p index = p OR index"

section \<open>The queue\<close>

record 'a spmc =
  cq_heap :: "'a cblock heap"
  cq_head :: ptr
  cq_tail_index :: usize
  cq_tail_block :: ptr

definition spmc_new :: "'a cblock allocator \<Rightarrow> 'a spmc res" where
  "spmc_new al =
     bindE (spmc_block_new al 0 Map.empty) (\<lambda>(init_block, h).
       Inr \<lparr>cq_heap = h, cq_head = init_block, cq_tail_index = 0, cq_tail_block = init_block\<rparr>)"

definition spmc_push :: "'a cblock allocator \<Rightarrow> 'a \<Rightarrow> 'a spmc \<Rightarrow> 'a spmc res" where
  "spmc_push al v q =
     (let tail = cq_tail_block q; push_index = cq_tail_index q in
      bindE (modify tail (spmc_set push_index v) (cq_heap q)) (\<lambda>h1.
        let q1 = q\<lparr>cq_heap := h1\<rparr>; new_index = push_index + 1 in
        bindE
          (if new_index AND spmc_BLOCK_MASK = 0
           then bindE (spmc_block_new al new_index h1) (\<lambda>(new_tail, h2).
                  bindE (modify tail (cb_next_update (\<lambda>_. new_tail)) h2) (\<lambda>h3.
                    Inr (q1\<lparr>cq_heap := h3, cq_tail_block := new_tail\<rparr>)))
           else Inr q1)
          (\<lambda>q2. Inr (q2\<lparr>cq_tail_index := new_index\<rparr>))))"

text \<open>
  The end of the three pop operations: the slots were read into \<open>b\<close>, mark them and free the block
  when none is left.
\<close>

definition spmc_release :: "ptr \<Rightarrow> 'a cblock \<Rightarrow> usize \<Rightarrow> 'a spmc \<Rightarrow> 'a spmc res" where
  "spmc_release block_ptr b sz q =
     (let (all_read, b') = spmc_mark_slots_read sz b; h = (cq_heap q)(block_ptr \<mapsto> b') in
      if all_read then bindE (box_free block_ptr h) (\<lambda>h'. Inr (q\<lparr>cq_heap := h'\<rparr>))
      else Inr (q\<lparr>cq_heap := h\<rparr>))"

text \<open>What \<^verbatim>\<open>pop\<close> does after its compare-and-exchange took slot \<open>i\<close> of block \<open>block_ptr\<close>.\<close>

definition spmc_pop_commit :: "ptr \<Rightarrow> ptr \<Rightarrow> usize \<Rightarrow> 'a spmc \<Rightarrow> ('a option \<times> 'a spmc) res" where
  "spmc_pop_commit head block_ptr i q =
     bindE (deref (cq_heap q) block_ptr) (\<lambda>block.
       let pop_index = cb_start block + i;
           finish = (\<lambda>q1. bindE (spmc_get (unat i) block) (\<lambda>(v, b).
                    bindE (spmc_release block_ptr b 1 q1) (\<lambda>q2. Inr (Some v, q2))))
       in
       if i = spmc_BLOCK_MASK
       then if pop_index \<ge> cq_tail_index q then Inr (None, q\<lparr>cq_head := head\<rparr>)
            else finish (q\<lparr>cq_head := cb_next block\<rparr>)
       else if pop_index \<ge> cq_tail_index q then Inl Spin
            else finish q)"

fun spmc_pop_loop ::
  "nat \<Rightarrow> ptr \<Rightarrow> usize \<Rightarrow> ptr \<Rightarrow> 'a spmc \<Rightarrow> ('a option \<times> 'a spmc) res" where
  "spmc_pop_loop 0 head push_index tail_block q = Inl Spin"
| "spmc_pop_loop (Suc n) head0 push_index tail_block q =
     (let head = head0 AND NOT lock_bit;
          (block, i) = spmc_unpack head
      in
      if block = tail_block \<and> i \<ge> push_index AND spmc_BLOCK_MASK then Inr (None, q)
      else
        let new_head = (if i \<noteq> spmc_BLOCK_MASK then spmc_pack block (i + 1) else head OR lock_bit) in
        if cq_head q = head
        then spmc_pop_commit head block i (q\<lparr>cq_head := new_head\<rparr>)
        else spmc_pop_loop n (cq_head q) (cq_tail_index q) (cq_tail_block q) q)"

definition spmc_pop :: "nat \<Rightarrow> 'a spmc \<Rightarrow> ('a option \<times> 'a spmc) res" where
  "spmc_pop n q = spmc_pop_loop n (cq_head q) (cq_tail_index q) (cq_tail_block q) q"

definition spmc_local_pop_commit ::
  "ptr \<Rightarrow> ptr \<Rightarrow> usize \<Rightarrow> usize \<Rightarrow> 'a spmc \<Rightarrow> ('a option \<times> 'a spmc) res" where
  "spmc_local_pop_commit head block_ptr i push_index q =
     bindE (deref (cq_heap q) block_ptr) (\<lambda>block.
       let pop_index = cb_start block + i;
           finish = (\<lambda>q1. bindE (spmc_get (unat i) block) (\<lambda>(v, b).
                    bindE (spmc_release block_ptr b 1 q1) (\<lambda>q2. Inr (Some v, q2))))
       in
       if i = spmc_BLOCK_MASK
       then if pop_index \<ge> push_index then Inr (None, q\<lparr>cq_head := head\<rparr>)
            else finish (q\<lparr>cq_head := cb_next block\<rparr>)
       else if pop_index \<ge> push_index
       then bindE (assertE (pop_index = push_index)) (\<lambda>_.
            bindE (spmc_release block_ptr block 1 (q\<lparr>cq_tail_index := push_index + 1\<rparr>)) (\<lambda>q1.
              Inr (None, q1)))
       else finish q)"

fun spmc_local_pop_loop ::
  "nat \<Rightarrow> ptr \<Rightarrow> usize \<Rightarrow> ptr \<Rightarrow> 'a spmc \<Rightarrow> ('a option \<times> 'a spmc) res" where
  "spmc_local_pop_loop 0 head push_index tail_block q = Inl Spin"
| "spmc_local_pop_loop (Suc n) head0 push_index tail_block q =
     (let head = head0 AND NOT lock_bit;
          (block, i) = spmc_unpack head
      in
      if block = tail_block \<and> i \<ge> push_index AND spmc_BLOCK_MASK then Inr (None, q)
      else
        let new_head = (if i \<noteq> spmc_BLOCK_MASK then spmc_pack block (i + 1) else head OR lock_bit) in
        if cq_head q = head
        then spmc_local_pop_commit head block i push_index (q\<lparr>cq_head := new_head\<rparr>)
        else spmc_local_pop_loop n (cq_head q) push_index tail_block q)"

definition spmc_local_pop :: "nat \<Rightarrow> 'a spmc \<Rightarrow> ('a option \<times> 'a spmc) res" where
  "spmc_local_pop n q = spmc_local_pop_loop n (cq_head q) (cq_tail_index q) (cq_tail_block q) q"

definition spmc_bulk_commit ::
  "ptr \<Rightarrow> ptr \<Rightarrow> usize \<Rightarrow> usize \<Rightarrow> 'a spmc \<Rightarrow> ('a list \<times> 'a spmc) res" where
  "spmc_bulk_commit head block_ptr i new_id q =
     bindE (deref (cq_heap q) block_ptr) (\<lambda>block.
       let block_start = cb_start block;
           pop_index = block_start + i;
           finish = (\<lambda>end q1. bindE (spmc_copy_to_bulk pop_index end block) (\<lambda>(value, b).
                    bindE (spmc_release block_ptr b (end - pop_index) q1) (\<lambda>q2. Inr (value, q2))))
       in
       if new_id = 0
       then
         let push_index = cq_tail_index q in
         if pop_index \<ge> push_index then Inr ([], q\<lparr>cq_head := head\<rparr>)
         else
           let end = min (block_start + spmc_BLOCK_SIZE) push_index;
               new_id' = end AND spmc_BLOCK_MASK
           in if new_id' = 0 then finish end (q\<lparr>cq_head := cb_next block\<rparr>)
              else finish end (q\<lparr>cq_head := spmc_pack block_ptr new_id'\<rparr>)
       else
         let end = block_start + new_id in
         if end > cq_tail_index q then Inl Spin else finish end q)"

fun spmc_bulk_pop_loop ::
  "nat \<Rightarrow> ptr \<Rightarrow> usize \<Rightarrow> ptr \<Rightarrow> 'a spmc \<Rightarrow> ('a list \<times> 'a spmc) res" where
  "spmc_bulk_pop_loop 0 head push_index tail_block q = Inl Spin"
| "spmc_bulk_pop_loop (Suc n) head0 push_index tail_block q =
     (let head = head0 AND NOT lock_bit;
          (block, i) = spmc_unpack head;
          push_id = push_index AND spmc_BLOCK_MASK
      in
      if block = tail_block \<and> i \<ge> push_id then Inr ([], q)
      else
        let new_id = (if block \<noteq> tail_block then 0 else push_id);
            new_head = (if new_id = 0 then head OR lock_bit else spmc_pack block new_id)
        in
        if cq_head q = head
        then spmc_bulk_commit head block i new_id (q\<lparr>cq_head := new_head\<rparr>)
        else spmc_bulk_pop_loop n (cq_head q) (cq_tail_index q) (cq_tail_block q) q)"

definition spmc_bulk_pop :: "nat \<Rightarrow> 'a spmc \<Rightarrow> ('a list \<times> 'a spmc) res" where
  "spmc_bulk_pop n q = spmc_bulk_pop_loop n (cq_head q) (cq_tail_index q) (cq_tail_block q) q"

definition spmc_len :: "'a spmc \<Rightarrow> usize res" where
  "spmc_len q =
     (let head = cq_head q AND NOT lock_bit; (block_ptr, i) = spmc_unpack head in
      bindE (deref (cq_heap q) block_ptr) (\<lambda>block.
        let pop_index = cb_start block + i in Inr (cq_tail_index q - pop_index)))"

definition spmc_is_empty :: "'a spmc \<Rightarrow> bool" where
  "spmc_is_empty q =
     (let head = cq_head q AND NOT lock_bit; (block, i) = spmc_unpack head in
      block = cq_tail_block q \<and> i = cq_tail_index q AND spmc_BLOCK_MASK)"

text \<open>\<^verbatim>\<open>Drop for Queue\<close>: the values it drains and the heap it leaves.\<close>

definition spmc_drop :: "nat \<Rightarrow> nat \<Rightarrow> 'a spmc \<Rightarrow> ('a list \<times> 'a cblock heap) res" where
  "spmc_drop spins n q =
     bindE (drain n (spmc_pop spins) q) (\<lambda>(xs, q1).
       let (block, i) = spmc_unpack (cq_head q1); tail = cq_tail_block q1 in
       bindE (assertE (block = tail)) (\<lambda>_.
       bindE (box_free block (cq_heap q1)) (\<lambda>h. Inr (xs, h))))"

section \<open>The Local and Steal handles\<close>

definition local_is_stealable :: "'a spmc \<Rightarrow> bool" where
  "local_is_stealable q = (\<not> spmc_is_empty q)"

definition local_has_tasks :: "'a spmc \<Rightarrow> bool" where
  "local_has_tasks q = (\<not> spmc_is_empty q)"

fun local_push_all :: "'a cblock allocator \<Rightarrow> 'a list \<Rightarrow> 'a spmc \<Rightarrow> 'a spmc res" where
  "local_push_all al [] q = Inr q"
| "local_push_all al (t # ts) q = bindE (spmc_push al t q) (local_push_all al ts)"

text \<open>
  \<^verbatim>\<open>Steal::steal_into\<close>: \<open>same\<close> is the outcome of \<^verbatim>\<open>ptr::eq(&self.0, &dst.0)\<close>, the identity
  of the two handles.
\<close>

definition steal_into ::
  "nat \<Rightarrow> 'a cblock allocator \<Rightarrow> bool \<Rightarrow> 'a spmc \<Rightarrow> 'a spmc \<Rightarrow> ('a option \<times> 'a spmc \<times> 'a spmc) res" where
  "steal_into spins al same src dst =
     (if same then Inr (None, src, dst)
      else
        bindE (spmc_bulk_pop spins src) (\<lambda>(v, src').
          let ret = (if v = [] then None else Some (last v)) in
          bindE (local_push_all al (butlast v) dst) (\<lambda>dst'. Inr (ret, src', dst'))))"

text \<open>\<^verbatim>\<open>Drop for Local\<close> on a thread that is not panicking.\<close>

definition local_drop :: "nat \<Rightarrow> 'a spmc \<Rightarrow> 'a spmc res" where
  "local_drop spins q =
     bindE (spmc_local_pop spins q) (\<lambda>(r, q').
       bindE (assertE (r = None)) (\<lambda>_. Inr q'))"

section \<open>Representation\<close>

lemma spmc_consts: "spmc_BLOCK_SIZE = 32" "spmc_BLOCK_MASK = mask 5" "spmc_BLOCK_MASK = 31"
  by (simp_all add: spmc_BLOCK_SIZE_def spmc_BLOCK_MASK_def spmc_BLOCK_SHIFT_def
      mask_eq_exp_minus_1 push_bit_eq_mult)

lemma unat_spmc_mask: "unat (x AND spmc_BLOCK_MASK) = unat x mod 32"
  using unat_and_mask [of x 5] by (simp add: spmc_consts(2))

lemma spmc_mask_0: "x AND spmc_BLOCK_MASK = 0 \<longleftrightarrow> unat x mod 32 = 0"
  using and_mask_eq_0_iff [of x 5] by (simp add: spmc_consts(2))

lemma unat_of_nat_mod32 [simp]: "unat (of_nat (n mod 32) :: usize) = n mod 32"
  by (simp add: unat_of_nat)

lemma spmc_of_nat_mod:
  "(of_nat (n mod 32) :: usize) = spmc_BLOCK_MASK \<longleftrightarrow> n mod 32 = 31"
  "n < 2 ^ 64 \<Longrightarrow> (of_nat n :: usize) AND spmc_BLOCK_MASK = of_nat (n mod 32)"
  by (simp_all add: word_unat_eq_iff unat_spmc_mask unat_of_nat del: of_nat_mod)
    (simp add: spmc_consts(3))

text \<open>
  \<open>P\<close> is the pop index, \<open>P + length xs\<close> the push index, \<open>A j\<close> the address of the block that starts at
  \<open>32 * j\<close>. A live block has as many slots to read as its counter says.
\<close>

definition spmc_ok :: "nat \<Rightarrow> 'a cblock \<Rightarrow> bool" where
  "spmc_ok j b \<longleftrightarrow> cb_start b = of_nat (32 * j) \<and> length (cb_data b) = 32"

abbreviation "spmc_blocks \<equiv> nblocks 5 cb_next spmc_ok"
abbreviation "spmc_entry \<equiv> entry 32 cb_data"

definition spmc_counts :: "'a cblock heap \<Rightarrow> (nat \<Rightarrow> ptr) \<Rightarrow> nat \<Rightarrow> nat \<Rightarrow> bool" where
  "spmc_counts h A P hi \<longleftrightarrow>
     (\<forall>j b. P div 32 \<le> j \<longrightarrow> j \<le> hi \<longrightarrow> h (A j) = Some b \<longrightarrow>
        cb_used b = of_nat (32 - (if j = P div 32 then P mod 32 else 0)))"

lemma spmc_countsI:
  assumes "\<And>b. h (A (P div 32)) = Some b \<Longrightarrow> cb_used b = of_nat (32 - P mod 32)"
    and "\<And>j b. P div 32 < j \<Longrightarrow> j \<le> hi \<Longrightarrow> h (A j) = Some b \<Longrightarrow> cb_used b = 32"
  shows "spmc_counts h A P hi"
  using assms unfolding spmc_counts_def by (auto simp: le_less)

lemma spmc_countsD:
  assumes "spmc_counts h A P hi"
  shows "P div 32 \<le> hi \<Longrightarrow> h (A (P div 32)) = Some b \<Longrightarrow> cb_used b = of_nat (32 - P mod 32)"
    and "P div 32 < j \<Longrightarrow> j \<le> hi \<Longrightarrow> h (A j) = Some b \<Longrightarrow> cb_used b = 32"
proof -
  note D = assms [unfolded spmc_counts_def, rule_format]
  show "cb_used b = of_nat (32 - P mod 32)" if "P div 32 \<le> hi" "h (A (P div 32)) = Some b"
    using D [OF order_refl that] by simp
  show "cb_used b = 32" if "P div 32 < j" "j \<le> hi" "h (A j) = Some b"
    using D [OF less_imp_le [OF that(1)] that(2,3)] that(1) by simp
qed

definition spmc_shape :: "'a spmc \<Rightarrow> (nat \<Rightarrow> ptr) \<Rightarrow> nat \<Rightarrow> 'a list \<Rightarrow> bool" where
  "spmc_shape q A P xs \<longleftrightarrow>
     spmc_blocks (cq_heap q) A (P div 32) ((P + length xs) div 32) \<and>
     P + length xs < 2 ^ 64 \<and>
     cq_head q = A (P div 32) OR of_nat (P mod 32) \<and>
     cq_tail_index q = of_nat (P + length xs) \<and> cq_tail_block q = A ((P + length xs) div 32) \<and>
     spmc_counts (cq_heap q) A P ((P + length xs) div 32) \<and>
     (\<forall>i < length xs. spmc_entry (cq_heap q) A (P + i) = Some (Some (xs ! i)))"

lemma spmc_unpack_addr:
  assumes "block_addr 5 a" "n < 32"
  shows "spmc_unpack (a OR of_nat n) = (a, of_nat n)"
    and "(a OR of_nat n) AND NOT lock_bit = a OR of_nat n"
  using pack_index [of 5 a n] pack_unlocked [of 5 a n] assms
  by (simp_all add: spmc_unpack_def spmc_consts(2) block_addr_def)

lemma spmc_le: "P div 32 \<le> (P + n) div 32" for P n :: nat
  by (simp add: div_le_mono)

lemma spmc_shape_head:
  assumes S: "spmc_shape q A P xs"
  obtains b where "cq_heap q (A (P div 32)) = Some b" "spmc_ok (P div 32) b"
    "cb_next b = (if P div 32 < (P + length xs) div 32 then A (Suc (P div 32)) else null)"
    "cb_used b = of_nat (32 - P mod 32)"
    "spmc_unpack (cq_head q) = (A (P div 32), of_nat (P mod 32))"
    "cq_head q AND NOT lock_bit = cq_head q" "block_addr 5 (A (P div 32))"
proof -
  have B: "spmc_blocks (cq_heap q) A (P div 32) ((P + length xs) div 32)"
    using S by (simp add: spmc_shape_def)
  obtain b where b: "cq_heap q (A (P div 32)) = Some b" "spmc_ok (P div 32) b"
      "cb_next b = (if P div 32 < (P + length xs) div 32 then A (Suc (P div 32)) else null)"
      "block_addr 5 (A (P div 32))"
    by (rule nblocksE [OF B order_refl spmc_le])
  have "cb_used b = of_nat (32 - P mod 32)"
    using S b(1) spmc_le by (fastforce simp: spmc_shape_def spmc_counts_def)
  with b spmc_unpack_addr [OF b(4), of "P mod 32"] S show thesis
    by (intro that [of b]) (simp_all add: spmc_shape_def)
qed

section \<open>push\<close>

lemma spmc_write:
  assumes S: "spmc_shape q A P xs"
  obtains b h1 where "modify (cq_tail_block q) (spmc_set (cq_tail_index q) v) (cq_heap q) = Inr h1"
    "h1 (cq_tail_block q) = Some b"
    "spmc_blocks h1 A (P div 32) ((P + length xs) div 32)" "spmc_ok ((P + length xs) div 32) b"
    "spmc_counts h1 A P ((P + length xs) div 32)"
    "\<forall>i < length (xs @ [v]). spmc_entry h1 A (P + i) = Some (Some ((xs @ [v]) ! i))"
proof -
  let ?N = "P + length xs" and ?h = "cq_heap q"
  let ?j = "?N div 32"
  have B: "spmc_blocks ?h A (P div 32) ?j" and t: "cq_tail_block q = A ?j" "cq_tail_index q = of_nat ?N"
    and N: "?N < 2 ^ 64" and K: "spmc_counts ?h A P ?j"
    and E: "\<And>i. i < length xs \<Longrightarrow> spmc_entry ?h A (P + i) = Some (Some (xs ! i))"
    using S by (auto simp: spmc_shape_def)
  obtain b where b: "?h (A ?j) = Some b" "spmc_ok ?j b"
    by (rule nblocksE [OF B spmc_le order_refl])
  have bl: "length (cb_data b) = 32" using b(2) by (simp add: spmc_ok_def)
  define b1 where "b1 = b\<lparr>cb_data := (cb_data b)[?N mod 32 := Some v]\<rparr>"
  have st: "spmc_set (cq_tail_index q) v b = b1"
    using N by (simp add: spmc_set_def b1_def t unat_spmc_mask unat_of_nat del: of_nat_add)
  let ?h1 = "?h(A ?j \<mapsto> b1)"
  have B1: "spmc_blocks ?h1 A (P div 32) ?j"
    by (rule nblocks_upd [OF B spmc_le order_refl b(1)]) (use b in \<open>auto simp: b1_def spmc_ok_def\<close>)
  have K1: "spmc_counts ?h1 A P ?j"
    using K b(1) unfolding spmc_counts_def by (auto simp: b1_def)
  have "spmc_entry ?h1 A (P + i) = Some (Some ((xs @ [v]) ! i))" if i: "i < length (xs @ [v])" for i
  proof -
    have "(P + i) div 32 \<le> ?j" using i by (intro div_le_mono) simp
    then have "spmc_entry ?h1 A (P + i) = (if P + i = ?j * 32 + ?N mod 32 then Some (Some v) else spmc_entry ?h A (P + i))"
      by (intro entry_upd [OF B spmc_le order_refl spmc_le _ b(1)]) (auto simp: b1_def bl)
    with i E show ?thesis by (auto simp: nth_append less_Suc_eq)
  qed
  moreover have "modify (cq_tail_block q) (spmc_set (cq_tail_index q) v) ?h = Inr ?h1"
    using b(1) st by (simp add: t(1) modify_Some)
  ultimately show thesis
    using that [of ?h1 b1] B1 K1 b(2) by (simp add: t b1_def spmc_ok_def)
qed

lemma spmc_counts_extend:
  assumes B: "spmc_blocks h A (P div 32) hi" and le: "P div 32 \<le> hi" and K: "spmc_counts h A P hi"
    and a: "h a = None" and b: "h (A hi) = Some b" and nb: "cb_used nb = 32" and b': "cb_used b' = cb_used b"
  shows "spmc_counts (h(a \<mapsto> nb, A hi \<mapsto> b')) (A(Suc hi := a)) P (Suc hi)"
proof (rule spmc_countsI)
  let ?h = "h(a \<mapsto> nb, A hi \<mapsto> b')" and ?A = "A(Suc hi := a)"
  fix c assume c: "?h (?A (P div 32)) = Some c"
  obtain c' where c': "h (A (P div 32)) = Some c'" by (rule nblocksE [OF B order_refl le])
  have "P div 32 \<noteq> Suc hi" using le by simp
  with c c' a b b' have "cb_used c = cb_used c'"
    by (cases "A (P div 32) = A hi") (auto split: if_splits)
  then show "cb_used c = of_nat (32 - P mod 32)"
    using spmc_countsD(1) [OF K le c'] by simp
next
  let ?h = "h(a \<mapsto> nb, A hi \<mapsto> b')" and ?A = "A(Suc hi := a)"
  fix i c assume i: "P div 32 < i" "i \<le> Suc hi" "?h (?A i) = Some c"
  have ne: "A hi \<noteq> a" using a b by auto
  show "cb_used c = 32"
  proof (cases "i = Suc hi")
    case True
    with i(3) ne nb show ?thesis by simp
  next
    case False
    with i have le': "i \<le> hi" by simp
    obtain c' where c': "h (A i) = Some c'" by (rule nblocksE [OF B less_imp_le [OF i(1)] le'])
    then have "cb_used c = cb_used c'"
      using i(3) False a b b' by (cases "A i = A hi") (auto split: if_splits)
    with spmc_countsD(2) [OF K i(1) le' c'] show ?thesis by simp
  qed
qed

lemma spmc_push_step:
  assumes S: "spmc_shape q A P xs" and room: "Suc (P + length xs) < 2 ^ 64"
    and al: "valid_alloc 5 al"
  shows "spmc_push al v q = Inl AllocError \<or>
    (\<exists>q' A'. spmc_push al v q = Inr q' \<and> spmc_shape q' A' P (xs @ [v]))"
proof -
  let ?N = "P + length xs"
  let ?j = "?N div 32"
  have t: "cq_tail_block q = A ?j" "cq_tail_index q + 1 = of_nat (Suc ?N)"
    using S by (auto simp: spmc_shape_def)
  obtain b h1 where w: "modify (cq_tail_block q) (spmc_set (cq_tail_index q) v) (cq_heap q) = Inr h1"
      "h1 (A ?j) = Some b" "spmc_blocks h1 A (P div 32) ?j" "spmc_ok ?j b" "spmc_counts h1 A P ?j"
      and E: "\<forall>i < length (xs @ [v]). spmc_entry h1 A (P + i) = Some (Some ((xs @ [v]) ! i))"
    by (rule spmc_write [OF S, of v]) (auto simp: t)
  have mk: "cq_tail_index q + 1 AND spmc_BLOCK_MASK = 0 \<longleftrightarrow> Suc ?N mod 32 = 0"
    using room by (simp add: t(2) spmc_mask_0 unat_of_nat del: of_nat_Suc of_nat_add)
  show ?thesis
  proof (cases "Suc ?N mod 32 = 0")
    case False
    let ?q = "q\<lparr>cq_heap := h1, cq_tail_index := cq_tail_index q + 1\<rparr>"
    have "spmc_push al v q = Inr ?q" using w(1) False by (simp add: spmc_push_def mk)
    moreover have "spmc_shape ?q A P (xs @ [v])"
      using S w E room Suc_div_same [OF False] t(2) by (simp add: spmc_shape_def)
    ultimately show ?thesis by blast
  next
    case True
    note dv = Suc_div_next [OF True]
    have st: "(of_nat (Suc ?N) :: usize) = of_nat (32 * Suc ?j)"
    proof -
      have "Suc ?N = 32 * Suc ?j" using True dv by (metis mult_div_mod_eq add_0_right zero_less_numeral)
      then show ?thesis by (simp only:)
    qed
    show ?thesis
    proof (cases "al h1")
      case None
      then show ?thesis
        using w(1) True by (simp add: spmc_push_def mk spmc_block_new_def alloc_None)
    next
      case (Some a)
      note a = valid_alloc_addr [OF al Some]
      let ?h = "h1(a \<mapsto> spmc_fresh (of_nat (Suc ?N)), A ?j \<mapsto> b\<lparr>cb_next := a\<rparr>)" and ?A = "A(Suc ?j := a)"
      let ?q = "q\<lparr>cq_heap := ?h, cq_tail_block := a, cq_tail_index := of_nat (Suc ?N)\<rparr>"
      have ne: "A ?j \<noteq> a" using a w(2) by auto
      have "spmc_push al v q = Inr ?q"
        using w(1,2) True Some ne
        by (simp add: spmc_push_def mk [unfolded t(2)] spmc_block_new_def alloc_Some modify_Some t Let_def
            del: of_nat_Suc of_nat_add)
      moreover have "spmc_blocks ?h ?A (P div 32) (Suc ?j)"
        by (rule nblocks_extend [OF w(3) spmc_le _ _ _ _ w(2)])
          (use a w(4) in \<open>auto simp: spmc_ok_def spmc_fresh_def st spmc_consts simp del: of_nat_Suc of_nat_add\<close>)
      moreover have "spmc_counts ?h ?A P (Suc ?j)"
        by (rule spmc_counts_extend [OF w(3) spmc_le w(5)]) (use a w(2) in \<open>auto simp: spmc_fresh_def spmc_consts\<close>)
      moreover have "spmc_entry ?h ?A (P + i) = Some (Some ((xs @ [v]) ! i))" if i: "i < length (xs @ [v])" for i
      proof -
        have "(P + i) div 32 \<le> ?j" using i by (intro div_le_mono) simp
        then have "spmc_entry ?h ?A (P + i) = spmc_entry h1 A (P + i)"
          by (intro entry_extend [OF w(3) spmc_le _ _ w(2)]) (use a in auto)
        with E i show ?thesis by simp
      qed
      moreover have "P div 32 \<noteq> Suc ?j" using spmc_le [of P "length xs"] by linarith
      ultimately show ?thesis
        using S room dv by (intro disjI2 exI [of _ ?q] exI [of _ ?A]) (simp add: spmc_shape_def)
    qed
  qed
qed

section \<open>The pops\<close>

text \<open>
  What taking the values \<open>ys\<close> from the head block does to the memory: the slots are emptied, the
  counter goes down, and the block is freed when it reaches zero.
\<close>

lemma spmc_consume:
  assumes S: "spmc_shape q A P (ys @ zs)" and room: "P mod 32 + length ys \<le> 32" and ne: "ys \<noteq> []"
    and b: "cq_heap q (A (P div 32)) = Some b" "length d = 32"
    and d: "\<And>j. j < 32 \<Longrightarrow> P mod 32 + length ys \<le> j \<Longrightarrow> d ! j = cb_data b ! j"
    and sz: "sz = of_nat (length ys)"
    and hd: "hd' = (if P mod 32 + length ys = 32 then A (Suc (P div 32))
                    else A (P div 32) OR of_nat (P mod 32 + length ys))"
  shows "\<exists>q'. spmc_release (A (P div 32)) (b\<lparr>cb_data := d\<rparr>) sz (q\<lparr>cq_head := hd'\<rparr>) = Inr q' \<and>
    spmc_shape q' A (P + length ys) zs"
proof -
  let ?c = "P div 32" and ?n = "length ys" and ?N = "P + length (ys @ zs)"
  let ?b = "b\<lparr>cb_data := d, cb_used := of_nat (32 - (P mod 32 + ?n))\<rparr>"
  let ?h = "(cq_heap q)(A ?c \<mapsto> ?b)"
  have B: "spmc_blocks (cq_heap q) A ?c (?N div 32)" and K: "spmc_counts (cq_heap q) A P (?N div 32)"
    and E: "\<And>i. i < length (ys @ zs) \<Longrightarrow> spmc_entry (cq_heap q) A (P + i) = Some (Some ((ys @ zs) ! i))"
    using S by (auto simp: spmc_shape_def)
  have bok: "spmc_ok ?c b" "cb_used b = of_nat (32 - P mod 32)"
    by (rule spmc_shape_head [OF S]; use b(1) in auto)+
  have us: "cb_used b - sz = of_nat (32 - (P mod 32 + ?n))"
    using room by (simp add: bok(2) sz of_nat_diff)
  have eq: "cb_used b = sz \<longleftrightarrow> P mod 32 + ?n = 32"
  proof -
    have "unat (cb_used b) = 32 - P mod 32" "unat sz = ?n"
      using room by (simp_all add: bok(2) sz unat_of_nat del: of_nat_diff)
    then show ?thesis using mod_less_divisor [of 32 P] by (auto simp: word_unat_eq_iff)
  qed
  have B1: "spmc_blocks ?h A ?c (?N div 32)"
    by (rule nblocks_upd [OF B order_refl spmc_le b(1)]) (use bok b(2) in \<open>auto simp: spmc_ok_def\<close>)
  have E1: "spmc_entry ?h A (P + ?n + i) = Some (Some (zs ! i))" if i: "i < length zs" for i
  proof -
    have "spmc_entry ?h A (P + ?n + i) = spmc_entry (cq_heap q) A (P + ?n + i)"
    proof (rule entry_agree [OF B order_refl spmc_le])
      show "?c \<le> (P + ?n + i) div 32" "(P + ?n + i) div 32 \<le> ?N div 32"
        using i by (auto intro: div_le_mono)
      show "cb_data ?b ! ((P + ?n + i) mod 32) = cb_data b ! ((P + ?n + i) mod 32)"
        if "(P + ?n + i) div 32 = ?c"
      proof -
        have "P mod 32 + ?n \<le> (P + ?n + i) mod 32"
          using that div_mult_mod_eq [of "P + ?n + i" 32] div_mult_mod_eq [of P 32] by linarith
        then show ?thesis using d by simp
      qed
    qed (use b bok in \<open>auto simp: spmc_ok_def\<close>)
    with E [of "?n + i"] i show ?thesis by (simp add: add.assoc nth_append)
  qed
  let ?q = "q\<lparr>cq_head := hd'\<rparr>"
  show ?thesis
  proof (cases "P mod 32 + ?n = 32")
    case False
    then have dv: "(P + ?n) div 32 = ?c" "(P + ?n) mod 32 = P mod 32 + ?n"
      using pos_in_block [of P 32 ?n] room by simp_all
    have "spmc_release (A ?c) (b\<lparr>cb_data := d\<rparr>) sz ?q = Inr (?q\<lparr>cq_heap := ?h\<rparr>)"
      using False eq us by (simp add: spmc_release_def spmc_mark_slots_read_def Let_def)
    moreover have "spmc_counts ?h A (P + ?n) (?N div 32)"
    proof (rule spmc_countsI)
      fix j c assume "(P + ?n) div 32 < j" "j \<le> ?N div 32" "?h (A j) = Some c"
      then show "cb_used c = 32"
        using spmc_countsD(2) [OF K] nblocks_inj [OF B, of j ?c] spmc_le dv by (auto split: if_splits)
    qed (simp add: dv del: of_nat_diff)
    ultimately show ?thesis
      using S B1 E1 dv False hd by (simp add: spmc_shape_def add.assoc)
  next
    case True
    then have dv: "(P + ?n) div 32 = Suc ?c" "(P + ?n) mod 32 = 0"
      using pos_block_end [of P 32 ?n] by simp_all
    then have lt: "?c < ?N div 32" using div_le_mono [of "P + ?n" ?N 32] by simp
    let ?h' = "?h(A ?c := None)"
    have "spmc_release (A ?c) (b\<lparr>cb_data := d\<rparr>) sz ?q = Inr (?q\<lparr>cq_heap := ?h'\<rparr>)"
      using True eq us by (simp add: spmc_release_def spmc_mark_slots_read_def box_free_Some Let_def)
    moreover have "spmc_blocks ?h' A (Suc ?c) (?N div 32)" by (rule nblocks_free [OF B1 lt])
    moreover have "spmc_counts ?h' A (P + ?n) (?N div 32)"
    proof (rule spmc_countsI)
      fix c assume "?h' (A ((P + ?n) div 32)) = Some c"
      then have "cq_heap q (A (Suc ?c)) = Some c" by (auto simp: dv split: if_splits)
      then show "cb_used c = of_nat (32 - (P + ?n) mod 32)"
        using spmc_countsD(2) [OF K, of "Suc ?c" c] lt dv by simp
    next
      fix j c assume "(P + ?n) div 32 < j" "j \<le> ?N div 32" "?h' (A j) = Some c"
      then show "cb_used c = 32"
        using spmc_countsD(2) [OF K, of j c] dv by (auto split: if_splits)
    qed
    moreover have "spmc_entry ?h' A (P + ?n + i) = Some (Some (zs ! i))" if i: "i < length zs" for i
    proof -
      have "?c < (P + ?n + i) div 32" "(P + ?n + i) div 32 \<le> ?N div 32"
        using div_le_mono [of "P + ?n" "P + ?n + i" 32] div_le_mono [of "P + ?n + i" ?N 32] dv i by simp_all
      then show ?thesis using entry_free [OF B1, of "P + ?n + i" 32 cb_data] E1 [OF i] by simp
    qed
    ultimately show ?thesis
      using S dv True hd by (simp add: spmc_shape_def add.assoc)
  qed
qed

lemma spmc_get_range_ok:
  assumes "length (cb_data b) = 32" "i + length ys \<le> 32"
    and "\<And>j. j < length ys \<Longrightarrow> cb_data b ! (i + j) = Some (ys ! j)"
  shows "\<exists>d. spmc_get_range i (length ys) b = Inr (ys, b\<lparr>cb_data := d\<rparr>) \<and> length d = 32 \<and>
    (\<forall>j. j < i \<or> i + length ys \<le> j \<longrightarrow> d ! j = cb_data b ! j)"
  using assms
proof (induction ys arbitrary: i b)
  case Nil
  then show ?case by (auto intro!: exI [of _ "cb_data b"])
next
  case (Cons y ys)
  let ?b = "b\<lparr>cb_data := (cb_data b)[i := None]\<rparr>"
  have g: "spmc_get i b = Inr (y, ?b)"
    using Cons.prems(1,2) Cons.prems(3) [of 0] by (simp add: spmc_get_def)
  have s: "cb_data ?b ! (Suc i + j) = Some (ys ! j)" if "j < length ys" for j
    using Cons.prems(3) [of "Suc j"] that by simp
  have p: "length (cb_data ?b) = 32" "Suc i + length ys \<le> 32" using Cons.prems(1,2) by auto
  obtain d where d: "spmc_get_range (Suc i) (length ys) ?b = Inr (ys, ?b\<lparr>cb_data := d\<rparr>)"
      "length d = 32" "\<forall>j. j < Suc i \<or> Suc i + length ys \<le> j \<longrightarrow> d ! j = cb_data ?b ! j"
    using Cons.IH [OF p s] by blast
  have "spmc_get_range i (length (y # ys)) b = Inr (y # ys, b\<lparr>cb_data := d\<rparr>)"
    using g d(1) by simp
  moreover have "d ! j = cb_data b ! j" if "j < i \<or> i + length (y # ys) \<le> j" for j
    using d(3) that by (auto simp: nth_list_update)
  ultimately show ?case using d(2) by blast
qed

lemma spmc_head_data:
  assumes S: "spmc_shape q A P (ys @ zs)" and room: "P mod 32 + length ys \<le> 32"
    and b: "cq_heap q (A (P div 32)) = Some b" and j: "j < length ys"
  shows "cb_data b ! (P mod 32 + j) = Some (ys ! j)"
proof -
  have "spmc_entry (cq_heap q) A (P + j) = Some (Some ((ys @ zs) ! j))"
    using S j by (simp add: spmc_shape_def)
  moreover have "spmc_ok (P div 32) b" by (rule spmc_shape_head [OF S]) (use b in auto)
  ultimately show ?thesis
    using pos_in_block [of P 32 j] room j b by (simp add: entry_def nth_append spmc_ok_def split: if_splits)
qed

text \<open>The first test of the loops: the queue is empty.\<close>

lemma spmc_empty_test:
  assumes S: "spmc_shape q A P xs"
  shows "A (P div 32) = cq_tail_block q \<and> of_nat (P mod 32) \<ge> cq_tail_index q AND spmc_BLOCK_MASK \<longleftrightarrow> xs = []"
    and "A (P div 32) = cq_tail_block q \<longleftrightarrow> (P + length xs) div 32 = P div 32"
    and "cq_tail_index q AND spmc_BLOCK_MASK = of_nat ((P + length xs) mod 32)"
proof -
  let ?N = "P + length xs"
  have B: "spmc_blocks (cq_heap q) A (P div 32) (?N div 32)" and t: "cq_tail_block q = A (?N div 32)"
      "cq_tail_index q = of_nat ?N" and N: "?N < 2 ^ 64"
    using S by (auto simp: spmc_shape_def)
  show 1: "A (P div 32) = cq_tail_block q \<longleftrightarrow> ?N div 32 = P div 32"
    using nblocks_inj [OF B, of "P div 32" "?N div 32"] spmc_le [of P "length xs"] t(1) by auto
  show 2: "cq_tail_index q AND spmc_BLOCK_MASK = of_nat (?N mod 32)"
    unfolding t(2) by (rule spmc_of_nat_mod(2) [OF N])
  have "?N div 32 = P div 32 \<and> ?N mod 32 \<le> P mod 32 \<longleftrightarrow> xs = []"
  proof
    assume a: "?N div 32 = P div 32 \<and> ?N mod 32 \<le> P mod 32"
    have "?N = P div 32 * 32 + ?N mod 32" "P = P div 32 * 32 + P mod 32"
      using div_mult_mod_eq [of ?N 32] a by simp_all
    with a have "P + length xs \<le> P" by linarith
    then show "xs = []" by simp
  qed simp
  then show "A (P div 32) = cq_tail_block q \<and> of_nat (P mod 32) \<ge> cq_tail_index q AND spmc_BLOCK_MASK \<longleftrightarrow> xs = []"
    unfolding 1 2 by (simp add: word_le_nat_alt del: of_nat_mod)
qed

lemma spmc_pop_index:
  assumes "spmc_shape q A P xs" "cq_heap q (A (P div 32)) = Some b"
  shows "cb_start b + of_nat (P mod 32) = of_nat P"
    and "(of_nat P :: usize) \<ge> cq_tail_index q \<longleftrightarrow> xs = []"
proof -
  have "cb_start b = of_nat (32 * (P div 32))"
    by (rule spmc_shape_head [OF assms(1)]) (use assms(2) in \<open>auto simp: spmc_ok_def\<close>)
  moreover have "of_nat (32 * (P div 32)) + of_nat (P mod 32) = (of_nat P :: usize)"
    by (metis mult_div_mod_eq of_nat_add)
  ultimately show "cb_start b + of_nat (P mod 32) = of_nat P" by simp
  show "(of_nat P :: usize) \<ge> cq_tail_index q \<longleftrightarrow> xs = []"
    using assms(1) by (auto simp: spmc_shape_def word_le_nat_alt unat_of_nat simp del: of_nat_add)
qed

lemma spmc_pop_step:
  assumes S: "spmc_shape q A P (x # xs)" and n: "0 < n"
  shows "\<exists>q'. spmc_pop n q = Inr (Some x, q') \<and> spmc_local_pop n q = Inr (Some x, q') \<and>
    spmc_shape q' A (Suc P) xs"
proof -
  let ?c = "P div 32"
  obtain m where m: "n = Suc m" using n by (cases n) auto
  have S': "spmc_shape q A P ([x] @ xs)" and room: "P mod 32 + length [x] \<le> 32"
    using S mod_less_divisor [of 32 P] by simp_all
  obtain b where b: "cq_heap q (A ?c) = Some b" "spmc_ok ?c b"
      "cb_next b = (if ?c < (P + length (x # xs)) div 32 then A (Suc ?c) else null)"
      "spmc_unpack (cq_head q) = (A ?c, of_nat (P mod 32))"
      "cq_head q AND NOT lock_bit = cq_head q"
    by (rule spmc_shape_head [OF S]) blast
  have nx: "cb_next b = A (Suc ?c)" if "P mod 32 = 31"
  proof -
    have "Suc ?c = Suc P div 32" using that by (simp add: div_Suc mod_Suc)
    also have "\<dots> \<le> (P + length (x # xs)) div 32" by (intro div_le_mono) simp
    finally show ?thesis using b(3) by simp
  qed
  define d where "d = (cb_data b)[P mod 32 := None]"
  have g: "spmc_get (P mod 32) b = Inr (x, b\<lparr>cb_data := d\<rparr>)"
    using spmc_head_data [OF S' room b(1), of 0] b(2) by (simp add: spmc_get_def d_def spmc_ok_def)
  let ?hd = "if P mod 32 + length [x] = 32 then A (Suc ?c) else A ?c OR of_nat (P mod 32 + length [x])"
  obtain q' where q': "spmc_release (A ?c) (b\<lparr>cb_data := d\<rparr>) 1 (q\<lparr>cq_head := ?hd\<rparr>) = Inr q'"
      "spmc_shape q' A (P + length [x]) xs"
    using spmc_consume [OF S' room _ b(1) _ _ _ refl, of d 1] b(2) by (auto simp: d_def spmc_ok_def)
  have st: "cb_start b + of_nat (P mod 32) = of_nat P" "\<not> cq_tail_index q \<le> of_nat P"
    using spmc_pop_index [OF S b(1)] by auto
  have "spmc_pop n q = Inr (Some x, q') \<and> spmc_local_pop n q = Inr (Some x, q')"
  proof (cases "P mod 32 = 31")
    case True
    then have i: "(of_nat (P mod 32) :: usize) = spmc_BLOCK_MASK" by (simp add: spmc_consts(3))
    have "?hd = A (Suc ?c)" using True by simp
    then show ?thesis
      using q'(1) spmc_empty_test(1) [OF S] b(1,4,5) nx [OF True] g st i True
      by (simp add: m spmc_pop_def spmc_local_pop_def spmc_pop_commit_def spmc_local_pop_commit_def
          Let_def deref_Some spmc_consts(3) del: of_nat_mod)
  next
    case False
    then have i: "(of_nat (P mod 32) :: usize) \<noteq> spmc_BLOCK_MASK" by (simp add: spmc_of_nat_mod(1) del: of_nat_mod)
    have "?hd = spmc_pack (A ?c) (of_nat (P mod 32) + 1)"
      using False by (simp add: spmc_pack_def add.commute)
    then show ?thesis
      using q'(1) spmc_empty_test(1) [OF S] b(1,4,5) g st i
      by (simp add: m spmc_pop_def spmc_local_pop_def spmc_pop_commit_def spmc_local_pop_commit_def
          Let_def deref_Some del: of_nat_mod)
  qed
  with q'(2) show ?thesis by simp
qed

lemma spmc_pop_empty:
  assumes S: "spmc_shape q A P []" and n: "0 < n"
  shows "spmc_pop n q = Inr (None, q)" "spmc_local_pop n q = Inr (None, q)" "spmc_bulk_pop n q = Inr ([], q)"
proof -
  obtain m where m: "n = Suc m" using n by (cases n) auto
  obtain b where "spmc_unpack (cq_head q) = (A (P div 32), of_nat (P mod 32))"
      "cq_head q AND NOT lock_bit = cq_head q"
    by (rule spmc_shape_head [OF S]) blast
  then show "spmc_pop n q = Inr (None, q)" "spmc_local_pop n q = Inr (None, q)" "spmc_bulk_pop n q = Inr ([], q)"
    using spmc_empty_test(1) [OF S]
    by (simp_all add: m spmc_pop_def spmc_local_pop_def spmc_bulk_pop_def Let_def del: of_nat_mod)
qed

lemma spmc_start_mod: "(of_nat (32 * (n div 32)) :: usize) + of_nat (n mod 32) = of_nat n"
  by (metis mult_div_mod_eq of_nat_add)

text \<open>The two ways \<^verbatim>\<open>bulk_pop\<close> takes slots: up to the push index, or up to the end of the block.\<close>

lemma spmc_bulk_tail:
  assumes "(P + length xs) div 32 = P div 32" "xs \<noteq> []"
  shows "take (32 - P mod 32) xs = xs" "(P + length xs) mod 32 = P mod 32 + length xs"
    "P mod 32 + length xs < 32" "(of_nat ((P + length xs) mod 32) :: usize) \<noteq> 0"
proof -
  let ?N = "P + length xs"
  have "P div 32 * 32 + ?N mod 32 = P div 32 * 32 + (P mod 32 + length xs)"
    using div_mult_mod_eq [of ?N 32] unfolding assms(1) by simp
  then show eq: "?N mod 32 = P mod 32 + length xs" by (simp only: add_left_cancel)
  then show lt: "P mod 32 + length xs < 32" by (metis mod_less_divisor zero_less_numeral)
  then show "take (32 - P mod 32) xs = xs" by simp
  have "?N mod 32 \<noteq> 0" using eq assms(2) by simp
  then have "unat (of_nat (?N mod 32) :: usize) \<noteq> 0" by (simp only: unat_of_nat_mod32) simp
  then show "(of_nat (?N mod 32) :: usize) \<noteq> 0" by (metis unat_0)
qed

lemma spmc_bulk_full:
  assumes "(P + length xs) div 32 \<noteq> P div 32"
  shows "length (take (32 - P mod 32) xs) = 32 - P mod 32" "P div 32 < (P + length xs) div 32"
    "P + (32 - P mod 32) = 32 * Suc (P div 32)" "32 * Suc (P div 32) \<le> P + length xs"
proof -
  let ?N = "P + length xs"
  show lt: "P div 32 < ?N div 32" using assms spmc_le [of P "length xs"] by linarith
  have "32 * Suc (P div 32) \<le> 32 * (?N div 32)" using lt by (intro mult_le_mono2) simp
  then show le: "32 * Suc (P div 32) \<le> ?N" using times_div_less_eq_dividend order_trans by blast
  show "P + (32 - P mod 32) = 32 * Suc (P div 32)" by (rule round_up_block) simp
  with le show "length (take (32 - P mod 32) xs) = 32 - P mod 32" by simp
qed

lemma spmc_bulk_pop_step:
  assumes S: "spmc_shape q A P xs" and n: "0 < n"
  shows "\<exists>q' m. spmc_bulk_pop n q = Inr (take m xs, q') \<and> spmc_shape q' A (P + min m (length xs)) (drop m xs) \<and>
    m = 32 - P mod 32"
proof (cases "xs = []")
  case True
  then show ?thesis using S spmc_pop_empty(3) [of q A P n] n by auto
next
  case False
  let ?c = "P div 32" and ?N = "P + length xs" and ?m = "32 - P mod 32"
  let ?ys = "take ?m xs" and ?zs = "drop ?m xs"
  obtain k where k: "n = Suc k" using n by (cases n) auto
  have S': "spmc_shape q A P (?ys @ ?zs)" and room: "P mod 32 + length ?ys \<le> 32"
    using S mod_less_divisor [of 32 P] by simp_all
  have ne: "?ys \<noteq> []" using False mod_less_divisor [of 32 P] by (simp del: mod_less_divisor)
  obtain b where b: "cq_heap q (A ?c) = Some b" "spmc_ok ?c b"
      "cb_next b = (if ?c < ?N div 32 then A (Suc ?c) else null)"
      "spmc_unpack (cq_head q) = (A ?c, of_nat (P mod 32))"
      "cq_head q AND NOT lock_bit = cq_head q"
    by (rule spmc_shape_head [OF S]) blast
  have bl: "length (cb_data b) = 32" "cb_start b = of_nat (32 * ?c)" using b(2) by (auto simp: spmc_ok_def)
  have N: "?N < 2 ^ 64" and ti: "cq_tail_index q = of_nat ?N" using S by (auto simp: spmc_shape_def)
  obtain d where d: "spmc_get_range (P mod 32) (length ?ys) b = Inr (?ys, b\<lparr>cb_data := d\<rparr>)"
      "length d = 32" "\<forall>j. j < P mod 32 \<or> P mod 32 + length ?ys \<le> j \<longrightarrow> d ! j = cb_data b ! j"
    using spmc_get_range_ok [OF bl(1) room spmc_head_data [OF S' room b(1)]] by blast
  let ?hd = "if P mod 32 + length ?ys = 32 then A (Suc ?c) else A ?c OR of_nat (P mod 32 + length ?ys)"
  obtain q' where q': "spmc_release (A ?c) (b\<lparr>cb_data := d\<rparr>) (of_nat (length ?ys)) (q\<lparr>cq_head := ?hd\<rparr>) = Inr q'"
      "spmc_shape q' A (P + length ?ys) ?zs"
    using spmc_consume [OF S' room ne b(1) d(2) _ refl refl] d(3) by blast
  have st: "cb_start b + of_nat (P mod 32) = of_nat P" "\<not> cq_tail_index q \<le> of_nat P"
    using spmc_pop_index [OF S b(1)] False by auto
  define e :: usize where "e = of_nat (P + length ?ys)"
  have el: "e - of_nat P = of_nat (length ?ys)" by (simp add: e_def)
  have "unat (of_nat P AND spmc_BLOCK_MASK) = P mod 32" "unat (e - of_nat P) = length ?ys"
    using N room by (simp_all add: unat_spmc_mask unat_of_nat el del: length_take)
  then have cp: "spmc_copy_to_bulk (of_nat P) e b = Inr (?ys, b\<lparr>cb_data := d\<rparr>)"
    using d(1) by (simp add: spmc_copy_to_bulk_def)
  have "spmc_bulk_pop n q = Inr (?ys, q')"
  proof (cases "?N div 32 = ?c")
    case True
    note tail = spmc_bulk_tail [OF True False]
    have "e = cb_start b + of_nat (?N mod 32)"
      using spmc_start_mod [of ?N] True tail(1) by (simp add: bl(2) e_def del: of_nat_mod)
    then show ?thesis
      using q'(1) spmc_empty_test [OF S] False True b(1,4,5) st cp el tail ti
      by (simp add: k spmc_bulk_pop_def spmc_bulk_commit_def Let_def deref_Some spmc_pack_def e_def
          del: of_nat_mod of_nat_add length_take)
  next
    case ne: False
    note full = spmc_bulk_full [OF ne]
    have ee: "e = of_nat (32 * Suc ?c)" unfolding e_def full(1,3) ..
    have "32 * Suc ?c < 2 ^ LENGTH(64)" using le_less_trans [OF full(4) N] by simp
    then have ue: "unat e = 32 * Suc ?c" unfolding ee by (rule unat_of_nat_less)
    have "e \<le> cq_tail_index q"
      using full(4) N by (simp add: word_le_nat_alt ue ti unat_of_nat del: of_nat_add)
    moreover have "cb_start b + spmc_BLOCK_SIZE = e" by (simp add: bl(2) ee spmc_consts(1))
    ultimately have "e = min (cb_start b + spmc_BLOCK_SIZE) (cq_tail_index q)" "e AND spmc_BLOCK_MASK = 0"
      by (simp_all add: min_def spmc_mask_0 ue)
    then show ?thesis
      using q'(1) spmc_empty_test [OF S] False ne b(1,3,4,5) st cp el full
      by (simp add: k spmc_bulk_pop_def spmc_bulk_commit_def Let_def deref_Some
          del: of_nat_mod of_nat_add length_take)
  qed
  then show ?thesis using q'(2) by (intro exI [of _ q'] exI [of _ ?m]) (simp add: min.commute)
qed

section \<open>The queue as an implementation of the contract\<close>

definition spmc_rep :: "nat \<Rightarrow> 'a spmc \<Rightarrow> 'a list \<Rightarrow> bool" where
  "spmc_rep k q xs \<longleftrightarrow> (\<exists>A P. spmc_shape q A P xs \<and> P + length xs + k < 2 ^ 64)"

text \<open>
  A scheduler worker over a valid allocator, with at least one attempt for each
  compare-and-exchange loop.
\<close>

locale spmc_worker =
  fixes al :: "'a cblock allocator" and spins :: nat
  assumes valid: "valid_alloc 5 al" and spins: "0 < spins"

lemma spmc_rep_pop:
  assumes "spmc_rep k q (x # xs)" "0 < n"
  shows "\<exists>q'. spmc_pop n q = Inr (Some x, q') \<and> spmc_local_pop n q = Inr (Some x, q') \<and> spmc_rep k q' xs"
proof -
  from assms(1) obtain A P where S: "spmc_shape q A P (x # xs)" "P + length (x # xs) + k < 2 ^ 64"
    by (auto simp: spmc_rep_def)
  from spmc_pop_step [OF S(1) assms(2)] S(2) show ?thesis
    unfolding spmc_rep_def by (metis add_Suc_right add_Suc length_Cons)
qed

lemma spmc_rep_empty:
  assumes "spmc_rep k q []" "0 < n"
  shows "spmc_pop n q = Inr (None, q)" "spmc_local_pop n q = Inr (None, q)" "spmc_bulk_pop n q = Inr ([], q)"
  using assms spmc_pop_empty unfolding spmc_rep_def by blast+

lemma spmc_rep_push:
  assumes "spmc_rep (Suc k) q xs" "valid_alloc 5 al"
  shows "(\<exists>q'. spmc_push al v q = Inr q' \<and> spmc_rep k q' (xs @ [v])) \<or> spmc_push al v q = Inl AllocError"
proof -
  from assms(1) obtain A P where S: "spmc_shape q A P xs" "Suc (P + length xs + k) < 2 ^ 64"
    by (auto simp: spmc_rep_def)
  then show ?thesis
    unfolding spmc_rep_def using spmc_push_step [OF S(1) _ assms(2), of v] by fastforce
qed

lemma spmc_rep_mono: "spmc_rep (Suc k) q xs \<Longrightarrow> spmc_rep k q xs"
  unfolding spmc_rep_def by (metis add_Suc_right Suc_lessD)

lemma spmc_pop_queue:
  assumes n: "0 < n"
  shows "pop_queue (spmc_rep k :: 'a spmc \<Rightarrow> _) (spmc_pop n)"
    and "pop_queue (spmc_rep k :: 'a spmc \<Rightarrow> _) (spmc_local_pop n)"
proof -
  show "pop_queue (spmc_rep k :: 'a spmc \<Rightarrow> _) (spmc_pop n)"
  proof
    fix q :: "'a spmc" and x xs assume "spmc_rep k q (x # xs)"
    from spmc_rep_pop [OF this n] show "\<exists>q'. spmc_pop n q = Inr (Some x, q') \<and> spmc_rep k q' xs" by blast
  qed (simp add: spmc_rep_empty n)
  show "pop_queue (spmc_rep k :: 'a spmc \<Rightarrow> _) (spmc_local_pop n)"
  proof
    fix q :: "'a spmc" and x xs assume "spmc_rep k q (x # xs)"
    from spmc_rep_pop [OF this n] show "\<exists>q'. spmc_local_pop n q = Inr (Some x, q') \<and> spmc_rep k q' xs" by blast
  qed (simp add: spmc_rep_empty n)
qed

sublocale spmc_worker \<subseteq> steal: fifo_queue spmc_rep "spmc_pop spins" "spmc_push al"
  by (rule fifo_queue.intro)
    (rule spmc_pop_queue [OF spins] spmc_rep_push [OF _ valid] spmc_rep_mono, assumption?)+

sublocale spmc_worker \<subseteq> local: fifo_queue spmc_rep "spmc_local_pop spins" "spmc_push al"
  by (rule fifo_queue.intro)
    (rule spmc_pop_queue [OF spins] spmc_rep_push [OF _ valid] spmc_rep_mono, assumption?)+

interpretation spmc_three: spmc_worker three_blocks 1
  by unfold_locales (auto intro: valid_alloc_mono [OF valid_three_blocks])

lemma spmc_rep_new:
  assumes al: "valid_alloc 5 al" and q: "spmc_new al = Inr q" and k: "k < 2 ^ 64"
  shows "spmc_rep k q []"
proof -
  from q obtain a where a: "al Map.empty = Some a"
    by (auto simp: spmc_new_def spmc_block_new_def bindE_eq_Inr alloc_eq_Inr)
  then have qd: "q = \<lparr>cq_heap = [a \<mapsto> spmc_fresh 0], cq_head = a, cq_tail_index = 0, cq_tail_block = a\<rparr>"
    using q by (simp add: spmc_new_def spmc_block_new_def alloc_Some)
  have "block_addr 5 a" using valid_alloc_addr [OF al a] by simp
  then have "spmc_blocks [a \<mapsto> spmc_fresh 0] (\<lambda>_. a) 0 0"
    by (rule nblocks_single) (auto simp: spmc_ok_def spmc_fresh_def spmc_consts)
  then have "spmc_shape q (\<lambda>_. a) 0 []"
    by (auto simp: spmc_shape_def qd spmc_fresh_def spmc_consts intro!: spmc_countsI)
  with k show ?thesis by (auto simp: spmc_rep_def intro!: exI [of _ "0::nat"])
qed

lemma spmc_rep_len:
  assumes "spmc_rep k q xs"
  shows "spmc_len q = Inr (of_nat (length xs))" and "spmc_is_empty q \<longleftrightarrow> xs = []"
proof -
  from assms obtain A P where S: "spmc_shape q A P xs" by (auto simp: spmc_rep_def)
  obtain b where b: "cq_heap q (A (P div 32)) = Some b"
      "spmc_unpack (cq_head q) = (A (P div 32), of_nat (P mod 32))" "cq_head q AND NOT lock_bit = cq_head q"
    by (rule spmc_shape_head [OF S]) blast
  show "spmc_len q = Inr (of_nat (length xs))"
    using b S spmc_pop_index(1) [OF S b(1)] by (simp add: spmc_len_def deref_Some spmc_shape_def del: of_nat_mod)
  show "spmc_is_empty q \<longleftrightarrow> xs = []"
  proof (cases "(P + length xs) div 32 = P div 32 \<and> xs \<noteq> []")
    case True
    then have "(P + length xs) mod 32 \<noteq> P mod 32" using spmc_bulk_tail(2) [of P xs] by simp
    then have "(of_nat (P mod 32) :: usize) \<noteq> of_nat ((P + length xs) mod 32)"
      by (metis unat_of_nat_mod32)
    with True b spmc_empty_test(2,3) [OF S] show ?thesis by (simp add: spmc_is_empty_def del: of_nat_mod)
  qed (use b spmc_empty_test [OF S] in \<open>auto simp: spmc_is_empty_def simp del: of_nat_mod\<close>)
qed

lemma spmc_rep_bulk:
  assumes "spmc_rep k q xs" "0 < n"
  shows "\<exists>ys zs q'. spmc_bulk_pop n q = Inr (ys, q') \<and> xs = ys @ zs \<and> (xs \<noteq> [] \<longrightarrow> ys \<noteq> []) \<and>
    length ys \<le> 32 \<and> spmc_rep k q' zs"
proof -
  from assms(1) obtain A P where S: "spmc_shape q A P xs" and k: "P + length xs + k < 2 ^ 64"
    by (auto simp: spmc_rep_def)
  let ?m = "32 - P mod 32"
  have m: "0 < ?m" "?m \<le> 32" using mod_less_divisor [of 32 P] by simp_all
  from spmc_bulk_pop_step [OF S assms(2)] obtain q' where
    "spmc_bulk_pop n q = Inr (take ?m xs, q')" and S': "spmc_shape q' A (P + min ?m (length xs)) (drop ?m xs)"
    by blast
  moreover have "spmc_rep k q' (drop ?m xs)"
    unfolding spmc_rep_def using S' k by (intro exI [of _ A] exI [of _ "P + min ?m (length xs)"]) auto
  ultimately show ?thesis
    using m by (intro exI [of _ "take ?m xs"] exI [of _ "drop ?m xs"] exI [of _ q']) auto
qed

lemma spmc_rep_drop:
  assumes R: "spmc_rep k q xs" and n: "length xs < n" and s: "0 < spins"
  shows "spmc_drop spins n q = Inr (xs, Map.empty)"
proof -
  from pop_queue.drain_all [OF spmc_pop_queue(1) [OF s] R n] obtain q' A P
    where d: "drain n (spmc_pop spins) q = Inr (xs, q')" and S: "spmc_shape q' A P []"
    by (auto simp: spmc_rep_def)
  obtain b where b: "cq_heap q' (A (P div 32)) = Some b"
      "spmc_unpack (cq_head q') = (A (P div 32), of_nat (P mod 32))"
    by (rule spmc_shape_head [OF S]) blast
  have t: "cq_tail_block q' = A (P div 32)" and "dom (cq_heap q') = A ` {P div 32..P div 32}"
    using S by (auto simp: spmc_shape_def nblocks_def)
  then have "dom ((cq_heap q')(A (P div 32) := None)) = {}" by auto
  then have "(cq_heap q')(A (P div 32) := None) = Map.empty" by (simp only: dom_eq_empty_conv)
  with d b t show ?thesis by (simp add: spmc_drop_def box_free_Some)
qed

lemma local_push_all_ok:
  assumes "valid_alloc 5 al" "spmc_rep (length ts) q xs"
  shows "local_push_all al ts q = Inl AllocError \<or>
    (\<exists>q'. local_push_all al ts q = Inr q' \<and> spmc_rep 0 q' (xs @ ts))"
  using assms(2)
proof (induction ts arbitrary: q xs)
  case Nil
  then show ?case by simp
next
  case (Cons t ts)
  then have "spmc_rep (Suc (length ts)) q xs" by simp
  from spmc_rep_push [OF this assms(1), of t] consider
      "spmc_push al t q = Inl AllocError"
    | q' where "spmc_push al t q = Inr q'" "spmc_rep (length ts) q' (xs @ [t])" by blast
  then show ?case
  proof cases
    case 2
    then show ?thesis using Cons.IH [OF 2(2)] by simp
  qed simp
qed

lemma local_drop_ok:
  assumes "spmc_rep k q xs" "0 < spins"
  shows "local_drop spins q = Inr q \<longleftrightarrow> xs = []" and "xs \<noteq> [] \<Longrightarrow> local_drop spins q = Inl Panic"
proof -
  have "local_drop spins q = (if xs = [] then Inr q else Inl Panic)"
    using spmc_rep_empty(2) [of k q spins] spmc_rep_pop [of k q "hd xs" "tl xs" spins] assms
    by (cases xs) (auto simp: local_drop_def)
  then show "local_drop spins q = Inr q \<longleftrightarrow> xs = []" "xs \<noteq> [] \<Longrightarrow> local_drop spins q = Inl Panic"
    by simp_all
qed

context spmc_worker
begin

lemma run_new:
  assumes "spmc_new al = Inr q" and "length ops < 2 ^ 64"
  shows "queue_run (spmc_push al) (spmc_pop spins) ops q = Inl AllocError \<or>
    (\<exists>q'. queue_run (spmc_push al) (spmc_pop spins) ops q = Inr (fst (spec_run ops []), q') \<and>
       spmc_rep 0 q' (snd (spec_run ops [])))"
    and "queue_run (spmc_push al) (spmc_local_pop spins) ops q = Inl AllocError \<or>
    (\<exists>q'. queue_run (spmc_push al) (spmc_local_pop spins) ops q = Inr (fst (spec_run ops []), q') \<and>
       spmc_rep 0 q' (snd (spec_run ops [])))"
  using steal.run_refines local.run_refines spmc_rep_new [OF valid assms] by blast+

end

text \<open>A concrete run.\<close>

lemma spmc_sample_run:
  obtains q q' :: "nat spmc" where "spmc_new three_blocks = Inr q"
    and "queue_run (spmc_push three_blocks) (spmc_pop 1) [Push 1, Push 2, Pop, Push 3] q = Inr ([Some 1], q')"
proof -
  obtain q :: "nat spmc" where q: "spmc_new three_blocks = Inr q"
    by (simp add: spmc_new_def spmc_block_new_def alloc_def)
  show thesis
    by (rule that [OF q])
      (use q in \<open>auto simp: spmc_new_def spmc_block_new_def spmc_fresh_def alloc_def modify_def spmc_push_def
        spmc_pop_def spmc_pop_commit_def spmc_release_def spmc_mark_slots_read_def spmc_set_def spmc_get_def
        deref_def spmc_unpack_def spmc_pack_def lock_bit_def spmc_consts(1,3) Let_def\<close>)
qed

section \<open>Properties\<close>

text \<open>
  Any sequence of pushes by the owner and pops, by a thief through \<^verbatim>\<open>pop\<close> or by the owner
  through \<^verbatim>\<open>local_pop\<close>, behaves on a new queue as a FIFO list, with \<^verbatim>\<open>len\<close> and
  \<^verbatim>\<open>is_empty\<close> agreeing; the only other outcome is the abort of a failed allocation. No wait is
  entered, no slot is read twice or before it is written, and no freed block is touched.
\<close>

theorem spmc_refines_fifo:
  assumes "valid_alloc 5 al" and "0 < spins" and "spmc_new al = Inr q" and "length ops < 2 ^ 64"
    and "pop \<in> {spmc_pop spins, spmc_local_pop spins}"
  shows "queue_run (spmc_push al) pop ops q = Inl AllocError \<or>
    (\<exists>q'. queue_run (spmc_push al) pop ops q = Inr (fst (spec_run ops []), q') \<and>
       spmc_len q' = Inr (of_nat (length (snd (spec_run ops [])))) \<and>
       spmc_is_empty q' = (snd (spec_run ops []) = []))"
proof -
  from assms(1,2) have W: "spmc_worker al spins" by unfold_locales
  show ?thesis
    using spmc_worker.run_new [OF W assms(3,4)] assms(5) spmc_rep_len by blast
qed

text \<open>
  After any run, dropping the queue drops exactly the queued values in order, passes its
  assertion and frees every block exactly once.
\<close>

theorem spmc_drop_frees_all:
  assumes "valid_alloc 5 al" and "0 < spins" and "spmc_new al = Inr q" and "length ops < 2 ^ 64"
    and "queue_run (spmc_push al) (spmc_pop spins) ops q = Inr (rs, q')"
    and "length (snd (spec_run ops [])) < n"
  shows "spmc_drop spins n q' = Inr (snd (spec_run ops []), Map.empty)"
proof -
  from assms(1,2) have W: "spmc_worker al spins" by unfold_locales
  from spmc_worker.run_new(1) [OF W assms(3,4)] assms(5)
  have "spmc_rep 0 q' (snd (spec_run ops []))" by auto
  then show ?thesis using assms(6,2) by (rule spmc_rep_drop)
qed



end
