(* ===== verification/Mpsc_List.thy ===== *)
theory Mpsc_List
  imports Queue_Spec
begin

text \<open>
  The linked multi-producer single-consumer list of \<^verbatim>\<open>may_queue/src/mpsc_list.rs\<close>. Producers
  swap \<^verbatim>\<open>head\<close> and then link the new node; the consumer owns \<^verbatim>\<open>tail\<close>, a stub whose value
  was already taken. The memory of the list is a chain of nodes from the tail to the head.
\<close>

section \<open>Operations\<close>

record 'a lnode =
  ln_next :: ptr
  ln_value :: "'a option"

record 'a mlist =
  ml_heap :: "'a lnode heap"
  ml_head :: ptr
  ml_tail :: ptr

definition mlist_node_new ::
  "'a lnode allocator \<Rightarrow> 'a option \<Rightarrow> 'a lnode heap \<Rightarrow> (ptr \<times> 'a lnode heap) res" where
  "mlist_node_new al v h = alloc al \<lparr>ln_next = null, ln_value = v\<rparr> h"

definition mlist_new :: "'a lnode allocator \<Rightarrow> 'a mlist res" where
  "mlist_new al =
     bindE (mlist_node_new al None Map.empty) (\<lambda>(stub, h).
       Inr \<lparr>ml_heap = h, ml_head = stub, ml_tail = stub\<rparr>)"

definition mlist_push :: "'a lnode allocator \<Rightarrow> 'a \<Rightarrow> 'a mlist \<Rightarrow> 'a mlist res" where
  "mlist_push al t q =
     bindE (mlist_node_new al (Some t) (ml_heap q)) (\<lambda>(node, h1).
       let prev = ml_head q in
       bindE (modify prev (ln_next_update (\<lambda>_. node)) h1) (\<lambda>h2.
         Inr (q\<lparr>ml_heap := h2, ml_head := node\<rparr>)))"

definition mlist_is_empty :: "'a mlist \<Rightarrow> bool" where
  "mlist_is_empty q \<longleftrightarrow> ml_head q = ml_tail q"

text \<open>A null \<^verbatim>\<open>next\<close> of a non-empty list is a producer between its two writes: \<open>Spin\<close>.\<close>

definition mlist_pop :: "'a mlist \<Rightarrow> ('a option \<times> 'a mlist) res" where
  "mlist_pop q =
     (let tail = ml_tail q in
      if ml_head q = tail then Inr (None, q)
      else
        bindE (deref (ml_heap q) tail) (\<lambda>t.
          let next = ln_next t in
          if next = null then Inl Spin
          else
            bindE (deref (ml_heap q) next) (\<lambda>n.
              case ln_value n of
                None \<Rightarrow> Inl Panic
              | Some ret \<Rightarrow>
                  bindE (box_free tail ((ml_heap q)(next \<mapsto> n\<lparr>ln_value := None\<rparr>))) (\<lambda>h.
                    Inr (Some ret, q\<lparr>ml_heap := h, ml_tail := next\<rparr>)))))"

definition mlist_drop :: "nat \<Rightarrow> 'a mlist \<Rightarrow> ('a list \<times> 'a lnode heap) res" where
  "mlist_drop n q =
     bindE (drain n mlist_pop q) (\<lambda>(xs, q1).
       bindE (box_free (ml_tail q1) (ml_heap q1)) (\<lambda>h. Inr (xs, h)))"

section \<open>Representation\<close>

text \<open>
  \<open>mchain h ps xs\<close>: the nodes \<open>ps\<close> are linked in this order, the last one to null; the first is the
  stub and the others hold the values \<open>xs\<close>.
\<close>

fun mchain :: "'a lnode heap \<Rightarrow> ptr list \<Rightarrow> 'a list \<Rightarrow> bool" where
  "mchain h [] xs = False"
| "mchain h [p] xs \<longleftrightarrow> xs = [] \<and> (\<exists>n. h p = Some n \<and> ln_next n = null)"
| "mchain h (p # p' # ps) xs \<longleftrightarrow>
     (\<exists>n n' x ys. xs = x # ys \<and> h p = Some n \<and> ln_next n = p' \<and> h p' = Some n' \<and> ln_value n' = Some x \<and>
        mchain h (p' # ps) ys)"

definition mlist_rep :: "'a mlist \<Rightarrow> 'a list \<Rightarrow> bool" where
  "mlist_rep q xs \<longleftrightarrow>
     (\<exists>ps. mchain (ml_heap q) ps xs \<and> distinct ps \<and> null \<notin> set ps \<and> dom (ml_heap q) = set ps \<and>
        ml_tail q = hd ps \<and> ml_head q = last ps)"

lemma mchain_cong:
  assumes "mchain h (p # ps) xs" "\<And>c. c \<in> set ps \<Longrightarrow> h' c = h c"
    and "map_option ln_next (h' p) = map_option ln_next (h p)"
  shows "mchain h' (p # ps) xs"
  using assms
proof (induction ps arbitrary: p xs)
  case Nil
  then show ?case by auto
next
  case (Cons p' ps)
  from Cons.prems(1) obtain n n' x ys where
    c: "xs = x # ys" "h p = Some n" "ln_next n = p'" "h p' = Some n'" "ln_value n' = Some x" "mchain h (p' # ps) ys"
    by auto
  have "mchain h' (p' # ps) ys" by (rule Cons.IH [OF c(6)]) (use Cons.prems(2) in auto)
  moreover obtain m where "h' p = Some m" "ln_next m = p'" using Cons.prems(3) c by (auto simp: map_option_eq_Some)
  moreover have "h' p' = Some n'" using Cons.prems(2) c(4) by simp
  ultimately show ?case using c by auto
qed

lemma mchain_snoc:
  assumes "mchain h ps xs" "distinct ps" "h a = None" "a \<noteq> null" "h (last ps) = Some n"
  shows "mchain (h(a \<mapsto> \<lparr>ln_next = null, ln_value = Some v\<rparr>, last ps \<mapsto> n\<lparr>ln_next := a\<rparr>)) (ps @ [a]) (xs @ [v])"
  using assms
proof (induction ps arbitrary: xs)
  case Nil
  then show ?case by simp
next
  case (Cons p ps)
  show ?case
  proof (cases ps)
    case Nil
    with Cons.prems have "p \<noteq> a" by auto
    with Cons.prems Nil show ?thesis by auto
  next
    case (Cons p' ps')
    let ?h = "h(a \<mapsto> \<lparr>ln_next = null, ln_value = Some v\<rparr>, last ps \<mapsto> n\<lparr>ln_next := a\<rparr>)"
    obtain m m' x ys where
      c: "xs = x # ys" "h p = Some m" "ln_next m = p'" "h p' = Some m'" "ln_value m' = Some x" "mchain h ps ys"
      using Cons.prems(1) Cons by auto
    have l: "last (p # ps) = last ps" and d: "distinct ps" "p \<notin> set ps" using Cons Cons.prems(2) by auto
    have IH: "mchain ?h (ps @ [a]) (ys @ [v])"
      by (rule Cons.IH [OF c(6) d(1) Cons.prems(3,4)]) (use Cons.prems(5) l in simp)
    have "p \<noteq> last ps" using d(2) Cons by (metis last_in_set list.discI)
    moreover have "p \<noteq> a" "p' \<noteq> a" using c Cons.prems(3) by auto
    ultimately have "?h p = Some m" "\<exists>k. ?h p' = Some k \<and> ln_value k = Some x"
      using c Cons.prems(5) l by auto
    then have "mchain ?h (p # p' # ps' @ [a]) (x # ys @ [v])"
      using IH [unfolded Cons] c(3) by (auto simp: Cons simp del: fun_upd_apply)
    then show ?thesis using l by (simp add: Cons c(1) del: fun_upd_apply)
  qed
qed

lemma mchain_length: "mchain h ps xs \<Longrightarrow> length ps = Suc (length xs) \<and> set ps \<subseteq> dom h"
  by (induction h ps xs rule: mchain.induct) auto

lemma mlist_rep_empty: "mlist_rep q xs \<Longrightarrow> mlist_is_empty q \<longleftrightarrow> xs = []"
proof -
  assume "mlist_rep q xs"
  then obtain ps where ps: "mchain (ml_heap q) ps xs" "distinct ps" "ml_tail q = hd ps" "ml_head q = last ps"
    by (auto simp: mlist_rep_def)
  then have "length ps = Suc (length xs)" using mchain_length by blast
  with ps(2-4) show ?thesis by (cases ps) (auto simp: mlist_is_empty_def dest: last_in_set)
qed

lemma mlist_push_step:
  assumes "valid_alloc k al" "mlist_rep q xs"
  shows "(\<exists>q'. mlist_push al v q = Inr q' \<and> mlist_rep q' (xs @ [v])) \<or> mlist_push al v q = Inl AllocError"
proof (cases "al (ml_heap q)")
  case None
  then show ?thesis by (simp add: mlist_push_def mlist_node_new_def alloc_None)
next
  case (Some a)
  note a = valid_allocD [OF assms(1) Some]
  from assms(2) obtain ps where
    ps: "mchain (ml_heap q) ps xs" "distinct ps" "null \<notin> set ps" "dom (ml_heap q) = set ps"
      "ml_tail q = hd ps" "ml_head q = last ps"
    by (auto simp: mlist_rep_def)
  have ne: "ps \<noteq> []" using ps(1) by auto
  then obtain n where n: "ml_heap q (last ps) = Some n" using ps(4) last_in_set by blast
  have la: "last ps \<noteq> a" using n a(1) by auto
  let ?h = "(ml_heap q)(a \<mapsto> \<lparr>ln_next = null, ln_value = Some v\<rparr>, last ps \<mapsto> n\<lparr>ln_next := a\<rparr>)"
  let ?q = "q\<lparr>ml_heap := ?h, ml_head := a\<rparr>"
  have "mlist_push al v q = Inr ?q"
    using Some n la ps(6) by (simp add: mlist_push_def mlist_node_new_def alloc_Some modify_Some)
  moreover have "mlist_rep ?q (xs @ [v])"
    unfolding mlist_rep_def
  proof (intro exI conjI)
    show "mchain (ml_heap ?q) (ps @ [a]) (xs @ [v])" using mchain_snoc [OF ps(1,2) a(1,2) n] by simp
    have "a \<notin> set ps" using a(1) ps(4) by blast
    then show "distinct (ps @ [a])" using ps(2) by simp
  qed (use ps ne a n in auto)
  ultimately show ?thesis by blast
qed

lemma mlist_pop_step:
  assumes "mlist_rep q (x # xs)"
  shows "\<exists>q'. mlist_pop q = Inr (Some x, q') \<and> mlist_rep q' xs"
proof -
  from assms obtain ps where
    ps: "mchain (ml_heap q) ps (x # xs)" "distinct ps" "null \<notin> set ps" "dom (ml_heap q) = set ps"
      "ml_tail q = hd ps" "ml_head q = last ps"
    by (auto simp: mlist_rep_def)
  have "length ps = Suc (Suc (length xs))" using mchain_length [OF ps(1)] by simp
  then obtain p p' ps' where p: "ps = p # p' # ps'" by (auto simp: length_Suc_conv)
  with ps(1) obtain n n' where n: "ml_heap q p = Some n" "ln_next n = p'" "ml_heap q p' = Some n'" "ln_value n' = Some x"
      and ch: "mchain (ml_heap q) (p' # ps') xs" by auto
  have ne: "p \<noteq> p'" "p' \<noteq> null" "ml_head q \<noteq> p" using ps(2,3,6) p by auto
  let ?h = "(ml_heap q)(p' \<mapsto> n'\<lparr>ln_value := None\<rparr>, p := None)"
  let ?q = "q\<lparr>ml_heap := ?h, ml_tail := p'\<rparr>"
  have "mlist_pop q = Inr (Some x, ?q)"
    using n ne ps(5) p by (simp add: mlist_pop_def deref_Some box_free_Some Let_def)
  moreover have "mlist_rep ?q xs"
    unfolding mlist_rep_def
  proof (intro exI conjI)
    show "mchain (ml_heap ?q) (p' # ps') xs"
      by (rule mchain_cong [OF ch]) (use ps(2) p n in auto)
  qed (use ps p n ne in auto)
  ultimately show ?thesis by blast
qed

section \<open>The list as an implementation of the contract\<close>

interpretation mlist_pops: pop_queue mlist_rep mlist_pop
proof
  fix q :: "'a mlist" assume "mlist_rep q []"
  then show "\<exists>q'. mlist_pop q = Inr (None, q') \<and> mlist_rep q' []"
    using mlist_rep_empty [of q "[]"] by (simp add: mlist_pop_def mlist_is_empty_def)
qed (rule mlist_pop_step)

locale mlist_allocator =
  fixes k :: nat and al :: "'a lnode allocator"
  assumes valid: "valid_alloc k al"

sublocale mlist_allocator \<subseteq> mlist: fifo_queue "\<lambda>_. mlist_rep" mlist_pop "mlist_push al"
  using mlist_push_step [OF valid] mlist_pops.pop_queue_axioms by (auto intro!: fifo_queue.intro)

interpretation mlist_three: mlist_allocator 6 three_blocks
  by unfold_locales (rule valid_three_blocks)

lemma mlist_rep_new:
  assumes "valid_alloc k al" "mlist_new al = Inr q" shows "mlist_rep q []"
proof -
  from assms(2) obtain a where a: "al Map.empty = Some a"
    by (auto simp: mlist_new_def mlist_node_new_def bindE_eq_Inr alloc_eq_Inr)
  with assms(2) valid_allocD(2) [OF assms(1) a] show ?thesis
    by (auto simp: mlist_new_def mlist_node_new_def alloc_Some mlist_rep_def intro!: exI [of _ "[a]"]
        split: if_splits)
qed

lemma mlist_rep_drop:
  assumes "mlist_rep q xs" "length xs < n"
  shows "mlist_drop n q = Inr (xs, Map.empty)"
proof -
  from mlist_pops.drain_all [OF assms] obtain q' ps where
    d: "drain n mlist_pop q = Inr (xs, q')" and
    ps: "mchain (ml_heap q') ps []" "dom (ml_heap q') = set ps" "ml_tail q' = hd ps"
    by (auto simp: mlist_rep_def)
  have "length ps = Suc 0" using mchain_length [OF ps(1)] by simp
  then obtain p where p: "ps = [p]" by (auto simp: length_Suc_conv)
  then have "p \<in> dom (ml_heap q')" using ps(2) by simp
  then obtain b where b: "ml_heap q' p = Some b" by (auto simp: dom_def)
  have "dom ((ml_heap q')(p := None)) = {}" using ps(2) p by auto
  then have "(ml_heap q')(p := None) = Map.empty" by (simp only: dom_eq_empty_conv)
  then show ?thesis using d ps(3) b by (simp add: mlist_drop_def box_free_Some p)
qed

context mlist_allocator
begin

lemma run_new:
  assumes "mlist_new al = Inr q"
  shows "queue_run (mlist_push al) mlist_pop ops q = Inl AllocError \<or>
    (\<exists>q'. queue_run (mlist_push al) mlist_pop ops q = Inr (fst (spec_run ops []), q') \<and>
       mlist_rep q' (snd (spec_run ops [])))"
  using mlist.run_refines [where ops = ops and q = q and xs = "[]"] mlist_rep_new [OF valid assms] by blast

end

section \<open>Properties\<close>

text \<open>
  Any sequence of \<^verbatim>\<open>push\<close> and \<^verbatim>\<open>pop\<close> on a new list returns exactly what a FIFO list
  returns, or aborts on a failed allocation; the \<^verbatim>\<open>assert!\<close> on the taken value never fails, the
  consumer frees each stub exactly once, and dropping the list afterwards drops exactly the queued
  values and leaves no node allocated.
\<close>

theorem mlist_refines_fifo:
  assumes "valid_alloc k al" and "mlist_new al = Inr q"
  shows "queue_run (mlist_push al) mlist_pop ops q = Inl AllocError \<or>
    (\<exists>q'. queue_run (mlist_push al) mlist_pop ops q = Inr (fst (spec_run ops []), q') \<and>
       mlist_is_empty q' = (snd (spec_run ops []) = []) \<and>
       (\<forall>n > length (snd (spec_run ops [])). mlist_drop n q' = Inr (snd (spec_run ops []), Map.empty)))"
proof -
  from assms(1) have A: "mlist_allocator k al" by unfold_locales
  from mlist_allocator.run_new [OF A assms(2), of ops] show ?thesis
    by (auto simp: mlist_rep_empty mlist_rep_drop)
qed

end
