(* ===== verification/Mpsc_List_V1.thy ===== *)
theory Mpsc_List_V1
  imports Queue_Spec
begin

unbundle bit_operations_syntax

text \<open>
  The doubly linked multi-producer single-consumer list of \<^verbatim>\<open>may_queue/src/mpsc_list_v1.rs\<close>
  that the timer uses: a push returns a handle (\<^verbatim>\<open>Entry\<close>) through which the consumer can remove
  the node from the middle of the list. A node is shared by the list and its handle and counts its
  owners; a link bit above the count tells whether it is still in the list. The lemmas show which
  handles a removal takes effect for, that the remaining order is kept, and that every node is freed
  exactly when its last owner is gone.
\<close>

section \<open>Operations\<close>

record 'a vnode =
  vn_prev :: ptr
  vn_next :: ptr
  vn_value :: "'a option"
  vn_refs :: usize

definition REF_INIT :: usize where
  "REF_INIT = 0x10000002"

definition REF_COUNT_MASK :: usize where
  "REF_COUNT_MASK = 0x0FFFFFFF"

record 'a vlist =
  vl_heap :: "'a vnode heap"
  vl_head :: ptr
  vl_tail :: ptr

definition v1_node_new ::
  "'a vnode allocator \<Rightarrow> 'a option \<Rightarrow> 'a vnode heap \<Rightarrow> (ptr \<times> 'a vnode heap) res" where
  "v1_node_new al v h =
     alloc al \<lparr>vn_prev = null, vn_next = null, vn_value = v, vn_refs = REF_INIT\<rparr> h"

text \<open>\<^verbatim>\<open>refs.fetch_sub(1) == 1\<close> and the release of the node that follows it.\<close>

definition v1_unref :: "ptr \<Rightarrow> 'a vnode heap \<Rightarrow> 'a vnode heap res" where
  "v1_unref p h =
     bindE (deref h p) (\<lambda>n.
       let old = vn_refs n; h1 = h(p \<mapsto> n\<lparr>vn_refs := old - 1\<rparr>) in
       if old = 1 then box_free p h1 else Inr h1)"

definition v1_with_mut_data :: "ptr \<Rightarrow> ('a \<Rightarrow> 'a) \<Rightarrow> 'a vnode heap \<Rightarrow> 'a vnode heap res" where
  "v1_with_mut_data p f h =
     bindE (deref h p) (\<lambda>n.
       case vn_value n of
         None \<Rightarrow> Inl Panic
       | Some v \<Rightarrow> Inr (h(p \<mapsto> n\<lparr>vn_value := Some (f v)\<rparr>)))"

definition v1_is_link :: "ptr \<Rightarrow> 'a vnode heap \<Rightarrow> bool res" where
  "v1_is_link p h = bindE (deref h p) (\<lambda>n. Inr (vn_refs n AND NOT REF_COUNT_MASK \<noteq> 0))"

text \<open>\<^verbatim>\<open>Drop for Entry\<close>\<close>

definition v1_entry_drop :: "ptr \<Rightarrow> 'a vlist \<Rightarrow> 'a vlist res" where
  "v1_entry_drop p q = bindE (v1_unref p (vl_heap q)) (\<lambda>h. Inr (q\<lparr>vl_heap := h\<rparr>))"

text \<open>
  The body of \<^verbatim>\<open>remove\<close>, before \<^verbatim>\<open>self\<close> goes out of scope.
\<close>

definition v1_unlink :: "ptr \<Rightarrow> 'a vnode heap \<Rightarrow> ('a option \<times> 'a vnode heap) res" where
  "v1_unlink node h =
     bindE (deref h node) (\<lambda>n.
       if vn_refs n AND NOT REF_COUNT_MASK = 0 then Inr (None, h)
       else if vn_prev n = null then Inr (None, h)
       else
         let next = vn_next n; prev = vn_prev n in
         if next \<noteq> null
         then
           bindE (modify node (vn_refs_update (\<lambda>r. r AND REF_COUNT_MASK)) h) (\<lambda>h1.
           bindE (modify next (vn_prev_update (\<lambda>_. prev)) h1) (\<lambda>h2.
           bindE (modify prev (vn_next_update (\<lambda>_. next)) h2) (\<lambda>h3.
           bindE (deref h3 node) (\<lambda>n3.
           bindE (modify node (vn_value_update (\<lambda>_. None)) h3) (\<lambda>h4.
           bindE (v1_unref node h4) (\<lambda>h5. Inr (vn_value n3, h5)))))))
         else Inr (None, h))"

text \<open>\<^verbatim>\<open>remove(self)\<close>: the handle is dropped at the end.\<close>

definition v1_remove :: "ptr \<Rightarrow> 'a vlist \<Rightarrow> ('a option \<times> 'a vlist) res" where
  "v1_remove p q =
     bindE (v1_unlink p (vl_heap q)) (\<lambda>(r, h).
     bindE (v1_entry_drop p (q\<lparr>vl_heap := h\<rparr>)) (\<lambda>q'. Inr (r, q')))"

definition v1_new :: "'a vnode allocator \<Rightarrow> 'a vlist res" where
  "v1_new al =
     bindE (v1_node_new al None Map.empty) (\<lambda>(stub, h).
     bindE (modify stub (vn_refs_update (\<lambda>_. 1)) h) (\<lambda>h1.
       Inr \<lparr>vl_heap = h1, vl_head = stub, vl_tail = stub\<rparr>))"

definition v1_push :: "'a vnode allocator \<Rightarrow> 'a \<Rightarrow> 'a vlist \<Rightarrow> ((ptr \<times> bool) \<times> 'a vlist) res" where
  "v1_push al t q =
     bindE (v1_node_new al (Some t) (vl_heap q)) (\<lambda>(node, h).
       let prev = vl_head q in
       bindE (modify node (vn_prev_update (\<lambda>_. prev)) h) (\<lambda>h1.
       bindE (modify prev (vn_next_update (\<lambda>_. node)) h1) (\<lambda>h2.
         let tail = vl_tail q; is_head = (tail = prev) in
         Inr ((node, is_head), q\<lparr>vl_heap := h2, vl_head := node\<rparr>))))"

definition v1_is_empty :: "'a vlist \<Rightarrow> bool" where
  "v1_is_empty q \<longleftrightarrow> vl_head q = vl_tail q"

definition v1_peek :: "'a vlist \<Rightarrow> 'a option res" where
  "v1_peek q =
     (let tail = vl_tail q in
      if vl_head q = tail then Inr None
      else
        bindE (deref (vl_heap q) tail) (\<lambda>t.
          let next = vn_next t in
          if next = null then Inl Spin
          else
            bindE (assertE (vn_value t = None)) (\<lambda>_.
            bindE (deref (vl_heap q) next) (\<lambda>n.
            bindE (assertE (vn_value n \<noteq> None)) (\<lambda>_. Inr (vn_value n))))))"

definition v1_pop_if :: "('a \<Rightarrow> bool) \<Rightarrow> 'a vlist \<Rightarrow> ('a option \<times> 'a vlist) res" where
  "v1_pop_if f q =
     (let tail = vl_tail q in
      if vl_head q = tail then Inr (None, q)
      else
        bindE (deref (vl_heap q) tail) (\<lambda>t.
          let next = vn_next t in
          if next = null then Inl Spin
          else
            bindE (assertE (vn_value t = None)) (\<lambda>_.
            bindE (deref (vl_heap q) next) (\<lambda>n.
              case vn_value n of
                None \<Rightarrow> Inl Panic
              | Some v \<Rightarrow>
                  if \<not> f v then Inr (None, q)
                  else
                    let old = vn_refs t in
                    bindE (modify tail (vn_refs_update (\<lambda>r. r AND REF_COUNT_MASK)) (vl_heap q)) (\<lambda>h1.
                    bindE (assertE (old AND REF_COUNT_MASK \<noteq> 0)) (\<lambda>_.
                    bindE (modify next (vn_prev_update (\<lambda>_. null)) h1) (\<lambda>h2.
                    bindE (modify next (vn_value_update (\<lambda>_. None)) h2) (\<lambda>h3.
                    bindE (v1_unref tail h3) (\<lambda>h4.
                      Inr (Some v, q\<lparr>vl_heap := h4, vl_tail := next\<rparr>))))))))))"

definition v1_pop :: "'a vlist \<Rightarrow> ('a option \<times> 'a vlist) res" where
  "v1_pop q =
     (let tail = vl_tail q in
      if vl_head q = tail then Inr (None, q)
      else
        bindE (deref (vl_heap q) tail) (\<lambda>t.
          let old = vn_refs t in
          bindE (modify tail (vn_refs_update (\<lambda>r. r AND REF_COUNT_MASK)) (vl_heap q)) (\<lambda>h1.
          bindE (assertE (old AND REF_COUNT_MASK \<noteq> 0)) (\<lambda>_.
            let next = vn_next t in
            if next = null then Inl Spin
            else
              bindE (modify next (vn_prev_update (\<lambda>_. null)) h1) (\<lambda>h2.
              bindE (assertE (vn_value t = None)) (\<lambda>_.
              bindE (deref h2 next) (\<lambda>n.
                case vn_value n of
                  None \<Rightarrow> Inl Panic
                | Some ret \<Rightarrow>
                    bindE (modify next (vn_value_update (\<lambda>_. None)) h2) (\<lambda>h3.
                    bindE (v1_unref tail h3) (\<lambda>h4.
                      Inr (Some ret, q\<lparr>vl_heap := h4, vl_tail := next\<rparr>))))))))))"

definition v1_drop :: "nat \<Rightarrow> 'a vlist \<Rightarrow> ('a list \<times> 'a vnode heap) res" where
  "v1_drop n q =
     bindE (drain n v1_pop q) (\<lambda>(xs, q1).
       bindE (box_free (vl_tail q1) (vl_heap q1)) (\<lambda>h. Inr (xs, h)))"

section \<open>Representation\<close>

text \<open>
  The nodes \<open>ps\<close> from the tail stub to the head, the values \<open>xs\<close> of all but the stub, and the nodes
  \<open>H\<close> whose handle is still held. \<open>l\<close> is the link bit of the stub: the first stub never had it.
\<close>

definition LINK :: usize where
  "LINK = 0x10000000"

definition v1_refs :: "usize \<Rightarrow> bool \<Rightarrow> usize" where
  "v1_refs l held = l + (if held then 2 else 1)"

definition v1_node :: "ptr list \<Rightarrow> 'a list \<Rightarrow> ptr set \<Rightarrow> usize \<Rightarrow> nat \<Rightarrow> 'a vnode" where
  "v1_node ps xs H l i =
     \<lparr>vn_prev = (if i = 0 then null else ps ! (i - 1)),
      vn_next = (if i = length xs then null else ps ! Suc i),
      vn_value = (if i = 0 then None else Some (xs ! (i - 1))),
      vn_refs = v1_refs (if i = 0 then l else LINK) (ps ! i \<in> H)\<rparr>"

definition v1_inv :: "'a vlist \<Rightarrow> ptr list \<Rightarrow> 'a list \<Rightarrow> ptr set \<Rightarrow> usize \<Rightarrow> bool" where
  "v1_inv q ps xs H l \<longleftrightarrow>
     distinct ps \<and> null \<notin> set ps \<union> H \<and> length ps = Suc (length xs) \<and> l \<in> {0, LINK} \<and> (l = 0 \<longrightarrow> ps ! 0 \<notin> H) \<and>
     vl_tail q = ps ! 0 \<and> vl_head q = ps ! length xs \<and> dom (vl_heap q) = set ps \<union> H \<and>
     (\<forall>i < length ps. vl_heap q (ps ! i) = Some (v1_node ps xs H l i)) \<and>
     (\<forall>p \<in> H - set ps. \<exists>n. vl_heap q p = Some n \<and> vn_refs n = 1 \<and> vn_value n = None)"

definition v1_rep :: "'a vlist \<Rightarrow> 'a list \<Rightarrow> ptr set \<Rightarrow> bool" where
  "v1_rep q xs H \<longleftrightarrow> (\<exists>ps l. v1_inv q ps xs H l)"

lemma v1_refs_simps [simp]:
  "l \<in> {0, LINK} \<Longrightarrow> v1_refs l b AND REF_COUNT_MASK = v1_refs 0 b"
  "v1_refs LINK b AND NOT REF_COUNT_MASK \<noteq> 0"
  "v1_refs 0 b AND NOT REF_COUNT_MASK = 0"
  "v1_refs 0 b \<noteq> 0" "v1_refs 0 b = 1 \<longleftrightarrow> \<not> b" "v1_refs 0 True - 1 = 1" "v1_refs 0 False = 1"
  "v1_refs LINK b \<noteq> 1"  "v1_refs l True - 1 = v1_refs l False"
  by (auto simp: v1_refs_def LINK_def REF_COUNT_MASK_def)

lemma LINK_not_0 [simp]: "LINK \<noteq> 0"
  by (simp add: LINK_def)

lemma v1_stub_unlinked: "vn_refs n = 1 \<Longrightarrow> vn_refs n AND NOT REF_COUNT_MASK = 0"
  by (simp add: REF_COUNT_MASK_def)

lemma v1_node_simps [simp]:
  "vn_prev (v1_node ps xs H l i) = (if i = 0 then null else ps ! (i - 1))"
  "vn_next (v1_node ps xs H l i) = (if i = length xs then null else ps ! Suc i)"
  "vn_value (v1_node ps xs H l i) = (if i = 0 then None else Some (xs ! (i - 1)))"
  "vn_refs (v1_node ps xs H l i) = v1_refs (if i = 0 then l else LINK) (ps ! i \<in> H)"
  by (simp_all add: v1_node_def)

section \<open>push and pop\<close>

lemma v1_push_step:
  assumes al: "valid_alloc k al" and I: "v1_inv q ps xs H l"
  shows "v1_push al v q = Inl AllocError \<or>
    (\<exists>a q'. v1_push al v q = Inr ((a, xs = []), q') \<and> a \<notin> set ps \<union> H \<and>
       v1_inv q' (ps @ [a]) (xs @ [v]) (insert a H) l)"
proof (cases "al (vl_heap q)")
  case None
  then show ?thesis by (simp add: v1_push_def v1_node_new_def alloc_None)
next
  case (Some a)
  note a = valid_allocD [OF al Some]
  let ?n = "length xs"
  have len: "length ps = Suc ?n" and dp: "distinct ps" and dm: "dom (vl_heap q) = set ps \<union> H"
    and nd: "\<And>i. i < length ps \<Longrightarrow> vl_heap q (ps ! i) = Some (v1_node ps xs H l i)"
    and hd: "vl_head q = ps ! ?n" "vl_tail q = ps ! 0"
    using I by (auto simp: v1_inv_def)
  have fr: "a \<notin> set ps \<union> H" using dm a(1) by blast
  then have ne: "ps ! i \<noteq> a" if "i < length ps" for i using that nth_mem by fastforce
  have emp: "ps ! 0 = ps ! ?n \<longleftrightarrow> xs = []" using dp len by (simp add: nth_eq_iff_index_eq)
  let ?new = "\<lparr>vn_prev = ps ! ?n, vn_next = null, vn_value = Some v, vn_refs = REF_INIT\<rparr>"
  let ?h = "(vl_heap q)(a \<mapsto> ?new, ps ! ?n \<mapsto> (v1_node ps xs H l ?n)\<lparr>vn_next := a\<rparr>)"
  let ?q = "q\<lparr>vl_heap := ?h, vl_head := a\<rparr>"
  have "v1_push al v q = Inr ((a, xs = []), ?q)"
    using Some nd [of ?n] ne [of ?n] len emp
    by (simp add: v1_push_def v1_node_new_def alloc_Some modify_Some hd Let_def)
  moreover have "v1_inv ?q (ps @ [a]) (xs @ [v]) (insert a H) l"
  proof -
    have "?h ((ps @ [a]) ! i) = Some (v1_node (ps @ [a]) (xs @ [v]) (insert a H) l i)"
      if i: "i < length (ps @ [a])" for i
    proof -
      consider "i < ?n" | "i = ?n" | "i = Suc ?n" using i len by fastforce
      then show ?thesis
      proof cases
        case 1
        then have "ps ! i \<noteq> ps ! ?n" using dp len by (simp add: nth_eq_iff_index_eq)
        then show ?thesis
          using 1 ne [of i] nd [of i] len by (auto simp: nth_append v1_node_def)
      next
        case 2
        then show ?thesis using ne [of ?n] len by (auto simp: nth_append v1_node_def)
      next
        case 3
        then show ?thesis
          using ne [of ?n] len
          by (auto simp: nth_append v1_node_def REF_INIT_def v1_refs_def LINK_def)
      qed
    qed
    moreover have "\<exists>n. ?h p = Some n \<and> vn_refs n = 1 \<and> vn_value n = None"
      if "p \<in> insert a H - set (ps @ [a])" for p
      using I that len by (auto simp: v1_inv_def)
    moreover have "dom ?h = set (ps @ [a]) \<union> insert a H" using dm len by auto
    ultimately show ?thesis
      using I fr a(2) len by (auto simp: v1_inv_def nth_append)
  qed
  ultimately show ?thesis using fr by blast
qed

lemma v1_unref_count:
  assumes "h p = Some n" "vn_refs n = v1_refs 0 held"
  shows "v1_unref p h = Inr (if held then h(p \<mapsto> n\<lparr>vn_refs := 1\<rparr>) else h(p := None))"
  using assms by (cases held) (auto simp: v1_unref_def deref_Some box_free_Some Let_def v1_refs_def)

lemma v1_clear_link:
  "vn_refs n = v1_refs l b \<Longrightarrow> l \<in> {0, LINK} \<Longrightarrow>
     vn_refs_update (\<lambda>r. r AND REF_COUNT_MASK) n = n\<lparr>vn_refs := v1_refs 0 b\<rparr>"
  by (cases n) simp

lemma v1_pop_if_step:
  assumes I: "v1_inv q ps (x # xs) H l"
  shows "\<not> f x \<Longrightarrow> v1_pop_if f q = Inr (None, q)"
    and "f x \<Longrightarrow> \<exists>q'. v1_pop_if f q = Inr (Some x, q') \<and> v1_pop q = Inr (Some x, q') \<and> v1_inv q' (tl ps) xs H LINK"
proof -
  let ?h = "vl_heap q"
  have len: "length ps = Suc (Suc (length xs))" and dp: "distinct ps" and l: "l \<in> {0, LINK}"
    and dm: "dom ?h = set ps \<union> H" and nu: "null \<notin> set ps \<union> H"
    and nd: "\<And>i. i < length ps \<Longrightarrow> ?h (ps ! i) = Some (v1_node ps (x # xs) H l i)"
    and hd: "vl_head q = ps ! Suc (length xs)" "vl_tail q = ps ! 0"
    and rest: "\<And>p. p \<in> H - set ps \<Longrightarrow> \<exists>n. ?h p = Some n \<and> vn_refs n = 1 \<and> vn_value n = None"
    using I by (auto simp: v1_inv_def)
  obtain p p' ps' where ps: "ps = p # p' # ps'" using len by (cases ps; cases "tl ps") auto
  have ne4: "p \<notin> set (p' # ps')" using dp ps by simp
  moreover have "(p' # ps') ! length xs \<in> set (p' # ps')" using len ps by (intro nth_mem) simp
  ultimately have ne: "p \<noteq> p'" "p' \<noteq> null" "ps ! Suc (length xs) \<noteq> p" "p \<notin> set (p' # ps')"
    using nu ps by auto
  define n0 where "n0 = v1_node ps (x # xs) H l 0"
  define n1 where "n1 = v1_node ps (x # xs) H l 1"
  have h: "?h p = Some n0" "?h p' = Some n1" using nd [of 0] nd [of 1] len by (simp_all add: ps n0_def n1_def)
  have n0: "vn_next n0 = p'" "vn_value n0 = None" "vn_refs n0 = v1_refs l (p \<in> H)" "vn_value n1 = Some x"
    by (simp_all add: n0_def n1_def ps)
  show "\<not> f x \<Longrightarrow> v1_pop_if f q = Inr (None, q)"
    using h n0 ne hd by (simp add: v1_pop_if_def deref_Some Let_def ps)
  define h1 where "h1 = ?h(p \<mapsto> n0\<lparr>vn_refs := v1_refs 0 (p \<in> H)\<rparr>, p' \<mapsto> n1\<lparr>vn_prev := null, vn_value := None\<rparr>)"
  define h2 where "h2 = (if p \<in> H then h1(p \<mapsto> n0\<lparr>vn_refs := 1\<rparr>) else h1(p := None))"
  have un: "v1_unref p h1 = Inr h2"
    using v1_unref_count [of h1 p "n0\<lparr>vn_refs := v1_refs 0 (p \<in> H)\<rparr>" "p \<in> H"] ne by (simp add: h1_def h2_def)
  let ?q = "q\<lparr>vl_heap := h2, vl_tail := p'\<rparr>"
  have pops: "v1_pop_if f q = Inr (Some x, ?q)" if "f x" for f
    using that h n0 ne hd l un
    by (simp add: v1_pop_if_def deref_Some modify_Some Let_def ps h1_def fun_upd_twist
        v1_clear_link [OF n0(3) l])
  have pop: "v1_pop q = Inr (Some x, ?q)"
    using h n0 ne hd l un
    by (simp add: v1_pop_def deref_Some modify_Some Let_def ps h1_def fun_upd_twist
        v1_clear_link [OF n0(3) l])
  have "v1_inv ?q (p' # ps') xs H LINK"
  proof -
    have "h2 ((p' # ps') ! i) = Some (v1_node (p' # ps') xs H LINK i)" if i: "i < length (p' # ps')" for i
    proof (cases i)
      case 0
      then show ?thesis using ne by (auto simp: h2_def h1_def n1_def v1_node_def ps)
    next
      case (Suc j)
      then have "ps' ! j \<noteq> p'" "ps' ! j \<noteq> p" using dp i ps by (auto dest: nth_mem)
      then show ?thesis using Suc nd [of "Suc i"] i by (auto simp: h2_def h1_def v1_node_def ps)
    qed
    moreover have "\<exists>n. h2 c = Some n \<and> vn_refs n = 1 \<and> vn_value n = None" if "c \<in> H - set (p' # ps')" for c
      using that rest [of c] n0(2) by (cases "c = p") (auto simp: h2_def h1_def ps)
    moreover have "dom h2 = set (p' # ps') \<union> H"
      using dm ne(4) by (auto simp: h2_def h1_def ps split: if_splits)
    ultimately show ?thesis using I by (auto simp: v1_inv_def ps)
  qed
  then show "f x \<Longrightarrow> \<exists>q'. v1_pop_if f q = Inr (Some x, q') \<and> v1_pop q = Inr (Some x, q') \<and> v1_inv q' (tl ps) xs H LINK"
    using pops pop by (auto simp: ps)
qed

lemma v1_empty_step:
  assumes "v1_inv q ps [] H l"
  shows "v1_pop_if f q = Inr (None, q)" "v1_pop q = Inr (None, q)" "v1_peek q = Inr None" "v1_is_empty q"
  using assms by (auto simp: v1_inv_def v1_pop_if_def v1_pop_def v1_peek_def v1_is_empty_def)

section \<open>Removal through a handle\<close>

text \<open>The nodes after node \<open>i\<close> was taken out, from those before.\<close>

lemma v1_node_remove:
  assumes "0 < i" "i < length xs" "length ps = Suc (length xs)" "distinct ps" "j < length xs"
  shows "v1_node (remove_at i ps) (remove_at (i - 1) xs) (H - {ps ! i}) l j =
    (v1_node ps xs H l (if j < i then j else Suc j))
      \<lparr>vn_prev := (if j = i then ps ! (i - 1) else vn_prev (v1_node ps xs H l (if j < i then j else Suc j))),
       vn_next := (if j = i - 1 then ps ! Suc i else vn_next (v1_node ps xs H l (if j < i then j else Suc j)))\<rparr>"
proof -
  obtain k where k: "i = Suc k" using assms(1) by (cases i) auto
  define m where "m = (if j < i then j else Suc j)"
  have l: "i < length ps" "k < length xs" "m < length ps" "m \<noteq> i" using assms k by (auto simp: m_def)
  have "ps ! m \<noteq> ps ! i" using l assms(4) by (simp add: nth_eq_iff_index_eq)
  then have refs: "remove_at i ps ! j \<in> H - {ps ! i} \<longleftrightarrow> ps ! m \<in> H"
    using l(1) by (simp add: nth_remove_at m_def)
  have prev: "remove_at i ps ! (j - 1) = (if j = i then ps ! (i - 1) else ps ! (m - 1))" if "j \<noteq> 0"
    using that l(1) k by (cases j) (auto simp: nth_remove_at less_Suc_eq m_def)
  have nxt: "remove_at i ps ! Suc j = (if j = i - 1 then ps ! Suc i else ps ! Suc m)"
    using l(1) k by (simp add: nth_remove_at m_def)
  have val: "remove_at (i - 1) xs ! (j - 1) = xs ! (m - 1)" if "j \<noteq> 0"
    using that l(2) k by (cases j) (auto simp: nth_remove_at m_def)
  have lst: "j = length xs - 1 \<longleftrightarrow> m = length xs" "j = i - 1 \<Longrightarrow> m \<noteq> length xs"
    using assms l k by (auto simp: m_def)
  have z: "j = 0 \<longleftrightarrow> m = 0" using assms(1) by (auto simp: m_def)
  have len: "length (remove_at (i - 1) xs) = length xs - 1" using l(2) k by simp
  have "vn_prev (v1_node (remove_at i ps) (remove_at (i - 1) xs) (H - {ps ! i}) l j) =
      (if j = i then ps ! (i - 1) else vn_prev (v1_node ps xs H l m))"
    using prev z assms(1) by (cases "j = 0") (auto simp: v1_node_def)
  moreover have "vn_next (v1_node (remove_at i ps) (remove_at (i - 1) xs) (H - {ps ! i}) l j) =
      (if j = i - 1 then ps ! Suc i else vn_next (v1_node ps xs H l m))"
    unfolding v1_node_simps len lst(1) nxt using lst(2) by simp
  moreover have "vn_value (v1_node (remove_at i ps) (remove_at (i - 1) xs) (H - {ps ! i}) l j) =
      vn_value (v1_node ps xs H l m)"
    using val z by (simp add: v1_node_def)
  moreover have "vn_refs (v1_node (remove_at i ps) (remove_at (i - 1) xs) (H - {ps ! i}) l j) =
      vn_refs (v1_node ps xs H l m)"
    unfolding v1_node_simps refs z ..
  ultimately show ?thesis
    unfolding m_def [symmetric] by (intro vnode.equality) (simp_all del: v1_node_simps)
qed

text \<open>A held handle of a node that is still an inner node of the list.\<close>

lemma v1_unlink_middle:
  assumes I: "v1_inv q ps xs H l" and i: "0 < i" "i < length xs" and H: "ps ! i \<in> H"
  shows "\<exists>q'. v1_remove (ps ! i) q = Inr (Some (xs ! (i - 1)), q') \<and>
    v1_inv q' (remove_at i ps) (remove_at (i - 1) xs) (H - {ps ! i}) l"
proof -
  let ?h = "vl_heap q" and ?p = "ps ! i" and ?pr = "ps ! (i - 1)" and ?nx = "ps ! Suc i"
  have len: "length ps = Suc (length xs)" and dp: "distinct ps" and l: "l \<in> {0, LINK}"
    and dm: "dom ?h = set ps \<union> H" and nu: "null \<notin> set ps \<union> H"
    and nd: "\<And>j. j < length ps \<Longrightarrow> ?h (ps ! j) = Some (v1_node ps xs H l j)"
    and hd: "vl_head q = ps ! length xs" "vl_tail q = ps ! 0"
    and rest: "\<And>p. p \<in> H - set ps \<Longrightarrow> \<exists>n. ?h p = Some n \<and> vn_refs n = 1 \<and> vn_value n = None"
    using I by (auto simp: v1_inv_def)
  have nth_ne: "ps ! j \<noteq> ps ! k" if "j \<noteq> k" "j < length ps" "k < length ps" for j k
    using that dp by (simp add: nth_eq_iff_index_eq)
  have nn: "ps ! j \<noteq> null" if "j < length ps" for j
    using nu nth_mem [OF that] by (metis UnI1)
  have ne: "?pr \<noteq> ?p" "?nx \<noteq> ?p" "?nx \<noteq> ?pr" "?nx \<noteq> null" "?pr \<noteq> null"
    using nth_ne [of "i - 1" i] nth_ne [of "Suc i" i] nth_ne [of "Suc i" "i - 1"] nn [of "Suc i"]
      nn [of "i - 1"] i len by auto
  define n where "n = v1_node ps xs H l i"
  define np where "np = v1_node ps xs H l (i - 1)"
  define nn where "nn = v1_node ps xs H l (Suc i)"
  have h: "?h ?p = Some n" "?h ?pr = Some np" "?h ?nx = Some nn"
    using nd [of i] nd [of "i - 1"] nd [of "Suc i"] i len by (simp_all add: n_def np_def nn_def)
  have nf: "vn_refs n = v1_refs LINK True" "vn_prev n = ?pr" "vn_next n = ?nx" "vn_value n = Some (xs ! (i - 1))"
    using i H by (simp_all add: n_def)
  let ?n' = "n\<lparr>vn_refs := v1_refs 0 True, vn_value := None\<rparr>"
  define h1 where "h1 = ?h(?p \<mapsto> ?n', ?nx \<mapsto> nn\<lparr>vn_prev := ?pr\<rparr>, ?pr \<mapsto> np\<lparr>vn_next := ?nx\<rparr>)"
  have h1p: "h1 ?p = Some ?n'" using ne by (simp add: h1_def)
  have "v1_unlink ?p ?h = Inr (Some (xs ! (i - 1)), h1(?p \<mapsto> ?n'\<lparr>vn_refs := 1\<rparr>))"
    using h nf ne v1_unref_count [of h1 ?p ?n' True] h1p
    by (simp add: v1_unlink_def deref_Some modify_Some Let_def h1_def fun_upd_twist v1_clear_link [OF nf(1)])
  then have rm: "v1_remove ?p q = Inr (Some (xs ! (i - 1)), q\<lparr>vl_heap := h1(?p := None)\<rparr>)"
    using v1_unref_count [of "h1(?p \<mapsto> ?n'\<lparr>vn_refs := 1\<rparr>)" ?p "?n'\<lparr>vn_refs := 1\<rparr>" False]
    by (simp add: v1_remove_def v1_entry_drop_def)
  let ?ps = "remove_at i ps" and ?xs = "remove_at (i - 1) xs" and ?H = "H - {?p}"
  have "(h1(?p := None)) (?ps ! j) = Some (v1_node ?ps ?xs ?H l j)" if j: "j < length ?ps" for j
  proof -
    let ?j = "if j < i then j else Suc j"
    have jl: "?j < length ps" and jne: "?j \<noteq> i" and pj: "?ps ! j = ps ! ?j"
      using j i len by (auto simp: nth_remove_at)
    have np': "ps ! ?j \<noteq> ?p" using nth_ne [OF jne jl] i len by simp
    have eq: "ps ! ?j = ?pr \<longleftrightarrow> j = i - 1" "ps ! ?j = ?nx \<longleftrightarrow> j = i"
      using jl i len dp by (auto simp: nth_eq_iff_index_eq)
    have "(h1(?p := None)) (ps ! ?j) =
        Some ((v1_node ps xs H l ?j)\<lparr>vn_prev := (if j = i then ?pr else vn_prev (v1_node ps xs H l ?j)),
          vn_next := (if j = i - 1 then ?nx else vn_next (v1_node ps xs H l ?j))\<rparr>)"
      using nd [OF jl] np' eq i ne by (auto simp: h1_def np_def nn_def)
    also have "\<dots> = Some (v1_node ?ps ?xs ?H l j)"
      using j i len by (subst v1_node_remove [OF i len dp]) simp_all
    finally show ?thesis using pj by simp
  qed
  moreover have st: "set ?ps = set ps - {?p}" using set_remove_at [OF dp] i len by simp
  moreover have "\<exists>n. (h1(?p := None)) c = Some n \<and> vn_refs n = 1 \<and> vn_value n = None"
    if c: "c \<in> ?H - set ?ps" for c
  proof -
    have cn: "c \<in> H - set ps" using c st by blast
    then have "c \<noteq> ps ! j" if "j < length ps" for j using that by force
    then have "c \<noteq> ?p" "c \<noteq> ?pr" "c \<noteq> ?nx" using i len by simp_all
    then show ?thesis using rest [OF cn] by (simp add: h1_def)
  qed
  moreover have "dom (h1(?p := None)) = set ?ps \<union> ?H"
  proof -
    have "?pr \<in> dom ?h" "?nx \<in> dom ?h" "?p \<in> dom ?h" using h by auto
    then have "dom (h1(?p := None)) = dom ?h - {?p}" unfolding h1_def using ne by auto
    then show ?thesis using dm st by auto
  qed
  moreover have "Suc (length xs - 1) = length xs" "\<not> length xs - 1 < i" using i by simp_all
  then have "?ps ! 0 = ps ! 0" "?ps ! length ?xs = ps ! length xs"
    using i len by (simp_all add: nth_remove_at)
  ultimately have "v1_inv (q\<lparr>vl_heap := h1(?p := None)\<rparr>) ?ps ?xs ?H l"
    using I distinct_remove_at [OF dp] i len by (auto simp: v1_inv_def)
  with rm show ?thesis by blast
qed

text \<open>
  The handles for which a removal takes no effect: of a node that was already taken out or popped,
  of the stub, and of the last node.
\<close>

lemma v1_remove_gone:
  assumes I: "v1_inv q ps xs H l" and p: "p \<in> H - set ps"
  shows "\<exists>q'. v1_remove p q = Inr (None, q') \<and> v1_inv q' ps xs (H - {p}) l"
proof -
  obtain n where n: "vl_heap q p = Some n" "vn_refs n = 1" using I p unfolding v1_inv_def by blast
  let ?h = "(vl_heap q)(p := None)"
  have "v1_unlink p (vl_heap q) = Inr (None, vl_heap q)"
    using n v1_stub_unlinked [OF n(2)] by (simp add: v1_unlink_def deref_Some)
  then have "v1_remove p q = Inr (None, q\<lparr>vl_heap := ?h\<rparr>)"
    using v1_unref_count [of "vl_heap q" p n False] n by (simp add: v1_remove_def v1_entry_drop_def)
  moreover have "v1_inv (q\<lparr>vl_heap := ?h\<rparr>) ps xs (H - {p}) l"
  proof -
    have "ps ! i \<noteq> p" if "i < length ps" for i using that p nth_mem by blast
    then have "?h (ps ! i) = Some (v1_node ps xs (H - {p}) l i)" if "i < length ps" for i
      using I that by (simp add: v1_inv_def v1_node_def)
    then show ?thesis using I p by (auto simp: v1_inv_def)
  qed
  ultimately show ?thesis by blast
qed

lemma v1_remove_edge:
  assumes I: "v1_inv q ps xs H l" and i: "i = 0 \<and> l = LINK \<or> i = length xs \<and> i \<noteq> 0" and H: "ps ! i \<in> H"
  shows "\<exists>q'. v1_remove (ps ! i) q = Inr (None, q') \<and> v1_inv q' ps xs (H - {ps ! i}) l"
proof -
  let ?h = "vl_heap q" and ?p = "ps ! i"
  have len: "length ps = Suc (length xs)" and dp: "distinct ps"
    and nd: "\<And>j. j < length ps \<Longrightarrow> ?h (ps ! j) = Some (v1_node ps xs H l j)"
    using I by (auto simp: v1_inv_def)
  have il: "i < length ps" using i len by auto
  define n where "n = v1_node ps xs H l i"
  have n: "?h ?p = Some n" "vn_refs n = v1_refs LINK True" using nd [OF il] i H by (auto simp: n_def)
  have "v1_unlink ?p ?h = Inr (None, ?h)"
    using n i by (auto simp: v1_unlink_def deref_Some n_def Let_def)
  moreover have "v1_refs LINK True \<noteq> 1" by simp
  ultimately have rm: "v1_remove ?p q = Inr (None, q\<lparr>vl_heap := ?h(?p \<mapsto> n\<lparr>vn_refs := v1_refs LINK False\<rparr>)\<rparr>)"
    using n by (simp add: v1_remove_def v1_entry_drop_def v1_unref_def deref_Some Let_def)
  let ?h' = "?h(?p \<mapsto> n\<lparr>vn_refs := v1_refs LINK False\<rparr>)"
  have "?h' (ps ! j) = Some (v1_node ps xs (H - {?p}) l j)" if j: "j < length ps" for j
  proof (cases "j = i")
    case True
    then show ?thesis using i by (auto simp: n_def v1_node_def)
  next
    case False
    then have "ps ! j \<noteq> ?p" using dp j il by (simp add: nth_eq_iff_index_eq)
    then show ?thesis using nd [OF j] by (simp add: v1_node_def)
  qed
  moreover have "?p \<in> set ps" using il by simp
  ultimately have "v1_inv (q\<lparr>vl_heap := ?h'\<rparr>) ps xs (H - {?p}) l"
    using I n(1) unfolding v1_inv_def by auto
  with rm show ?thesis by blast
qed

section \<open>The list as an implementation of the contract\<close>

lemma v1_rep_pop_if:
  assumes "v1_rep q xs H"
  shows "\<exists>q'. v1_pop_if f q = Inr (case xs of [] \<Rightarrow> None | x # _ \<Rightarrow> if f x then Some x else None, q') \<and>
    v1_rep q' (case xs of [] \<Rightarrow> [] | x # ys \<Rightarrow> if f x then ys else xs) H"
proof (cases xs)
  case Nil
  with assms show ?thesis using v1_empty_step(1) by (fastforce simp: v1_rep_def)
next
  case (Cons x ys)
  with assms obtain ps l where I: "v1_inv q ps (x # ys) H l" by (auto simp: v1_rep_def)
  show ?thesis
  proof (cases "f x")
    case True
    with v1_pop_if_step(2) [OF I, of f] Cons show ?thesis by (auto simp: v1_rep_def)
  next
    case False
    with v1_pop_if_step(1) [OF I, of f] Cons assms show ?thesis by simp
  qed
qed

interpretation v1_pops: pop_queue "\<lambda>q xs. v1_rep q xs H" v1_pop for H
proof
  fix q :: "'a vlist" and x xs assume "v1_rep q (x # xs) H"
  then obtain ps l where "v1_inv q ps (x # xs) H l" by (auto simp: v1_rep_def)
  from v1_pop_if_step(2) [OF this, of "\<lambda>_. True"] show "\<exists>q'. v1_pop q = Inr (Some x, q') \<and> v1_rep q' xs H"
    by (auto simp: v1_rep_def)
qed (use v1_empty_step(2) in \<open>fastforce simp: v1_rep_def\<close>)

lemma v1_rep_peek:
  assumes "v1_rep q xs H"
  shows "v1_peek q = Inr (case xs of [] \<Rightarrow> None | x # _ \<Rightarrow> Some x)" and "v1_is_empty q \<longleftrightarrow> xs = []"
proof -
  from assms obtain ps l where I: "v1_inv q ps xs H l" by (auto simp: v1_rep_def)
  then have len: "length ps = Suc (length xs)" and dp: "distinct ps" and nu: "null \<notin> set ps"
    and nd: "\<And>j. j < length ps \<Longrightarrow> vl_heap q (ps ! j) = Some (v1_node ps xs H l j)"
    and hd: "vl_head q = ps ! length xs" "vl_tail q = ps ! 0"
    by (auto simp: v1_inv_def)
  have ht: "vl_head q = vl_tail q \<longleftrightarrow> xs = []" using dp len by (simp add: hd nth_eq_iff_index_eq)
  then show "v1_is_empty q \<longleftrightarrow> xs = []" by (simp add: v1_is_empty_def)
  show "v1_peek q = Inr (case xs of [] \<Rightarrow> None | x # _ \<Rightarrow> Some x)"
  proof (cases xs)
    case Nil
    with ht show ?thesis by (simp add: v1_peek_def)
  next
    case (Cons x ys)
    have "ps ! 1 \<in> set ps" using len Cons by (intro nth_mem) simp
    then have "ps ! 1 \<noteq> null" using nu by metis
    then show ?thesis
      using ht Cons nd [of 0] nd [of 1] len hd(2) by (simp add: v1_peek_def deref_Some Let_def)
  qed
qed

lemma v1_rep_push:
  assumes "valid_alloc k al" "v1_rep q xs H"
  shows "v1_push al v q = Inl AllocError \<or>
    (\<exists>a q'. v1_push al v q = Inr ((a, xs = []), q') \<and> a \<notin> H \<and> v1_rep q' (xs @ [v]) (insert a H))"
  using v1_push_step [OF assms(1)] assms(2) unfolding v1_rep_def by (metis UnI2)

text \<open>
  What a removal may do to the queued values: nothing, or delete one that is not the last.
\<close>

lemma v1_rep_remove:
  assumes "v1_rep q xs H" "p \<in> H"
  shows "\<exists>q'. (v1_remove p q = Inr (None, q') \<and> v1_rep q' xs (H - {p})) \<or>
    (\<exists>as x bs. xs = as @ x # bs \<and> bs \<noteq> [] \<and> v1_remove p q = Inr (Some x, q') \<and> v1_rep q' (as @ bs) (H - {p}))"
proof -
  from assms(1) obtain ps l where I: "v1_inv q ps xs H l" by (auto simp: v1_rep_def)
  then have len: "length ps = Suc (length xs)" by (simp add: v1_inv_def)
  show ?thesis
  proof (cases "p \<in> set ps")
    case False
    with v1_remove_gone [OF I, of p] assms(2) show ?thesis by (auto simp: v1_rep_def)
  next
    case True
    then obtain i where i: "i < length ps" "ps ! i = p" by (auto simp: in_set_conv_nth)
    consider "i = 0" "l = LINK" | "i = 0" "l = 0" | "0 < i" "i < length xs" | "i = length xs" "i \<noteq> 0"
      using i I by (fastforce simp: v1_inv_def)
    then show ?thesis
    proof cases
      case 2
      then show ?thesis using I i assms(2) by (simp add: v1_inv_def)
    next
      case 3
      let ?k = "i - 1"
      have k: "?k < length xs" "drop (Suc ?k) xs \<noteq> []" using 3 by auto
      have "xs = take ?k xs @ xs ! ?k # drop (Suc ?k) xs" by (rule id_take_nth_drop [OF k(1)])
      with k(2) v1_unlink_middle [OF I 3] i(2) assms(2) show ?thesis
        unfolding v1_rep_def remove_at_def by blast
    next
      case 1
      then show ?thesis using v1_remove_edge [OF I, of i] i assms(2) unfolding v1_rep_def by blast
    next
      case 4
      then show ?thesis using v1_remove_edge [OF I, of i] i assms(2) unfolding v1_rep_def by blast
    qed
  qed
qed

lemma v1_rep_new:
  assumes "valid_alloc k al" "v1_new al = Inr q" shows "v1_rep q [] {}"
proof -
  from assms(2) obtain a where a: "al Map.empty = Some a"
    by (auto simp: v1_new_def v1_node_new_def bindE_eq_Inr alloc_eq_Inr)
  with assms(2) have "q = \<lparr>vl_heap = [a \<mapsto> \<lparr>vn_prev = null, vn_next = null, vn_value = None, vn_refs = 1\<rparr>],
      vl_head = a, vl_tail = a\<rparr>"
    by (simp add: v1_new_def v1_node_new_def alloc_Some modify_Some)
  with valid_allocD(2) [OF assms(1) a] have "v1_inv q [a] [] {} 0"
    by (simp add: v1_inv_def v1_node_def v1_refs_def)
  then show ?thesis unfolding v1_rep_def by blast
qed

text \<open>
  Dropping the list drains it and frees its stub. What is left are the nodes whose handle is still
  held, each with a count of one, except for the last stub: it is freed whatever its count.
\<close>

lemma v1_rep_drop:
  assumes "v1_rep q xs H" "length xs < n"
  shows "\<exists>h stub. v1_drop n q = Inr (xs, h) \<and> dom h = H - {stub} \<and> (H = {} \<longrightarrow> h = Map.empty)"
proof -
  from v1_pops.drain_all [OF assms] obtain q' where
    d: "drain n v1_pop q = Inr (xs, q')" and "v1_rep q' [] H" by blast
  then obtain ps l where I: "v1_inv q' ps [] H l" by (auto simp: v1_rep_def)
  then obtain p where p: "ps = [p]" by (auto simp: v1_inv_def length_Suc_conv)
  have t: "vl_tail q' = p" "dom (vl_heap q') = insert p H" and "vl_heap q' p = Some (v1_node ps [] H l 0)"
    using I p by (auto simp: v1_inv_def)
  then have e: "v1_drop n q = Inr (xs, (vl_heap q')(p := None))"
    using d by (simp add: v1_drop_def box_free_Some)
  have dm: "dom ((vl_heap q')(p := None)) = H - {p}" using t by auto
  show ?thesis
    using e dm by (intro exI [of _ "(vl_heap q')(p := None)"] exI [of _ p]) (auto simp: dom_eq_empty_conv [symmetric] simp del: dom_eq_empty_conv)
qed

text \<open>A list over a valid allocator.\<close>

locale v1_allocator =
  fixes k :: nat and al :: "'a vnode allocator"
  assumes valid: "valid_alloc k al"

sublocale v1_allocator \<subseteq> v1: handle_queue v1_rep "v1_push al" v1_pop_if v1_peek v1_is_empty v1_remove
proof
  fix q :: "'a vlist" and xs H v
  assume R: "v1_rep q xs H"
  show "v1_push al v q = Inl AllocError \<or>
      (\<exists>a q'. v1_push al v q = Inr ((a, xs = []), q') \<and> a \<notin> H \<and> v1_rep q' (xs @ [v]) (insert a H))"
    by (rule v1_rep_push [OF valid R])
  show "\<exists>q'. v1_pop_if f q = Inr (case xs of [] \<Rightarrow> None | x # _ \<Rightarrow> if f x then Some x else None, q') \<and>
      v1_rep q' (case xs of [] \<Rightarrow> [] | x # ys \<Rightarrow> if f x then ys else xs) H" for f
    by (rule v1_rep_pop_if [OF R])
  show "v1_peek q = Inr (case xs of [] \<Rightarrow> None | x # _ \<Rightarrow> Some x)" "v1_is_empty q \<longleftrightarrow> xs = []"
    by (rule v1_rep_peek [OF R])+
  show "\<exists>q'. (v1_remove p q = Inr (None, q') \<and> v1_rep q' xs (H - {p})) \<or>
      (\<exists>as x bs. xs = as @ x # bs \<and> bs \<noteq> [] \<and> v1_remove p q = Inr (Some x, q') \<and> v1_rep q' (as @ bs) (H - {p}))"
    if "p \<in> H" for p
    by (rule v1_rep_remove [OF R that])
qed

interpretation v1_three: v1_allocator 6 three_blocks
  by unfold_locales (rule valid_three_blocks)

section \<open>Properties\<close>

text \<open>
  C29: removal through a handle is exact. Let \<open>ps\<close> be the nodes from the stub to the head, \<open>xs\<close> the
  queued values and \<open>H\<close> the outstanding handles. Removing a held handle takes out exactly its own
  value when its node lies strictly between the stub and the last node, keeping the order of the
  others; for the last node, the stub, or a node that already left the list it changes nothing. In
  every case the handle is used up, and the node is freed as soon as neither the list nor a handle
  owns it: the live nodes are always the linked ones and the ones with a handle.
\<close>

theorem v1_remove_exact:
  assumes "v1_inv q ps xs H l" and "p \<in> H"
  shows "\<exists>q'. (\<exists>i. 0 < i \<and> i < length xs \<and> ps ! i = p \<and>
        v1_remove p q = Inr (Some (xs ! (i - 1)), q') \<and>
        v1_inv q' (remove_at i ps) (remove_at (i - 1) xs) (H - {p}) l \<and>
        dom (vl_heap q') = set (remove_at i ps) \<union> (H - {p})) \<or>
     ((\<forall>i. 0 < i \<and> i < length xs \<longrightarrow> ps ! i \<noteq> p) \<and> v1_remove p q = Inr (None, q') \<and>
        v1_inv q' ps xs (H - {p}) l \<and> dom (vl_heap q') = set ps \<union> (H - {p}))"
proof (cases "\<exists>i. 0 < i \<and> i < length xs \<and> ps ! i = p")
  case True
  then obtain i where i: "0 < i" "i < length xs" "ps ! i = p" by blast
  with v1_unlink_middle [OF assms(1) i(1,2)] assms(2) show ?thesis
    unfolding v1_inv_def by blast
next
  case False
  have len: "length ps = Suc (length xs)" and l: "l = 0 \<longrightarrow> ps ! 0 \<notin> H" "l \<in> {0, LINK}"
    using assms(1) by (auto simp: v1_inv_def)
  have "\<exists>q'. v1_remove p q = Inr (None, q') \<and> v1_inv q' ps xs (H - {p}) l"
  proof (cases "p \<in> set ps")
    case False
    with v1_remove_gone [OF assms(1), of p] assms(2) show ?thesis by simp
  next
    case True
    then obtain i where i: "i < length ps" "ps ! i = p" by (auto simp: in_set_conv_nth)
    then have "i = 0 \<and> l = LINK \<or> i = length xs \<and> i \<noteq> 0"
      using False len l assms(2) by (cases "i = 0") (auto simp: less_Suc_eq)
    with v1_remove_edge [OF assms(1)] i assms(2) show ?thesis by blast
  qed
  with False show ?thesis unfolding v1_inv_def by blast
qed

text \<open>
  The consumer's and the producers' operations on the same state: a push appends the value,
  tells whether the queue was empty and returns a fresh handle (or aborts on a failed allocation);
  \<^verbatim>\<open>pop_if\<close> takes the oldest value exactly when it satisfies the test, \<^verbatim>\<open>pop\<close> always does; no
  assertion fails, and the memory stays exactly the linked nodes and the ones with a handle.
\<close>

theorem v1_queue_ops:
  assumes "v1_inv q ps xs H l" and "valid_alloc k al"
  shows "(v1_push al v q = Inl AllocError \<or>
      (\<exists>a q'. v1_push al v q = Inr ((a, xs = []), q') \<and> a \<notin> set ps \<union> H \<and>
         v1_inv q' (ps @ [a]) (xs @ [v]) (insert a H) l)) \<and>
    (case xs of
       [] \<Rightarrow> v1_pop_if f q = Inr (None, q) \<and> v1_pop q = Inr (None, q) \<and> v1_peek q = Inr None \<and> v1_is_empty q
     | x # ys \<Rightarrow> v1_peek q = Inr (Some x) \<and> \<not> v1_is_empty q \<and> (\<not> f x \<longrightarrow> v1_pop_if f q = Inr (None, q)) \<and>
         (\<exists>q'. (f x \<longrightarrow> v1_pop_if f q = Inr (Some x, q')) \<and> v1_pop q = Inr (Some x, q') \<and>
            v1_inv q' (tl ps) ys H LINK))"
proof -
  have R: "v1_rep q xs H" using assms(1) unfolding v1_rep_def by blast
  show ?thesis
  proof (cases xs)
    case Nil
    with assms(1) v1_push_step [OF assms(2,1), of v] v1_empty_step show ?thesis by fastforce
  next
    case (Cons x ys)
    then have I: "v1_inv q ps (x # ys) H l" using assms(1) by simp
    from v1_pop_if_step(2) [OF I, of "\<lambda>_. True"] obtain q' where
      q': "v1_pop q = Inr (Some x, q')" "v1_inv q' (tl ps) ys H LINK" by auto
    with v1_pop_if_step [OF I, of f] have
      "(\<not> f x \<longrightarrow> v1_pop_if f q = Inr (None, q)) \<and> (f x \<longrightarrow> v1_pop_if f q = Inr (Some x, q'))" by auto
    with q' v1_rep_peek [OF R] v1_push_step [OF assms(2,1), of v] Cons show ?thesis by auto
  qed
qed

text \<open>A new list, one push and one more: the state the witnesses use.\<close>

lemma v1_sample:
  "\<exists>q::nat vlist. v1_inv q [4096, 8192, 12288] [1, 2] {8192, 12288} 0"
proof -
  obtain q0 :: "nat vlist" where q0: "v1_new three_blocks = Inr q0"
    by (simp add: v1_new_def v1_node_new_def alloc_def modify_def)
  have I0: "v1_inv q0 [4096] [] {} 0"
    using q0 by (auto simp: v1_new_def v1_node_new_def alloc_def modify_def v1_inv_def v1_node_def v1_refs_def
        split: if_splits)
  obtain q1 where "v1_push three_blocks 1 q0 = Inr ((8192, True), q1)"
    using q0 by (auto simp: v1_new_def v1_node_new_def alloc_def modify_def v1_push_def)
  with v1_push_step [OF valid_three_blocks I0, of 1]
  have I1: "v1_inv q1 [4096, 8192] [1] {8192} 0" by auto
  have "dom (vl_heap q1) = {4096, 8192}" using I1 by (auto simp: v1_inv_def)
  then have "4096 \<in> dom (vl_heap q1)" "8192 \<in> dom (vl_heap q1)" "12288 \<notin> dom (vl_heap q1)" by simp_all
  then have a: "vl_heap q1 4096 \<noteq> None" "vl_heap q1 8192 \<noteq> None" "vl_heap q1 12288 = None"
    unfolding domIff by simp_all
  then have "v1_push three_blocks 2 q1 \<noteq> Inl AllocError \<and>
      (\<forall>b c q'. v1_push three_blocks 2 q1 = Inr ((b, c), q') \<longrightarrow> b = 12288)"
    using I1 by (auto simp: v1_push_def v1_node_new_def alloc_def modify_def v1_inv_def bindE_eq_Inl
        bindE_eq_Inr Let_def split: option.splits)
  with v1_push_step [OF valid_three_blocks I1, of 2] obtain q2 :: "nat vlist" where
    "v1_inv q2 [4096, 8192, 12288] [1, 2] {8192, 12288} 0" by (auto simp: insert_commute)
  then show ?thesis by blast
qed

theorem v1_remove_exact_witness:
  "\<exists>(q::nat vlist) q'. v1_remove 8192 q = Inr (Some 1, q') \<and> dom (vl_heap q') = {4096, 12288}"
proof -
  obtain q :: "nat vlist" where "v1_inv q [4096, 8192, 12288] [1, 2] {8192, 12288} 0"
    using v1_sample by blast
  from v1_remove_exact [OF this, of 8192] obtain q' where
    "v1_remove 8192 q = Inr (Some 1, q')" "dom (vl_heap q') = {4096, 12288}"
    by (auto simp: remove_at_def less_Suc_eq insert_commute)
  then show ?thesis by blast
qed

text \<open>
  C37: \<^verbatim>\<open>Drop for Queue\<close> frees the stub without looking at its count. If the handle of the value
  popped last is still held when the list is dropped, its node is gone: asking the handle whether it
  is linked, or dropping it, reads freed memory.
\<close>

theorem v1_drop_dangling_handle:
  assumes "valid_alloc k al" and "v1_new al = Inr q" and "v1_push al v q = Inr ((a, is_head), q1)"
  shows "\<exists>q2 h. v1_pop q1 = Inr (Some v, q2) \<and> v1_drop 1 q2 = Inr ([], h) \<and>
    v1_is_link a h = Inl UseAfterFree \<and> v1_entry_drop a (q2\<lparr>vl_heap := h\<rparr>) = Inl UseAfterFree"
proof -
  from v1_rep_new [OF assms(1,2)] obtain ps l where I: "v1_inv q ps [] {} l" by (auto simp: v1_rep_def)
  then obtain p where p: "ps = [p]" by (auto simp: v1_inv_def length_Suc_conv)
  from v1_push_step [OF assms(1) I, of v] assms(3) have I1: "v1_inv q1 [p, a] [v] {a} l" by (auto simp: p)
  from v1_pop_if_step(2) [OF I1, of "\<lambda>_. True"] obtain q2 where
    q2: "v1_pop q1 = Inr (Some v, q2)" and I2: "v1_inv q2 [a] [] {a} LINK" by auto
  have t: "vl_tail q2 = a" "vl_heap q2 a = Some (v1_node [a] [] {a} LINK 0)" using I2 by (auto simp: v1_inv_def)
  let ?h = "(vl_heap q2)(a := None)"
  have "v1_drop 1 q2 = Inr ([], ?h)"
    using v1_empty_step(2) [OF I2] t by (simp add: v1_drop_def box_free_Some)
  with q2 show ?thesis by (auto simp: v1_is_link_def v1_entry_drop_def v1_unref_def deref_def)
qed

theorem v1_drop_dangling_handle_witness:
  "\<exists>(q1::nat vlist) q2 h a. v1_pop q1 = Inr (Some 7, q2) \<and> v1_drop 1 q2 = Inr ([], h) \<and>
     v1_is_link a h = Inl UseAfterFree"
proof -
  obtain q0 :: "nat vlist" where q0: "v1_new three_blocks = Inr q0"
    by (simp add: v1_new_def v1_node_new_def alloc_def modify_def)
  then obtain q1 where "v1_push three_blocks 7 q0 = Inr ((8192, True), q1)"
    by (auto simp: v1_new_def v1_node_new_def alloc_def modify_def v1_push_def)
  from v1_drop_dangling_handle [OF valid_three_blocks q0 this] show ?thesis by blast
qed

end
