(* ===== verification/Timeout_List.thy ===== *)
theory Timeout_List
  imports Mpsc_List_V1
begin

unbundle bit_operations_syntax

text \<open>
  The timer of \<^verbatim>\<open>src/timeout_list.rs\<close>: timers are kept in one removable queue per duration, so
  that each queue is ordered by deadline; a binary heap holds the head of every non-empty queue, and
  the timer thread fires what has expired and sleeps until the next deadline. The model runs the
  operations one after the other; \<^verbatim>\<open>Instant\<close> readings are arguments, and the handler that
  \<^verbatim>\<open>schedule_timer\<close> calls is recorded as the list of fired data.
\<close>

section \<open>Deadlines\<close>

definition HASH_CAP :: nat where
  "HASH_CAP = 1024"

text \<open>
  \<^verbatim>\<open>Duration::as_nanos\<close> is a \<^verbatim>\<open>u128\<close>; the interval is cut so that the deadline fits in 64 bits.
\<close>

definition timeout_deadline :: "u64 \<Rightarrow> 128 word \<Rightarrow> u64 \<times> u64" where
  "timeout_deadline now dur =
     (let interval = ucast (min dur (ucast (- 1 - now :: u64))) in (interval, now + interval))"

text \<open>\<^verbatim>\<open>get_instant().elapsed().as_nanos().min(u64::MAX as u128) as u64\<close>\<close>

definition now_ns :: "128 word \<Rightarrow> u64" where
  "now_ns elapsed = ucast (min elapsed (ucast (- 1 :: u64)))"

section \<open>Data\<close>

record 'a tdata =
  td_time :: u64
  td_data :: 'a

record 'a twrap =
  tw_inner :: "'a tdata vlist"
  tw_in_use :: usize

text \<open>An \<^verbatim>\<open>Arc<TimeoutQueueWrapper>\<close> is the number of a queue in the store \<open>tl_queues\<close>.\<close>

record ientry =
  ie_time :: u64
  ie_list :: nat
  ie_interval :: u64

text \<open>
  \<^verbatim>\<open>Ord for IntervalEntry\<close>: the entry with the smaller time is the greater one, so that the
  max-heap of the standard library has the earliest deadline on top. The heap is kept as a list with
  its greatest entry first.
\<close>

definition ientry_less_eq :: "ientry \<Rightarrow> ientry \<Rightarrow> bool" where
  "ientry_less_eq a b \<longleftrightarrow> ie_time b \<le> ie_time a"

fun bh_push :: "ientry \<Rightarrow> ientry list \<Rightarrow> ientry list" where
  "bh_push e [] = [e]"
| "bh_push e (x # xs) = (if ientry_less_eq e x then x # bh_push e xs else e # x # xs)"

record 'a tlist =
  tl_map :: "(u64 \<times> nat) list"
  tl_queues :: "nat \<rightharpoonup> 'a twrap"
  tl_bh :: "ientry list"
  tl_fresh :: nat

definition tlist_new :: "'a tlist" where
  "tlist_new = \<lparr>tl_map = [], tl_queues = Map.empty, tl_bh = [], tl_fresh = 0\<rparr>"

definition tl_queue :: "'a tlist \<Rightarrow> nat \<Rightarrow> 'a twrap res" where
  "tl_queue t i = (case tl_queues t i of None \<Rightarrow> Inl UseAfterFree | Some w \<Rightarrow> Inr w)"

definition tl_set :: "nat \<Rightarrow> 'a twrap \<Rightarrow> 'a tlist \<Rightarrow> 'a tlist" where
  "tl_set i w t = t\<lparr>tl_queues := (tl_queues t)(i \<mapsto> w)\<rparr>"

section \<open>Operations\<close>

definition install_timer_bh :: "ientry \<Rightarrow> 'a tlist \<Rightarrow> 'a tlist res" where
  "install_timer_bh e t =
     bindE (tl_queue t (ie_list e)) (\<lambda>w.
       let old = tw_in_use w; t1 = tl_set (ie_list e) (w\<lparr>tw_in_use := old + 1\<rparr>) t in
       if old = 0 then Inr (t1\<lparr>tl_bh := bh_push e (tl_bh t1)\<rparr>) else Inr t1)"

type_synonym 'a timer_alloc = "'a tdata vnode allocator"
type_synonym handle = "nat \<times> ptr"

text \<open>The two branches of \<^verbatim>\<open>add_timer\<close> that find the queue of the interval.\<close>

definition add_to_list ::
  "'a timer_alloc \<Rightarrow> nat \<Rightarrow> u64 \<Rightarrow> u64 \<Rightarrow> 'a \<Rightarrow> 'a tlist \<Rightarrow> ((handle \<times> bool) \<times> 'a tlist) res" where
  "add_to_list al i interval time d t =
     bindE (tl_queue t i) (\<lambda>w.
     bindE (v1_push al \<lparr>td_time = time, td_data = d\<rparr> (tw_inner w)) (\<lambda>((p, is_head), q).
       let t1 = tl_set i (w\<lparr>tw_inner := q\<rparr>) t in
       bindE (if is_head
              then install_timer_bh \<lparr>ie_time = time, ie_list = i, ie_interval = interval\<rparr> t1
              else Inr t1)
         (\<lambda>t2. Inr (((i, p), is_head), t2))))"

definition add_timer ::
  "'a timer_alloc \<Rightarrow> u64 \<Rightarrow> 128 word \<Rightarrow> 'a \<Rightarrow> 'a tlist \<Rightarrow> ((handle \<times> bool) \<times> 'a tlist) res" where
  "add_timer al now dur d t =
     (let (interval, time) = timeout_deadline now dur in
      case map_of (tl_map t) interval of
        Some i \<Rightarrow> add_to_list al i interval time d t
      | None \<Rightarrow>
          (case map_of (tl_map t) interval of
             Some i \<Rightarrow> add_to_list al i interval time d t
           | None \<Rightarrow>
               bindE (v1_new al) (\<lambda>q0.
               bindE (v1_push al \<lparr>td_time = time, td_data = d\<rparr> q0) (\<lambda>((p, _), q).
                 let i = tl_fresh t;
                     t1 = (tl_set i \<lparr>tw_inner = q, tw_in_use = 0\<rparr> t)
                            \<lparr>tl_map := (interval, i) # tl_map t, tl_fresh := Suc i\<rparr> in
                 bindE (install_timer_bh \<lparr>ie_time = time, ie_list = i, ie_interval = interval\<rparr> t1)
                   (\<lambda>t2. Inr (((i, p), True), t2))))))"

text \<open>\<^verbatim>\<open>pop_timeout\<close>: the fired data and the deadline of the new head.\<close>

definition pop_timeout ::
  "nat \<Rightarrow> u64 \<Rightarrow> 'a twrap \<Rightarrow> ('a list \<times> u64 option \<times> 'a twrap) res" where
  "pop_timeout m now w =
     bindE (drain m (v1_pop_if (\<lambda>d. td_time d \<le> now)) (tw_inner w)) (\<lambda>(ds, q).
     bindE (v1_peek q) (\<lambda>nx.
       Inr (map td_data ds, map_option td_time nx, w\<lparr>tw_inner := q\<rparr>)))"

text \<open>
  What \<^verbatim>\<open>schedule_timer\<close> does with the entry \<open>e\<close> it popped off the heap; \<open>w\<close> is its queue with
  \<^verbatim>\<open>in_use\<close> set to zero. Dropping the last reference to an empty queue drops the queue.
\<close>

definition schedule_entry :: "nat \<Rightarrow> u64 \<Rightarrow> ientry \<Rightarrow> 'a tlist \<Rightarrow> ('a list \<times> 'a tlist) res" where
  "schedule_entry m now e t =
     bindE (tl_queue t (ie_list e)) (\<lambda>w0.
       let i = ie_list e; w = w0\<lparr>tw_in_use := 0\<rparr> in
       bindE (pop_timeout m now w) (\<lambda>(fired, next, w').
         case next of
           Some time \<Rightarrow>
             let old = tw_in_use w'; t1 = tl_set i (w'\<lparr>tw_in_use := old + 1\<rparr>) t in
             if old = 0
             then Inr (fired, t1\<lparr>tl_bh := bh_push (e\<lparr>ie_time := time\<rparr>) (tl_bh t1)\<rparr>)
             else Inr (fired, t1)
         | None \<Rightarrow>
             if v1_is_empty (tw_inner w')
             then
               if length (tl_map t) > HASH_CAP
               then bindE (v1_drop 1 (tw_inner w')) (\<lambda>_.
                      Inr (fired, t\<lparr>tl_map := filter (\<lambda>(k, _). k \<noteq> ie_interval e) (tl_map t),
                                    tl_queues := (tl_queues t)(i := None)\<rparr>))
               else Inr (fired, tl_set i w' t)
             else
               let old = tw_in_use w'; t1 = tl_set i (w'\<lparr>tw_in_use := old + 1\<rparr>) t in
               if old = 0
               then bindE (v1_peek (tw_inner w')) (\<lambda>r.
                      case r of
                        None \<Rightarrow> Inl Panic
                      | Some d \<Rightarrow> Inr (fired, t1\<lparr>tl_bh := bh_push (e\<lparr>ie_time := td_time d\<rparr>) (tl_bh t1)\<rparr>))
               else Inr (fired, t1)))"

text \<open>
  The loop of \<^verbatim>\<open>schedule_timer\<close>, at most \<open>n\<close> rounds; \<open>m\<close> bounds the pops of one queue. The result is
  the fired data and the time to the next deadline.
\<close>

fun schedule_timer :: "nat \<Rightarrow> nat \<Rightarrow> u64 \<Rightarrow> 'a tlist \<Rightarrow> (('a list \<times> u64 option) \<times> 'a tlist) res" where
  "schedule_timer 0 m now t = Inl Spin"
| "schedule_timer (Suc n) m now t =
     (case tl_bh t of
        [] \<Rightarrow> Inr (([], None), t)
      | top_entry # rest \<Rightarrow>
          if ie_time top_entry > now then Inr (([], Some (ie_time top_entry - now)), t)
          else
            bindE (schedule_entry m now top_entry (t\<lparr>tl_bh := rest\<rparr>)) (\<lambda>(fired, t1).
            bindE (schedule_timer n m now t1) (\<lambda>((fired', r), t2). Inr ((fired @ fired', r), t2))))"

text \<open>\<^verbatim>\<open>h.remove()\<close> on a \<^verbatim>\<open>TimeoutHandle\<close>.\<close>

definition timer_remove :: "handle \<Rightarrow> 'a tlist \<Rightarrow> ('a tdata option \<times> 'a tlist) res" where
  "timer_remove h t =
     bindE (tl_queue t (fst h)) (\<lambda>w.
     bindE (v1_remove (snd h) (tw_inner w)) (\<lambda>(r, q).
       Inr (r, tl_set (fst h) (w\<lparr>tw_inner := q\<rparr>) t)))"

section \<open>Deadlines never wrap\<close>

lemma unat_min: "unat (min a b) = min (unat a) (unat b)"
  by (simp add: min_def word_le_nat_alt)

lemma u64_less: "unat (x :: u64) < 2 ^ 64"
  using unsigned_less [of x, where 'a = nat] by simp

lemma timeout_deadline_unat:
  assumes "timeout_deadline now dur = (interval, time)"
  shows "unat interval = min (unat dur) (2 ^ 64 - 1 - unat now)"
    and "unat time = unat now + unat interval"
proof -
  have "now \<le> - 1" by (rule word_n1_ge)
  then have m: "unat (- 1 - now :: u64) = 2 ^ 64 - 1 - unat now"
    by (simp add: unat_sub unsigned_minus_1_eq_mask mask_eq_exp_minus_1)
  have i: "interval = ucast (min dur (ucast (- 1 - now :: u64)))" and t: "time = now + interval"
    using assms by (auto simp: timeout_deadline_def Let_def)
  have "unat (ucast (- 1 - now :: u64) :: 128 word) = 2 ^ 64 - 1 - unat now"
    unfolding m [symmetric] using u64_less [of "- 1 - now"]
    by (simp add: unsigned_ucast_eq take_bit_nat_eq_self_iff)
  then show u: "unat interval = min (unat dur) (2 ^ 64 - 1 - unat now)"
    by (simp add: i unsigned_ucast_eq unat_min take_bit_nat_eq_self_iff)
  then have "unat now + unat interval < 2 ^ 64" using u64_less [of now] by simp
  then show "unat time = unat now + unat interval" by (simp add: t unat_word_ariths)
qed

section \<open>Invariant\<close>

text \<open>
  \<open>Q i\<close> are the timers in queue \<open>i\<close> and \<open>Hs i\<close> its outstanding handles. Every queue is ordered by
  deadline, the heap holds exactly one entry for each non-empty queue, and no entry is later than
  the first deadline of its queue. \<open>c\<close> is the latest clock reading of \<^verbatim>\<open>add_timer\<close>.
\<close>

definition tq_ok :: "'a twrap \<Rightarrow> 'a tdata list \<Rightarrow> ptr set \<Rightarrow> bool" where
  "tq_ok w ds H \<longleftrightarrow>
     v1_rep (tw_inner w) ds H \<and> sorted (map td_time ds) \<and> tw_in_use w = (if ds = [] then 0 else 1)"

definition tl_map_ok :: "'a tlist \<Rightarrow> bool" where
  "tl_map_ok t \<longleftrightarrow>
     distinct (map fst (tl_map t)) \<and> distinct (map snd (tl_map t)) \<and>
     snd ` set (tl_map t) = dom (tl_queues t) \<and> (\<forall>i \<in> dom (tl_queues t). i < tl_fresh t)"

definition tl_queues_ok :: "nat \<Rightarrow> 'a tlist \<Rightarrow> (nat \<Rightarrow> 'a tdata list) \<Rightarrow> (nat \<Rightarrow> ptr set) \<Rightarrow> bool" where
  "tl_queues_ok c t Q Hs \<longleftrightarrow>
     (\<forall>i w. tl_queues t i = Some w \<longrightarrow> tq_ok w (Q i) (Hs i)) \<and>
     (\<forall>i. tl_queues t i = None \<longrightarrow> Q i = []) \<and>
     (\<forall>k i d. (k, i) \<in> set (tl_map t) \<longrightarrow> d \<in> set (Q i) \<longrightarrow> unat (td_time d) \<le> c + unat k)"

definition tl_bh_ok :: "'a tlist \<Rightarrow> (nat \<Rightarrow> 'a tdata list) \<Rightarrow> bool" where
  "tl_bh_ok t Q \<longleftrightarrow>
     sorted (map ie_time (tl_bh t)) \<and> distinct (map ie_list (tl_bh t)) \<and>
     ie_list ` set (tl_bh t) = {i. Q i \<noteq> []} \<and>
     (\<forall>e \<in> set (tl_bh t). (ie_interval e, ie_list e) \<in> set (tl_map t) \<and>
        ie_time e \<le> td_time (hd (Q (ie_list e))))"

definition tl_inv :: "nat \<Rightarrow> 'a tlist \<Rightarrow> (nat \<Rightarrow> 'a tdata list) \<Rightarrow> (nat \<Rightarrow> ptr set) \<Rightarrow> bool" where
  "tl_inv c t Q Hs \<longleftrightarrow> tl_map_ok t \<and> tl_queues_ok c t Q Hs \<and> tl_bh_ok t Q"

lemmas tl_inv_defs = tl_inv_def tl_map_ok_def tl_queues_ok_def tl_bh_ok_def

lemma bh_push_set [simp]: "set (bh_push e es) = insert e (set es)"
  by (induction es) auto

lemma bh_push_map_set [simp]: "f ` set (bh_push e es) = insert (f e) (f ` set es)"
  by simp

lemma bh_push_sorted: "sorted (map ie_time es) \<Longrightarrow> sorted (map ie_time (bh_push e es))"
  by (induction es) (auto simp: ientry_less_eq_def not_le less_imp_le intro: order_trans)

lemma bh_push_distinct [simp]: "distinct (map f (bh_push e es)) \<longleftrightarrow> f e \<notin> f ` set es \<and> distinct (map f es)"
  by (induction es) auto

lemma bh_push_filter: "\<not> P e \<Longrightarrow> filter P (bh_push e es) = filter P es"
  by (induction es) auto

lemma sorted_expired:
  assumes "sorted (map td_time ds)"
  shows "takeWhile (\<lambda>d. td_time d \<le> now) ds = filter (\<lambda>d. td_time d \<le> now) ds"
    and "dropWhile (\<lambda>d. td_time d \<le> now) ds = filter (\<lambda>d. now < td_time d) ds"
  using assms
proof (induction ds)
  case (Cons d ds)
  have late: "\<forall>x \<in> set ds. \<not> td_time x \<le> now" if "\<not> td_time d \<le> now" "sorted (map td_time (d # ds))"
    using that by (auto intro: order_trans)
  {
    case 1
    then show ?case using Cons.IH late by (auto intro!: filter_False [symmetric])
  next
    case 2
    then show ?case using Cons.IH late by (auto simp: not_le intro!: filter_True [symmetric])
  }
qed simp_all

lemma tl_inv_new: "tl_inv c tlist_new (\<lambda>_. []) (\<lambda>_. {})"
  by (simp add: tl_inv_defs tlist_new_def)

lemma tl_inv_queue:
  assumes "tl_inv c t Q Hs" "Q i \<noteq> []"
  obtains w where "tl_queues t i = Some w" "tq_ok w (Q i) (Hs i)"
  using assms by (cases "tl_queues t i") (auto simp: tl_inv_defs)

text \<open>The client view of the queues over a valid allocator.\<close>

lemma v1_drain_if:
  assumes "v1_rep q xs H" "length xs < n"
  shows "\<exists>q'. drain n (v1_pop_if p) q = Inr (takeWhile p xs, q') \<and> v1_rep q' (dropWhile p xs) H"
  by (rule v1_three.v1.drain_pop_if [OF assms])

lemma tl_map_queue:
  assumes "tl_inv c t Q Hs" "(k, i) \<in> set (tl_map t)"
  obtains w where "tl_queues t i = Some w" "tq_ok w (Q i) (Hs i)"
proof -
  have "i \<in> snd ` set (tl_map t)" by (rule image_eqI [OF _ assms(2)]) simp
  then have "i \<in> dom (tl_queues t)" using assms(1) by (simp add: tl_inv_def tl_map_ok_def)
  then obtain w where "tl_queues t i = Some w" by (auto simp: dom_def)
  with assms(1) that show thesis by (simp add: tl_inv_def tl_queues_ok_def)
qed

section \<open>Adding a timer\<close>

lemma install_timer_bh_ok:
  assumes "tl_queues t i = Some w" "ie_list e = i"
  shows "install_timer_bh e t = Inr (if tw_in_use w = 0
      then (tl_set i (w\<lparr>tw_in_use := 1\<rparr>) t)\<lparr>tl_bh := bh_push e (tl_bh t)\<rparr>
      else tl_set i (w\<lparr>tw_in_use := tw_in_use w + 1\<rparr>) t)"
  using assms by (simp add: install_timer_bh_def tl_queue_def tl_set_def Let_def)

lemma sorted_snoc_le: "sorted (map f xs) \<Longrightarrow> (\<And>x. x \<in> set xs \<Longrightarrow> f x \<le> f y) \<Longrightarrow> sorted (map f (xs @ [y]))"
  by (simp add: sorted_append)

lemma tl_map_key:
  assumes "tl_inv c t Q Hs" "(k, i) \<in> set (tl_map t)" "(k', i) \<in> set (tl_map t)"
  shows "k = k'"
proof -
  have "inj_on snd (set (tl_map t))" using assms(1) by (simp add: tl_inv_def tl_map_ok_def distinct_map)
  from inj_onD [OF this _ assms(2,3)] show ?thesis by simp
qed

text \<open>A queue that was empty enters the heap with its first deadline; others are there already.\<close>

lemma tl_bh_insert:
  assumes B: "tl_bh_ok t Q" and i: "(ie_interval e, i) \<in> set (tl_map t)" "ie_list e = i" "Q i = []"
    and ds: "ds \<noteq> []" "ie_time e \<le> td_time (hd ds)"
  shows "tl_bh_ok (t\<lparr>tl_bh := bh_push e (tl_bh t)\<rparr>) (Q(i := ds))"
proof -
  have n: "i \<notin> ie_list ` set (tl_bh t)" using B i by (simp add: tl_bh_ok_def)
  then have "ie_list e' \<noteq> i" if "e' \<in> set (tl_bh t)" for e' using that by blast
  with n assms show ?thesis by (auto simp: tl_bh_ok_def intro: bh_push_sorted)
qed

lemma tl_bh_append:
  assumes "tl_bh_ok t Q" "(ie_interval e, i) \<in> set (tl_map t)" "ie_list e = i" "ie_time e = td_time x"
  shows "tl_bh_ok (t\<lparr>tl_bh := if Q i = [] then bh_push e (tl_bh t) else tl_bh t\<rparr>) (Q(i := Q i @ [x]))"
proof (cases "Q i = []")
  case True
  with tl_bh_insert [OF assms(1-3) True, of "[x]"] assms(4) show ?thesis by simp
next
  case False
  with assms(1) show ?thesis by (auto simp: tl_bh_ok_def hd_append)
qed

lemma tl_bh_pop:
  assumes B: "tl_bh_ok t Q" and bh: "tl_bh t = e # rest"
  shows "tl_bh_ok (t\<lparr>tl_bh := rest\<rparr>) (Q(ie_list e := []))"
proof -
  have n: "ie_list e \<notin> ie_list ` set rest" using B by (simp add: tl_bh_ok_def bh)
  then have ne: "ie_list e' \<noteq> ie_list e" if "e' \<in> set rest" for e' using that by (metis imageI)
  have "insert (ie_list e) (ie_list ` set rest) = {i. Q i \<noteq> []}" using B by (simp add: tl_bh_ok_def bh)
  then have "ie_list ` set rest = {i. Q i \<noteq> []} - {ie_list e}" using n by (metis Diff_insert_absorb)
  then have "ie_list ` set rest = {i. (Q(ie_list e := [])) i \<noteq> []}" by auto
  with B ne show ?thesis by (auto simp: tl_bh_ok_def bh)
qed

lemma add_to_list_step:
  assumes al: "valid_alloc k al" and I: "tl_inv c t Q Hs" and c: "c \<le> unat now"
    and i: "(interval, i) \<in> set (tl_map t)" and tm: "unat time = unat now + unat interval"
  shows "add_to_list al i interval time d t = Inl AllocError \<or>
    (\<exists>p t'. add_to_list al i interval time d t = Inr (((i, p), Q i = []), t') \<and> p \<notin> Hs i \<and>
       tl_inv (unat now) t' (Q(i := Q i @ [\<lparr>td_time = time, td_data = d\<rparr>])) (Hs(i := insert p (Hs i))))"
proof -
  let ?x = "\<lparr>td_time = time, td_data = d\<rparr>" and ?e = "\<lparr>ie_time = time, ie_list = i, ie_interval = interval\<rparr>"
  obtain w where w: "tl_queues t i = Some w" and ok: "tq_ok w (Q i) (Hs i)"
    by (rule tl_map_queue [OF I i])
  then have R: "v1_rep (tw_inner w) (Q i) (Hs i)" and so: "sorted (map td_time (Q i))"
    and us: "tw_in_use w = (if Q i = [] then 0 else 1)"
    by (simp_all add: tq_ok_def)
  from v1_rep_push [OF al R, of ?x] consider
      "v1_push al ?x (tw_inner w) = Inl AllocError"
    | p q' where "v1_push al ?x (tw_inner w) = Inr ((p, Q i = []), q')" "p \<notin> Hs i"
        "v1_rep q' (Q i @ [?x]) (insert p (Hs i))" by blast
  then show ?thesis
  proof cases
    case 1
    with w show ?thesis by (simp add: add_to_list_def tl_queue_def)
  next
    case 2
    let ?Q = "Q(i := Q i @ [?x])" and ?H = "Hs(i := insert p (Hs i))"
    let ?w = "if Q i = [] then w\<lparr>tw_inner := q', tw_in_use := 1\<rparr> else w\<lparr>tw_inner := q'\<rparr>"
    let ?t = "(tl_set i ?w t)\<lparr>tl_bh := if Q i = [] then bh_push ?e (tl_bh t) else tl_bh t\<rparr>"
    have "add_to_list al i interval time d t = Inr (((i, p), Q i = []), ?t)"
      using w 2(1) us by (auto simp: add_to_list_def tl_queue_def tl_set_def install_timer_bh_def)
    moreover have "tl_inv (unat now) ?t ?Q ?H"
    proof -
      have le: "td_time x \<le> time" if "x \<in> set (Q i)" for x
      proof -
        have "unat (td_time x) \<le> c + unat interval" using I i that by (auto simp: tl_inv_defs)
        with c tm show ?thesis by (simp add: word_le_nat_alt)
      qed
      have "tq_ok ?w (Q i @ [?x]) (insert p (Hs i))"
        using 2(3) sorted_snoc_le [OF so, of ?x] le us by (auto simp: tq_ok_def)
      moreover have "tl_map_ok ?t" using I w by (auto simp: tl_inv_defs tl_set_def)
      moreover have "tl_bh_ok ?t ?Q"
        using tl_bh_append [of t Q ?e i ?x] I i by (auto simp: tl_inv_def tl_set_def tl_bh_ok_def)
      moreover have "unat (td_time x) \<le> unat now + unat k'" if x: "(k', j) \<in> set (tl_map t)" "x \<in> set (?Q j)" for k' j x
      proof (cases "j = i \<and> x = ?x")
        case True
        then have "k' = interval" using x(1) i I by (intro tl_map_key [OF I]) auto
        with True tm show ?thesis by simp
      next
        case False
        then have "x \<in> set (Q j)" using x(2) by (auto split: if_splits)
        then have "unat (td_time x) \<le> c + unat k'" using I x(1) unfolding tl_inv_def tl_queues_ok_def by blast
        with c show ?thesis by simp
      qed
      ultimately show ?thesis
        using I unfolding tl_inv_def tl_queues_ok_def tl_set_def by auto
    qed
    ultimately show ?thesis using 2(2) by blast
  qed
qed

lemma add_timer_step:
  assumes al: "valid_alloc k al" and I: "tl_inv c t Q Hs" and c: "c \<le> unat now"
    and td: "timeout_deadline now dur = (interval, time)"
  shows "add_timer al now dur d t = Inl AllocError \<or>
    (\<exists>i p t'. add_timer al now dur d t = Inr (((i, p), Q i = []), t') \<and>
       (tl_queues t i = None \<or> p \<notin> Hs i) \<and>
       tl_inv (unat now) t' (Q(i := Q i @ [\<lparr>td_time = time, td_data = d\<rparr>]))
         (Hs(i := insert p (if tl_queues t i = None then {} else Hs i))))"
proof -
  note tm = timeout_deadline_unat(2) [OF td]
  let ?x = "\<lparr>td_time = time, td_data = d\<rparr>"
  show ?thesis
  proof (cases "map_of (tl_map t) interval")
    case (Some i)
    then have i: "(interval, i) \<in> set (tl_map t)" by (rule map_of_SomeD)
    obtain w where q: "tl_queues t i = Some w" using tl_map_queue [OF I i] by blast
    have eq: "add_timer al now dur d t = add_to_list al i interval time d t"
      using Some by (simp add: add_timer_def td)
    show ?thesis unfolding eq using add_to_list_step [OF al I c i tm, of d]
    proof (elim disjE exE conjE)
      fix p t' assume "add_to_list al i interval time d t = Inr (((i, p), Q i = []), t')" "p \<notin> Hs i"
        "tl_inv (unat now) t' (Q(i := Q i @ [?x])) (Hs(i := insert p (Hs i)))"
      with q show "add_to_list al i interval time d t = Inl AllocError \<or>
          (\<exists>j p t'. add_to_list al i interval time d t = Inr (((j, p), Q j = []), t') \<and> (tl_queues t j = None \<or> p \<notin> Hs j) \<and>
             tl_inv (unat now) t' (Q(j := Q j @ [?x])) (Hs(j := insert p (if tl_queues t j = None then {} else Hs j))))"
        by (intro disjI2 exI [of _ i] exI [of _ p] exI [of _ t']) (simp add: if_not_P)
    qed simp
  next
    case None
    let ?i = "tl_fresh t"
    let ?e = "\<lparr>ie_time = time, ie_list = ?i, ie_interval = interval\<rparr>"
    have nd: "?i \<notin> dom (tl_queues t)" using I by (auto simp: tl_inv_def tl_map_ok_def)
    then have fr: "tl_queues t ?i = None" by (simp add: domIff)
    then have qe: "Q ?i = []" using I by (simp add: tl_inv_def tl_queues_ok_def)
    have nm: "(k', ?i) \<notin> set (tl_map t)" for k'
      using tl_map_queue [OF I, of k' ?i] fr by auto
    show ?thesis
    proof (cases "v1_new al")
      case (Inl f)
      then show ?thesis
        using None by (auto simp: add_timer_def td v1_new_def v1_node_new_def alloc_def modify_def split: option.splits)
    next
      case (Inr q0)
      note R0 = v1_rep_new [OF al Inr]
      from v1_rep_push [OF al R0, of ?x] consider
          "v1_push al ?x q0 = Inl AllocError"
        | p q where "v1_push al ?x q0 = Inr ((p, True), q)" "v1_rep q [?x] {p}" by auto
      then show ?thesis
      proof cases
        case 1
        then show ?thesis using None Inr by (simp add: add_timer_def td)
      next
        case 2
        define t1 where "t1 = t\<lparr>tl_queues := (tl_queues t)(?i \<mapsto> \<lparr>tw_inner = q, tw_in_use = 1\<rparr>),
            tl_map := (interval, ?i) # tl_map t, tl_fresh := Suc ?i\<rparr>"
        let ?t = "t1\<lparr>tl_bh := bh_push ?e (tl_bh t)\<rparr>"
        have "add_timer al now dur d t = Inr (((?i, p), Q ?i = []), ?t)"
          using None Inr 2(1) qe
          by (simp add: add_timer_def td tl_set_def install_timer_bh_def tl_queue_def Let_def t1_def)
        moreover have "tl_map_ok ?t"
          using I None by (auto simp: tl_inv_def tl_map_ok_def t1_def map_of_eq_None_iff less_Suc_eq)
        moreover have "tl_bh_ok ?t (Q(?i := Q ?i @ [?x]))"
          using tl_bh_append [of t1 Q ?e ?i ?x] I qe by (auto simp: tl_inv_def tl_bh_ok_def t1_def)
        moreover have "tl_queues_ok (unat now) ?t (Q(?i := Q ?i @ [?x])) (Hs(?i := insert p {}))"
        proof -
          have "tq_ok \<lparr>tw_inner = q, tw_in_use = 1\<rparr> [?x] {p}" using 2(2) by (simp add: tq_ok_def)
          moreover have "unat (td_time y) \<le> unat now + unat k'"
            if "(k', j) \<in> set (tl_map t)" "y \<in> set (Q j)" for k' j y
          proof -
            have "unat (td_time y) \<le> c + unat k'" using I that unfolding tl_inv_def tl_queues_ok_def by blast
            with c show ?thesis by simp
          qed
          ultimately show ?thesis
            using I qe nm tm unfolding tl_inv_def tl_queues_ok_def t1_def by auto
        qed
        ultimately show ?thesis unfolding tl_inv_def using fr by - (rule disjI2, intro exI conjI, simp_all)
      qed
    qed
  qed
qed

section \<open>Firing the expired timers\<close>

definition due :: "u64 \<Rightarrow> ientry \<Rightarrow> bool" where
  "due now e \<longleftrightarrow> ie_time e \<le> now"

definition expired :: "u64 \<Rightarrow> 'a tdata list \<Rightarrow> 'a list" where
  "expired now ds = map td_data (filter (\<lambda>d. td_time d \<le> now) ds)"

definition pending :: "u64 \<Rightarrow> 'a tdata list \<Rightarrow> 'a tdata list" where
  "pending now ds = filter (\<lambda>d. now < td_time d) ds"

lemma pop_timeout_step:
  assumes "tq_ok w ds H" "length ds < m"
  shows "\<exists>q. pop_timeout m now (w\<lparr>tw_in_use := u\<rparr>) =
      Inr (expired now ds, map_option td_time (case pending now ds of [] \<Rightarrow> None | d # _ \<Rightarrow> Some d),
           w\<lparr>tw_in_use := u, tw_inner := q\<rparr>) \<and> v1_rep q (pending now ds) H"
proof -
  from assms have R: "v1_rep (tw_inner w) ds H" and so: "sorted (map td_time ds)" by (auto simp: tq_ok_def)
  from v1_drain_if [OF R assms(2), of "\<lambda>d. td_time d \<le> now"] obtain q where
    q: "drain m (v1_pop_if (\<lambda>d. td_time d \<le> now)) (tw_inner w) = Inr (filter (\<lambda>d. td_time d \<le> now) ds, q)"
      "v1_rep q (pending now ds) H"
    by (auto simp: sorted_expired [OF so] pending_def)
  with v1_rep_peek(1) [OF q(2)] show ?thesis
    by (auto simp: pop_timeout_def expired_def intro!: exI [of _ q])
qed

lemma tl_queues_fire:
  assumes I: "tl_queues_ok c t Q Hs" and w: "tq_ok w (pending now (Q i)) (Hs i)"
  shows "tl_queues_ok c (t\<lparr>tl_queues := (tl_queues t)(i \<mapsto> w), tl_bh := b\<rparr>) (Q(i := pending now (Q i))) Hs"
  using assms by (auto simp: tl_queues_ok_def pending_def)

lemma sorted_pending: "sorted (map td_time ds) \<Longrightarrow> sorted (map td_time (pending now ds))"
  by (simp add: pending_def sorted_filter)

lemma tl_map_delete:
  assumes M: "tl_map_ok t" and k: "(k, i) \<in> set (tl_map t)"
  shows "snd ` set (filter (\<lambda>(k', _). k' \<noteq> k) (tl_map t)) = dom (tl_queues t) - {i}"
    and "(k', j) \<in> set (tl_map t) \<Longrightarrow> j \<noteq> i \<Longrightarrow> k' \<noteq> k"
proof -
  have f: "inj_on fst (set (tl_map t))" and s: "inj_on snd (set (tl_map t))"
    and d: "snd ` set (tl_map t) = dom (tl_queues t)"
    using M by (auto simp: tl_map_ok_def distinct_map)
  show *: "(k', j) \<in> set (tl_map t) \<Longrightarrow> j \<noteq> i \<Longrightarrow> k' \<noteq> k" for k' j
    using inj_onD [OF f _ _ k, of "(k', j)"] by auto
  have "j \<noteq> i" if "(k', j) \<in> set (tl_map t)" "k' \<noteq> k" for k' j
    using inj_onD [OF s _ that(1) k] that(2) by auto
  with * show "snd ` set (filter (\<lambda>(k', _). k' \<noteq> k) (tl_map t)) = dom (tl_queues t) - {i}"
    unfolding d [symmetric] by force
qed

lemma schedule_entry_step:
  assumes I: "tl_inv c t Q Hs" and bh: "tl_bh t = e # rest" and d: "due now e"
    and m: "length (Q (ie_list e)) < m"
  shows "\<exists>t'. schedule_entry m now e (t\<lparr>tl_bh := rest\<rparr>) = Inr (expired now (Q (ie_list e)), t') \<and>
    tl_inv c t' (Q(ie_list e := pending now (Q (ie_list e)))) Hs \<and>
    filter (due now) (tl_bh t') = filter (due now) rest"
proof -
  let ?i = "ie_list e"
  let ?P = "pending now (Q ?i)" and ?t = "t\<lparr>tl_bh := rest\<rparr>"
  let ?Q = "Q(?i := ?P)"
  have in_bh: "?i \<in> ie_list ` set (tl_bh t)" by (simp add: bh)
  then have "Q ?i \<noteq> []" using I by (simp add: tl_inv_def tl_bh_ok_def)
  then obtain w where w: "tl_queues t ?i = Some w" "tq_ok w (Q ?i) (Hs ?i)"
    using tl_inv_queue [OF I] by blast
  from pop_timeout_step [OF w(2) m, of now 0] obtain q where
    pt: "pop_timeout m now (w\<lparr>tw_in_use := 0\<rparr>) =
        Inr (expired now (Q ?i), map_option td_time (case ?P of [] \<Rightarrow> None | x # _ \<Rightarrow> Some x),
             w\<lparr>tw_in_use := 0, tw_inner := q\<rparr>)" and R: "v1_rep q ?P (Hs ?i)" by blast
  have so: "sorted (map td_time ?P)" using w(2) by (simp add: tq_ok_def sorted_pending)
  have B: "tl_bh_ok t Q" and M: "tl_map_ok t" and K: "tl_queues_ok c t Q Hs" using I by (auto simp: tl_inv_def)
  note Bp = tl_bh_pop [OF B bh]
  have key: "(ie_interval e, ?i) \<in> set (tl_map t)" using B by (simp add: tl_bh_ok_def bh)
  show ?thesis
  proof (cases ?P)
    case (Cons x ys)
    then have late: "now < td_time x" unfolding pending_def by (metis filter_eq_ConsD)
    let ?e = "e\<lparr>ie_time := td_time x\<rparr>"
    let ?w = "w\<lparr>tw_inner := q, tw_in_use := 1\<rparr>"
    let ?t' = "t\<lparr>tl_queues := (tl_queues t)(?i \<mapsto> ?w), tl_bh := bh_push ?e rest\<rparr>"
    have "schedule_entry m now e ?t = Inr (expired now (Q ?i), ?t')"
      using w(1) pt Cons by (simp add: schedule_entry_def tl_queue_def tl_set_def Let_def)
    moreover have "tl_queues_ok c ?t' ?Q Hs"
      by (rule tl_queues_fire [OF K]) (use R so Cons in \<open>auto simp: tq_ok_def\<close>)
    moreover have "tl_map_ok ?t'" using M w(1) by (auto simp: tl_map_ok_def)
    moreover have "tl_bh_ok ?t' ?Q"
      using tl_bh_insert [OF Bp, of ?e ?i ?P] key Cons by (simp add: tl_bh_ok_def)
    moreover have "filter (due now) (tl_bh ?t') = filter (due now) rest"
      using late by (simp add: bh_push_filter due_def)
    ultimately show ?thesis unfolding tl_inv_def by blast
  next
    case Nil
    note e = v1_rep_peek(2) [OF R]
    show ?thesis
    proof (cases "length (tl_map t) > HASH_CAP")
      case False
      let ?t' = "t\<lparr>tl_queues := (tl_queues t)(?i \<mapsto> w\<lparr>tw_in_use := 0, tw_inner := q\<rparr>), tl_bh := rest\<rparr>"
      have "schedule_entry m now e ?t = Inr (expired now (Q ?i), ?t')"
        using w(1) pt Nil e False by (simp add: schedule_entry_def tl_queue_def tl_set_def Let_def)
      moreover have "tl_queues_ok c ?t' ?Q Hs"
        by (rule tl_queues_fire [OF K]) (use R Nil in \<open>auto simp: tq_ok_def\<close>)
      moreover have "tl_map_ok ?t'" using M w(1) by (auto simp: tl_map_ok_def)
      moreover have "tl_bh_ok ?t' ?Q" using Bp Nil by (simp add: tl_bh_ok_def)
      ultimately show ?thesis unfolding tl_inv_def by auto
    next
      case True
      let ?t' = "t\<lparr>tl_map := filter (\<lambda>(k, _). k \<noteq> ie_interval e) (tl_map t),
          tl_queues := (tl_queues t)(?i := None), tl_bh := rest\<rparr>"
      obtain h where "v1_drop 1 q = Inr ([], h)"
        using v1_rep_drop [of q "[]" "Hs ?i" 1] R Nil by auto
      then have "schedule_entry m now e ?t = Inr (expired now (Q ?i), ?t')"
        using w(1) pt Nil e True by (simp add: schedule_entry_def tl_queue_def tl_set_def Let_def)
      moreover have "tl_map_ok ?t'"
        using M tl_map_delete(1) [OF M key] by (auto simp: tl_map_ok_def distinct_map_filter)
      moreover have "tl_queues_ok c ?t' ?Q Hs" using K Nil by (auto simp: tl_queues_ok_def)
      moreover have "tl_bh_ok ?t' ?Q"
      proof -
        have "(ie_interval e', ie_list e') \<in> set (tl_map ?t')" if e': "e' \<in> set rest" for e'
        proof -
          have "?i \<notin> ie_list ` set rest" using B by (simp add: tl_bh_ok_def bh)
          then have "ie_list e' \<noteq> ?i" using e' by (metis imageI)
          moreover have "(ie_interval e', ie_list e') \<in> set (tl_map t)" using B e' by (auto simp: tl_bh_ok_def bh)
          ultimately show ?thesis using tl_map_delete(2) [OF M key] by auto
        qed
        with Bp Nil show ?thesis by (simp add: tl_bh_ok_def)
      qed
      ultimately show ?thesis unfolding tl_inv_def by auto
    qed
  qed
qed

lemma heap_entry:
  assumes I: "tl_inv c t Q Hs" and d: "d \<in> set (Q i)"
  obtains e where "e \<in> set (tl_bh t)" "ie_list e = i" "ie_time e \<le> td_time d"
proof -
  have ne: "Q i \<noteq> []" using d by auto
  then have "i \<in> ie_list ` set (tl_bh t)" using I by (simp add: tl_inv_def tl_bh_ok_def)
  then obtain e where e: "e \<in> set (tl_bh t)" "ie_list e = i" by blast
  obtain w where "tq_ok w (Q i) (Hs i)" using tl_inv_queue [OF I ne] by blast
  then have "td_time (hd (Q i)) \<le> td_time d" using d ne by (cases "Q i") (auto simp: tq_ok_def)
  moreover have "ie_time e \<le> td_time (hd (Q i))" using I e by (auto simp: tl_inv_def tl_bh_ok_def)
  ultimately have "ie_time e \<le> td_time d" by simp
  with e that show thesis by blast
qed

lemma all_pending:
  assumes I: "tl_inv c t Q Hs" and nd: "filter (due now) (tl_bh t) = []"
  shows "pending now (Q i) = Q i" and "expired now (Q i) = []"
proof -
  have "now < td_time d" if d: "d \<in> set (Q i)" for d
  proof -
    obtain e where e: "e \<in> set (tl_bh t)" "ie_time e \<le> td_time d" using heap_entry [OF I d] by blast
    have "\<not> due now e" using nd e(1) by (auto simp: filter_empty_conv)
    then have "now < ie_time e" by (simp add: due_def)
    also note e(2)
    finally show ?thesis .
  qed
  then show "pending now (Q i) = Q i" "expired now (Q i) = []"
    by (auto simp: pending_def expired_def filter_empty_conv not_le intro!: filter_True)
qed

lemma sorted_due: "sorted (map ie_time (e # es)) \<Longrightarrow> \<not> due now e \<Longrightarrow> filter (due now) (e # es) = []"
  by (auto simp: filter_empty_conv due_def not_le intro: less_le_trans)

lemma schedule_timer_step:
  assumes "tl_inv c t Q Hs" "length (filter (due now) (tl_bh t)) < n" "\<And>i. length (Q i) < m"
  shows "\<exists>r t'. schedule_timer n m now t =
      Inr ((concat (map (\<lambda>e. expired now (Q (ie_list e))) (filter (due now) (tl_bh t))), r), t') \<and>
    tl_inv c t' (\<lambda>i. pending now (Q i)) Hs \<and>
    r = (case tl_bh t' of [] \<Rightarrow> None | e # _ \<Rightarrow> Some (ie_time e - now)) \<and>
    (\<forall>e \<in> set (tl_bh t'). now < ie_time e)"
  using assms
proof (induction n arbitrary: t Q)
  case 0
  then show ?case by simp
next
  case (Suc n)
  show ?case
  proof (cases "\<exists>e rest. tl_bh t = e # rest \<and> due now e")
    case True
    then obtain e rest where bh: "tl_bh t = e # rest" and d: "due now e" by blast
    let ?Q = "Q(ie_list e := pending now (Q (ie_list e)))"
    from schedule_entry_step [OF Suc.prems(1) bh d Suc.prems(3)] obtain t1 where
      t1: "schedule_entry m now e (t\<lparr>tl_bh := rest\<rparr>) = Inr (expired now (Q (ie_list e)), t1)"
        "tl_inv c t1 ?Q Hs" "filter (due now) (tl_bh t1) = filter (due now) rest" by blast
    have len: "length (filter (due now) (tl_bh t1)) < n" using Suc.prems(2) t1(3) bh d by simp
    have mb: "length (?Q i) < m" for i
      using Suc.prems(3) [of i] by (auto simp: pending_def intro: le_less_trans [OF length_filter_le])
    have pend: "(\<lambda>i. pending now (?Q i)) = (\<lambda>i. pending now (Q i))" by (auto simp: pending_def)
    have "ie_list e \<notin> ie_list ` set rest" using Suc.prems(1) by (simp add: tl_inv_def tl_bh_ok_def bh)
    then have ne: "ie_list e' \<noteq> ie_list e" if "e' \<in> set rest" for e' using that by (metis imageI)
    have ex: "map (\<lambda>e. expired now (?Q (ie_list e))) (filter (due now) rest) =
        map (\<lambda>e. expired now (Q (ie_list e))) (filter (due now) rest)"
      by (rule map_cong) (use ne in auto)
    have "\<not> now < ie_time e" using d by (simp add: due_def not_less)
    with Suc.IH [OF t1(2) len mb] show ?thesis
      using t1(1) bh d unfolding pend t1(3) ex by auto
  next
    case False
    have nd: "filter (due now) (tl_bh t) = []"
    proof (cases "tl_bh t")
      case (Cons e es)
      have "sorted (map ie_time (tl_bh t))" using Suc.prems(1) by (simp add: tl_inv_def tl_bh_ok_def)
      with sorted_due [of e es now] Cons False show ?thesis by auto
    qed simp
    have "(\<lambda>i. pending now (Q i)) = Q" using all_pending(1) [OF Suc.prems(1) nd] by auto
    moreover have "\<forall>e \<in> set (tl_bh t). now < ie_time e" using nd by (auto simp: filter_empty_conv due_def)
    ultimately show ?thesis
      using Suc.prems(1) nd by (auto split: list.splits)
  qed
qed

section \<open>Removing a timer\<close>

text \<open>The last timer of a queue is never unlinked, so a queue in the heap stays non-empty.\<close>

lemma timer_remove_step:
  assumes I: "tl_inv c t Q Hs" and w: "tl_queues t i = Some w" and p: "p \<in> Hs i"
  shows "\<exists>t'. (timer_remove (i, p) t = Inr (None, t') \<and> tl_inv c t' Q (Hs(i := Hs i - {p}))) \<or>
    (\<exists>as x bs. Q i = as @ x # bs \<and> bs \<noteq> [] \<and> timer_remove (i, p) t = Inr (Some x, t') \<and>
       tl_inv c t' (Q(i := as @ bs)) (Hs(i := Hs i - {p})))"
proof -
  have ok: "tq_ok w (Q i) (Hs i)" using I w by (simp add: tl_inv_def tl_queues_ok_def)
  then have R: "v1_rep (tw_inner w) (Q i) (Hs i)" by (simp add: tq_ok_def)
  have upd: "tl_inv c (tl_set i (w\<lparr>tw_inner := q\<rparr>) t) (Q(i := ys)) (Hs(i := Hs i - {p}))"
    if q: "v1_rep q ys (Hs i - {p})" and ys: "sorted (map td_time ys)" "set ys \<subseteq> set (Q i)" "ys = [] \<longleftrightarrow> Q i = []"
    for q ys
  proof -
    have "tq_ok (w\<lparr>tw_inner := q\<rparr>) ys (Hs i - {p})" using q ys ok by (simp add: tq_ok_def)
    moreover have "td_time (hd (Q i)) \<le> td_time (hd ys)" if "ys \<noteq> []"
    proof -
      have "hd ys \<in> set (Q i)" using that ys(2) by auto
      then show ?thesis using ok by (cases "Q i") (auto simp: tq_ok_def)
    qed
    moreover have "{j. (Q(i := ys)) j \<noteq> []} = {j. Q j \<noteq> []}" using ys(3) by auto
    ultimately show ?thesis
      using I w ys unfolding tl_inv_def tl_map_ok_def tl_queues_ok_def tl_bh_ok_def tl_set_def
      by (auto intro: order_trans)
  qed
  from v1_rep_remove [OF R p] obtain q' where
    "(v1_remove p (tw_inner w) = Inr (None, q') \<and> v1_rep q' (Q i) (Hs i - {p})) \<or>
     (\<exists>as x bs. Q i = as @ x # bs \<and> bs \<noteq> [] \<and> v1_remove p (tw_inner w) = Inr (Some x, q') \<and>
        v1_rep q' (as @ bs) (Hs i - {p}))" by blast
  then show ?thesis
  proof (elim disjE exE conjE)
    assume "v1_remove p (tw_inner w) = Inr (None, q')" "v1_rep q' (Q i) (Hs i - {p})"
    then show ?thesis
      using upd [of q' "Q i"] ok w by (auto simp: timer_remove_def tl_queue_def tq_ok_def fun_upd_triv)
  next
    fix as x bs assume "Q i = as @ x # bs" "bs \<noteq> []" "v1_remove p (tw_inner w) = Inr (Some x, q')"
      "v1_rep q' (as @ bs) (Hs i - {p})"
    then show ?thesis
      using upd [of q' "as @ bs"] ok w by (auto simp: timer_remove_def tl_queue_def tq_ok_def sorted_append)
  qed
qed

section \<open>Reachable timer lists\<close>

text \<open>
  The states that sequences of calls reach: the clock readings of \<^verbatim>\<open>add_timer\<close> do not go back, a
  handle is removed at most once, and a handle of a dropped queue is not used again. \<open>H\<close> is the set of
  handles that may still be removed.
\<close>

inductive tl_reach :: "'a timer_alloc \<Rightarrow> u64 \<Rightarrow> 'a tlist \<Rightarrow> handle set \<Rightarrow> bool" for al where
  tl_reach_new: "tl_reach al c tlist_new {}"
| tl_reach_add: "tl_reach al c t H \<Longrightarrow> c \<le> now \<Longrightarrow> add_timer al now dur d t = Inr ((h, r), t') \<Longrightarrow>
    tl_reach al now t' (insert h H)"
| tl_reach_fire: "tl_reach al c t H \<Longrightarrow> schedule_timer n m now t = Inr (x, t') \<Longrightarrow>
    tl_reach al c t' {h \<in> H. tl_queues t' (fst h) \<noteq> None}"
| tl_reach_remove: "tl_reach al c t H \<Longrightarrow> h \<in> H \<Longrightarrow> timer_remove h t = Inr (x, t') \<Longrightarrow>
    tl_reach al c t' (H - {h})"

lemma bindE_le:
  assumes "bindE a f = Inr r" "\<And>x. a = Inr x \<Longrightarrow> a' = Inr x" "\<And>x. a = Inr x \<Longrightarrow> f x = Inr r \<Longrightarrow> f' x = Inr r"
  shows "bindE a' f' = Inr r"
  using assms by (auto simp: bindE_eq_Inr)

lemma drain_mono: "drain n f q = Inr r \<Longrightarrow> n \<le> n' \<Longrightarrow> drain n' f q = Inr r"
proof (induction n arbitrary: n' q r)
  case (Suc n)
  then obtain k where k: "n' = Suc k" "n \<le> k" by (cases n') auto
  from Suc.prems(1) show ?case unfolding k(1) drain.simps
    by (rule bindE_le) (use Suc.IH [OF _ k(2)] in \<open>auto split: option.splits elim!: bindE_le\<close>)
qed simp

lemma pop_timeout_mono: "pop_timeout m now w = Inr r \<Longrightarrow> m \<le> m' \<Longrightarrow> pop_timeout m' now w = Inr r"
  unfolding pop_timeout_def by (erule bindE_le) (auto dest: drain_mono)

lemma schedule_entry_mono:
  "schedule_entry m now e t = Inr r \<Longrightarrow> m \<le> m' \<Longrightarrow> schedule_entry m' now e t = Inr r"
  unfolding schedule_entry_def Let_def
  by (erule bindE_le, assumption, erule bindE_le) (auto dest: pop_timeout_mono)

lemma schedule_timer_mono:
  "schedule_timer n m now t = Inr r \<Longrightarrow> n \<le> n' \<Longrightarrow> m \<le> m' \<Longrightarrow> schedule_timer n' m' now t = Inr r"
proof (induction n arbitrary: n' t r)
  case (Suc n)
  then obtain k where k: "n' = Suc k" "n \<le> k" by (cases n') auto
  with Suc.prems Suc.IH [OF _ k(2)] schedule_entry_mono [OF _ Suc.prems(3)] show ?case
    by (fastforce simp: bindE_eq_Inr split: list.splits if_splits)
qed simp

definition live_handles :: "'a tlist \<Rightarrow> (nat \<Rightarrow> ptr set) \<Rightarrow> handle set" where
  "live_handles t Hs = {(i, p). tl_queues t i \<noteq> None \<and> p \<in> Hs i}"

lemma add_timer_dom:
  assumes "add_timer al now dur d t = Inr (((i, p), r), t')"
  shows "dom (tl_queues t') = insert i (dom (tl_queues t))"
proof -
  have *: "dom (tl_queues t') = insert i (dom (tl_queues t))"
    if "add_to_list al j interval time d t = Inr (((i, p), r), t')" for j interval time
    using that
    by (auto simp: add_to_list_def bindE_eq_Inr tl_set_def install_timer_bh_def tl_queue_def Let_def
        split: if_splits option.splits)
  obtain interval time where td: "timeout_deadline now dur = (interval, time)" by fastforce
  show ?thesis
  proof (cases "map_of (tl_map t) interval")
    case None
    with assms td show ?thesis
      by (auto simp: add_timer_def bindE_eq_Inr tl_set_def install_timer_bh_def tl_queue_def Let_def
          split: if_splits option.splits)
  next
    case (Some j)
    with assms td show ?thesis by (intro *) (auto simp: add_timer_def)
  qed
qed

lemma schedule_entry_dom:
  assumes "schedule_entry m now e t = Inr (x, t')"
  shows "dom (tl_queues t') \<subseteq> dom (tl_queues t)"
  using assms
  by (auto simp: schedule_entry_def bindE_eq_Inr tl_queue_def tl_set_def Let_def
      split: option.splits if_splits)

lemma schedule_timer_dom: "schedule_timer n m now t = Inr (x, t') \<Longrightarrow> dom (tl_queues t') \<subseteq> dom (tl_queues t)"
proof (induction n arbitrary: t x)
  case (Suc n)
  show ?case
  proof (cases "\<exists>e rest. tl_bh t = e # rest \<and> \<not> now < ie_time e")
    case True
    then obtain e rest y t1 z where "schedule_entry m now e (t\<lparr>tl_bh := rest\<rparr>) = Inr (y, t1)"
      "schedule_timer n m now t1 = Inr (z, t')"
      using Suc.prems by (auto simp: bindE_eq_Inr)
    from schedule_entry_dom [OF this(1)] Suc.IH [OF this(2)] show ?thesis by auto
  next
    case False
    then show ?thesis using Suc.prems by (auto split: list.splits)
  qed
qed simp

lemma queues_bounded:
  assumes "tl_inv c t Q Hs"
  shows "\<exists>m. \<forall>i. length (Q i) < m"
proof -
  have "finite {i. Q i \<noteq> []}" using assms by (auto simp: tl_inv_def tl_bh_ok_def dest: sym)
  then have fin: "finite ((\<lambda>i. length (Q i)) ` {i. Q i \<noteq> []})" by (rule finite_imageI)
  have "length (Q i) < Suc (Max (insert 0 ((\<lambda>i. length (Q i)) ` {i. Q i \<noteq> []})))" for i
    using fin by (cases "Q i = []") (auto intro!: le_imp_less_Suc Max_ge)
  then show ?thesis by blast
qed

lemma schedule_timer_inv:
  assumes I: "tl_inv c t Q Hs" and run: "schedule_timer n m now t = Inr (x, t')"
  shows "tl_inv c t' (\<lambda>i. pending now (Q i)) Hs"
proof -
  obtain m0 where m0: "\<And>i. length (Q i) < m0" using queues_bounded [OF I] by blast
  let ?n = "n + Suc (length (filter (due now) (tl_bh t)))" and ?m = "m + m0"
  from m0 have "\<And>i. length (Q i) < ?m" by (simp add: trans_less_add2)
  from schedule_timer_step [OF I, of now ?n, OF _ this] obtain y t2 where
    "schedule_timer ?n ?m now t = Inr (y, t2)" "tl_inv c t2 (\<lambda>i. pending now (Q i)) Hs" by auto
  moreover have "schedule_timer ?n ?m now t = Inr (x, t')" by (rule schedule_timer_mono [OF run]) auto
  ultimately show ?thesis by simp
qed

lemma tl_reach_inv:
  assumes al: "valid_alloc k al" and "tl_reach al c t H"
  shows "\<exists>Q Hs. tl_inv (unat c) t Q Hs \<and> H = live_handles t Hs"
  using assms(2)
proof (induction rule: tl_reach.induct)
  case (tl_reach_new c)
  have "live_handles tlist_new (\<lambda>_. {}) = {}" by (simp add: live_handles_def)
  with tl_inv_new show ?case by metis
next
  case (tl_reach_add c t H now dur d h r t')
  then obtain Q Hs where I: "tl_inv (unat c) t Q Hs" "H = live_handles t Hs" by blast
  obtain interval time where td: "timeout_deadline now dur = (interval, time)" by fastforce
  have "unat c \<le> unat now" using tl_reach_add.hyps(2) by (simp add: word_le_nat_alt)
  from add_timer_step [OF al I(1) this td, of d] tl_reach_add.hyps(3) obtain i p where
    h: "h = (i, p)" and I': "tl_inv (unat now) t' (Q(i := Q i @ [\<lparr>td_time = time, td_data = d\<rparr>]))
         (Hs(i := insert p (if tl_queues t i = None then {} else Hs i)))" by auto
  have "dom (tl_queues t') = insert i (dom (tl_queues t))"
    using tl_reach_add.hyps(3) unfolding h by (rule add_timer_dom)
  then have "insert h H = live_handles t' (Hs(i := insert p (if tl_queues t i = None then {} else Hs i)))"
    unfolding h I(2) live_handles_def dom_def by (auto split: if_splits)
  with I' show ?case by blast
next
  case (tl_reach_fire c t H n m now x t')
  then obtain Q Hs where I: "tl_inv (unat c) t Q Hs" "H = live_handles t Hs" by blast
  have "{h \<in> H. tl_queues t' (fst h) \<noteq> None} = live_handles t' Hs"
    using schedule_timer_dom [OF tl_reach_fire.hyps(2)] unfolding I(2) live_handles_def by (auto simp: dom_def)
  with schedule_timer_inv [OF I(1) tl_reach_fire.hyps(2)] show ?case by blast
next
  case (tl_reach_remove c t H h x t')
  then obtain Q Hs where I: "tl_inv (unat c) t Q Hs" "H = live_handles t Hs" by blast
  obtain i p where h: "h = (i, p)" by fastforce
  with tl_reach_remove.hyps(2) I(2) obtain w where w: "tl_queues t i = Some w" "p \<in> Hs i"
    by (auto simp: live_handles_def)
  from timer_remove_step [OF I(1) w] tl_reach_remove.hyps(3) h obtain Q' where
    I': "tl_inv (unat c) t' Q' (Hs(i := Hs i - {p}))" by auto
  have "tl_queues t' j = None \<longleftrightarrow> tl_queues t j = None" for j
    using tl_reach_remove.hyps(3) h w(1)
    by (auto simp: timer_remove_def tl_queue_def tl_set_def bindE_eq_Inr split: if_splits)
  then have "H - {h} = live_handles t' (Hs(i := Hs i - {p}))"
    unfolding h I(2) live_handles_def by (auto split: if_splits)
  with I' show ?case by blast
qed

lemma fired_set:
  assumes I: "tl_inv c t Q Hs"
  shows "set (concat (map (\<lambda>e. expired now (Q (ie_list e))) (filter (due now) (tl_bh t)))) =
    {td_data d | d i. d \<in> set (Q i) \<and> td_time d \<le> now}" (is "?L = ?R")
proof -
  have "td_data d \<in> ?L" if d: "d \<in> set (Q i)" "td_time d \<le> now" for d i
  proof -
    obtain e where e: "e \<in> set (tl_bh t)" "ie_list e = i" "ie_time e \<le> td_time d"
      by (rule heap_entry [OF I d(1)])
    from e(3) d(2) have "due now e" unfolding due_def by (rule order_trans)
    with e d show ?thesis by (auto simp: expired_def intro!: bexI [of _ e])
  qed
  then have "?R \<subseteq> ?L" by blast
  moreover have "?L \<subseteq> ?R" by (auto simp: expired_def)
  ultimately show ?thesis by blast
qed

lemma sleep_none:
  assumes I: "tl_inv c t (\<lambda>i. pending now (Q i)) Hs"
    and r: "r = (case tl_bh t of [] \<Rightarrow> None | e # _ \<Rightarrow> Some (ie_time e - now))"
  shows "r = None \<longleftrightarrow> (\<forall>i. pending now (Q i) = [])"
proof -
  have "ie_list ` set (tl_bh t) = {i. pending now (Q i) \<noteq> []}" using I by (simp add: tl_inv_def tl_bh_ok_def)
  then show ?thesis unfolding r by (cases "tl_bh t") auto
qed

lemma sleep_some:
  assumes I: "tl_inv c t (\<lambda>i. pending now (Q i)) Hs"
    and r: "r = (case tl_bh t of [] \<Rightarrow> None | e # _ \<Rightarrow> Some (ie_time e - now))"
    and late: "\<forall>e \<in> set (tl_bh t). now < ie_time e" and s: "r = Some s"
  shows "0 < s \<and> (\<forall>i. \<forall>d \<in> set (pending now (Q i)). unat now + unat s \<le> unat (td_time d))"
proof -
  from r s obtain e es where bh: "tl_bh t = e # es" and se: "s = ie_time e - now"
    by (cases "tl_bh t") auto
  have lt: "now < ie_time e" using late bh by simp
  then have us: "unat s = unat (ie_time e) - unat now" and "unat now < unat (ie_time e)"
    by (simp_all add: se unat_sub [OF less_imp_le [OF lt]] word_less_nat_alt)
  then have pos: "0 < s" by (simp add: word_less_nat_alt)
  have "unat now + unat s \<le> unat (td_time d)" if d: "d \<in> set (pending now (Q i))" for i d
  proof -
    obtain e' where e': "e' \<in> set (tl_bh t)" "ie_time e' \<le> td_time d" using heap_entry [OF I d] by blast
    have "sorted (map ie_time (tl_bh t))" using I by (simp add: tl_inv_def tl_bh_ok_def)
    with e' bh have "ie_time e \<le> td_time d" by (auto intro: order_trans)
    then show ?thesis using us \<open>unat now < unat (ie_time e)\<close> by (simp add: word_le_nat_alt)
  qed
  with pos show ?thesis by blast
qed

section \<open>Properties\<close>

text \<open>
  \<^verbatim>\<open>timeout_deadline\<close> saturates instead of wrapping: the deadline is \<open>now + dur\<close>, or the largest
  64-bit value if that does not fit, and it is never before \<open>now\<close>.
\<close>

theorem timeout_deadline_saturates:
  "unat (snd (timeout_deadline now dur)) = min (unat now + unat dur) (2 ^ 64 - 1) \<and>
   unat (snd (timeout_deadline now dur)) = unat now + unat (fst (timeout_deadline now dur))"
proof -
  obtain interval time where td: "timeout_deadline now dur = (interval, time)" by fastforce
  have "unat now \<le> 2 ^ 64 - 1" using u64_less [of now] by simp
  then show ?thesis using timeout_deadline_unat [OF td] by (simp add: td)
qed

text \<open>
  C10: in every reachable timer list there are queues \<open>Q\<close> of timers, each sorted by deadline, and
  \<^verbatim>\<open>schedule_timer\<close> returns for every clock reading once the two loop bounds are large enough: it
  calls the handler for exactly the timers whose deadline has passed, queue after queue in the order
  of the heap, keeps exactly the others, sleeps forever only if none is left, and otherwise sleeps a
  positive time that does not pass any remaining deadline.
\<close>

theorem schedule_timer_fires:
  assumes "valid_alloc k al" and "tl_reach al c t H"
  shows "\<exists>Q Hs. tl_inv (unat c) t Q Hs \<and> (\<forall>i. sorted (map td_time (Q i))) \<and>
    (\<forall>now. \<exists>n0 m0. \<forall>n \<ge> n0. \<forall>m \<ge> m0. \<exists>fired r t'.
       schedule_timer n m now t = Inr ((fired, r), t') \<and>
       fired = concat (map (\<lambda>e. expired now (Q (ie_list e))) (filter (due now) (tl_bh t))) \<and>
       set fired = {td_data d | d i. d \<in> set (Q i) \<and> td_time d \<le> now} \<and>
       tl_inv (unat c) t' (\<lambda>i. pending now (Q i)) Hs \<and>
       (r = None \<longleftrightarrow> (\<forall>i. pending now (Q i) = [])) \<and>
       (\<forall>s. r = Some s \<longrightarrow> 0 < s \<and>
          (\<forall>i. \<forall>d \<in> set (pending now (Q i)). unat now + unat s \<le> unat (td_time d))))"
proof -
  obtain Q Hs where I: "tl_inv (unat c) t Q Hs" using tl_reach_inv [OF assms] by blast
  obtain m0 where m0: "\<And>i. length (Q i) < m0" using queues_bounded [OF I] by blast
  have so: "sorted (map td_time (Q i))" for i
  proof (cases "Q i = []")
    case False
    from tl_inv_queue [OF I this] show ?thesis by (auto simp: tq_ok_def)
  qed simp
  have "\<exists>fired r t'. schedule_timer n m now t = Inr ((fired, r), t') \<and>
       fired = concat (map (\<lambda>e. expired now (Q (ie_list e))) (filter (due now) (tl_bh t))) \<and>
       set fired = {td_data d | d i. d \<in> set (Q i) \<and> td_time d \<le> now} \<and>
       tl_inv (unat c) t' (\<lambda>i. pending now (Q i)) Hs \<and>
       (r = None \<longleftrightarrow> (\<forall>i. pending now (Q i) = [])) \<and>
       (\<forall>s. r = Some s \<longrightarrow> 0 < s \<and>
          (\<forall>i. \<forall>d \<in> set (pending now (Q i)). unat now + unat s \<le> unat (td_time d)))"
    if n: "Suc (length (filter (due now) (tl_bh t))) \<le> n" and m: "m0 \<le> m" for now n m
  proof -
    have "length (Q i) < m" for i using m0 [of i] m by simp
    from schedule_timer_step [OF I _ this, of now n] n obtain r t' where
      run: "schedule_timer n m now t =
        Inr ((concat (map (\<lambda>e. expired now (Q (ie_list e))) (filter (due now) (tl_bh t))), r), t')"
      and I': "tl_inv (unat c) t' (\<lambda>i. pending now (Q i)) Hs"
      and r: "r = (case tl_bh t' of [] \<Rightarrow> None | e # _ \<Rightarrow> Some (ie_time e - now))"
      and late: "\<forall>e \<in> set (tl_bh t'). now < ie_time e" by auto
    show ?thesis
      by (intro exI conjI, rule run, rule refl, rule fired_set [OF I], rule I',
          rule sleep_none [OF I' r], intro allI impI sleep_some [OF I' r late])
  qed
  note run = this
  show ?thesis
    by (rule exI [of _ Q], rule exI [of _ Hs], intro conjI allI I so,
        rule exI [of _ "Suc (length (filter (due _) (tl_bh t)))"], rule exI [of _ m0], intro allI impI, rule run)
qed

text \<open>
  On a reachable timer list \<^verbatim>\<open>add_timer\<close> appends a timer with the saturated deadline to one
  queue, reports whether that queue was empty, and hands out a handle; removing an outstanding handle
  takes out one timer of its queue, or leaves the list alone if the timer is gone or is the last of its
  queue. Both keep the list reachable, so that \<^verbatim>\<open>schedule_timer\<close> fires what remains.
\<close>

theorem timer_list_ops:
  assumes "valid_alloc k al" and "tl_reach al c t H"
  shows "\<exists>Q Hs. tl_inv (unat c) t Q Hs \<and> H = live_handles t Hs \<and>
    (\<forall>now dur d. c \<le> now \<longrightarrow> add_timer al now dur d t = Inl AllocError \<or>
       (\<exists>i p t'. add_timer al now dur d t = Inr (((i, p), Q i = []), t') \<and>
          tl_reach al now t' (insert (i, p) H) \<and>
          tl_inv (unat now) t' (Q(i := Q i @ [\<lparr>td_time = snd (timeout_deadline now dur), td_data = d\<rparr>]))
            (Hs(i := insert p (if tl_queues t i = None then {} else Hs i))))) \<and>
    (\<forall>(i, p) \<in> H. \<exists>r t'. timer_remove (i, p) t = Inr (r, t') \<and> tl_reach al c t' (H - {(i, p)}) \<and>
       (case r of
          None \<Rightarrow> tl_inv (unat c) t' Q (Hs(i := Hs i - {p}))
        | Some x \<Rightarrow> \<exists>as bs. Q i = as @ x # bs \<and> bs \<noteq> [] \<and>
            tl_inv (unat c) t' (Q(i := as @ bs)) (Hs(i := Hs i - {p}))))"
proof -
  obtain Q Hs where I: "tl_inv (unat c) t Q Hs" and H: "H = live_handles t Hs"
    using tl_reach_inv [OF assms] by blast
  have add: "add_timer al now dur d t = Inl AllocError \<or>
       (\<exists>i p t'. add_timer al now dur d t = Inr (((i, p), Q i = []), t') \<and>
          tl_reach al now t' (insert (i, p) H) \<and>
          tl_inv (unat now) t' (Q(i := Q i @ [\<lparr>td_time = snd (timeout_deadline now dur), td_data = d\<rparr>]))
            (Hs(i := insert p (if tl_queues t i = None then {} else Hs i))))" if c: "c \<le> now" for now dur d
  proof -
    have le: "unat c \<le> unat now" using c by (simp add: word_le_nat_alt)
    obtain interval time where td: "timeout_deadline now dur = (interval, time)" by fastforce
    from add_timer_step [OF assms(1) I le td, of d] show ?thesis unfolding td snd_conv
      by (elim disjE exE conjE) (blast intro: tl_reach_add [OF assms(2) c])+
  qed
  have remove: "\<exists>r t'. timer_remove (i, p) t = Inr (r, t') \<and> tl_reach al c t' (H - {(i, p)}) \<and>
       (case r of
          None \<Rightarrow> tl_inv (unat c) t' Q (Hs(i := Hs i - {p}))
        | Some x \<Rightarrow> \<exists>as bs. Q i = as @ x # bs \<and> bs \<noteq> [] \<and>
            tl_inv (unat c) t' (Q(i := as @ bs)) (Hs(i := Hs i - {p})))" if h: "(i, p) \<in> H" for i p
  proof -
    from h H obtain w where w: "tl_queues t i = Some w" "p \<in> Hs i" by (auto simp: live_handles_def)
    note reach = tl_reach_remove [OF assms(2) h]
    from timer_remove_step [OF I w] show ?thesis
    proof (elim exE disjE conjE)
      fix t' assume "timer_remove (i, p) t = Inr (None, t')" "tl_inv (unat c) t' Q (Hs(i := Hs i - {p}))"
      with reach show ?thesis by (intro exI [of _ None] exI [of _ t']) simp
    next
      fix t' as x bs assume "Q i = as @ x # bs" "bs \<noteq> []" "timer_remove (i, p) t = Inr (Some x, t')"
        "tl_inv (unat c) t' (Q(i := as @ bs)) (Hs(i := Hs i - {p}))"
      with reach show ?thesis by (intro exI [of _ "Some x"] exI [of _ t']) auto
    qed
  qed
  show ?thesis using I H add remove by blast
qed

text \<open>A list with one timer, set at time 0 for 100 ns.\<close>

lemma one_timer:
  "\<exists>(t :: nat tlist) h t'. tl_reach three_blocks 0 t {h} \<and> schedule_timer 2 2 100 t = Inr (([7], None), t')"
proof -
  have td: "timeout_deadline 0 100 = (100, 100)"
  proof -
    obtain i t where it: "timeout_deadline 0 100 = (i, t)" by fastforce
    with timeout_deadline_unat [OF it] have "unat i = unat (100 :: u64)" "unat t = unat (100 :: u64)" by simp_all
    with it show ?thesis by (simp only: word_unat_eq_iff simp_thms prod.inject)
  qed
  have "add_timer three_blocks 0 100 (7 :: nat) tlist_new \<noteq> Inl AllocError"
    by (simp add: add_timer_def td tlist_new_def tl_set_def install_timer_bh_def tl_queue_def Let_def
        v1_new_def v1_node_new_def v1_push_def alloc_def modify_def)
  with add_timer_step [OF valid_three_blocks tl_inv_new _ td, of 0 "7 :: nat"] obtain i p t H where
    run: "add_timer three_blocks 0 100 (7 :: nat) tlist_new = Inr (((i, p), True), t)"
    and I: "tl_inv 0 t ((\<lambda>_. [])(i := [\<lparr>td_time = 100, td_data = 7\<rparr>])) H" by auto
  let ?Q = "(\<lambda>_. [])(i := [\<lparr>td_time = 100, td_data = 7 :: nat\<rparr>])"
  have reach: "tl_reach three_blocks 0 t {(i, p)}" using tl_reach_add [OF tl_reach_new _ run, of 0] by simp
  from I have bh: "ie_list ` set (tl_bh t) = {i}" "distinct (map ie_list (tl_bh t))"
    "\<forall>e \<in> set (tl_bh t). ie_time e \<le> td_time (hd (?Q (ie_list e)))"
    by (simp_all add: tl_inv_def tl_bh_ok_def)
  then obtain e where e: "tl_bh t = [e]" "ie_list e = i"
    by (cases "tl_bh t"; cases "tl (tl_bh t)") auto
  with bh(3) have "due 100 e" by (simp add: due_def)
  moreover have "\<And>j. length (?Q j) < 2" by simp
  ultimately have "\<exists>r t'. schedule_timer 2 2 100 t = Inr (([7], r), t') \<and>
      tl_inv 0 t' (\<lambda>j. pending 100 (?Q j)) H \<and> r = (case tl_bh t' of [] \<Rightarrow> None | e # _ \<Rightarrow> Some (ie_time e - 100))"
    using schedule_timer_step [OF I, of 100 2 2] e by (auto simp: expired_def)
  then obtain r t' where "schedule_timer 2 2 100 t = Inr (([7], r), t')"
    "tl_inv 0 t' (\<lambda>j. pending 100 (?Q j)) H" "r = (case tl_bh t' of [] \<Rightarrow> None | e # _ \<Rightarrow> Some (ie_time e - 100))"
    by blast
  moreover from sleep_none [OF this(2,3)] have "r = None" by (simp add: pending_def)
  ultimately show ?thesis using reach by (intro exI [of _ t] exI [of _ "(i, p)"] exI [of _ t']) simp
qed

theorem schedule_timer_fires_witness:
  "\<exists>(t :: nat tlist) H Q Hs. tl_reach three_blocks 0 t H \<and> tl_inv 0 t Q Hs \<and>
     {td_data d | d i. d \<in> set (Q i) \<and> td_time d \<le> 100} = {7}"
proof -
  obtain t :: "nat tlist" and h t' where t: "tl_reach three_blocks 0 t {h}"
    "schedule_timer 2 2 100 t = Inr (([7], None), t')" using one_timer by blast
  from schedule_timer_fires [OF valid_three_blocks t(1)] show ?thesis
  proof (elim exE conjE, goal_cases)
    case (1 Q Hs)
    from spec [OF 1(3), of 100] obtain n0 m0 where run: "\<forall>n \<ge> n0. \<forall>m \<ge> m0. \<exists>fired r t'.
        schedule_timer n m 100 t = Inr ((fired, r), t') \<and>
        set fired = {td_data d | d i. d \<in> set (Q i) \<and> td_time d \<le> 100}"
      by (elim exE) (rule that, blast)
    have "schedule_timer (n0 + 2) (m0 + 2) 100 t = Inr (([7], None), t')"
      by (rule schedule_timer_mono [OF t(2)]) simp_all
    with spec [OF mp [OF spec [OF run, of "n0 + 2"]], of "m0 + 2"]
    have "set [7] = {td_data d | d i. d \<in> set (Q i) \<and> td_time d \<le> 100}" by simp
    with 1(1) t(1) show ?case by (intro exI [of _ t] exI [of _ "{h}"] exI [of _ Q] exI [of _ Hs]) simp
  qed
qed

end
