(* ===== verification/Atomics.thy ===== *)
theory Atomics
  imports Prelude
begin

unbundle bit_operations_syntax

text \<open>
  The small atomic cells below the synchronization types: \<^verbatim>\<open>src/sync/atomic_option.rs\<close>,
  \<^verbatim>\<open>src/sync/atomic_dur.rs\<close> and \<^verbatim>\<open>src/sync/delay_drop.rs\<close>. Each operation is one atomic access; a
  \<^verbatim>\<open>Duration\<close> is its number of nanoseconds.
\<close>

section \<open>Atomic option\<close>

type_synonym 'a atomic_option = "'a option"

definition ao_none :: "'a atomic_option" where
  "ao_none = None"

definition ao_some :: "'a \<Rightarrow> 'a atomic_option" where
  "ao_some t = Some t"

definition ao_store :: "'a \<Rightarrow> 'a atomic_option \<Rightarrow> 'a atomic_option" where
  "ao_store t c = Some t"

definition ao_take :: "'a atomic_option \<Rightarrow> 'a option \<times> 'a atomic_option" where
  "ao_take c = (c, None)"

definition ao_clear :: "'a atomic_option \<Rightarrow> 'a atomic_option" where
  "ao_clear c = None"

lemmas ao_defs = ao_none_def ao_some_def ao_store_def ao_take_def ao_clear_def

section \<open>Atomic duration\<close>

text \<open>\<^verbatim>\<open>d.as_nanos().div_ceil(1_000_000).max(1)\<close>, cut to \<^verbatim>\<open>usize::MAX\<close>\<close>

definition encode :: "nat option \<Rightarrow> usize" where
  "encode dur = (case dur of
     None \<Rightarrow> 0
   | Some d \<Rightarrow> let ms = max ((d + 999999) div 1000000) 1 in
       if ms < 2 ^ 64 then of_nat ms else - 1)"

type_synonym atomic_duration = usize

definition ad_new :: "nat option \<Rightarrow> atomic_duration" where
  "ad_new dur = encode dur"

text \<open>\<^verbatim>\<open>Duration::from_millis\<close>\<close>

definition from_millis :: "usize \<Rightarrow> nat" where
  "from_millis d = unat d * 1000000"

definition ad_get :: "atomic_duration \<Rightarrow> nat option" where
  "ad_get a = (if a = 0 then None else Some (from_millis a))"

definition ad_store :: "nat option \<Rightarrow> atomic_duration \<Rightarrow> atomic_duration" where
  "ad_store dur a = encode dur"

definition ad_take :: "atomic_duration \<Rightarrow> nat option \<times> atomic_duration" where
  "ad_take a = (if a = 0 then None else Some (from_millis a), 0)"

lemma encode_unat:
  "encode (Some d) \<noteq> 0"
  "unat (encode (Some d)) = min (max ((d + 999999) div 1000000) 1) (2 ^ 64 - 1)"
proof -
  let ?m = "max ((d + 999999) div 1000000) 1"
  have e: "unat (encode (Some d)) = min ?m (2 ^ 64 - 1)"
  proof (cases "?m < 2 ^ 64")
    case True
    then have "unat (of_nat ?m :: usize) = ?m" by (simp add: unat_of_nat_less)
    with True show ?thesis unfolding encode_def Let_def by simp
  next
    case False
    have "unat (- 1 :: usize) = 2 ^ 64 - 1" by (simp add: unsigned_minus_1_eq_mask mask_eq_exp_minus_1)
    with False show ?thesis unfolding encode_def Let_def by simp
  qed
  show "unat (encode (Some d)) = min ?m (2 ^ 64 - 1)" by (rule e)
  then show "encode (Some d) \<noteq> 0" by auto
qed

lemma div_ceil_bounds:
  fixes d :: nat
  shows "d \<le> (d + 999999) div 1000000 * 1000000" "(d + 999999) div 1000000 * 1000000 < d + 1000000"
proof -
  have "(d + 999999) div 1000000 * 1000000 + (d + 999999) mod 1000000 = d + 999999" by simp
  moreover have "(d + 999999) mod 1000000 < 1000000" by simp
  ultimately show "d \<le> (d + 999999) div 1000000 * 1000000" "(d + 999999) div 1000000 * 1000000 < d + 1000000"
    by linarith+
qed



section \<open>Delayed drop\<close>

type_synonym delay_drop = usize

definition dd_new :: delay_drop where
  "dd_new = 0"

text \<open>\<^verbatim>\<open>delay_drop\<close> hands out a guard; dropping the guard clears the flag.\<close>

definition dd_delay :: "delay_drop \<Rightarrow> delay_drop" where
  "dd_delay c = 2"

definition dd_guard_drop :: "delay_drop \<Rightarrow> delay_drop" where
  "dd_guard_drop c = c AND 1"

text \<open>
  \<^verbatim>\<open>wait\<close> spins with \<^verbatim>\<open>yield_now\<close>; the list is what the successive loads read. \<open>None\<close>: still waiting.
\<close>

fun dd_wait :: "delay_drop list \<Rightarrow> nat option" where
  "dd_wait [] = None"
| "dd_wait (c # cs) = (if c = 2 then map_option Suc (dd_wait cs) else Some 0)"

datatype dd_op = Delay | GuardDrop

fun dd_exec :: "dd_op list \<Rightarrow> delay_drop \<Rightarrow> delay_drop" where
  "dd_exec [] c = c"
| "dd_exec (Delay # os) c = dd_exec os (dd_delay c)"
| "dd_exec (GuardDrop # os) c = dd_exec os (dd_guard_drop c)"

lemma dd_values: "c \<in> {0, 2} \<Longrightarrow> dd_exec os c \<in> {0, 2}"
  by (induction os c rule: dd_exec.induct) (auto simp: dd_delay_def dd_guard_drop_def)

lemma dd_exec_snoc [simp]: "dd_exec (os @ [p]) c = dd_exec [p] (dd_exec os c)"
  by (induction os c rule: dd_exec.induct) auto

text \<open>
  \<^verbatim>\<open>DelayDrop::wait\<close> waits exactly while a guard is outstanding. After any sequence of taking and
  dropping guards, the flag makes a waiter spin if the last operation took a guard, and lets it go at
  once if the last operation dropped it or none happened; a waiter returns with its first load that
  sees the flag clear.
\<close>

theorem delay_drop_waits:
  "(dd_exec os dd_new = 2 \<longleftrightarrow> os \<noteq> [] \<and> last os = Delay) \<and>
   (os = [] \<or> last os = GuardDrop \<longrightarrow> dd_wait [dd_exec os dd_new] = Some 0) \<and>
   (dd_wait cs = Some n \<longleftrightarrow> n < length cs \<and> cs ! n \<noteq> 2 \<and> (\<forall>i < n. cs ! i = 2))"
proof -
  have a: "dd_exec os dd_new = 2 \<longleftrightarrow> os \<noteq> [] \<and> last os = Delay" for os
  proof (cases os rule: rev_cases)
    case Nil
    then show ?thesis by (simp add: dd_new_def)
  next
    case (snoc os' p)
    have "dd_exec os' dd_new \<in> {0, 2}" by (rule dd_values) (simp add: dd_new_def)
    with snoc show ?thesis by (cases p) (auto simp: dd_delay_def dd_guard_drop_def)
  qed
  have b: "dd_wait cs = Some n \<longleftrightarrow> n < length cs \<and> cs ! n \<noteq> 2 \<and> (\<forall>i < n. cs ! i = 2)"
  proof (induction cs arbitrary: n)
    case (Cons c cs)
    then show ?case by (cases n) (auto simp: less_Suc_eq_0_disj)
  qed simp
  have "dd_exec os dd_new \<noteq> 2" if "os = [] \<or> last os = GuardDrop" using a [of os] that by auto
  with a b show ?thesis by auto
qed

end
