(* ===== verification/Timer_Thread.thy ===== *)
theory Timer_Thread
  imports Timeout_List Atomics "HOL-Library.Multiset"
begin

text \<open>
  The timer thread of \<^verbatim>\<open>src/timeout_list.rs\<close> and the threads that add and delete timers, as a transition
  system. Every access to the queue of removals, to the slot with the handle of the timer thread and to its park token is one step, and so is every
  round of the loop of \<^verbatim>\<open>schedule_timer\<close>; \<^verbatim>\<open>add_timer\<close> and \<^verbatim>\<open>remove\<close> of the timer list are one step each. The
  clock is a field that moves on at any time and never back.
\<close>

section \<open>State\<close>

text \<open>The timer thread: before the access it is named after; what it sleeps for is the result of \<^verbatim>\<open>schedule_timer\<close>.\<close>

datatype tpc =
    TTPop                              \<comment> \<open>\<^verbatim>\<open>self.remove_list.pop()\<close>\<close>
  | TTRemove handle                    \<comment> \<open>\<^verbatim>\<open>h.remove()\<close>\<close>
  | TTStore                            \<comment> \<open>\<^verbatim>\<open>self.wakeup.store(current_thread.clone())\<close>\<close>
  | TTCheck                            \<comment> \<open>\<^verbatim>\<open>self.remove_list.is_empty()\<close>\<close>
  | TTTake                             \<comment> \<open>\<^verbatim>\<open>self.wakeup.take()\<close>\<close>
  | TTUnpark                           \<comment> \<open>\<^verbatim>\<open>t.unpark()\<close>\<close>
  | TTNow                              \<comment> \<open>\<^verbatim>\<open>now()\<close>\<close>
  | TTSched u64                        \<comment> \<open>a round of \<^verbatim>\<open>schedule_timer\<close>\<close>
  | TTEnter u64 "u64 option"           \<comment> \<open>before \<^verbatim>\<open>thread::park\<close> or \<^verbatim>\<open>park_timeout\<close>\<close>
  | TTParked u64 u64 "u64 option"      \<comment> \<open>in it, since the second time\<close>

datatype tclient =
    TCIdle
  | TCWake                             \<comment> \<open>\<^verbatim>\<open>self.wakeup.take()\<close>\<close>
  | TCUnpark                           \<comment> \<open>\<^verbatim>\<open>t.unpark()\<close>\<close>

text \<open>
  The last five fields are ghost: the handles that clients hold, the data added, fired and removed, and the largest number of
  interval queues so far. \<open>tt_broken\<close> is a memory fault of the list.
\<close>

record 'a timer =
  tt_list :: "'a tlist"
  tt_remove :: "handle list"
  tt_wakeup :: "unit atomic_option"
  tt_token :: bool
  tt_clock :: u64
  tt_pc :: tpc
  tt_cl :: "nat \<Rightarrow> tclient"
  tt_broken :: bool
  tt_owned :: "handle set"
  tt_added :: "'a multiset"
  tt_fired :: "'a multiset"
  tt_deleted :: "'a multiset"
  tt_peak :: nat

definition timer_new :: "'a timer" where
  "timer_new = \<lparr>tt_list = tlist_new, tt_remove = [], tt_wakeup = ao_none, tt_token = False, tt_clock = 0, tt_pc = TTPop,
     tt_cl = (\<lambda>_. TCIdle), tt_broken = False, tt_owned = {}, tt_added = {#}, tt_fired = {#}, tt_deleted = {#}, tt_peak = 0\<rparr>"

definition cl_goto :: "nat \<Rightarrow> tclient \<Rightarrow> 'a timer \<Rightarrow> 'a timer" where
  "cl_goto u p s = s\<lparr>tt_cl := (tt_cl s)(u := p)\<rparr>"

section \<open>Operations\<close>

text \<open>\<^verbatim>\<open>add_timer\<close> and \<^verbatim>\<open>del_timer\<close>, up to the first access to \<^verbatim>\<open>wakeup\<close>; a failed allocation aborts.\<close>

definition tt_add_timer :: "'a timer_alloc \<Rightarrow> nat \<Rightarrow> 128 word \<Rightarrow> 'a \<Rightarrow> 'a timer \<Rightarrow> 'a timer option" where
  "tt_add_timer al u dur d s = (case add_timer al (tt_clock s) dur d (tt_list s) of
     Inr ((h, is_recal), t) \<Rightarrow> Some (cl_goto u (if is_recal then TCWake else TCIdle)
       (s\<lparr>tt_list := t, tt_owned := insert h (tt_owned s), tt_added := add_mset d (tt_added s),
          tt_peak := max (tt_peak s) (length (tl_map t))\<rparr>))
   | Inl e \<Rightarrow> if e = AllocError then None else Some (s\<lparr>tt_broken := True\<rparr>))"

definition tt_del_timer :: "nat \<Rightarrow> handle \<Rightarrow> 'a timer \<Rightarrow> 'a timer" where
  "tt_del_timer u h s = cl_goto u TCWake (s\<lparr>tt_remove := tt_remove s @ [h], tt_owned := tt_owned s - {h}\<rparr>)"

text \<open>\<^verbatim>\<open>if let Some(t) = self.wakeup.take() { t.unpark(); }\<close>\<close>

fun wake_timer :: "nat \<Rightarrow> 'a timer \<Rightarrow> 'a timer option" where
  "wake_timer u s = (case tt_cl s u of
     TCWake \<Rightarrow>
       (let (r, w) = ao_take (tt_wakeup s) in
        Some (cl_goto u (if r = None then TCIdle else TCUnpark) (s\<lparr>tt_wakeup := w\<rparr>)))
   | TCUnpark \<Rightarrow> Some (cl_goto u TCIdle (s\<lparr>tt_token := True\<rparr>))
   | TCIdle \<Rightarrow> None)"

text \<open>
  One round of \<^verbatim>\<open>schedule_timer\<close>: it returns how long to sleep, or fires what is due in the first queue of the heap; \<open>m\<close> bounds the pops.
\<close>

datatype 'a round = Sleep "u64 option" | Fired "'a list"

definition timer_round :: "nat \<Rightarrow> u64 \<Rightarrow> 'a tlist \<Rightarrow> ('a round \<times> 'a tlist) res" where
  "timer_round m now t = (case tl_bh t of
     [] \<Rightarrow> Inr (Sleep None, t)
   | top_entry # rest \<Rightarrow>
       if ie_time top_entry > now then Inr (Sleep (Some (ie_time top_entry - now)), t)
       else bindE (schedule_entry m now top_entry (t\<lparr>tl_bh := rest\<rparr>)) (\<lambda>(fired, t1). Inr (Fired fired, t1)))"

lemma schedule_timer_round:
  "schedule_timer (Suc n) m now t = bindE (timer_round m now t) (\<lambda>(x, t1). case x of
     Sleep r \<Rightarrow> Inr (([], r), t1)
   | Fired fs \<Rightarrow> bindE (schedule_timer n m now t1) (\<lambda>((fs', r), t2). Inr ((fs @ fs', r), t2)))"
  by (auto simp: timer_round_def bindE_assoc split: list.splits intro!: arg_cong [where f = "bindE _"] ext)

text \<open>\<^verbatim>\<open>TimerThread::run\<close>. A round that runs out of its bound on pops is run again with a larger one.\<close>

fun timer_run :: "nat \<Rightarrow> 'a timer \<Rightarrow> 'a timer option" where
  "timer_run m s = (case tt_pc s of
     TTPop \<Rightarrow> (case tt_remove s of
       h # r \<Rightarrow> Some (s\<lparr>tt_remove := r, tt_pc := TTRemove h\<rparr>)
     | [] \<Rightarrow> Some (s\<lparr>tt_pc := TTStore\<rparr>))
   | TTRemove h \<Rightarrow> (case timer_remove h (tt_list s) of
       Inr (r, t) \<Rightarrow> Some (s\<lparr>tt_list := t, tt_pc := TTPop,
         tt_deleted := (case r of None \<Rightarrow> tt_deleted s | Some d \<Rightarrow> add_mset (td_data d) (tt_deleted s))\<rparr>)
     | Inl _ \<Rightarrow> Some (s\<lparr>tt_broken := True\<rparr>))
   | TTStore \<Rightarrow> Some (s\<lparr>tt_wakeup := ao_store () (tt_wakeup s), tt_pc := TTCheck\<rparr>)
   | TTCheck \<Rightarrow> Some (s\<lparr>tt_pc := if tt_remove s \<noteq> [] then TTTake else TTNow\<rparr>)
   | TTTake \<Rightarrow>
       (let (r, w) = ao_take (tt_wakeup s) in Some (s\<lparr>tt_wakeup := w, tt_pc := if r = None then TTNow else TTUnpark\<rparr>))
   | TTUnpark \<Rightarrow> Some (s\<lparr>tt_token := True, tt_pc := TTNow\<rparr>)
   | TTNow \<Rightarrow> Some (s\<lparr>tt_pc := TTSched (tt_clock s)\<rparr>)
   | TTSched now \<Rightarrow> (case timer_round m now (tt_list s) of
       Inr (Sleep r, t) \<Rightarrow> Some (s\<lparr>tt_list := t, tt_pc := TTEnter now r\<rparr>)
     | Inr (Fired fs, t) \<Rightarrow> Some (s\<lparr>tt_list := t, tt_fired := tt_fired s + mset fs\<rparr>)
     | Inl e \<Rightarrow> if e = Spin then None else Some (s\<lparr>tt_broken := True\<rparr>))
   | TTEnter now r \<Rightarrow> Some (s\<lparr>tt_pc := TTParked now (tt_clock s) r\<rparr>)
   | TTParked now start r \<Rightarrow> if tt_token s then Some (s\<lparr>tt_token := False, tt_pc := TTPop\<rparr>) else None)"

text \<open>\<^verbatim>\<open>park_timeout\<close> returns when its time is over; both kinds of parking may return for no reason.\<close>

fun park_over :: "bool \<Rightarrow> 'a timer \<Rightarrow> 'a timer option" where
  "park_over spurious s = (case tt_pc s of
     TTParked now start r \<Rightarrow>
       if spurious \<or> (\<exists>time. r = Some time \<and> unat start + unat time \<le> unat (tt_clock s))
       then Some (s\<lparr>tt_token := False, tt_pc := TTPop\<rparr>) else None
   | _ \<Rightarrow> None)"

datatype 'a tact =
    TRun nat | TOver bool | Tick u64 | AddTimer nat "128 word" 'a | DelTimer nat handle | TClient nat

fun tt_next :: "'a timer_alloc \<Rightarrow> 'a tact \<Rightarrow> 'a timer \<Rightarrow> 'a timer option" where
  "tt_next al (TRun m) s = (if tt_broken s then None else timer_run m s)"
| "tt_next al (TOver b) s = (if tt_broken s then None else park_over b s)"
| "tt_next al (Tick now) s = (if tt_broken s \<or> now < tt_clock s then None else Some (s\<lparr>tt_clock := now\<rparr>))"
| "tt_next al (AddTimer u dur d) s =
     (if tt_broken s \<or> tt_cl s u \<noteq> TCIdle then None else tt_add_timer al u dur d s)"
| "tt_next al (DelTimer u h) s =
     (if tt_broken s \<or> tt_cl s u \<noteq> TCIdle \<or> h \<notin> tt_owned s then None else Some (tt_del_timer u h s))"
| "tt_next al (TClient u) s = (if tt_broken s then None else wake_timer u s)"

definition tt_start :: "'a timer \<Rightarrow> bool" where
  "tt_start s \<longleftrightarrow> s = timer_new"

definition tt_step :: "'a timer_alloc \<Rightarrow> 'a timer \<Rightarrow> 'a timer \<Rightarrow> bool" where
  "tt_step al s s' \<longleftrightarrow> (\<exists>a. tt_next al a s = Some s')"

section \<open>The timer list as the thread uses it\<close>

lemma tl_inv_later: "tl_inv c t Q Hs \<Longrightarrow> c \<le> c' \<Longrightarrow> tl_inv c' t Q Hs"
  unfolding tl_inv_def tl_queues_ok_def by (meson add_le_mono1 order_trans)

lemma add_timer_frame:
  assumes I: "tl_inv c t Q Hs" and a: "add_timer al now dur d t = Inr (((i, p), r), t')"
  shows "tl_fresh t \<le> tl_fresh t'" and "i < tl_fresh t'" and "tl_queues t i = None \<Longrightarrow> i = tl_fresh t"
proof -
  obtain interval time where td: "timeout_deadline now dur = (interval, time)" by fastforce
  have d: "i < tl_fresh t" if "tl_queues t i \<noteq> None" for i using that I by (auto simp: tl_inv_def tl_map_ok_def)
  have "tl_fresh t \<le> tl_fresh t' \<and> i < tl_fresh t' \<and> (tl_queues t i = None \<longrightarrow> i = tl_fresh t)"
  proof (cases "map_of (tl_map t) interval")
    case None
    with a td show ?thesis
      by (auto simp: add_timer_def bindE_eq_Inr tl_set_def install_timer_bh_def tl_queue_def Let_def split: if_splits)
  next
    case (Some j)
    with a td d [of i] show ?thesis
      by (auto simp: add_timer_def add_to_list_def bindE_eq_Inr tl_set_def install_timer_bh_def tl_queue_def Let_def
          split: if_splits option.splits)
  qed
  then show "tl_fresh t \<le> tl_fresh t'" "i < tl_fresh t'" "tl_queues t i = None \<Longrightarrow> i = tl_fresh t" by auto
qed

lemma timer_remove_frame:
  assumes "timer_remove h t = Inr (r, t')"
  shows "tl_fresh t' = tl_fresh t" and "tl_map t' = tl_map t" and "tl_queues t' j = None \<longleftrightarrow> tl_queues t j = None"
  using assms by (auto simp: timer_remove_def bindE_eq_Inr tl_set_def tl_queue_def split: option.splits if_splits)

lemma schedule_entry_frame:
  assumes "schedule_entry m now e t = Inr (x, t')"
  shows "tl_fresh t' = tl_fresh t" and "length (tl_map t') \<le> length (tl_map t)"
    and "length (tl_map t) \<le> HASH_CAP \<Longrightarrow> tl_queues t' j = None \<longleftrightarrow> tl_queues t j = None"
proof -
  from assms obtain w fired nx w' where w: "tl_queues t (ie_list e) = Some w"
    "pop_timeout m now (w\<lparr>tw_in_use := 0\<rparr>) = Inr (fired, nx, w')"
    by (auto simp: schedule_entry_def bindE_eq_Inr tl_queue_def Let_def split: option.splits)
  have "tl_fresh t' = tl_fresh t \<and> length (tl_map t') \<le> length (tl_map t) \<and>
    (length (tl_map t) \<le> HASH_CAP \<longrightarrow> (tl_queues t' j = None \<longleftrightarrow> tl_queues t j = None))"
    using assms w by (cases nx) (auto simp: schedule_entry_def bindE_eq_Inr tl_queue_def tl_set_def Let_def split: option.splits if_splits)
  then show "tl_fresh t' = tl_fresh t" "length (tl_map t') \<le> length (tl_map t)"
    "length (tl_map t) \<le> HASH_CAP \<Longrightarrow> tl_queues t' j = None \<longleftrightarrow> tl_queues t j = None" by auto
qed

text \<open>A round fires what is due in one queue, or returns a bound on every deadline.\<close>

definition sleeps :: "u64 \<Rightarrow> u64 option \<Rightarrow> (nat \<Rightarrow> 'a tdata list) \<Rightarrow> bool" where
  "sleeps now r Q \<longleftrightarrow> (case r of
     None \<Rightarrow> \<forall>i. Q i = []
   | Some time \<Rightarrow> \<forall>i. \<forall>d \<in> set (Q i). unat now + unat time \<le> unat (td_time d))"

lemma round_cases:
  assumes I: "tl_inv c t Q Hs"
  obtains r where "timer_round m now t = Inr (Sleep r, t)" "sleeps now r Q"
  | e rest where "tl_bh t = e # rest" "due now e" "\<And>m. length (Q (ie_list e)) < m \<Longrightarrow>
      \<exists>t'. timer_round m now t = Inr (Fired (expired now (Q (ie_list e))), t') \<and>
        tl_inv c t' (Q(ie_list e := pending now (Q (ie_list e)))) Hs"
proof (cases "tl_bh t")
  case Nil
  then have "\<forall>i. Q i = []" using I by (auto simp: tl_inv_def tl_bh_ok_def)
  with Nil that(1) [of None] show thesis by (simp add: timer_round_def sleeps_def)
next
  case (Cons e rest)
  show thesis
  proof (cases "due now e")
    case True
    show thesis
    proof (rule that(2) [OF Cons True])
      fix m assume "length (Q (ie_list e)) < m"
      from schedule_entry_step [OF I Cons True this] show "\<exists>t'. timer_round m now t =
          Inr (Fired (expired now (Q (ie_list e))), t') \<and> tl_inv c t' (Q(ie_list e := pending now (Q (ie_list e)))) Hs"
        using True Cons by (auto simp: timer_round_def due_def)
    qed
  next
    case False
    then have lt: "now < ie_time e" by (simp add: due_def)
    then have u: "unat now + unat (ie_time e - now) = unat (ie_time e)"
      by (simp add: unat_sub [OF less_imp_le [OF lt]] word_less_nat_alt)
    have so: "sorted (map ie_time (tl_bh t))" using I by (simp add: tl_inv_def tl_bh_ok_def)
    have "unat (ie_time e) \<le> unat (td_time d)" if d: "d \<in> set (Q i)" for i d
    proof -
      obtain e' where "e' \<in> set (tl_bh t)" "ie_time e' \<le> td_time d" using heap_entry [OF I d] by blast
      then have "ie_time e \<le> td_time d" using so Cons by (auto intro: order_trans)
      then show ?thesis by (simp add: word_le_nat_alt)
    qed
    then have "sleeps now (Some (ie_time e - now)) Q" unfolding sleeps_def option.case u by blast
    with that(1) [of "Some (ie_time e - now)"] Cons lt show thesis by (simp add: timer_round_def)
  qed
qed

lemma round_frame:
  assumes "timer_round m now t = Inr (x, t')"
  shows "tl_fresh t' = tl_fresh t" and "length (tl_map t') \<le> length (tl_map t)"
    and "length (tl_map t) \<le> HASH_CAP \<Longrightarrow> tl_queues t' j = None \<longleftrightarrow> tl_queues t j = None"
    and "dom (tl_queues t') \<subseteq> dom (tl_queues t)"
proof -
  consider "t' = t" | e rest y where "schedule_entry m now e (t\<lparr>tl_bh := rest\<rparr>) = Inr (y, t')"
    using assms by (auto simp: timer_round_def bindE_eq_Inr split: list.splits if_splits)
  then have "tl_fresh t' = tl_fresh t \<and> length (tl_map t') \<le> length (tl_map t) \<and>
    (length (tl_map t) \<le> HASH_CAP \<longrightarrow> (tl_queues t' j = None \<longleftrightarrow> tl_queues t j = None)) \<and>
    dom (tl_queues t') \<subseteq> dom (tl_queues t)"
  proof cases
    case 2
    from schedule_entry_frame [OF 2] schedule_entry_dom [OF 2] show ?thesis by simp
  qed simp
  then show "tl_fresh t' = tl_fresh t" "length (tl_map t') \<le> length (tl_map t)"
    "length (tl_map t) \<le> HASH_CAP \<Longrightarrow> tl_queues t' j = None \<longleftrightarrow> tl_queues t j = None"
    "dom (tl_queues t') \<subseteq> dom (tl_queues t)" by auto
qed

text \<open>A smaller bound on the pops gives the same result or is used up.\<close>

lemma bindE_fuel:
  assumes "a = Inl Spin \<or> a = b" "\<And>x. f x = Inl Spin \<or> f x = g x"
  shows "bindE a f = Inl Spin \<or> bindE a f = bindE b g"
  using assms by (cases b) (auto, metis)

lemma drain_fuel: "n \<le> n' \<Longrightarrow> drain n f q = Inl Spin \<or> drain n f q = drain n' f q"
proof (induction n arbitrary: n' q)
  case (Suc n)
  then obtain k where k: "n' = Suc k" "n \<le> k" by (cases n') auto
  have "bindE (drain n f q') (\<lambda>(xs, q''). Inr (x # xs, q'')) = Inl Spin \<or>
      bindE (drain n f q') (\<lambda>(xs, q''). Inr (x # xs, q'')) = bindE (drain k f q') (\<lambda>(xs, q''). Inr (x # xs, q''))" for q' x
    by (rule bindE_fuel [OF Suc.IH [OF k(2)]]) simp
  then show ?case unfolding k(1) drain.simps
    by (intro bindE_fuel [OF disjI2 [OF refl]]) (simp split: option.split prod.split)
qed simp

lemma round_fuel:
  assumes "m \<le> m'" shows "timer_round m now t = Inl Spin \<or> timer_round m now t = timer_round m' now t"
proof -
  have p: "pop_timeout m now w = Inl Spin \<or> pop_timeout m now w = pop_timeout m' now w" for w :: "'a twrap"
    unfolding pop_timeout_def by (rule bindE_fuel [OF drain_fuel [OF assms]]) simp
  have "schedule_entry m now e t = Inl Spin \<or> schedule_entry m now e t = schedule_entry m' now e t" for e and t :: "'a tlist"
    unfolding schedule_entry_def Let_def by (rule bindE_fuel [OF disjI2 [OF refl]], rule bindE_fuel [OF p]) simp
  then show ?thesis unfolding timer_round_def by (cases "tl_bh t") (simp_all add: bindE_fuel)
qed

section \<open>Counting timers\<close>

definition timers :: "(nat \<Rightarrow> 'a tdata list) \<Rightarrow> 'a multiset" where
  "timers Q = (\<Sum>i | Q i \<noteq> []. mset (map td_data (Q i)))"

lemma timers_eq:
  assumes "finite A" "{i. Q i \<noteq> []} \<subseteq> A"
  shows "timers Q = (\<Sum>i\<in>A. mset (map td_data (Q i)))"
  unfolding timers_def by (rule sum.mono_neutral_left) (use assms in auto)

lemma timers_upd:
  assumes "finite {i. Q i \<noteq> []}"
  shows "timers (Q(j := ds)) + mset (map td_data (Q j)) = timers Q + mset (map td_data ds)"
proof -
  let ?A = "insert j {i. Q i \<noteq> []}" and ?B = "{i. Q i \<noteq> []} - {j}"
  have f: "finite ?A" using assms by simp
  have "timers (Q(j := ds)) = (\<Sum>i\<in>?A. mset (map td_data ((Q(j := ds)) i)))" by (rule timers_eq [OF f]) auto
  also have "\<dots> = mset (map td_data ds) + (\<Sum>i\<in>?B. mset (map td_data (Q i)))"
    using f by (subst sum.remove [of _ j]) (auto intro!: sum.cong simp: insert_Diff_if)
  finally have "timers (Q(j := ds)) = mset (map td_data ds) + (\<Sum>i\<in>?B. mset (map td_data (Q i)))" .
  moreover have "timers Q = mset (map td_data (Q j)) + (\<Sum>i\<in>?B. mset (map td_data (Q i)))"
    using f by (subst timers_eq [OF f subset_insertI], subst sum.remove [of _ j]) (auto intro!: sum.cong simp: insert_Diff_if)
  ultimately show ?thesis by simp
qed

lemma tl_inv_finite: "tl_inv c t Q Hs \<Longrightarrow> finite {i. Q i \<noteq> []}"
  by (auto simp: tl_inv_def tl_bh_ok_def dest: sym)

lemma expired_pending_mset: "mset (expired now ds) + mset (map td_data (pending now ds)) = mset (map td_data ds)"
  by (induction ds) (auto simp: expired_def pending_def not_le)

lemma timers_fire:
  assumes "finite {i. Q i \<noteq> []}"
  shows "timers Q = mset (expired now (Q j)) + timers (Q(j := pending now (Q j)))"
proof -
  have "(mset (expired now (Q j)) + timers (Q(j := pending now (Q j)))) + mset (map td_data (pending now (Q j))) =
      timers Q + mset (map td_data (pending now (Q j)))"
    using timers_upd [OF assms, of j "pending now (Q j)"] unfolding expired_pending_mset [of now "Q j", symmetric]
    by (simp add: ac_simps)
  then show ?thesis by (simp only: add_right_cancel)
qed

section \<open>Invariant\<close>

text \<open>
  Outstanding handles are those that clients hold, those queued for removal and the one being removed. Each belongs to a queue that has
  been dropped or is known to its queue.
\<close>

definition removing :: "'a timer \<Rightarrow> handle list" where
  "removing s = (case tt_pc s of TTRemove h \<Rightarrow> [h] | _ \<Rightarrow> []) @ tt_remove s"

definition known :: "'a tlist \<Rightarrow> (nat \<Rightarrow> ptr set) \<Rightarrow> nat \<Rightarrow> handle \<Rightarrow> bool" where
  "known t Hs n h \<longleftrightarrow> fst h < tl_fresh t \<and> (tl_queues t (fst h) \<noteq> None \<longrightarrow> snd h \<in> Hs (fst h)) \<and>
     (n \<le> HASH_CAP \<longrightarrow> tl_queues t (fst h) \<noteq> None)"

definition tt_handles :: "'a timer \<Rightarrow> (nat \<Rightarrow> ptr set) \<Rightarrow> bool" where
  "tt_handles s Hs \<longleftrightarrow> distinct (removing s) \<and> set (removing s) \<inter> tt_owned s = {} \<and>
     (\<forall>h \<in> set (removing s) \<union> tt_owned s. known (tt_list s) Hs (tt_peak s) h) \<and>
     length (tl_map (tt_list s)) \<le> tt_peak s"

text \<open>The timer thread will not stay parked: its token is set, or somebody is about to set it.\<close>

definition signalled :: "'a timer \<Rightarrow> bool" where
  "signalled s \<longleftrightarrow> tt_token s \<or> tt_pc s = TTUnpark \<or> (\<exists>u. tt_cl s u = TCUnpark)"

definition alerted :: "'a timer \<Rightarrow> bool" where
  "alerted s \<longleftrightarrow> signalled s \<or> (\<exists>u. tt_cl s u = TCWake)"

fun registered :: "tpc \<Rightarrow> bool" where
  "registered TTPop = False"
| "registered (TTRemove _) = False"
| "registered TTStore = False"
| "registered _ = True"

fun checked :: "tpc \<Rightarrow> bool" where
  "checked TTCheck = False"
| "checked TTTake = False"
| "checked p = registered p"

fun sleep_bound :: "tpc \<Rightarrow> (u64 \<times> u64 option) option" where
  "sleep_bound (TTEnter now r) = Some (now, r)"
| "sleep_bound (TTParked now _ r) = Some (now, r)"
| "sleep_bound _ = None"

definition tt_wake :: "'a timer \<Rightarrow> (nat \<Rightarrow> 'a tdata list) \<Rightarrow> bool" where
  "tt_wake s Q \<longleftrightarrow> (registered (tt_pc s) \<and> tt_wakeup s = None \<longrightarrow> signalled s) \<and>
     (checked (tt_pc s) \<and> tt_remove s \<noteq> [] \<longrightarrow> alerted s) \<and>
     (\<forall>now r. sleep_bound (tt_pc s) = Some (now, r) \<longrightarrow> sleeps now r Q \<or> alerted s)"

definition tt_inv :: "'a timer \<Rightarrow> bool" where
  "tt_inv s \<longleftrightarrow> (tt_peak s \<le> HASH_CAP \<longrightarrow> \<not> tt_broken s) \<and>
     (\<not> tt_broken s \<longrightarrow> (\<exists>Q Hs. tl_inv (unat (tt_clock s)) (tt_list s) Q Hs \<and> tt_handles s Hs \<and> tt_wake s Q \<and>
        tt_added s = tt_fired s + tt_deleted s + timers Q))"

lemma tt_invI:
  assumes "tl_inv (unat (tt_clock s)) (tt_list s) Q Hs" "tt_handles s Hs" "tt_wake s Q" "\<not> tt_broken s"
    "tt_added s = tt_fired s + tt_deleted s + timers Q"
  shows "tt_inv s"
  using assms unfolding tt_inv_def by blast

lemma tt_invE:
  assumes "tt_inv s" "\<not> tt_broken s"
  obtains Q Hs where "tl_inv (unat (tt_clock s)) (tt_list s) Q Hs" "tt_handles s Hs" "tt_wake s Q"
    "tt_added s = tt_fired s + tt_deleted s + timers Q"
  using assms unfolding tt_inv_def by blast

lemma timers_empty [simp]: "timers (\<lambda>_. []) = {#}"
  by (simp add: timers_def)

lemma tt_inv_new: "tt_inv timer_new"
  by (rule tt_invI [where Q = "\<lambda>_. []" and Hs = "\<lambda>_. {}"])
    (simp_all add: timer_new_def tl_inv_new [unfolded tlist_new_def] tt_handles_def tt_wake_def removing_def tlist_new_def)

lemmas tt_wake_defs = tt_wake_def signalled_def alerted_def

text \<open>A step that leaves the list, the counts and the outstanding handles alone.\<close>

lemma quiet_inv:
  assumes I: "tt_inv s" "\<not> tt_broken s" and l: "tt_list s' = tt_list s" "tt_clock s \<le> tt_clock s'"
    "tt_broken s' = tt_broken s" "tt_peak s' = tt_peak s"
    and c: "tt_added s' = tt_added s" "tt_fired s' = tt_fired s" "tt_deleted s' = tt_deleted s"
    and h: "set (removing s') \<union> tt_owned s' = set (removing s) \<union> tt_owned s"
      "distinct (removing s) \<and> set (removing s) \<inter> tt_owned s = {} \<Longrightarrow> distinct (removing s') \<and> set (removing s') \<inter> tt_owned s' = {}"
    and w: "\<And>Q. tt_wake s Q \<Longrightarrow> tt_wake s' Q"
  shows "tt_inv s'"
proof -
  from I obtain Q Hs where J: "tl_inv (unat (tt_clock s)) (tt_list s) Q Hs" "tt_handles s Hs" "tt_wake s Q"
    "tt_added s = tt_fired s + tt_deleted s + timers Q" by (rule tt_invE)
  show ?thesis
  proof (rule tt_invI)
    show "tl_inv (unat (tt_clock s')) (tt_list s') Q Hs"
      using tl_inv_later [OF J(1)] l by (simp add: word_le_nat_alt)
    show "tt_handles s' Hs" using J(2) h l unfolding tt_handles_def by simp
    show "tt_wake s' Q" by (rule w [OF J(3)])
  qed (use I(2) l c J(4) in simp_all)
qed

lemma timer_remove_inv:
  assumes I: "tt_inv s" "\<not> tt_broken s" and pc: "tt_pc s = TTRemove h" and st: "timer_run m s = Some s'"
  shows "tt_inv s'"
proof -
  from I obtain Q Hs where J: "tl_inv (unat (tt_clock s)) (tt_list s) Q Hs" and H: "tt_handles s Hs" and W: "tt_wake s Q"
    and C: "tt_added s = tt_fired s + tt_deleted s + timers Q" by (rule tt_invE)
  obtain i p where h: "h = (i, p)" by fastforce
  have o: "tl_queues (tt_list s) i \<noteq> None \<longrightarrow> p \<in> Hs i" "tt_peak s \<le> HASH_CAP \<longrightarrow> tl_queues (tt_list s) i \<noteq> None"
    using H pc by (auto simp: tt_handles_def removing_def h known_def)
  show ?thesis
  proof (cases "tl_queues (tt_list s) i")
    case None
    then have "timer_remove h (tt_list s) = Inl UseAfterFree" by (simp add: h timer_remove_def tl_queue_def)
    with st pc have "s' = s\<lparr>tt_broken := True\<rparr>" by simp
    with o None show ?thesis by (simp add: tt_inv_def)
  next
    case (Some w)
    with o have p: "p \<in> Hs i" by simp
    from timer_remove_step [OF J Some this] obtain r t Q' where r: "timer_remove h (tt_list s) = Inr (r, t)"
      "tl_inv (unat (tt_clock s)) t Q' (Hs(i := Hs i - {p}))" and Q': "\<And>j. set (Q' j) \<subseteq> set (Q j)" "\<And>j. Q' j = [] \<longleftrightarrow> Q j = []"
      "timers Q = (case r of None \<Rightarrow> {#} | Some d \<Rightarrow> {#td_data d#}) + timers Q'"
    proof (elim exE disjE conjE, goal_cases)
      case (1 t)
      then show ?thesis by (intro that [of None t Q]) (auto simp: h)
    next
      case (2 t as x bs)
      then show ?thesis using timers_upd [OF tl_inv_finite [OF J], of i "as @ bs"]
        by (intro that [of "Some x" t "Q(i := as @ bs)"]) (auto simp: h)
    qed
    let ?s = "s\<lparr>tt_list := t, tt_pc := TTPop, tt_deleted := (case r of None \<Rightarrow> tt_deleted s | Some d \<Rightarrow> add_mset (td_data d) (tt_deleted s))\<rparr>"
    have s': "s' = ?s" using st pc r(1) by simp
    note f = timer_remove_frame [OF r(1)]
    show ?thesis unfolding s'
    proof (rule tt_invI [where Q = Q'])
      show "tl_inv (unat (tt_clock ?s)) (tt_list ?s) Q' (Hs(i := Hs i - {p}))" using r(2) by simp
      show "tt_handles ?s (Hs(i := Hs i - {p}))"
      proof -
        have "known t (Hs(i := Hs i - {p})) (tt_peak s) x" if "known (tt_list s) Hs (tt_peak s) x" "x \<noteq> h" for x
          using that f(3) by (cases x) (auto simp: known_def h f(1))
        then show ?thesis using H pc f(2) by (auto simp: tt_handles_def removing_def h)
      qed
      show "tt_wake ?s Q'" by (simp add: tt_wake_def)
      show "tt_added ?s = tt_fired ?s + tt_deleted ?s + timers Q'"
        using C Q'(3) by (cases r) auto
    qed (use I(2) in simp)
  qed
qed

lemma timer_sched_inv:
  assumes I: "tt_inv s" "\<not> tt_broken s" and pc: "tt_pc s = TTSched now" and st: "timer_run m s = Some s'"
  shows "tt_inv s'"
proof -
  from I obtain Q Hs where J: "tl_inv (unat (tt_clock s)) (tt_list s) Q Hs" and H: "tt_handles s Hs" and W: "tt_wake s Q"
    and C: "tt_added s = tt_fired s + tt_deleted s + timers Q" by (rule tt_invE)
  from J show ?thesis
  proof (cases rule: round_cases [of _ _ _ _ m now])
    case (1 r)
    then have s': "s' = s\<lparr>tt_pc := TTEnter now r\<rparr>" using st pc by simp
    show ?thesis unfolding s'
      by (rule tt_invI [where Q = Q and Hs = Hs]) (use J H W C I(2) 1(2) pc in \<open>auto simp: tt_handles_def removing_def tt_wake_defs\<close>)
  next
    case (2 e rest)
    let ?j = "ie_list e"
    let ?Q = "Q(?j := pending now (Q ?j))"
    obtain t where t: "timer_round (m + Suc (length (Q ?j))) now (tt_list s) = Inr (Fired (expired now (Q ?j)), t)"
      "tl_inv (unat (tt_clock s)) t ?Q Hs" using 2(3) [of "m + Suc (length (Q ?j))"] by auto
    have "timer_round m now (tt_list s) = Inr (Fired (expired now (Q ?j)), t) \<or> timer_round m now (tt_list s) = Inl Spin"
      using round_fuel [of m "m + Suc (length (Q ?j))" now "tt_list s"] t(1) by auto
    then have r: "timer_round m now (tt_list s) = Inr (Fired (expired now (Q ?j)), t)" using st pc by auto
    then have s': "s' = s\<lparr>tt_list := t, tt_fired := tt_fired s + mset (expired now (Q ?j))\<rparr>" using st pc by simp
    note f = round_frame [OF r]
    show ?thesis unfolding s'
    proof (rule tt_invI [where Q = ?Q and Hs = Hs])
      have "known t Hs (tt_peak s) x" if "known (tt_list s) Hs (tt_peak s) x" for x
        using that f(1) f(3) [of "fst x"] f(4) H by (auto simp: known_def tt_handles_def dom_def)
      then show "tt_handles (s\<lparr>tt_list := t, tt_fired := tt_fired s + mset (expired now (Q ?j))\<rparr>) Hs"
        using H f(2) by (auto simp: tt_handles_def removing_def)
      show "tt_wake (s\<lparr>tt_list := t, tt_fired := tt_fired s + mset (expired now (Q ?j))\<rparr>) ?Q"
        using W pc by (auto simp: tt_wake_defs)
      show "tt_added (s\<lparr>tt_list := t, tt_fired := tt_fired s + mset (expired now (Q ?j))\<rparr>) =
          tt_fired (s\<lparr>tt_list := t, tt_fired := tt_fired s + mset (expired now (Q ?j))\<rparr>) +
          tt_deleted (s\<lparr>tt_list := t, tt_fired := tt_fired s + mset (expired now (Q ?j))\<rparr>) + timers ?Q"
        using C timers_fire [OF tl_inv_finite [OF J], of now ?j] by (simp add: ac_simps)
    qed (use t(2) I(2) in simp_all)
  qed
qed

lemma timer_run_inv:
  assumes I: "tt_inv s" "\<not> tt_broken s" and st: "timer_run m s = Some s'"
  shows "tt_inv s'"
proof (cases "tt_pc s")
  case TTPop
  then show ?thesis using st
    by (intro quiet_inv [OF I]) (auto simp: removing_def tt_wake_defs split: list.splits)
next
  case (TTRemove h)
  then show ?thesis by (rule timer_remove_inv [OF I _ st])
next
  case (TTSched now)
  then show ?thesis by (rule timer_sched_inv [OF I _ st])
next
  case (TTParked now start r)
  then show ?thesis using st
    by (intro quiet_inv [OF I]) (auto simp: removing_def tt_wake_defs split: if_splits)
qed (use st in \<open>intro quiet_inv [OF I]; auto simp: removing_def tt_wake_defs ao_defs split: if_splits option.splits\<close>)+

lemma park_over_inv:
  assumes I: "tt_inv s" "\<not> tt_broken s" and st: "park_over b s = Some s'"
  shows "tt_inv s'"
  using st by (intro quiet_inv [OF I]) (auto simp: removing_def tt_wake_defs split: tpc.splits if_splits)

lemma signalled_goto:
  "tt_cl s u \<noteq> TCUnpark \<Longrightarrow> signalled (cl_goto u p s) \<longleftrightarrow> p = TCUnpark \<or> signalled s"
  unfolding signalled_def cl_goto_def by (auto split: if_splits)

lemma registered_if: "checked p \<Longrightarrow> registered p" "sleep_bound p = Some b \<Longrightarrow> registered p"
  by (cases p; simp)+

lemma wake_timer_inv:
  assumes I: "tt_inv s" "\<not> tt_broken s" and st: "wake_timer u s = Some s'"
  shows "tt_inv s'"
proof (cases "tt_cl s u")
  case TCWake
  show ?thesis
  proof (cases "tt_wakeup s")
    case None
    with st TCWake have s': "s' = cl_goto u TCIdle (s\<lparr>tt_wakeup := None\<rparr>)" by (simp add: ao_defs)
    have g: "signalled s' \<longleftrightarrow> signalled s"
      unfolding s' using signalled_goto [of "s\<lparr>tt_wakeup := None\<rparr>" u TCIdle] TCWake by (simp add: signalled_def)
    have "tt_wake s' Q" if W: "tt_wake s Q" for Q
    proof -
      have r: "signalled s'" if "registered (tt_pc s)" using W None that g by (simp add: tt_wake_def)
      have "tt_pc s' = tt_pc s" unfolding s' by (simp add: cl_goto_def)
      then show ?thesis using r registered_if unfolding tt_wake_def alerted_def by metis
    qed
    then show ?thesis
      by (intro quiet_inv [OF I]) (auto simp: s' removing_def cl_goto_def)
  next
    case (Some x)
    with st TCWake have s': "s' = cl_goto u TCUnpark (s\<lparr>tt_wakeup := None\<rparr>)" by (simp add: ao_defs)
    show ?thesis unfolding s' by (intro quiet_inv [OF I]) (auto simp: removing_def cl_goto_def tt_wake_defs)
  qed
next
  case TCUnpark
  with st have s': "s' = cl_goto u TCIdle (s\<lparr>tt_token := True\<rparr>)" by simp
  show ?thesis unfolding s' by (intro quiet_inv [OF I]) (auto simp: removing_def cl_goto_def tt_wake_defs)
qed (use st in simp)

lemma del_timer_inv:
  assumes I: "tt_inv s" "\<not> tt_broken s" and u: "tt_cl s u = TCIdle" "h \<in> tt_owned s"
  shows "tt_inv (tt_del_timer u h s)"
proof (rule quiet_inv [OF I])
  fix Q assume W: "tt_wake s Q"
  have "signalled (tt_del_timer u h s)" if "signalled s"
    using that signalled_goto [of "s\<lparr>tt_remove := tt_remove s @ [h], tt_owned := tt_owned s - {h}\<rparr>" u TCWake] u(1)
    by (simp add: tt_del_timer_def signalled_def)
  moreover have "alerted (tt_del_timer u h s)" by (auto simp: alerted_def tt_del_timer_def cl_goto_def)
  ultimately show "tt_wake (tt_del_timer u h s) Q"
    using W by (simp add: tt_wake_def) (simp add: tt_del_timer_def cl_goto_def)
qed (use u(2) in \<open>auto simp: tt_del_timer_def cl_goto_def removing_def split: tpc.splits\<close>)

lemma tick_inv:
  assumes "tt_inv s" "\<not> tt_broken s" "tt_clock s \<le> now"
  shows "tt_inv (s\<lparr>tt_clock := now\<rparr>)"
  by (rule quiet_inv [OF assms(1,2)]) (use assms(3) in \<open>auto simp: removing_def tt_wake_defs\<close>)

text \<open>A timer that is added behind another one is not earlier than the deadline the thread sleeps for.\<close>

lemma sleeps_append:
  assumes s: "sleeps now r Q" and ne: "Q i \<noteq> []" and so: "sorted (map td_time (Q i @ [d]))"
  shows "sleeps now r (Q(i := Q i @ [d]))"
proof (cases r)
  case None
  with s ne show ?thesis by (simp add: sleeps_def)
next
  case (Some time)
  have "hd (Q i) \<in> set (Q i)" using ne by simp
  then have "unat now + unat time \<le> unat (td_time (hd (Q i)))" "td_time (hd (Q i)) \<le> td_time d"
    using s so unfolding Some sleeps_def by (auto simp: sorted_append)
  with s show ?thesis unfolding Some sleeps_def by (auto simp: word_le_nat_alt)
qed

lemma add_timer_inv:
  assumes al: "valid_alloc k al" and I: "tt_inv s" "\<not> tt_broken s" and u: "tt_cl s u = TCIdle"
    and st: "tt_add_timer al u dur d s = Some s'"
  shows "tt_inv s'"
proof -
  from I obtain Q Hs where J: "tl_inv (unat (tt_clock s)) (tt_list s) Q Hs" and H: "tt_handles s Hs" and W: "tt_wake s Q"
    and C: "tt_added s = tt_fired s + tt_deleted s + timers Q" by (rule tt_invE)
  obtain interval time where td: "timeout_deadline (tt_clock s) dur = (interval, time)" by fastforce
  let ?x = "\<lparr>td_time = time, td_data = d\<rparr>" and ?t = "tt_list s"
  from add_timer_step [OF al J order_refl td, of d] st obtain i p t where
    a: "add_timer al (tt_clock s) dur d ?t = Inr (((i, p), Q i = []), t)" and fr: "tl_queues ?t i = None \<or> p \<notin> Hs i"
    and J': "tl_inv (unat (tt_clock s)) t (Q(i := Q i @ [?x])) (Hs(i := insert p (if tl_queues ?t i = None then {} else Hs i)))"
    by (auto simp: tt_add_timer_def)
  let ?Q = "Q(i := Q i @ [?x])" and ?H = "Hs(i := insert p (if tl_queues ?t i = None then {} else Hs i))"
  let ?s = "cl_goto u (if Q i = [] then TCWake else TCIdle) (s\<lparr>tt_list := t, tt_owned := insert (i, p) (tt_owned s),
    tt_added := add_mset d (tt_added s), tt_peak := max (tt_peak s) (length (tl_map t))\<rparr>)"
  have s': "s' = ?s" using st a by (simp add: tt_add_timer_def)
  note f = add_timer_frame [OF J a] and dm = add_timer_dom [OF a]
  have dm': "tl_queues t j \<noteq> None \<longleftrightarrow> j = i \<or> tl_queues ?t j \<noteq> None" for j using dm by (auto simp: dom_def)
  have new: "\<not> known ?t Hs (tt_peak s) (i, p)" using fr f(3) by (auto simp: known_def)
  have kn: "known t ?H (max (tt_peak s) (length (tl_map t))) x" if x: "known ?t Hs (tt_peak s) x" for x
  proof -
    have ne: "fst x \<noteq> i \<or> tl_queues ?t i \<noteq> None"
      using x f(3) by (cases "tl_queues ?t i = None") (simp_all add: known_def)
    then have "tl_queues t (fst x) \<noteq> None \<longleftrightarrow> tl_queues ?t (fst x) \<noteq> None" using dm' [of "fst x"] by auto
    then show ?thesis using x f(1) ne unfolding known_def by (auto simp del: not_None_eq)
  qed
  have kp: "known t ?H n (i, p)" for n using f(2) dm' [of i] by (simp add: known_def)
  show ?thesis unfolding s'
  proof (rule tt_invI [where Q = ?Q and Hs = ?H])
    show "tl_inv (unat (tt_clock ?s)) (tt_list ?s) ?Q ?H" using J' by (simp add: cl_goto_def)
    have r: "removing ?s = removing s" by (simp add: removing_def cl_goto_def)
    have "(i, p) \<notin> set (removing s)" using H new by (auto simp: tt_handles_def)
    then show "tt_handles ?s ?H" unfolding tt_handles_def r using H kn kp by (auto simp: tt_handles_def cl_goto_def)
    have so: "sorted (map td_time (Q i @ [?x]))"
    proof -
      obtain w where "tq_ok w (Q i @ [?x]) (?H i)" using tl_inv_queue [OF J', of i] by auto
      then show ?thesis by (simp add: tq_ok_def)
    qed
    have g: "signalled ?s" if "signalled s"
      using that u by (subst signalled_goto) (simp_all add: signalled_def)
    have e: "alerted ?s" if "Q i = []" using that by (auto simp: alerted_def cl_goto_def)
    have al: "alerted ?s" if "alerted s"
    proof (cases "signalled s")
      case False
      with that obtain v where "tt_cl s v = TCWake" by (auto simp: alerted_def)
      then have "tt_cl ?s v = TCWake" using u by (auto simp: cl_goto_def)
      then show ?thesis by (auto simp: alerted_def)
    qed (use g in \<open>simp add: alerted_def\<close>)
    have fr: "tt_pc ?s = tt_pc s" "tt_wakeup ?s = tt_wakeup s" "tt_remove ?s = tt_remove s" by (simp_all add: cl_goto_def)
    show "tt_wake ?s ?Q" unfolding tt_wake_def fr
    proof (intro conjI allI impI)
      assume "registered (tt_pc s) \<and> tt_wakeup s = None"
      then have "signalled s" using W by (simp add: tt_wake_def)
      then show "signalled ?s" by (rule g)
    next
      assume "checked (tt_pc s) \<and> tt_remove s \<noteq> []"
      then have "alerted s" using W by (simp add: tt_wake_def)
      then show "alerted ?s" by (rule al)
    next
      fix nw r assume "sleep_bound (tt_pc s) = Some (nw, r)"
      then have "sleeps nw r Q \<or> alerted s" using W by (simp add: tt_wake_def)
      then show "sleeps nw r ?Q \<or> alerted ?s"
        using sleeps_append [where Q = Q and i = i and d = ?x, OF _ _ so] e al by blast
    qed
    show "tt_added ?s = tt_fired ?s + tt_deleted ?s + timers ?Q"
      using C timers_upd [OF tl_inv_finite [OF J], of i "Q i @ [?x]"] by (simp add: cl_goto_def)
    show "\<not> tt_broken ?s" using I(2) by (simp add: cl_goto_def)
  qed
qed

lemma tt_next_inv:
  assumes "valid_alloc k al" "tt_inv s" "tt_next al a s = Some s'"
  shows "tt_inv s'"
  using assms(3)
  by (cases a) (auto simp: not_less simp del: timer_run.simps park_over.simps wake_timer.simps split: if_splits
      intro: timer_run_inv park_over_inv wake_timer_inv del_timer_inv tick_inv add_timer_inv assms)

interpretation tt: invariant_system tt_start "tt_step three_blocks" tt_inv
  by unfold_locales (auto simp: tt_start_def tt_inv_new tt_step_def intro: tt_next_inv [OF valid_three_blocks])

lemma tt_reach_inv:
  assumes "valid_alloc k al" "reach tt_start (tt_step al) s"
  shows "tt_inv s"
  using assms(2)
  by (induction rule: reach.induct) (auto simp: tt_start_def tt_inv_new tt_step_def intro: tt_next_inv [OF assms(1)])

section \<open>Properties\<close>

text \<open>The timer thread is parked without a token and no client is inside a call.\<close>

definition tt_rest :: "'a timer \<Rightarrow> bool" where
  "tt_rest s \<longleftrightarrow> (\<exists>now start r. tt_pc s = TTParked now start r) \<and> \<not> tt_token s \<and> (\<forall>u. tt_cl s u = TCIdle)"


text \<open>One timer of 100 ns is added at time 0; the thread parks for 100 ns.\<close>

lemma deadline_100: "timeout_deadline 0 100 = (100, 100)"
proof -
  obtain i t where it: "timeout_deadline 0 100 = (i, t)" by fastforce
  with timeout_deadline_unat [OF it] have "unat i = unat (100 :: u64)" "unat t = unat (100 :: u64)" by simp_all
  with it show ?thesis by (simp only: word_unat_eq_iff simp_thms prod.inject)
qed

lemmas add_exec = add_timer_def deadline_100 tlist_new_def tl_set_def install_timer_bh_def tl_queue_def Let_def
  v1_new_def v1_node_new_def v1_push_def alloc_def modify_def

lemma tt_acts_reach: "run_acts (tt_next al) as timer_new = Some s \<Longrightarrow> reach tt_start (tt_step al) s"
  by (rule run_acts_reach [of "tt_next al", OF _ _ reach_start]) (auto simp: tt_step_def tt_start_def)


end
