(* ===== verification/Cancel_Data.thy ===== *)
theory Cancel_Data
  imports Atomics
begin

unbundle bit_operations_syntax

text \<open>
  Cancellation of coroutines (\<^verbatim>\<open>src/cancel.rs\<close>, with the Unix \<^verbatim>\<open>CancelIoImpl\<close> of
  \<^verbatim>\<open>src/io/sys/unix/cancel.rs\<close>) and lock poisoning (\<^verbatim>\<open>src/sync/poison.rs\<close>), which has to tell a cancel
  panic from a real one. A suspended coroutine sits in a shared slot (\<^verbatim>\<open>AtomicOption<CoroutineImpl>\<close>);
  whoever takes it out of the slot resumes it.
\<close>

section \<open>Cancel data\<close>

text \<open>The slots of the suspended coroutines and the ready queue, with the result passed to a coroutine.\<close>

datatype co_para = NoPara | ParaCanceled

record 'c slots =
  sl_co :: "nat \<Rightarrow> 'c atomic_option"
  sl_ready :: "('c \<times> co_para) list"

text \<open>\<open>cn_io\<close> is the slot in the registered \<^verbatim>\<open>EventData\<close>, \<open>cn_co\<close> the slot of a parked coroutine.\<close>

record cancel =
  cn_state :: usize
  cn_io :: "nat atomic_option"
  cn_co :: "nat atomic_option"

definition cancel_new :: cancel where
  "cancel_new = \<lparr>cn_state = 0, cn_io = ao_none, cn_co = ao_none\<rparr>"

definition is_canceled :: "cancel \<Rightarrow> bool" where
  "is_canceled c \<longleftrightarrow> cn_state c = 1"

definition is_disabled :: "cancel \<Rightarrow> bool" where
  "is_disabled c \<longleftrightarrow> cn_state c \<ge> 2"

definition disable_cancel :: "cancel \<Rightarrow> cancel" where
  "disable_cancel c = c\<lparr>cn_state := cn_state c + 2\<rparr>"

definition enable_cancel :: "cancel \<Rightarrow> cancel" where
  "enable_cancel c = c\<lparr>cn_state := cn_state c - 2\<rparr>"

definition set_io :: "nat \<Rightarrow> cancel \<Rightarrow> cancel" where
  "set_io e c = c\<lparr>cn_io := ao_store e (cn_io c)\<rparr>"

definition set_co :: "nat \<Rightarrow> cancel \<Rightarrow> cancel" where
  "set_co s c = c\<lparr>cn_co := ao_store s (cn_co c)\<rparr>"

definition cancel_clear :: "cancel \<Rightarrow> cancel" where
  "cancel_clear c = c\<lparr>cn_io := snd (ao_take (cn_io c))\<rparr>"

definition take_slot :: "nat \<Rightarrow> 'c slots \<Rightarrow> 'c option \<times> 'c slots" where
  "take_slot i w = (let (r, v) = ao_take (sl_co w i) in (r, w\<lparr>sl_co := (sl_co w)(i := v)\<rparr>))"

definition schedule_co :: "'c \<Rightarrow> co_para \<Rightarrow> 'c slots \<Rightarrow> 'c slots" where
  "schedule_co co p w = w\<lparr>sl_ready := sl_ready w @ [(co, p)]\<rparr>"

text \<open>\<^verbatim>\<open>CancelIoImpl::cancel\<close>: true if a coroutine that waits for I/O was rescheduled.\<close>

definition io_cancel :: "cancel \<Rightarrow> 'c slots \<Rightarrow> bool \<times> cancel \<times> 'c slots" where
  "io_cancel c w =
     (let (r, io) = ao_take (cn_io c); c1 = c\<lparr>cn_io := io\<rparr> in
      case r of
        None \<Rightarrow> (False, c1, w)
      | Some e \<Rightarrow>
          (let (co, w1) = take_slot e w in
           case co of
             None \<Rightarrow> (False, c1, w1)
           | Some co \<Rightarrow> (True, c1, schedule_co co NoPara w1)))"

definition cancel :: "cancel \<Rightarrow> 'c slots \<Rightarrow> cancel \<times> 'c slots" where
  "cancel c w =
     (let c0 = c\<lparr>cn_state := cn_state c OR 1\<rparr>; (done, c1, w1) = io_cancel c0 w in
      if done then (c1, w1)
      else
        let (r, v) = ao_take (cn_co c1); c2 = c1\<lparr>cn_co := v\<rparr> in
        case r of
          None \<Rightarrow> (c2, w1)
        | Some s \<Rightarrow>
            (let (co, w2) = take_slot s w1 in
             case co of
               None \<Rightarrow> (c2, w2)
             | Some co \<Rightarrow> (c2, schedule_co co ParaCanceled w2)))"

text \<open>
  \<^verbatim>\<open>check_cancel\<close>: whether a cancel panic is raised, and the parameter left for the coroutine;
  \<open>panicking\<close> is \<^verbatim>\<open>thread::panicking()\<close>.
\<close>

definition check_cancel :: "bool \<Rightarrow> cancel \<Rightarrow> co_para \<Rightarrow> bool \<times> co_para" where
  "check_cancel panicking c p =
     (if is_canceled c then (\<not> panicking, NoPara) else (False, p))"

section \<open>Poisoning\<close>

type_synonym poison_flag = usize

text \<open>\<^verbatim>\<open>LockResult\<close>: \<open>Inl\<close> is a \<^verbatim>\<open>PoisonError\<close>, which carries the value as well.\<close>

type_synonym 'a lock_result = "'a + 'a"

record poison_guard =
  pg_panicking :: bool

text \<open>What \<^verbatim>\<open>done\<close> asks its thread: panicking, cancel panic in flight, in a coroutine, and its cancel data.\<close>

record thread_env =
  te_panicking :: bool
  te_cancel_in_flight :: bool
  te_coroutine :: bool
  te_cancel :: cancel

definition flag_new :: poison_flag where
  "flag_new = 0"

definition flag_get :: "poison_flag \<Rightarrow> bool" where
  "flag_get f \<longleftrightarrow> f \<noteq> 0"

definition flag_borrow :: "thread_env \<Rightarrow> poison_flag \<Rightarrow> poison_guard lock_result" where
  "flag_borrow env f =
     (let ret = \<lparr>pg_panicking = te_panicking env\<rparr> in if flag_get f then Inl ret else Inr ret)"

definition flag_done :: "poison_guard \<Rightarrow> thread_env \<Rightarrow> poison_flag \<Rightarrow> poison_flag" where
  "flag_done g env f =
     (if \<not> pg_panicking g \<and> te_panicking env \<and> \<not> te_cancel_in_flight env
      then
        let canceled = (if te_coroutine env then is_canceled (te_cancel env) else False) in
        if \<not> canceled then 1 else f
      else f)"

definition flag_clear :: "poison_flag \<Rightarrow> poison_flag" where
  "flag_clear f = 0"

fun map_result :: "('a \<Rightarrow> 'b) \<Rightarrow> 'a lock_result \<Rightarrow> 'b lock_result" where
  "map_result f (Inr t) = Inr (f t)"
| "map_result f (Inl g) = Inl (f g)"

text \<open>\<^verbatim>\<open>Mutex::into_inner\<close> and \<^verbatim>\<open>Mutex::get_mut\<close> over the data and the flag of a mutex.\<close>

definition mutex_into_inner :: "thread_env \<Rightarrow> poison_flag \<Rightarrow> 'd \<Rightarrow> 'd lock_result" where
  "mutex_into_inner env f d = map_result (\<lambda>_. d) (flag_borrow env f)"

section \<open>Properties\<close>

datatype cancel_op = OpDisable | OpEnable | OpCancel

text \<open>The meaning of the state word: how often cancellation is disabled, and whether it was requested.\<close>

fun cancel_spec :: "cancel_op list \<Rightarrow> nat \<times> bool \<Rightarrow> (nat \<times> bool) option" where
  "cancel_spec [] s = Some s"
| "cancel_spec (OpDisable # os) (n, b) = (if n + 1 < 2 ^ 62 then cancel_spec os (n + 1, b) else None)"
| "cancel_spec (OpEnable # os) (n, b) = (if n = 0 then None else cancel_spec os (n - 1, b))"
| "cancel_spec (OpCancel # os) (n, b) = cancel_spec os (n, True)"

fun cancel_exec :: "cancel_op list \<Rightarrow> cancel \<Rightarrow> 'c slots \<Rightarrow> cancel \<times> 'c slots" where
  "cancel_exec [] c w = (c, w)"
| "cancel_exec (OpDisable # os) c w = cancel_exec os (disable_cancel c) w"
| "cancel_exec (OpEnable # os) c w = cancel_exec os (enable_cancel c) w"
| "cancel_exec (OpCancel # os) c w = (let (c', w') = cancel c w in cancel_exec os c' w')"

definition cancel_word :: "nat \<times> bool \<Rightarrow> usize" where
  "cancel_word s = of_nat (2 * fst s + (if snd s then 1 else 0))"

lemma cancel_word_unat:
  assumes "n < 2 ^ 62"
  shows "unat (cancel_word (n, b)) = 2 * n + (if b then 1 else 0)"
proof -
  have "2 * n + (if b then 1 else 0) < (2 ^ 64 :: nat)" using assms by simp
  then show ?thesis unfolding cancel_word_def fst_conv snd_conv by (intro unat_of_nat_less) simp
qed

lemma cancel_word_even: "even (cancel_word (n, b)) \<longleftrightarrow> \<not> b"
  unfolding cancel_word_def even_of_nat by simp

lemma cancel_word_or:
  "cancel_word (n, b) OR 1 = cancel_word (n, True)"
proof (cases b)
  case True
  have "bit (cancel_word (n, True)) 0" by (simp add: bit_0 cancel_word_even)
  then show ?thesis using True by (intro bit_word_eqI) (auto simp: bit_or_iff bit_1_iff)
next
  case False
  have "cancel_word (n, False) OR 1 = cancel_word (n, False) + 1"
    by (simp add: or_one_eq cancel_word_even)
  also have "\<dots> = cancel_word (n, True)" by (simp add: cancel_word_def)
  finally show ?thesis using False by simp
qed

lemma cancel_state: "cn_state (fst (cancel c w)) = cn_state c OR 1"
  by (simp add: cancel_def io_cancel_def Let_def ao_take_def take_slot_def schedule_co_def split: option.splits prod.splits)

lemma cancel_exec_word:
  "cancel_spec os s = Some (n, b) \<Longrightarrow> fst s < 2 ^ 62 \<Longrightarrow> cn_state c = cancel_word s \<Longrightarrow>
   n < 2 ^ 62 \<and> cn_state (fst (cancel_exec os c w)) = cancel_word (n, b)"
proof (induction os s arbitrary: c w rule: cancel_spec.induct)
  case (2 os m d)
  have "cn_state (disable_cancel c) = cancel_word (m + 1, d)"
    using 2(4) by (simp add: disable_cancel_def cancel_word_def)
  with 2 show ?case by (auto split: if_splits)
next
  case (3 os m d)
  then have "cn_state (enable_cancel c) = cancel_word (m - 1, d)"
    by (cases m) (auto simp: enable_cancel_def cancel_word_def)
  with 3 show ?case by (auto split: if_splits)
next
  case (4 os m d)
  obtain c' w' where c': "cancel c w = (c', w')" by fastforce
  then have "cn_state c' = cancel_word (m, True)"
    using cancel_state [of c w] 4(3,4) by (simp add: cancel_word_or)
  with 4 c' show ?case by simp
qed simp

text \<open>
  C39: a cancel request is never lost by nested regions that disable cancellation, and it is not seen
  inside them. After any sequence of disabling, enabling and cancelling that never enables more often than it
  disabled, \<^verbatim>\<open>is_disabled\<close> holds exactly inside such a region and \<^verbatim>\<open>is_canceled\<close> exactly if cancellation was
  requested and no region is open.
\<close>

theorem cancel_bits:
  assumes "cancel_spec os (0, False) = Some (n, b)"
  shows "(is_disabled (fst (cancel_exec os cancel_new w)) \<longleftrightarrow> 0 < n) \<and>
    (is_canceled (fst (cancel_exec os cancel_new w)) \<longleftrightarrow> n = 0 \<and> b)"
proof -
  have "n < 2 ^ 62 \<and> cn_state (fst (cancel_exec os cancel_new w)) = cancel_word (n, b)"
    by (rule cancel_exec_word [OF assms]) (simp_all add: cancel_new_def cancel_word_def)
  moreover from this have "unat (cn_state (fst (cancel_exec os cancel_new w))) = 2 * n + (if b then 1 else 0)"
    using cancel_word_unat by simp
  ultimately show ?thesis
    by (cases b) (auto simp: is_disabled_def is_canceled_def word_le_nat_alt word_unat_eq_iff)
qed

theorem cancel_bits_witness:
  "is_canceled (fst (cancel_exec [OpDisable, OpCancel, OpEnable] cancel_new
     \<lparr>sl_co = (\<lambda>_. None :: nat option), sl_ready = []\<rparr>))"
  using cancel_bits [of "[OpDisable, OpCancel, OpEnable]" 0 True
    "\<lparr>sl_co = (\<lambda>_. None :: nat option), sl_ready = []\<rparr>"]
  by simp

text \<open>What \<^verbatim>\<open>cancel\<close> makes ready on behalf of a parked coroutine.\<close>

definition cancel_parked :: "cancel \<Rightarrow> 'c slots \<Rightarrow> ('c \<times> co_para) list" where
  "cancel_parked c w = (case cn_co c of
     None \<Rightarrow> []
   | Some s \<Rightarrow> (case sl_co w s of None \<Rightarrow> [] | Some co \<Rightarrow> [(co, ParaCanceled)]))"

text \<open>
  Cancelling resumes a suspended coroutine exactly once. If the slot registered for I/O holds a
  coroutine it alone is made ready, and otherwise the coroutine in the slot registered by a park is, with
  the result \<^verbatim>\<open>Canceled\<close>; the slot is emptied, so that neither a timer, an \<^verbatim>\<open>unpark\<close> nor a second
  \<^verbatim>\<open>cancel\<close> can resume it again, and no other slot is touched.
\<close>

theorem cancel_resumes_once:
  assumes "cancel c w = (c', w')"
  shows "(case cn_io c of
       Some e \<Rightarrow> (case sl_co w e of
         Some co \<Rightarrow> sl_ready w' = sl_ready w @ [(co, NoPara)] \<and> sl_co w' = (sl_co w)(e := None) \<and> cn_co c' = cn_co c
       | None \<Rightarrow> sl_ready w' = sl_ready w @ cancel_parked c w \<and> cn_co c' = None)
     | None \<Rightarrow> sl_ready w' = sl_ready w @ cancel_parked c w \<and> cn_co c' = None) \<and>
    cn_io c' = None \<and>
    (\<forall>i. sl_co w' i \<noteq> None \<longrightarrow> sl_co w' i = sl_co w i) \<and>
    (\<forall>i. sl_co w' i \<noteq> sl_co w i \<longrightarrow> (\<exists>co p. sl_co w i = Some co \<and> sl_ready w' = sl_ready w @ [(co, p)])) \<and>
    (cn_co c' = None \<longrightarrow> sl_ready (snd (cancel c' w')) = sl_ready w')"
  using assms
  by (auto simp: cancel_def io_cancel_def Let_def ao_take_def take_slot_def schedule_co_def cancel_parked_def
      split: option.splits if_splits)

text \<open>
  A lock is poisoned exactly by a panic that started inside the guarded section and is not a
  cancellation. The flag after the guard is dropped is set iff it was set before, or the thread was not
  panicking when the guard was made, panics now, has no cancel panic in flight and is not in a canceled
  coroutine; a later \<^verbatim>\<open>borrow\<close> reports it until \<^verbatim>\<open>clear\<close>, and the data is handed out in both cases.
\<close>

theorem poison_exact:
  assumes "map_result id (flag_borrow env0 f) \<in> {Inl g, Inr g}"
  shows "(flag_get (flag_done g env f) \<longleftrightarrow> flag_get f \<or>
      (\<not> te_panicking env0 \<and> te_panicking env \<and> \<not> te_cancel_in_flight env \<and>
       \<not> (te_coroutine env \<and> is_canceled (te_cancel env)))) \<and>
    (mutex_into_inner env1 (flag_done g env f) d = (if flag_get (flag_done g env f) then Inl d else Inr d)) \<and>
    mutex_into_inner env1 (flag_clear (flag_done g env f)) d = Inr d"
proof -
  have g: "pg_panicking g = te_panicking env0"
    using assms by (auto simp: flag_borrow_def Let_def split: if_splits)
  have "flag_get (flag_done g env f) \<longleftrightarrow> flag_get f \<or>
      (\<not> te_panicking env0 \<and> te_panicking env \<and> \<not> te_cancel_in_flight env \<and>
       \<not> (te_coroutine env \<and> is_canceled (te_cancel env)))"
    by (auto simp: flag_done_def flag_get_def g)
  then show ?thesis by (auto simp: mutex_into_inner_def flag_borrow_def Let_def flag_get_def flag_clear_def)
qed

end
