(* ===== verification/Blocking.thy ===== *)
theory Blocking
  imports Prelude
begin

text \<open>
  The blocking primitives of \<^verbatim>\<open>src/sync/blocking.rs\<close>. \<open>thread_park\<close> is the token of \<^verbatim>\<open>ThreadPark\<close>,
  run under its mutex; \<open>blocker\<close> is the \<^verbatim>\<open>SyncBlocker\<close> with its two flags and the token of the parker
  below it. The concurrent protocols that use it are in the theories of the locks.
\<close>

section \<open>Parking an OS thread\<close>

datatype park_error = Canceled | Timeout

type_synonym thread_park = usize

definition tp_new :: thread_park where
  "tp_new = 0"

text \<open>
  One round of the wait loop: the elapsed time, whether \<^verbatim>\<open>wait_for\<close> timed out, and the token found
  after the wait. \<open>None\<close> is a thread that is still blocked when the given rounds are used up.
\<close>

record wait_round =
  wr_elapsed :: nat
  wr_timed_out :: bool
  wr_token :: usize

fun tp_wait :: "nat option \<Rightarrow> wait_round list \<Rightarrow> thread_park \<Rightarrow> (park_error + unit) option" where
  "tp_wait dur [] guard = (if guard \<noteq> 0 then Some (Inr ()) else None)"
| "tp_wait dur (r # rs) guard =
     (if guard \<noteq> 0 then Some (Inr ())
      else case dur of
        None \<Rightarrow> tp_wait dur rs (wr_token r)
      | Some t \<Rightarrow>
          if wr_elapsed r \<ge> t then Some (Inl Timeout)
          else if wr_timed_out r then Some (Inl Timeout)
          else tp_wait dur rs (wr_token r))"

text \<open>\<^verbatim>\<open>park_timeout\<close> clears the token on every return.\<close>

definition tp_park_timeout ::
  "nat option \<Rightarrow> wait_round list \<Rightarrow> thread_park \<Rightarrow> ((park_error + unit) \<times> thread_park) option" where
  "tp_park_timeout dur rs guard = map_option (\<lambda>r. (r, 0)) (tp_wait dur rs guard)"

text \<open>\<^verbatim>\<open>unpark\<close>: the new token and whether the condition variable is notified.\<close>

definition tp_unpark :: "thread_park \<Rightarrow> thread_park \<times> bool" where
  "tp_unpark guard = (if guard = 0 then (1, True) else (guard, False))"

section \<open>The blocker of the synchronization types\<close>

record blocker =
  bk_unparked :: bool
  bk_release :: bool
  bk_token :: bool

definition sync_blocker :: blocker where
  "sync_blocker = \<lparr>bk_unparked = False, bk_release = False, bk_token = False\<rparr>"

definition is_unparked :: "blocker \<Rightarrow> bool" where
  "is_unparked b = bk_unparked b"

definition set_release :: "blocker \<Rightarrow> blocker" where
  "set_release b = b\<lparr>bk_release := True\<rparr>"

definition take_release :: "blocker \<Rightarrow> bool \<times> blocker" where
  "take_release b = (bk_release b, b\<lparr>bk_release := False\<rparr>)"

text \<open>The two stores of \<^verbatim>\<open>unpark\<close> are separate steps of the protocols.\<close>

definition unpark_flag :: "blocker \<Rightarrow> blocker" where
  "unpark_flag b = b\<lparr>bk_unparked := True\<rparr>"

definition unpark_wake :: "blocker \<Rightarrow> blocker" where
  "unpark_wake b = b\<lparr>bk_token := True\<rparr>"

text \<open>Returning from \<^verbatim>\<open>park\<close>, with a token or with an error, consumes the token.\<close>

definition park_return :: "blocker \<Rightarrow> blocker" where
  "park_return b = b\<lparr>bk_token := False\<rparr>"

lemmas blocker_defs = sync_blocker_def is_unparked_def set_release_def take_release_def
  unpark_flag_def unpark_wake_def park_return_def

section \<open>Properties\<close>

lemma tp_wait_timeout:
  "tp_wait dur rs guard = Some (Inl e) \<Longrightarrow>
     e = Timeout \<and> guard = 0 \<and> (\<exists>t. dur = Some t \<and> (\<exists>r \<in> set rs. wr_elapsed r \<ge> t \<or> wr_timed_out r))"
  by (induction rs arbitrary: guard) (auto split: if_splits option.splits)

lemma tp_wait_token:
  "tp_wait dur rs guard = Some (Inr u) \<Longrightarrow> guard \<noteq> 0 \<or> (\<exists>r \<in> set rs. wr_token r \<noteq> 0)"
  by (induction rs arbitrary: guard) (auto split: if_splits option.splits)

lemma tp_wait_now: "guard \<noteq> 0 \<Longrightarrow> tp_wait dur rs guard = Some (Inr ())"
  by (cases rs) auto

lemma tp_wait_returns:
  "\<exists>r \<in> set rs. wr_token r \<noteq> 0 \<Longrightarrow> tp_wait dur rs guard \<noteq> None"
  by (induction rs arbitrary: guard) (auto simp: tp_wait_now split: option.splits)

text \<open>
  An \<^verbatim>\<open>unpark\<close> before or during a wait is not lost. If the token is set, \<^verbatim>\<open>park_timeout\<close> returns
  \<^verbatim>\<open>Ok\<close> at once; if it is set in some round of the wait, it returns; it returns \<^verbatim>\<open>Ok\<close> only if the token
  was set, and an error only for a wait with a deadline, which is then \<^verbatim>\<open>Timeout\<close>; the token is
  always cleared.
\<close>

theorem thread_park_token:
  "tp_park_timeout dur rs (fst (tp_unpark guard)) = Some (Inr (), 0) \<and>
   ((\<exists>r \<in> set rs. wr_token r \<noteq> 0) \<longrightarrow> tp_park_timeout dur rs guard \<noteq> None) \<and>
   (case tp_park_timeout dur rs guard of
      None \<Rightarrow> True
    | Some (Inr u, g) \<Rightarrow> g = 0 \<and> (guard \<noteq> 0 \<or> (\<exists>r \<in> set rs. wr_token r \<noteq> 0))
    | Some (Inl e, g) \<Rightarrow> g = 0 \<and> e = Timeout \<and> guard = 0 \<and>
        (\<exists>t. dur = Some t \<and> (\<exists>r \<in> set rs. wr_elapsed r \<ge> t \<or> wr_timed_out r)))"
proof -
  have "tp_park_timeout dur rs (fst (tp_unpark guard)) = Some (Inr (), 0)"
    by (simp add: tp_park_timeout_def tp_unpark_def tp_wait_now)
  moreover have "(\<exists>r \<in> set rs. wr_token r \<noteq> 0) \<longrightarrow> tp_park_timeout dur rs guard \<noteq> None"
    using tp_wait_returns by (auto simp: tp_park_timeout_def)
  ultimately show ?thesis
    using tp_wait_timeout [of dur rs guard] tp_wait_token [of dur rs guard]
    by (auto simp: tp_park_timeout_def simp del: tp_wait.simps split: option.splits sum.splits)
qed

end
