(* ===== verification/Co_Park.thy ===== *)
theory Co_Park
  imports Cancel_Data Blocking
begin

unbundle bit_operations_syntax

text \<open>
  The parker of a coroutine, \<^verbatim>\<open>src/park.rs\<close>, as a transition system: the coroutine that parks, the thread that runs
  \<^verbatim>\<open>subscribe\<close> after the coroutine has yielded, any number of threads that unpark or cancel the coroutine, and the timer thread. Every
  access to a shared field is one step. A timer is a number; it may expire at any time after it was added, since the
  threads may be delayed by any amount.
\<close>

section \<open>State\<close>

text \<open>The coroutine, as the content of a slot.\<close>

datatype coroutine_impl = Co

text \<open>The value that a coroutine finds when it is resumed.\<close>

datatype para = PNone | PTimedOut | PCanceled

text \<open>\<^verbatim>\<open>check_park\<close> is called on entry with the duration, and again after the coroutine was resumed.\<close>

datatype ckont = First "nat option" | Again

text \<open>\<^verbatim>\<open>can_drop.wait()\<close> before a new yield, and in \<^verbatim>\<open>Drop for Park\<close> inside or outside of the coroutine.\<close>

datatype wkont = ToPark "nat option" | ToDrop bool

datatype copc =
    CoIdle                \<comment> \<open>runs the code of the client\<close>
  | CoLoad ckont          \<comment> \<open>\<^verbatim>\<open>check_park\<close>: before \<^verbatim>\<open>state.load\<close>\<close>
  | CoClear ckont         \<comment> \<open>before \<^verbatim>\<open>state.store(false)\<close>\<close>
  | CoSwap ckont          \<comment> \<open>before \<^verbatim>\<open>state.swap(false)\<close>\<close>
  | CoWait wkont          \<comment> \<open>\<^verbatim>\<open>can_drop.wait()\<close>: before \<^verbatim>\<open>can_drop.load\<close>\<close>
  | CoBackWait wkont      \<comment> \<open>back from \<^verbatim>\<open>yield_now\<close> in this loop: before \<^verbatim>\<open>yield_back\<close>\<close>
  | CoTimeout "nat option" \<comment> \<open>before \<^verbatim>\<open>timeout.store(dur)\<close>\<close>
  | CoYield               \<comment> \<open>\<^verbatim>\<open>yield_with\<close>: before \<^verbatim>\<open>cancel.is_canceled()\<close>\<close>
  | CoSusp                \<comment> \<open>suspended\<close>
  | CoBack                \<comment> \<open>resumed: before \<^verbatim>\<open>yield_back\<close>\<close>
  | CoUnlink              \<comment> \<open>\<^verbatim>\<open>remove_timeout_handle\<close>: before \<^verbatim>\<open>set_timeout_handle(None)\<close>\<close>
  | CoDel nat             \<comment> \<open>before \<^verbatim>\<open>is_link\<close> and \<^verbatim>\<open>del_timer\<close>\<close>
  | CoPara                \<comment> \<open>before \<^verbatim>\<open>get_co_para\<close>\<close>
  | CoEnded               \<comment> \<open>the coroutine has ended, its handle lives on\<close>
  | CoGone                \<comment> \<open>the parker is dropped\<close>

text \<open>The thread that runs \<^verbatim>\<open>subscribe\<close>.\<close>

datatype kpc =
    KOff
  | KTimer                \<comment> \<open>before \<^verbatim>\<open>timeout.take()\<close> and \<^verbatim>\<open>add_timer\<close>\<close>
  | KHandle "nat option"  \<comment> \<open>before \<^verbatim>\<open>set_timeout_handle\<close>\<close>
  | KGuard                \<comment> \<open>before \<^verbatim>\<open>delay_drop()\<close>\<close>
  | KStore                \<comment> \<open>before \<^verbatim>\<open>wait_co.store(co)\<close>\<close>
  | KState                \<comment> \<open>before \<^verbatim>\<open>state.load\<close>\<close>
  | KTake                 \<comment> \<open>\<^verbatim>\<open>fast_wake_up\<close>: before \<^verbatim>\<open>wait_co.take()\<close>\<close>
  | KRun                  \<comment> \<open>in \<^verbatim>\<open>run_coroutine(co)\<close>\<close>
  | KSetCo                \<comment> \<open>before \<^verbatim>\<open>cancel.set_co\<close>\<close>
  | KCanceled             \<comment> \<open>before \<^verbatim>\<open>cancel.is_canceled()\<close>\<close>
  | KOr                   \<comment> \<open>\<^verbatim>\<open>cancel.cancel()\<close>: before \<^verbatim>\<open>state.fetch_or(1)\<close>\<close>
  | KTakeCo               \<comment> \<open>before \<^verbatim>\<open>self.co.take()\<close>\<close>
  | KTakeSlot             \<comment> \<open>before \<^verbatim>\<open>co.take()\<close>\<close>
  | KUnguard              \<comment> \<open>before the drop of the guard\<close>

datatype upc = UnIdle | UnSwap | UnTake
datatype ccpc = CnIdle | CnOr | CnTakeCo | CnTakeSlot

text \<open>
  \<open>pk_inline\<close>: the coroutine runs on the stack of the thread in \<open>KRun\<close>. \<open>pk_ready\<close>: it was taken out of the slot and is about to be resumed. The
  timers that are in the timer list, those the timer thread has popped and will handle, and those queued for removal are sets of numbers.
  \<open>pk_missed\<close> and \<open>pk_timed\<close> are ghost: the timers whose handler found the slot empty, and whether the current wait has a timeout.
\<close>

record cpark =
  pk_slot :: "coroutine_impl atomic_option"
  pk_state :: bool
  pk_check :: bool
  pk_timeout :: atomic_duration
  pk_handle :: "nat option"
  pk_can_drop :: delay_drop
  pk_cancel :: cancel
  pk_para :: para
  pk_panicking :: bool
  pk_co :: copc
  pk_kern :: kpc
  pk_inline :: bool
  pk_ready :: bool
  pk_un :: "nat \<Rightarrow> upc"
  pk_cn :: "nat \<Rightarrow> ccpc"
  pk_timers :: "nat set"
  pk_popped :: "nat set"
  pk_del :: "nat set"
  pk_fresh :: nat
  pk_missed :: "nat set"
  pk_timed :: bool

text \<open>\<^verbatim>\<open>Park::new\<close> and \<^verbatim>\<open>ignore_cancel\<close>\<close>

definition park_new :: cpark where
  "park_new = \<lparr>pk_slot = ao_none, pk_state = False, pk_check = True, pk_timeout = ad_new None, pk_handle = None, pk_can_drop = dd_new,
     pk_cancel = cancel_new, pk_para = PNone, pk_panicking = False, pk_co = CoIdle, pk_kern = KOff, pk_inline = False, pk_ready = False,
     pk_un = (\<lambda>_. UnIdle), pk_cn = (\<lambda>_. CnIdle), pk_timers = {}, pk_popped = {}, pk_del = {}, pk_fresh = 0,
     pk_missed = {}, pk_timed = False\<rparr>"

definition ignore_cancel :: "bool \<Rightarrow> cpark \<Rightarrow> cpark" where
  "ignore_cancel ignore s = s\<lparr>pk_check := \<not> ignore\<rparr>"

section \<open>The coroutine\<close>

definition co_goto :: "copc \<Rightarrow> cpark \<Rightarrow> cpark" where
  "co_goto p s = s\<lparr>pk_co := p\<rparr>"

text \<open>
  \<^verbatim>\<open>cancel.check_cancel()\<close>: the value for the coroutine is cleared, and the coroutine unwinds, which continues at \<open>q\<close>, unless it does already.
\<close>

definition co_check_cancel :: "copc \<Rightarrow> copc \<Rightarrow> cpark \<Rightarrow> cpark" where
  "co_check_cancel p q s =
     (if is_canceled (pk_cancel s)
      then if pk_panicking s then co_goto p (s\<lparr>pk_para := PNone\<rparr>)
           else co_goto q (s\<lparr>pk_para := PNone, pk_panicking := True\<rparr>)
      else co_goto p s)"

text \<open>Where \<^verbatim>\<open>check_park\<close> returns to; \<open>need\<close> is its result.\<close>

fun check_park_ret :: "ckont \<Rightarrow> bool \<Rightarrow> copc" where
  "check_park_ret (First dur) need = (if need then CoWait (ToPark dur) else CoIdle)"
| "check_park_ret Again need = CoUnlink"

text \<open>
  \<^verbatim>\<open>yield_now\<close> in the loop of \<^verbatim>\<open>can_drop.wait()\<close>: a thread only spins; a coroutine that is not canceled is scheduled again, which lets
  the thread below it go on; a canceled one does not leave its stack.
\<close>

text \<open>A panic in the loop leaves \<^verbatim>\<open>park_timeout\<close>; in a drop, the drop of the field \<^verbatim>\<open>can_drop\<close> runs the loop again.\<close>

fun wait_unwind :: "wkont \<Rightarrow> copc" where
  "wait_unwind (ToPark _) = CoIdle"
| "wait_unwind (ToDrop inco) = CoWait (ToDrop inco)"

definition wait_yield :: "wkont \<Rightarrow> cpark \<Rightarrow> cpark" where
  "wait_yield k s =
     (if k = ToDrop False then s
      else if is_canceled (pk_cancel s) then co_check_cancel (CoWait k) (wait_unwind k) (s\<lparr>pk_para := PCanceled\<rparr>)
      else co_goto (CoBackWait k) (s\<lparr>pk_inline := False\<rparr>))"

text \<open>After the loop: \<^verbatim>\<open>timeout.store\<close> comes next, or the parker is dropped.\<close>

fun wait_over :: "wkont \<Rightarrow> cpark \<Rightarrow> cpark" where
  "wait_over (ToPark dur) s = co_goto (CoTimeout dur) s"
| "wait_over (ToDrop inco) s = co_goto CoGone (s\<lparr>pk_handle := None\<rparr>)"

fun park_timeout :: "cpark \<Rightarrow> cpark option" where
  "park_timeout s = (case pk_co s of
     CoLoad k \<Rightarrow> Some (co_goto (if pk_state s then CoClear k else CoSwap k) s)
   | CoClear k \<Rightarrow> Some (co_goto (check_park_ret k False) (s\<lparr>pk_state := False\<rparr>))
   | CoSwap k \<Rightarrow> Some (co_goto (check_park_ret k (\<not> pk_state s)) (s\<lparr>pk_state := False\<rparr>))
   | CoWait k \<Rightarrow> Some (if pk_can_drop s = 2 then wait_yield k s else wait_over k s)
   | CoBackWait k \<Rightarrow> Some (co_check_cancel (CoWait k) (wait_unwind k) s)
   | CoTimeout dur \<Rightarrow> Some (co_goto CoYield (s\<lparr>pk_timeout := ad_store dur (pk_timeout s), pk_timed := (dur \<noteq> None)\<rparr>))
   | CoYield \<Rightarrow>
       if is_canceled (pk_cancel s) then Some (co_goto CoBack (s\<lparr>pk_para := PCanceled\<rparr>))
       else Some (co_goto CoSusp (s\<lparr>pk_kern := KTimer, pk_inline := False\<rparr>))
   | CoBack \<Rightarrow> Some (if pk_check s then co_check_cancel (CoLoad Again) CoIdle s else co_goto (CoLoad Again) s)
   | CoUnlink \<Rightarrow> (case pk_handle s of
       None \<Rightarrow> Some (co_goto CoPara s)
     | Some n \<Rightarrow> Some (co_goto (CoDel n) (s\<lparr>pk_handle := None\<rparr>)))
   | CoDel n \<Rightarrow> Some (co_goto CoPara (if n \<in> pk_timers s then s\<lparr>pk_del := insert n (pk_del s)\<rparr> else s))
   | CoPara \<Rightarrow> Some (co_goto CoIdle (s\<lparr>pk_para := PNone\<rparr>))
   | _ \<Rightarrow> None)"

text \<open>The result that \<^verbatim>\<open>park_timeout\<close> reads in its last step.\<close>

definition park_result :: "cpark \<Rightarrow> park_error + unit" where
  "park_result s = (case pk_para s of PTimedOut \<Rightarrow> Inl Timeout | PCanceled \<Rightarrow> Inl Canceled | PNone \<Rightarrow> Inr ())"

section \<open>The other threads\<close>

text \<open>Taking the coroutine out of the slot and scheduling it with a value.\<close>

definition wake_slot :: "para \<Rightarrow> cpark \<Rightarrow> cpark" where
  "wake_slot p s =
     (let (r, v) = ao_take (pk_slot s); s1 = s\<lparr>pk_slot := v\<rparr> in
      case r of None \<Rightarrow> s1 | Some _ \<Rightarrow> s1\<lparr>pk_ready := True, pk_para := (if p = PNone then pk_para s else p)\<rparr>)"

text \<open>The parts of \<^verbatim>\<open>CancelImpl::cancel\<close>; no I/O is registered while the coroutine is parked here.\<close>

definition cancel_or :: "cancel \<Rightarrow> cancel" where
  "cancel_or c = c\<lparr>cn_state := cn_state c OR 1\<rparr>"

definition cancel_take :: "cancel \<Rightarrow> nat option \<times> cancel" where
  "cancel_take c = (let (r, v) = ao_take (cn_co c) in (r, c\<lparr>cn_co := v\<rparr>))"

fun subscribe :: "cpark \<Rightarrow> cpark option" where
  "subscribe s = (case pk_kern s of
     KTimer \<Rightarrow>
       (let (dur, v) = ad_take (pk_timeout s); s1 = s\<lparr>pk_timeout := v\<rparr> in
        case dur of
          None \<Rightarrow> Some (s1\<lparr>pk_kern := KHandle None\<rparr>)
        | Some _ \<Rightarrow> Some (s1\<lparr>pk_timers := insert (pk_fresh s) (pk_timers s), pk_fresh := Suc (pk_fresh s),
            pk_kern := KHandle (Some (pk_fresh s))\<rparr>))
   | KHandle h \<Rightarrow> Some (s\<lparr>pk_handle := h, pk_kern := KGuard\<rparr>)
   | KGuard \<Rightarrow> Some (s\<lparr>pk_can_drop := dd_delay (pk_can_drop s), pk_kern := KStore\<rparr>)
   | KStore \<Rightarrow> Some (s\<lparr>pk_slot := ao_store Co (pk_slot s), pk_kern := KState\<rparr>)
   | KState \<Rightarrow> Some (s\<lparr>pk_kern := if pk_state s then KTake else KSetCo\<rparr>)
   | KTake \<Rightarrow>
       (let (r, v) = ao_take (pk_slot s); s1 = s\<lparr>pk_slot := v\<rparr> in
        case r of
          None \<Rightarrow> Some (s1\<lparr>pk_kern := KUnguard\<rparr>)
        | Some _ \<Rightarrow> Some (co_goto CoBack (s1\<lparr>pk_kern := KRun, pk_inline := True\<rparr>)))
   | KRun \<Rightarrow> if pk_inline s then None else Some (s\<lparr>pk_kern := KUnguard\<rparr>)
   | KSetCo \<Rightarrow> Some (s\<lparr>pk_cancel := set_co 0 (pk_cancel s), pk_kern := KCanceled\<rparr>)
   | KCanceled \<Rightarrow> Some (s\<lparr>pk_kern := if is_canceled (pk_cancel s) then KOr else KUnguard\<rparr>)
   | KOr \<Rightarrow> Some (s\<lparr>pk_cancel := cancel_or (pk_cancel s), pk_kern := KTakeCo\<rparr>)
   | KTakeCo \<Rightarrow>
       (let (r, c) = cancel_take (pk_cancel s) in
        Some (s\<lparr>pk_cancel := c, pk_kern := if r = None then KUnguard else KTakeSlot\<rparr>))
   | KTakeSlot \<Rightarrow> Some ((wake_slot PCanceled s)\<lparr>pk_kern := KUnguard\<rparr>)
   | KUnguard \<Rightarrow> Some (s\<lparr>pk_can_drop := dd_guard_drop (pk_can_drop s), pk_kern := KOff\<rparr>)
   | KOff \<Rightarrow> None)"

text \<open>\<^verbatim>\<open>unpark_impl\<close>\<close>

definition un_goto :: "nat \<Rightarrow> upc \<Rightarrow> cpark \<Rightarrow> cpark" where
  "un_goto u p s = s\<lparr>pk_un := (pk_un s)(u := p)\<rparr>"

fun unpark_impl :: "nat \<Rightarrow> cpark \<Rightarrow> cpark option" where
  "unpark_impl u s = (case pk_un s u of
     UnSwap \<Rightarrow> Some (un_goto u (if pk_state s then UnIdle else UnTake) (s\<lparr>pk_state := True\<rparr>))
   | UnTake \<Rightarrow> Some (un_goto u UnIdle (wake_slot PNone s))
   | UnIdle \<Rightarrow> None)"

text \<open>\<^verbatim>\<open>Coroutine::cancel\<close> by another thread.\<close>

definition cn_goto :: "nat \<Rightarrow> ccpc \<Rightarrow> cpark \<Rightarrow> cpark" where
  "cn_goto u p s = s\<lparr>pk_cn := (pk_cn s)(u := p)\<rparr>"

fun co_cancel :: "nat \<Rightarrow> cpark \<Rightarrow> cpark option" where
  "co_cancel u s = (case pk_cn s u of
     CnOr \<Rightarrow> Some (cn_goto u CnTakeCo (s\<lparr>pk_cancel := cancel_or (pk_cancel s)\<rparr>))
   | CnTakeCo \<Rightarrow>
       (let (r, c) = cancel_take (pk_cancel s) in
        Some (cn_goto u (if r = None then CnIdle else CnTakeSlot) (s\<lparr>pk_cancel := c\<rparr>)))
   | CnTakeSlot \<Rightarrow> Some (cn_goto u CnIdle (wake_slot PCanceled s))
   | CnIdle \<Rightarrow> None)"

text \<open>
  The timer thread: it pops an expired timer, its handler takes the coroutine, and a removal that was asked for may or may not find the timer in
  the list.
\<close>

definition timer_pop :: "nat \<Rightarrow> cpark \<Rightarrow> cpark option" where
  "timer_pop n s = (if n \<in> pk_timers s then Some (s\<lparr>pk_timers := pk_timers s - {n}, pk_popped := insert n (pk_popped s)\<rparr>) else None)"

definition timer_event_handler :: "nat \<Rightarrow> cpark \<Rightarrow> cpark option" where
  "timer_event_handler n s = (if n \<in> pk_popped s
     then Some ((wake_slot PTimedOut s)\<lparr>pk_popped := pk_popped s - {n},
       pk_missed := (if pk_slot s = None then insert n (pk_missed s) else pk_missed s)\<rparr>)
     else None)"

definition timer_unlink :: "nat \<Rightarrow> bool \<Rightarrow> cpark \<Rightarrow> cpark option" where
  "timer_unlink n found s = (if n \<in> pk_del s
     then Some (s\<lparr>pk_del := pk_del s - {n}, pk_timers := (if found then pk_timers s - {n} else pk_timers s)\<rparr>) else None)"

section \<open>Runs\<close>

text \<open>Whether the parker can be reached by unparkers, and the coroutine by cancelers.\<close>

fun reachable :: "copc \<Rightarrow> bool" where
  "reachable CoEnded = False"
| "reachable CoGone = False"
| "reachable (CoWait (ToDrop _)) = False"
| "reachable (CoBackWait (ToDrop _)) = False"
| "reachable _ = True"

datatype pact =
    CallPark "nat option" | IgnoreCancel bool | DropPark | Finish bool
  | CoRun | Resume | Elsewhere
  | Kernel | CallUnpark nat | Unparker nat | CallCancel nat | Canceler nat
  | TimerPop nat | TimerFire nat | TimerUnlink nat bool

text \<open>
  A parker is dropped by the last owner: when the coroutine ends, or by the coroutine while it runs. The coroutine leaves the stack of
  \<open>KRun\<close> when it yields elsewhere or ends.
\<close>

fun pk_next :: "nat \<Rightarrow> pact \<Rightarrow> cpark \<Rightarrow> cpark option" where
  "pk_next m (CallPark dur) s = (if pk_co s = CoIdle then Some (co_goto (CoLoad (First dur)) s) else None)"
| "pk_next m (IgnoreCancel b) s = (if pk_co s = CoIdle then Some (ignore_cancel b s) else None)"
| "pk_next m DropPark s =
     (if pk_co s = CoIdle \<and> (\<forall>u<m. pk_un s u = UnIdle) then Some (co_goto (CoWait (ToDrop True)) s) else None)"
| "pk_next m (Finish only) s =
     (if pk_co s \<noteq> CoIdle then None
      else if only
      then if \<forall>u<m. pk_un s u = UnIdle \<and> pk_cn s u = CnIdle then Some (co_goto (CoWait (ToDrop False)) s) else None
      else Some (co_goto CoEnded (s\<lparr>pk_inline := False\<rparr>)))"
| "pk_next m CoRun s = park_timeout s"
| "pk_next m Resume s = (if pk_ready s then Some (co_goto CoBack (s\<lparr>pk_ready := False\<rparr>)) else None)"
| "pk_next m Elsewhere s =
     (if pk_inline s \<and> pk_co s = CoIdle then Some (s\<lparr>pk_inline := False\<rparr>) else None)"
| "pk_next m Kernel s = subscribe s"
| "pk_next m (CallUnpark u) s =
     (if u < m \<and> pk_un s u = UnIdle \<and> reachable (pk_co s) then Some (un_goto u UnSwap s) else None)"
| "pk_next m (Unparker u) s = unpark_impl u s"
| "pk_next m (CallCancel u) s =
     (if u < m \<and> pk_cn s u = CnIdle \<and> pk_co s \<noteq> CoEnded \<and> pk_co s \<noteq> CoWait (ToDrop False) then Some (cn_goto u CnOr s) else None)"
| "pk_next m (Canceler u) s = co_cancel u s"
| "pk_next m (TimerPop n) s = timer_pop n s"
| "pk_next m (TimerFire n) s = timer_event_handler n s"
| "pk_next m (TimerUnlink n b) s = timer_unlink n b s"

definition pk_start :: "cpark \<Rightarrow> bool" where
  "pk_start s \<longleftrightarrow> s = park_new"

definition pk_step :: "nat \<Rightarrow> cpark \<Rightarrow> cpark \<Rightarrow> bool" where
  "pk_step m s s' \<longleftrightarrow> (\<exists>a. pk_next m a s = Some s')"

section \<open>Invariant\<close>

text \<open>The thread in \<^verbatim>\<open>subscribe\<close> holds the coroutine; it holds the guard; it has passed the check for a cancellation.\<close>

fun holding :: "kpc \<Rightarrow> bool" where
  "holding KTimer = True"
| "holding (KHandle _) = True"
| "holding KGuard = True"
| "holding KStore = True"
| "holding _ = False"

fun guarded :: "kpc \<Rightarrow> bool" where
  "guarded KOff = False"
| "guarded KTimer = False"
| "guarded (KHandle _) = False"
| "guarded KGuard = False"
| "guarded _ = True"

text \<open>A suspended coroutine has exactly one owner, and the thread in \<^verbatim>\<open>subscribe\<close> has ended before the next one starts.\<close>

definition pk_owner :: "cpark \<Rightarrow> bool" where
  "pk_owner s \<longleftrightarrow>
     (if pk_co s = CoSusp
      then (holding (pk_kern s) \<and> pk_slot s = None \<and> \<not> pk_ready s) \<or>
           (\<not> holding (pk_kern s) \<and> pk_slot s \<noteq> None \<and> \<not> pk_ready s) \<or>
           (\<not> holding (pk_kern s) \<and> pk_slot s = None \<and> pk_ready s)
      else \<not> holding (pk_kern s) \<and> pk_slot s = None \<and> \<not> pk_ready s) \<and>
     pk_can_drop s = (if guarded (pk_kern s) then 2 else 0) \<and>
     (pk_inline s \<longrightarrow> pk_kern s = KRun) \<and> (pk_kern s = KRun \<longrightarrow> pk_co s \<noteq> CoSusp) \<and>
     (pk_co s \<in> {CoYield, CoGone} \<or> (\<exists>dur. pk_co s = CoTimeout dur) \<longrightarrow> pk_kern s = KOff)"

text \<open>A pending unpark, and a cancellation, is on its way to a coroutine in the slot.\<close>

definition pk_wake :: "cpark \<Rightarrow> bool" where
  "pk_wake s \<longleftrightarrow> (pk_slot s \<noteq> None \<and> pk_state s \<longrightarrow> pk_kern s \<in> {KState, KTake} \<or> (\<exists>u. pk_un s u = UnTake))"

definition canceling :: "(nat \<Rightarrow> ccpc) \<Rightarrow> bool" where
  "canceling cn \<longleftrightarrow> (\<exists>u. cn u = CnTakeCo) \<or> (\<exists>u. cn u = CnTakeSlot)"

definition taking :: "(nat \<Rightarrow> ccpc) \<Rightarrow> bool" where
  "taking cn \<longleftrightarrow> (\<exists>u. cn u = CnTakeSlot)"

definition pk_canc :: "cpark \<Rightarrow> bool" where
  "pk_canc s \<longleftrightarrow> cn_state (pk_cancel s) \<in> {0, 1} \<and>
     (canceling (pk_cn s) \<or> pk_kern s \<in> {KOr, KTakeCo, KTakeSlot} \<longrightarrow> cn_state (pk_cancel s) = 1) \<and>
     (pk_slot s \<noteq> None \<and> pk_kern s \<in> {KCanceled, KOr, KTakeCo, KUnguard, KOff} \<longrightarrow>
        cn_co (pk_cancel s) \<noteq> None \<or> taking (pk_cn s)) \<and>
     (pk_slot s \<noteq> None \<and> pk_kern s \<in> {KUnguard, KOff} \<and> cn_state (pk_cancel s) = 1 \<longrightarrow>
        canceling (pk_cn s))"

text \<open>The timer of the current wait is in the list, is being handled, or was handled before the coroutine was in the slot.\<close>

definition seen :: "cpark \<Rightarrow> nat set" where
  "seen s = pk_timers s \<union> pk_popped s \<union> pk_missed s"

fun arming :: "kpc \<Rightarrow> bool" where
  "arming KTimer = True"
| "arming (KHandle _) = True"
| "arming _ = False"

definition pk_timer :: "cpark \<Rightarrow> bool" where
  "pk_timer s \<longleftrightarrow> (\<forall>n \<in> seen s \<union> pk_del s. n < pk_fresh s) \<and>
     (\<forall>n. pk_handle s = Some n \<longrightarrow> n < pk_fresh s \<and> n \<notin> pk_del s) \<and>
     (\<forall>n. pk_co s = CoDel n \<longrightarrow> n < pk_fresh s \<and> pk_handle s = None) \<and>
     (pk_co s = CoYield \<or> pk_kern s = KTimer \<longrightarrow> (pk_timeout s \<noteq> 0 \<longleftrightarrow> pk_timed s)) \<and>
     (\<forall>h. pk_kern s = KHandle h \<longrightarrow> (h \<noteq> None \<longleftrightarrow> pk_timed s)) \<and>
     (\<forall>n. pk_kern s = KHandle (Some n) \<longrightarrow> n \<in> seen s \<and> n \<notin> pk_del s) \<and>
     (pk_co s = CoSusp \<and> \<not> arming (pk_kern s) \<longrightarrow> (pk_handle s \<noteq> None \<longleftrightarrow> pk_timed s)) \<and>
     (\<forall>n. pk_handle s = Some n \<and> (pk_kern s \<in> {KGuard, KStore} \<or> pk_slot s \<noteq> None) \<longrightarrow> n \<in> seen s)"

definition pk_inv :: "cpark \<Rightarrow> bool" where
  "pk_inv s \<longleftrightarrow> pk_owner s \<and> pk_wake s \<and> pk_canc s \<and> pk_timer s"

lemmas pk_inv_defs = pk_owner_def pk_wake_def pk_canc_def pk_timer_def seen_def

lemma pk_invD: assumes "pk_inv s" shows "pk_owner s" "pk_wake s" "pk_canc s" "pk_timer s"
  using assms by (simp_all add: pk_inv_def)

lemma pk_owner_cong:
  assumes "pk_owner s" "pk_co s' = pk_co s" "pk_kern s' = pk_kern s" "pk_slot s' = pk_slot s" "pk_ready s' = pk_ready s"
    "pk_can_drop s' = pk_can_drop s" "pk_inline s' = pk_inline s"
  shows "pk_owner s'"
  using assms(1) unfolding pk_owner_def assms(2-) .

lemma pk_wake_cong:
  assumes "pk_wake s" "pk_slot s' = pk_slot s" "pk_state s' = pk_state s" "pk_kern s' = pk_kern s" "pk_un s' = pk_un s"
  shows "pk_wake s'"
  using assms(1) unfolding pk_wake_def assms(2-) .

lemma pk_canc_cong:
  assumes "pk_canc s" "pk_cancel s' = pk_cancel s" "pk_cn s' = pk_cn s" "pk_kern s' = pk_kern s" "pk_slot s' = pk_slot s"
  shows "pk_canc s'"
  using assms(1) unfolding pk_canc_def assms(2-) .

lemma pk_timer_cong:
  assumes "pk_timer s" "seen s' = seen s" "pk_del s' = pk_del s" "pk_fresh s' = pk_fresh s" "pk_handle s' = pk_handle s"
    "pk_co s' = pk_co s" "pk_timeout s' = pk_timeout s" "pk_timed s' = pk_timed s" "pk_kern s' = pk_kern s" "pk_slot s' = pk_slot s"
  shows "pk_timer s'"
  using assms(1) unfolding pk_timer_def assms(2-) .

lemma pk_timerD:
  assumes "pk_timer s"
  shows "\<forall>n \<in> seen s \<union> pk_del s. n < pk_fresh s" "\<forall>n. pk_handle s = Some n \<longrightarrow> n < pk_fresh s \<and> n \<notin> pk_del s"
     "\<forall>n. pk_co s = CoDel n \<longrightarrow> n < pk_fresh s \<and> pk_handle s = None"
     "pk_co s = CoYield \<or> pk_kern s = KTimer \<longrightarrow> (pk_timeout s \<noteq> 0 \<longleftrightarrow> pk_timed s)"
     "\<forall>h. pk_kern s = KHandle h \<longrightarrow> (h \<noteq> None \<longleftrightarrow> pk_timed s)"
     "\<forall>n. pk_kern s = KHandle (Some n) \<longrightarrow> n \<in> seen s \<and> n \<notin> pk_del s"
     "pk_co s = CoSusp \<and> \<not> arming (pk_kern s) \<longrightarrow> (pk_handle s \<noteq> None \<longleftrightarrow> pk_timed s)"
     "\<forall>n. pk_handle s = Some n \<and> (pk_kern s \<in> {KGuard, KStore} \<or> pk_slot s \<noteq> None) \<longrightarrow> n \<in> seen s"
  using assms unfolding pk_timer_def by - ((elim conjE, assumption)+)

text \<open>A step that may only drop timers nobody relies on.\<close>

lemma pk_timer_mono:
  assumes T: "pk_timer s" and e: "pk_fresh s' = pk_fresh s" "pk_handle s' = pk_handle s" "pk_co s' = pk_co s"
      "pk_timeout s' = pk_timeout s" "pk_timed s' = pk_timed s" "pk_kern s' = pk_kern s"
    and d: "pk_del s' \<subseteq> pk_del s" and sub: "seen s' \<subseteq> seen s" and sl: "pk_slot s' \<noteq> None \<Longrightarrow> pk_slot s \<noteq> None"
    and keep: "\<And>n. n \<in> seen s \<Longrightarrow> n \<notin> pk_del s \<Longrightarrow> holding (pk_kern s) \<or> pk_slot s' \<noteq> None \<Longrightarrow> n \<in> seen s'"
  shows "pk_timer s'"
proof -
  note t = pk_timerD [OF T]
  have "\<forall>n \<in> seen s' \<union> pk_del s'. n < pk_fresh s" using t(1) d sub by blast
  moreover have "\<forall>n. pk_handle s = Some n \<longrightarrow> n < pk_fresh s \<and> n \<notin> pk_del s'" using t(2) d by blast
  moreover have "n \<in> seen s' \<and> n \<notin> pk_del s'" if k: "pk_kern s = KHandle (Some n)" for n
  proof -
    have "n \<in> seen s" "n \<notin> pk_del s" "holding (pk_kern s)" using t(6) k by auto
    then show ?thesis using keep d by blast
  qed
  moreover have "n \<in> seen s'" if k: "pk_handle s = Some n" "pk_kern s \<in> {KGuard, KStore} \<or> pk_slot s' \<noteq> None" for n
  proof -
    have "n \<in> seen s" "n \<notin> pk_del s" "holding (pk_kern s) \<or> pk_slot s' \<noteq> None" using t(2,8) k sl by auto
    then show ?thesis using keep by blast
  qed
  ultimately show ?thesis using t(3,4,5,7) unfolding pk_timer_def e by (intro conjI) simp_all
qed

lemma pk_inv_new: "pk_inv park_new"
  by (simp add: pk_inv_def pk_inv_defs park_new_def ao_defs ad_new_def encode_def dd_new_def cancel_new_def
      canceling_def)

lemmas pk_step_defs = co_goto_def un_goto_def cn_goto_def wake_slot_def ao_defs Let_def

text \<open>Steps of the coroutine.\<close>

lemma co_check_cancel_eq:
  "\<exists>r v w. co_check_cancel p q s = s\<lparr>pk_co := r, pk_para := v, pk_panicking := w\<rparr> \<and> (r = p \<or> r = q)"
proof (cases "is_canceled (pk_cancel s)")
  case True
  then show ?thesis
    by (intro exI [of _ "if pk_panicking s then p else q"] exI [of _ PNone] exI [of _ True]) (simp add: co_check_cancel_def co_goto_def)
next
  case False
  then show ?thesis
    by (intro exI [of _ p] exI [of _ "pk_para s"] exI [of _ "pk_panicking s"]) (simp add: co_check_cancel_def co_goto_def)
qed

text \<open>A coroutine that runs and stays running, without touching what the other threads use.\<close>

fun plain :: "copc \<Rightarrow> bool" where
  "plain CoSusp = False"
| "plain CoYield = False"
| "plain CoGone = False"
| "plain (CoTimeout _) = False"
| "plain (CoDel _) = False"
| "plain _ = True"

definition same_shared :: "cpark \<Rightarrow> cpark \<Rightarrow> bool" where
  "same_shared s s' \<longleftrightarrow> pk_slot s' = pk_slot s \<and> pk_timeout s' = pk_timeout s \<and> pk_handle s' = pk_handle s \<and>
     pk_can_drop s' = pk_can_drop s \<and> pk_cancel s' = pk_cancel s \<and> pk_kern s' = pk_kern s \<and> pk_ready s' = pk_ready s \<and>
     pk_un s' = pk_un s \<and> pk_cn s' = pk_cn s \<and> pk_timers s' = pk_timers s \<and> pk_popped s' = pk_popped s \<and>
     pk_del s' = pk_del s \<and> pk_fresh s' = pk_fresh s \<and> pk_missed s' = pk_missed s \<and> pk_timed s' = pk_timed s"

lemma plain_inv:
  assumes I: "pk_inv s" and c: "pk_co s \<noteq> CoSusp" and p: "plain (pk_co s')" and f: "same_shared s s'"
    and i: "pk_inline s' \<Longrightarrow> pk_inline s"
  shows "pk_inv s'"
proof -
  have n: "pk_co s' \<noteq> CoSusp" "pk_co s' \<noteq> CoYield" "pk_co s' \<noteq> CoGone" "\<And>d. pk_co s' \<noteq> CoTimeout d" "\<And>d. pk_co s' \<noteq> CoDel d"
    using p by auto
  have sl: "pk_slot s' = None" using pk_invD(1) [OF I] c f by (simp add: pk_owner_def same_shared_def)
  have "pk_owner s'" using pk_invD(1) [OF I] c n i f by (auto simp: pk_owner_def same_shared_def)
  moreover have "pk_wake s'" using sl by (simp add: pk_wake_def)
  moreover have "pk_canc s'" using pk_invD(3) [OF I] f by (simp add: pk_canc_def same_shared_def)
  moreover have "pk_timer s'" using pk_invD(4) [OF I] n f sl c by (simp add: pk_timer_def seen_def same_shared_def)
  ultimately show ?thesis by (simp add: pk_inv_def)
qed

lemma check_cancel_inv:
  assumes "pk_inv s" "pk_co s \<noteq> CoSusp" "plain p" "plain q" shows "pk_inv (co_check_cancel p q s)"
proof -
  obtain r v w where "co_check_cancel p q s = s\<lparr>pk_co := r, pk_para := v, pk_panicking := w\<rparr>" "r = p \<or> r = q"
    using co_check_cancel_eq by blast
  then show ?thesis using assms by (intro plain_inv [OF assms(1,2)]) (auto simp: same_shared_def)
qed

lemma plain_wait: "plain (CoWait k)" "plain (wait_unwind k)" "plain (check_park_ret c b)"
  by (simp_all, (cases k; simp), (cases c; simp))

lemma wait_yield_inv:
  assumes I: "pk_inv s" and c: "pk_co s = CoWait k" shows "pk_inv (wait_yield k s)"
proof -
  have "pk_inv (s\<lparr>pk_para := PCanceled\<rparr>)" by (rule plain_inv [OF I]) (simp_all add: c same_shared_def)
  from check_cancel_inv [OF this, of "CoWait k" "wait_unwind k"]
  have "pk_inv (co_check_cancel (CoWait k) (wait_unwind k) (s\<lparr>pk_para := PCanceled\<rparr>))" by (simp add: c plain_wait)
  moreover have "pk_inv (co_goto (CoBackWait k) (s\<lparr>pk_inline := False\<rparr>))"
    by (rule plain_inv [OF I]) (simp_all add: c same_shared_def co_goto_def)
  ultimately show ?thesis using I by (simp add: wait_yield_def)
qed

lemma not_guarded: "\<not> guarded k \<Longrightarrow> \<not> holding k \<Longrightarrow> k = KOff"
  by (cases k) simp_all

text \<open>The other steps of a running coroutine: they change what belongs to its timer.\<close>

lemma running_inv:
  assumes I: "pk_inv s" and c: "pk_co s \<noteq> CoSusp" "pk_co s' \<noteq> CoSusp"
    and f: "pk_slot s' = pk_slot s" "pk_can_drop s' = pk_can_drop s" "pk_cancel s' = pk_cancel s" "pk_kern s' = pk_kern s"
      "pk_ready s' = pk_ready s" "pk_cn s' = pk_cn s" "pk_inline s' = pk_inline s"
    and g: "pk_co s' \<in> {CoYield, CoGone} \<or> (\<exists>dur. pk_co s' = CoTimeout dur) \<Longrightarrow> pk_kern s = KOff"
    and t: "pk_timer s'"
  shows "pk_inv s'"
proof -
  have sl: "pk_slot s' = None" using pk_invD(1) [OF I] c f by (simp add: pk_owner_def)
  have "pk_owner s'" using pk_invD(1) [OF I] c f g by (simp add: pk_owner_def)
  moreover have "pk_wake s'" using sl by (simp add: pk_wake_def)
  moreover have "pk_canc s'" using pk_invD(3) [OF I] f by (simp add: pk_canc_def)
  ultimately show ?thesis using t by (simp add: pk_inv_def)
qed

lemma wait_over_inv:
  assumes I: "pk_inv s" and c: "pk_co s = CoWait k" and d: "pk_can_drop s \<noteq> 2" shows "pk_inv (wait_over k s)"
proof -
  have "\<not> guarded (pk_kern s)" "\<not> holding (pk_kern s)" using pk_invD(1) [OF I] c d by (auto simp: pk_owner_def)
  then have k: "pk_kern s = KOff" using not_guarded by auto
  show ?thesis using pk_invD(4) [OF I] k c
    by (cases k) (auto simp: co_goto_def pk_timer_def seen_def intro!: running_inv [OF I])
qed

lemma park_timeout_inv:
  assumes I: "pk_inv s" and st: "park_timeout s = Some s'" shows "pk_inv s'"
proof (cases "pk_co s")
  case (CoWait k)
  then show ?thesis using st wait_yield_inv [OF I CoWait] wait_over_inv [OF I CoWait] by (auto split: if_splits)
next
  case (CoBackWait k)
  then show ?thesis using st check_cancel_inv [OF I, of "CoWait k" "wait_unwind k"] by (simp add: plain_wait)
next
  case (CoTimeout dur)
  then have s': "s' = co_goto CoYield (s\<lparr>pk_timeout := ad_store dur (pk_timeout s), pk_timed := (dur \<noteq> None)\<rparr>)" using st by simp
  have "ad_store dur (pk_timeout s) \<noteq> 0 \<longleftrightarrow> dur \<noteq> None"
    using encode_unat(1) by (cases dur) (auto simp: ad_store_def encode_def)
  then show ?thesis using pk_invD(1,4) [OF I] CoTimeout unfolding s'
    by (intro running_inv [OF I]) (simp_all add: co_goto_def pk_timer_def seen_def pk_owner_def)
next
  case CoYield
  have k: "pk_kern s = KOff" using pk_invD(1) [OF I] CoYield by (simp add: pk_owner_def)
  show ?thesis
  proof (cases "is_canceled (pk_cancel s)")
    case True
    then show ?thesis using st CoYield by (intro plain_inv [OF I]) (auto simp: same_shared_def co_goto_def)
  next
    case False
    then have s': "s' = co_goto CoSusp (s\<lparr>pk_kern := KTimer, pk_inline := False\<rparr>)" using st CoYield by simp
    have "pk_owner s'" using pk_invD(1) [OF I] CoYield k by (simp add: s' pk_owner_def co_goto_def)
    moreover have "pk_wake s'" "pk_canc s'" using pk_invD(1,3) [OF I] CoYield k
      by (simp_all add: s' pk_owner_def pk_wake_def pk_canc_def co_goto_def)
    moreover have "pk_timer s'" using pk_invD(1,4) [OF I] CoYield k by (simp add: s' pk_owner_def pk_timer_def seen_def co_goto_def)
    ultimately show ?thesis by (simp add: pk_inv_def)
  qed
next
  case CoBack
  then show ?thesis using st check_cancel_inv [OF I, of "CoLoad Again" CoIdle]
      plain_inv [OF I, of "co_goto (CoLoad Again) s"] by (auto simp: same_shared_def co_goto_def)
next
  case CoUnlink
  then show ?thesis
  proof (cases "pk_handle s")
    case None
    then show ?thesis using st CoUnlink by (intro plain_inv [OF I]) (auto simp: same_shared_def co_goto_def)
  next
    case (Some n)
    then have s': "s' = co_goto (CoDel n) (s\<lparr>pk_handle := None\<rparr>)" using st CoUnlink by simp
    show ?thesis using pk_invD(4) [OF I] CoUnlink Some unfolding s'
      by (intro running_inv [OF I]) (simp_all add: co_goto_def pk_timer_def seen_def)
  qed
next
  case (CoDel n)
  then have s': "s' = co_goto CoPara (if n \<in> pk_timers s then s\<lparr>pk_del := insert n (pk_del s)\<rparr> else s)" using st by simp
  have "pk_kern s \<noteq> KHandle h" for h using pk_invD(1) [OF I] CoDel by (auto simp: pk_owner_def)
  then show ?thesis using pk_invD(4) [OF I] CoDel unfolding s'
    by (intro running_inv [OF I]) (auto simp: co_goto_def pk_timer_def seen_def)
next
  case (CoLoad k)
  then have "s' = co_goto (if pk_state s then CoClear k else CoSwap k) s" using st by simp
  then show ?thesis using CoLoad by (intro plain_inv [OF I]) (simp_all add: same_shared_def co_goto_def)
next
  case (CoClear k)
  then have "s' = co_goto (check_park_ret k False) (s\<lparr>pk_state := False\<rparr>)" using st by simp
  then show ?thesis using CoClear by (intro plain_inv [OF I]) (simp_all add: same_shared_def co_goto_def plain_wait)
next
  case (CoSwap k)
  then have "s' = co_goto (check_park_ret k (\<not> pk_state s)) (s\<lparr>pk_state := False\<rparr>)" using st by simp
  then show ?thesis using CoSwap by (intro plain_inv [OF I]) (simp_all add: same_shared_def co_goto_def plain_wait)
next
  case CoPara
  then have "s' = co_goto CoIdle (s\<lparr>pk_para := PNone\<rparr>)" using st by simp
  then show ?thesis using CoPara by (intro plain_inv [OF I]) (simp_all add: same_shared_def co_goto_def)
qed (use st in simp_all)

text \<open>Taking the coroutine out of the slot.\<close>

lemma wake_slot_eq:
  "wake_slot p s = (if pk_slot s = None then s else s\<lparr>pk_slot := None, pk_ready := True, pk_para := (if p = PNone then pk_para s else p)\<rparr>)"
  by (cases "pk_slot s") (simp_all add: wake_slot_def ao_take_def)

lemma wake_slot_inv:
  assumes I: "pk_inv s" shows "pk_inv (wake_slot p s)"
proof (cases "pk_slot s")
  case (Some x)
  let ?s = "s\<lparr>pk_slot := None, pk_ready := True, pk_para := (if p = PNone then pk_para s else p)\<rparr>"
  have "pk_owner ?s" using pk_invD(1) [OF I] Some by (auto simp: pk_owner_def split: if_splits)
  moreover have "pk_wake ?s" "pk_canc ?s" using pk_invD(3) [OF I] by (simp_all add: pk_wake_def pk_canc_def)
  moreover have "pk_timer ?s" by (rule pk_timer_mono [OF pk_invD(4) [OF I]]) (simp_all add: seen_def)
  ultimately show ?thesis using Some by (simp add: wake_slot_eq pk_inv_def)
qed (use I in \<open>simp add: wake_slot_eq\<close>)

lemma wake_slot_frame [simp]:
  "pk_slot (wake_slot p s) = None" "pk_un (wake_slot p s) = pk_un s" "pk_cn (wake_slot p s) = pk_cn s"
  "pk_kern (wake_slot p s) = pk_kern s" "pk_cancel (wake_slot p s) = pk_cancel s" "pk_co (wake_slot p s) = pk_co s"
  "pk_timers (wake_slot p s) = pk_timers s" "pk_popped (wake_slot p s) = pk_popped s" "pk_missed (wake_slot p s) = pk_missed s"
  "pk_del (wake_slot p s) = pk_del s" "pk_fresh (wake_slot p s) = pk_fresh s" "pk_handle (wake_slot p s) = pk_handle s"
  "pk_timed (wake_slot p s) = pk_timed s" "pk_timeout (wake_slot p s) = pk_timeout s" "pk_can_drop (wake_slot p s) = pk_can_drop s"
  "pk_inline (wake_slot p s) = pk_inline s"
  by (simp_all add: wake_slot_eq)

text \<open>Unparkers, cancelers and timers.\<close>

lemma unpark_inv:
  assumes I: "pk_inv s" and st: "unpark_impl u s = Some s'" shows "pk_inv s'"
proof (cases "pk_un s u")
  case UnSwap
  then have s': "s' = un_goto u (if pk_state s then UnIdle else UnTake) (s\<lparr>pk_state := True\<rparr>)" using st by simp
  have "(\<exists>v. pk_un s' v = UnTake) \<longleftrightarrow> \<not> pk_state s \<or> (\<exists>v. pk_un s v = UnTake)"
    unfolding s' un_goto_def using ex_fun_upd [of "pk_un s" u UnTake] UnSwap by simp
  then have "pk_wake s'" using pk_invD(2) [OF I] unfolding pk_wake_def by (simp add: s' un_goto_def)
  moreover have "pk_owner s'" "pk_canc s'" "pk_timer s'"
    by (rule pk_owner_cong [OF pk_invD(1) [OF I]] pk_canc_cong [OF pk_invD(3) [OF I]] pk_timer_cong [OF pk_invD(4) [OF I]];
        simp add: s' un_goto_def seen_def)+
  ultimately show ?thesis by (simp add: pk_inv_def)
next
  case UnTake
  then have s': "s' = un_goto u UnIdle (wake_slot PNone s)" using st by simp
  note W = pk_invD [OF wake_slot_inv [OF I, of PNone]]
  have "pk_wake s'" by (simp add: pk_wake_def s' un_goto_def)
  moreover have "pk_owner s'" "pk_canc s'" "pk_timer s'"
    by (rule pk_owner_cong [OF W(1)] pk_canc_cong [OF W(3)] pk_timer_cong [OF W(4)]; simp add: s' un_goto_def seen_def)+
  ultimately show ?thesis by (simp add: pk_inv_def)
qed (use st in simp)

lemma cancel_or_frame: "cn_co (cancel_or c) = cn_co c"
  by (simp add: cancel_or_def)

lemma cancel_or_state: "cn_state c \<in> {0, 1} \<Longrightarrow> cn_state (cancel_or c) = 1"
  by (auto simp: cancel_or_def)

text \<open>Only the cancel data or the cancelers change.\<close>

lemma cancel_step_inv:
  assumes I: "pk_inv s" and s': "s' = s\<lparr>pk_cancel := c, pk_cn := cn\<rparr> \<or> s' = s\<lparr>pk_cn := cn\<rparr>" and c: "pk_canc s'"
  shows "pk_inv s'"
proof -
  have "pk_owner s'" "pk_wake s'" "pk_timer s'"
    by (rule pk_owner_cong [OF pk_invD(1) [OF I]] pk_wake_cong [OF pk_invD(2) [OF I]] pk_timer_cong [OF pk_invD(4) [OF I]];
        use s' in \<open>auto simp: seen_def\<close>)+
  with c show ?thesis by (simp add: pk_inv_def)
qed

lemma co_cancel_inv:
  assumes I: "pk_inv s" and st: "co_cancel u s = Some s'" shows "pk_inv s'"
proof (cases "pk_cn s u")
  case CnOr
  then have s': "s' = s\<lparr>pk_cancel := cancel_or (pk_cancel s), pk_cn := (pk_cn s)(u := CnTakeCo)\<rparr>" using st by (simp add: cn_goto_def)
  have o: "cn_state (cancel_or (pk_cancel s)) = 1" using pk_invD(3) [OF I] by (intro cancel_or_state) (simp add: pk_canc_def)
  have "canceling (pk_cn s')" "taking (pk_cn s') \<longleftrightarrow> taking (pk_cn s)"
    using ex_fun_upd [of "pk_cn s" u CnTakeSlot] CnOr by (auto simp: s' canceling_def taking_def)
  then have "pk_canc s'" using pk_invD(3) [OF I] o by (simp add: pk_canc_def s' cancel_or_frame)
  then show ?thesis by (rule cancel_step_inv [OF I disjI1 [OF s']])
next
  case CnTakeCo
  then have "canceling (pk_cn s)" by (auto simp: canceling_def)
  then have one: "cn_state (pk_cancel s) = 1" using pk_invD(3) [OF I] unfolding pk_canc_def by blast
  let ?q = "if cn_co (pk_cancel s) = None then CnIdle else CnTakeSlot"
  have s': "s' = s\<lparr>pk_cancel := (pk_cancel s)\<lparr>cn_co := None\<rparr>, pk_cn := (pk_cn s)(u := ?q)\<rparr>"
    using st CnTakeCo by (simp add: cn_goto_def cancel_take_def ao_take_def)
  have t: "taking (pk_cn s') \<longleftrightarrow> cn_co (pk_cancel s) \<noteq> None \<or> taking (pk_cn s)"
    using ex_fun_upd [of "pk_cn s" u CnTakeSlot] CnTakeCo by (simp add: s' taking_def)
  then have "canceling (pk_cn s')" if "cn_co (pk_cancel s) \<noteq> None \<or> taking (pk_cn s)" using that by (simp add: taking_def canceling_def)
  with t have "pk_canc s'" using pk_invD(3) [OF I] one unfolding pk_canc_def by (simp add: s')
  then show ?thesis by (rule cancel_step_inv [OF I disjI1 [OF s']])
next
  case CnTakeSlot
  then have s': "s' = (wake_slot PCanceled s)\<lparr>pk_cn := (pk_cn s)(u := CnIdle)\<rparr>"
    using st by (simp add: cn_goto_def)
  have "canceling (pk_cn s)" using CnTakeSlot by (auto simp: canceling_def)
  then have "pk_canc s'" using pk_invD(3) [OF I] by (simp add: s' pk_canc_def)
  then show ?thesis by (rule cancel_step_inv [OF wake_slot_inv [OF I] disjI2 [OF s']])
qed (use st in simp)

text \<open>Only the timers change.\<close>

lemma timer_step_inv:
  assumes I: "pk_inv s" and s': "s' = s\<lparr>pk_timers := a, pk_popped := b, pk_del := c, pk_missed := d\<rparr>" and t: "pk_timer s'"
  shows "pk_inv s'"
proof -
  have "pk_owner s'" "pk_wake s'" "pk_canc s'"
    by (rule pk_owner_cong [OF pk_invD(1) [OF I]] pk_wake_cong [OF pk_invD(2) [OF I]] pk_canc_cong [OF pk_invD(3) [OF I]]; simp add: s')+
  with t show ?thesis by (simp add: pk_inv_def)
qed

lemma timer_pop_inv:
  assumes I: "pk_inv s" and st: "timer_pop n s = Some s'" shows "pk_inv s'"
proof -
  have s': "s' = s\<lparr>pk_timers := pk_timers s - {n}, pk_popped := insert n (pk_popped s), pk_del := pk_del s, pk_missed := pk_missed s\<rparr>"
    and n: "n \<in> pk_timers s" using st by (auto simp: timer_pop_def split: if_splits)
  have "seen s' = seen s" using n by (auto simp: seen_def s')
  then have "pk_timer s'" by (intro pk_timer_cong [OF pk_invD(4) [OF I]]) (simp_all add: s')
  with s' show ?thesis by (rule timer_step_inv [OF I])
qed

lemma timer_unlink_inv:
  assumes I: "pk_inv s" and st: "timer_unlink n b s = Some s'" shows "pk_inv s'"
proof -
  have s': "s' = s\<lparr>pk_timers := (if b then pk_timers s - {n} else pk_timers s), pk_popped := pk_popped s, pk_del := pk_del s - {n},
      pk_missed := pk_missed s\<rparr>" and n: "n \<in> pk_del s" using st by (auto simp: timer_unlink_def split: if_splits)
  have "pk_timer s'" by (rule pk_timer_mono [OF pk_invD(4) [OF I]]) (use n in \<open>auto simp: s' seen_def\<close>)
  with s' show ?thesis by (rule timer_step_inv [OF I])
qed

lemma timer_fire_inv:
  assumes I: "pk_inv s" and st: "timer_event_handler n s = Some s'" shows "pk_inv s'"
proof -
  note W = pk_invD [OF wake_slot_inv [OF I, of PTimedOut]]
  have n: "n \<in> pk_popped s" and s': "s' = (wake_slot PTimedOut s)\<lparr>pk_popped := pk_popped s - {n},
       pk_missed := (if pk_slot s = None then insert n (pk_missed s) else pk_missed s)\<rparr>"
    using st by (auto simp: timer_event_handler_def split: if_splits)
  have h: "pk_slot s = None" if "holding (pk_kern s)" using pk_invD(1) [OF I] that by (auto simp: pk_owner_def split: if_splits)
  have "pk_timer s'"
  proof (cases "pk_slot s")
    case None
    then have "seen s' = seen s" using n by (auto simp: seen_def s')
    with None show ?thesis by (intro pk_timer_cong [OF pk_invD(4) [OF I]]) (simp_all add: s')
  next
    case (Some x)
    then have "\<not> holding (pk_kern s)" using h by auto
    with Some show ?thesis by (intro pk_timer_mono [OF pk_invD(4) [OF I]]) (auto simp: s' seen_def)
  qed
  moreover have "pk_owner s'" "pk_wake s'" "pk_canc s'"
    by (rule pk_owner_cong [OF W(1)] pk_wake_cong [OF W(2)] pk_canc_cong [OF W(3)]; simp add: s')+
  ultimately show ?thesis by (simp add: pk_inv_def)
qed

text \<open>The thread in \<^verbatim>\<open>subscribe\<close>: while it holds the coroutine, the slot is empty.\<close>

lemma holding_inv:
  assumes I: "pk_inv s" and h: "holding (pk_kern s)" and c: "pk_co s' = pk_co s" "pk_slot s' = None" "pk_ready s' = pk_ready s"
      "pk_cancel s' = pk_cancel s" "pk_cn s' = pk_cn s" "pk_inline s' = pk_inline s"
    and k: "holding (pk_kern s')" "pk_can_drop s' = (if guarded (pk_kern s') then 2 else 0)"
    and t: "pk_timer s'"
  shows "pk_inv s'"
proof -
  have o: "pk_co s = CoSusp" "\<not> pk_ready s" "\<not> pk_inline s"
    using pk_invD(1) [OF I] h by (auto simp: pk_owner_def split: if_splits)
  have n: "pk_kern s' \<notin> {KRun, KOr, KTakeCo, KTakeSlot}" using k(1) by auto
  have "pk_owner s'" using o c k n by (simp add: pk_owner_def)
  moreover have "pk_wake s'" using c by (simp add: pk_wake_def)
  moreover have "pk_canc s'" using pk_invD(3) [OF I] c n by (simp add: pk_canc_def)
  ultimately show ?thesis using t by (simp add: pk_inv_def)
qed

lemma subscribe_timer_inv:
  assumes I: "pk_inv s" and k: "pk_kern s = KTimer" and st: "subscribe s = Some s'" shows "pk_inv s'"
proof -
  have c: "pk_co s = CoSusp" and o: "pk_slot s = None" "pk_can_drop s = 0"
    using pk_invD(1) [OF I] k by (auto simp: pk_owner_def split: if_splits)
  have T: "pk_timeout s \<noteq> 0 \<longleftrightarrow> pk_timed s" and f: "\<forall>n \<in> seen s \<union> pk_del s. n < pk_fresh s"
    "\<forall>n. pk_handle s = Some n \<longrightarrow> n < pk_fresh s \<and> n \<notin> pk_del s"
    using pk_timerD(1,2,4) [OF pk_invD(4) [OF I]] k by simp_all
  show ?thesis
  proof (cases "pk_timeout s = 0")
    case True
    then have s': "s' = s\<lparr>pk_timeout := 0, pk_kern := KHandle None\<rparr>" using st k by (simp add: ad_take_def)
    have "pk_timer s'" using T f True c o unfolding pk_timer_def by (simp add: s' seen_def)
    then show ?thesis using o k by (intro holding_inv [OF I]) (simp_all add: s')
  next
    case False
    then have s': "s' = s\<lparr>pk_timeout := 0, pk_timers := insert (pk_fresh s) (pk_timers s), pk_fresh := Suc (pk_fresh s),
        pk_kern := KHandle (Some (pk_fresh s))\<rparr>" using st k by (simp add: ad_take_def)
    have "pk_fresh s \<notin> pk_del s" using f(1) by blast
    then have "pk_timer s'" using T f False c o unfolding pk_timer_def by (auto simp: s' seen_def less_Suc_eq)
    then show ?thesis using o k by (intro holding_inv [OF I]) (simp_all add: s')
  qed
qed

lemma subscribe_handle_inv:
  assumes I: "pk_inv s" and k: "pk_kern s = KHandle h" and st: "subscribe s = Some s'" shows "pk_inv s'"
proof -
  have s': "s' = s\<lparr>pk_handle := h, pk_kern := KGuard\<rparr>" using st k by simp
  have c: "pk_co s = CoSusp" and o: "pk_slot s = None" "pk_can_drop s = 0"
    using pk_invD(1) [OF I] k by (auto simp: pk_owner_def split: if_splits)
  have T: "h \<noteq> None \<longleftrightarrow> pk_timed s" "\<forall>n. h = Some n \<longrightarrow> n \<in> seen s \<and> n \<notin> pk_del s" and f: "\<forall>n \<in> seen s \<union> pk_del s. n < pk_fresh s"
    using pk_timerD(1,5,6) [OF pk_invD(4) [OF I]] k by simp_all
  have sn: "seen s' = seen s" by (simp add: s' seen_def)
  have "pk_timer s'" using T f c o unfolding pk_timer_def sn by (auto simp: s')
  then show ?thesis using o k by (intro holding_inv [OF I]) (simp_all add: s')
qed

text \<open>From the store of the coroutine on, the steps leave the timers alone.\<close>

lemma guarded_inv:
  assumes I: "pk_inv s" and k: "\<not> holding (pk_kern s)" "\<not> holding (pk_kern s')" "guarded (pk_kern s)"
    and t: "pk_timer s'" and o: "pk_co s' = pk_co s" "pk_slot s' = pk_slot s" "pk_ready s' = pk_ready s"
      "pk_inline s' \<Longrightarrow> pk_kern s' = KRun" "pk_kern s' = KRun \<Longrightarrow> pk_kern s = KRun"
    and d: "pk_can_drop s' = (if guarded (pk_kern s') then 2 else 0)" "guarded (pk_kern s') \<or> pk_kern s' = KOff"
    and w: "pk_wake s'" "pk_canc s'"
  shows "pk_inv s'"
proof -
  have "pk_owner s'" using pk_invD(1) [OF I] k o d unfolding pk_owner_def by (auto split: if_splits)
  with t w show ?thesis by (simp add: pk_inv_def)
qed

lemma subscribe_inv:
  assumes I: "pk_inv s" and st: "subscribe s = Some s'" shows "pk_inv s'"
proof (cases "pk_kern s")
  case KTimer
  then show ?thesis using subscribe_timer_inv [OF I _ st] by simp
next
  case (KHandle h)
  then show ?thesis using subscribe_handle_inv [OF I _ st] by simp
next
  case KGuard
  then have s': "s' = s\<lparr>pk_can_drop := 2, pk_kern := KStore\<rparr>" using st by (simp add: dd_delay_def)
  have sl: "pk_slot s = None" using pk_invD(1) [OF I] KGuard by (auto simp: pk_owner_def split: if_splits)
  have "pk_timer s'" using pk_invD(4) [OF I] KGuard unfolding pk_timer_def seen_def by (simp add: s')
  then show ?thesis using sl KGuard by (intro holding_inv [OF I]) (simp_all add: s')
next
  case KStore
  then have s': "s' = s\<lparr>pk_slot := Some Co, pk_kern := KState\<rparr>" using st by (simp add: ao_defs)
  have o: "pk_co s = CoSusp" using pk_invD(1) [OF I] KStore by (auto simp: pk_owner_def split: if_splits)
  have "pk_owner s'" using pk_invD(1) [OF I] o KStore by (auto simp: pk_owner_def s')
  moreover have "pk_wake s'" by (simp add: pk_wake_def s')
  moreover have "pk_canc s'" using pk_invD(3) [OF I] by (simp add: pk_canc_def s')
  moreover have "pk_timer s'" using pk_invD(4) [OF I] KStore o unfolding pk_timer_def seen_def by (simp add: s')
  ultimately show ?thesis by (simp add: pk_inv_def)
next
  case KState
  then have s': "s' = s\<lparr>pk_kern := if pk_state s then KTake else KSetCo\<rparr>" using st by simp
  have d: "pk_can_drop s = 2" "\<not> pk_inline s" using pk_invD(1) [OF I] KState by (auto simp: pk_owner_def)
  have "pk_wake s'" "pk_canc s'" using pk_invD(2,3) [OF I] KState by (auto simp: pk_wake_def pk_canc_def s')
  moreover have "pk_timer s'" using pk_invD(4) [OF I] KState unfolding pk_timer_def seen_def by (simp add: s')
  ultimately show ?thesis using KState d by (intro guarded_inv [OF I]) (simp_all add: s' split: if_splits)
next
  case KTake
  show ?thesis
  proof (cases "pk_slot s")
    case None
    then have s': "s' = s\<lparr>pk_slot := None, pk_kern := KUnguard\<rparr>" using st KTake by (simp add: ao_defs)
    have d: "pk_can_drop s = 2" "\<not> pk_inline s" using pk_invD(1) [OF I] KTake by (auto simp: pk_owner_def)
    have "pk_wake s'" "pk_canc s'" using pk_invD(2,3) [OF I] None by (auto simp: pk_wake_def pk_canc_def s')
    moreover have "pk_timer s'" using pk_invD(4) [OF I] None KTake unfolding pk_timer_def seen_def by (simp add: s')
    ultimately show ?thesis using KTake d None by (intro guarded_inv [OF I]) (simp_all add: s' split: if_splits)
  next
    case (Some x)
    then have s': "s' = co_goto CoBack (s\<lparr>pk_slot := None, pk_kern := KRun, pk_inline := True\<rparr>)" using st KTake by (simp add: ao_defs)
    have "pk_owner s'" using pk_invD(1) [OF I] Some KTake by (auto simp: pk_owner_def s' co_goto_def split: if_splits)
    moreover have "pk_wake s'" "pk_canc s'" using pk_invD(2,3) [OF I] by (auto simp: pk_wake_def pk_canc_def s' co_goto_def)
    moreover have "pk_timer s'" using pk_invD(4) [OF I] KTake unfolding pk_timer_def seen_def by (simp add: s' co_goto_def)
    ultimately show ?thesis by (simp add: pk_inv_def)
  qed
next
  case KRun
  then have s': "s' = s\<lparr>pk_kern := KUnguard\<rparr>" and i: "\<not> pk_inline s" using st by (auto split: if_splits)
  have d: "pk_can_drop s = 2" "pk_slot s = None" using pk_invD(1) [OF I] KRun by (auto simp: pk_owner_def split: if_splits)
  have "pk_wake s'" "pk_canc s'" using pk_invD(2,3) [OF I] d by (auto simp: pk_wake_def pk_canc_def s')
  moreover have "pk_timer s'" using pk_invD(4) [OF I] KRun unfolding pk_timer_def seen_def by (simp add: s')
  ultimately show ?thesis using KRun d i by (intro guarded_inv [OF I]) (simp_all add: s' split: if_splits)
next
  case KSetCo
  then have s': "s' = s\<lparr>pk_cancel := set_co 0 (pk_cancel s), pk_kern := KCanceled\<rparr>" using st by simp
  have d: "pk_can_drop s = 2" "\<not> pk_inline s" using pk_invD(1) [OF I] KSetCo by (auto simp: pk_owner_def)
  have "pk_wake s'" "pk_canc s'" using pk_invD(2,3) [OF I] KSetCo by (auto simp: pk_wake_def pk_canc_def s' set_co_def ao_defs)
  moreover have "pk_timer s'" using pk_invD(4) [OF I] KSetCo unfolding pk_timer_def seen_def by (simp add: s')
  ultimately show ?thesis using KSetCo d by (intro guarded_inv [OF I]) (simp_all add: s' split: if_splits)
next
  case KCanceled
  then have s': "s' = s\<lparr>pk_kern := if is_canceled (pk_cancel s) then KOr else KUnguard\<rparr>" using st by simp
  have d: "pk_can_drop s = 2" "\<not> pk_inline s" using pk_invD(1) [OF I] KCanceled by (auto simp: pk_owner_def)
  have "pk_wake s'" "pk_canc s'" using pk_invD(2,3) [OF I] KCanceled by (auto simp: pk_wake_def pk_canc_def s' is_canceled_def)
  moreover have "pk_timer s'" using pk_invD(4) [OF I] KCanceled unfolding pk_timer_def seen_def by (simp add: s')
  ultimately show ?thesis using KCanceled d by (intro guarded_inv [OF I]) (simp_all add: s' split: if_splits)
next
  case KOr
  then have s': "s' = s\<lparr>pk_cancel := cancel_or (pk_cancel s), pk_kern := KTakeCo\<rparr>" using st by simp
  have d: "pk_can_drop s = 2" "\<not> pk_inline s" using pk_invD(1) [OF I] KOr by (auto simp: pk_owner_def)
  have "cn_state (cancel_or (pk_cancel s)) = 1" using pk_invD(3) [OF I] by (intro cancel_or_state) (simp add: pk_canc_def)
  then have "pk_wake s'" "pk_canc s'" using pk_invD(2,3) [OF I] KOr by (auto simp: pk_wake_def pk_canc_def s' cancel_or_frame)
  moreover have "pk_timer s'" using pk_invD(4) [OF I] KOr unfolding pk_timer_def seen_def by (simp add: s')
  ultimately show ?thesis using KOr d by (intro guarded_inv [OF I]) (simp_all add: s' split: if_splits)
next
  case KTakeCo
  then have s': "s' = s\<lparr>pk_cancel := (pk_cancel s)\<lparr>cn_co := None\<rparr>, pk_kern := if cn_co (pk_cancel s) = None then KUnguard else KTakeSlot\<rparr>"
    using st by (simp add: cancel_take_def ao_defs)
  have d: "pk_can_drop s = 2" "\<not> pk_inline s" using pk_invD(1) [OF I] KTakeCo by (auto simp: pk_owner_def)
  have "canceling (pk_cn s)" if "taking (pk_cn s)" using that by (simp add: canceling_def taking_def)
  then have "pk_wake s'" "pk_canc s'" using pk_invD(2,3) [OF I] KTakeCo by (auto simp: pk_wake_def pk_canc_def s')
  moreover have "pk_timer s'" using pk_invD(4) [OF I] KTakeCo unfolding pk_timer_def seen_def by (simp add: s')
  ultimately show ?thesis using KTakeCo d by (intro guarded_inv [OF I]) (simp_all add: s' split: if_splits)
next
  case KTakeSlot
  then have s': "s' = (wake_slot PCanceled s)\<lparr>pk_kern := KUnguard\<rparr>" using st by simp
  note W = pk_invD [OF wake_slot_inv [OF I, of PCanceled]]
  have d: "pk_can_drop s = 2" "\<not> pk_inline s" using pk_invD(1) [OF I] KTakeSlot by (auto simp: pk_owner_def)
  have "pk_wake s'" "pk_canc s'" using W(2,3) by (auto simp: pk_wake_def pk_canc_def s')
  moreover have "pk_timer s'" using W(4) KTakeSlot unfolding pk_timer_def seen_def by (simp add: s')
  ultimately show ?thesis using KTakeSlot d by (intro guarded_inv [OF wake_slot_inv [OF I, of PCanceled]]) (simp_all add: s')
next
  case KUnguard
  then have s': "s' = s\<lparr>pk_can_drop := 0, pk_kern := KOff\<rparr>" using st pk_invD(1) [OF I] by (simp add: dd_guard_drop_def pk_owner_def)
  have d: "\<not> pk_inline s" using pk_invD(1) [OF I] KUnguard by (auto simp: pk_owner_def)
  have "pk_wake s'" "pk_canc s'" using pk_invD(2,3) [OF I] KUnguard by (auto simp: pk_wake_def pk_canc_def s')
  moreover have "pk_timer s'" using pk_invD(4) [OF I] KUnguard unfolding pk_timer_def seen_def by (simp add: s')
  ultimately show ?thesis using KUnguard d by (intro guarded_inv [OF I]) (simp_all add: s' split: if_splits)
qed (use st in simp)

text \<open>The calls.\<close>

lemma call_unpark_inv:
  assumes I: "pk_inv s" and u: "pk_un s u = UnIdle" shows "pk_inv (un_goto u UnSwap s)" (is "pk_inv ?s")
proof -
  have "(\<exists>v. pk_un ?s v = UnTake) \<longleftrightarrow> (\<exists>v. pk_un s v = UnTake)"
    unfolding un_goto_def using ex_fun_upd [of "pk_un s" u UnTake UnSwap] u by simp
  then have "pk_wake ?s" using pk_invD(2) [OF I] unfolding pk_wake_def by (simp add: un_goto_def)
  moreover have "pk_owner ?s" "pk_canc ?s" "pk_timer ?s"
    by (rule pk_owner_cong [OF pk_invD(1) [OF I]] pk_canc_cong [OF pk_invD(3) [OF I]] pk_timer_cong [OF pk_invD(4) [OF I]];
        simp add: un_goto_def seen_def)+
  ultimately show ?thesis by (simp add: pk_inv_def)
qed

lemma call_cancel_inv:
  assumes I: "pk_inv s" and u: "pk_cn s u = CnIdle" shows "pk_inv (cn_goto u CnOr s)" (is "pk_inv ?s")
proof -
  have s': "?s = s\<lparr>pk_cn := (pk_cn s)(u := CnOr)\<rparr>" by (simp add: cn_goto_def)
  have "canceling (pk_cn ?s) \<longleftrightarrow> canceling (pk_cn s)" "taking (pk_cn ?s) \<longleftrightarrow> taking (pk_cn s)"
    using ex_fun_upd [of "pk_cn s" u CnTakeSlot CnOr] ex_fun_upd [of "pk_cn s" u CnTakeCo CnOr] u
    by (simp_all add: s' canceling_def taking_def)
  then have "pk_canc ?s" using pk_invD(3) [OF I] unfolding pk_canc_def by (simp add: cn_goto_def)
  then show ?thesis by (rule cancel_step_inv [OF I disjI2 [OF s']])
qed

lemma resume_inv:
  assumes I: "pk_inv s" and r: "pk_ready s" shows "pk_inv (co_goto CoBack (s\<lparr>pk_ready := False\<rparr>))" (is "pk_inv ?s")
proof -
  have o: "pk_co s = CoSusp" "\<not> holding (pk_kern s)" "pk_slot s = None"
    using pk_invD(1) [OF I] r by (auto simp: pk_owner_def split: if_splits)
  have "pk_owner ?s" using pk_invD(1) [OF I] o by (auto simp: pk_owner_def co_goto_def)
  moreover have "pk_wake ?s" "pk_canc ?s" using pk_invD(3) [OF I] o by (simp_all add: pk_wake_def pk_canc_def co_goto_def)
  moreover have "pk_timer ?s" using pk_timerD [OF pk_invD(4) [OF I]] o unfolding pk_timer_def seen_def by (simp add: co_goto_def)
  ultimately show ?thesis by (simp add: pk_inv_def)
qed

lemma pk_next_inv:
  assumes I: "pk_inv s" and st: "pk_next m a s = Some s'" shows "pk_inv s'"
proof (cases a)
  case (Finish b)
  then show ?thesis using st by (intro plain_inv [OF I]) (auto simp: co_goto_def same_shared_def split: if_splits)
next
  case Resume
  then show ?thesis using st resume_inv [OF I] by (auto split: if_splits)
next
  case (CallUnpark u)
  then show ?thesis using st call_unpark_inv [OF I] by (auto split: if_splits)
next
  case (CallCancel u)
  then show ?thesis using st call_cancel_inv [OF I] by (auto split: if_splits)
next
  case CoRun
  then show ?thesis using st park_timeout_inv [OF I] by (simp del: park_timeout.simps)
next
  case Kernel
  then show ?thesis using st subscribe_inv [OF I] by (simp del: subscribe.simps)
next
  case (Unparker u)
  then show ?thesis using st unpark_inv [OF I] by (simp del: unpark_impl.simps)
next
  case (Canceler u)
  then show ?thesis using st co_cancel_inv [OF I] by (simp del: co_cancel.simps)
qed (use st timer_pop_inv [OF I] timer_fire_inv [OF I] timer_unlink_inv [OF I] in
    \<open>auto simp: co_goto_def ignore_cancel_def same_shared_def split: if_splits intro!: plain_inv [OF I]\<close>)

interpretation pk: invariant_system pk_start "pk_step m" pk_inv for m
  by unfold_locales (auto simp: pk_start_def pk_inv_new pk_step_def intro: pk_next_inv)

lemma pk_acts_reach: "run_acts (pk_next m) as park_new = Some s \<Longrightarrow> reach pk_start (pk_step m) s"
  by (rule run_acts_reach [of "pk_next m", OF _ _ reach_start]) (auto simp: pk_step_def pk_start_def)

section \<open>Properties\<close>

text \<open>
  C5: a suspended coroutine has exactly one owner. In every interleaving of \<^verbatim>\<open>park_timeout\<close>, \<^verbatim>\<open>subscribe\<close>, unparkers, cancelers and timers, the
  coroutine is suspended exactly if one of these holds it: the thread in \<^verbatim>\<open>subscribe\<close>, the slot, or the one who took it out of the slot to resume it; so it is
  never resumed twice. The kernel flag is 2 exactly while the guard lives, a new wait starts only after the previous \<^verbatim>\<open>subscribe\<close> has
  ended, and a dropped parker is not used by it.
\<close>

theorem park_single_owner:
  assumes "reach pk_start (pk_step m) s"
  shows "length (filter id [holding (pk_kern s), pk_slot s \<noteq> None, pk_ready s]) = (if pk_co s = CoSusp then 1 else 0) \<and>
    (pk_can_drop s = 2 \<longleftrightarrow> guarded (pk_kern s)) \<and> (pk_co s \<in> {CoYield, CoGone} \<longrightarrow> pk_kern s = KOff)"
  using pk_invD(1) [OF pk.inv_reach [OF assms]] by (auto simp: pk_owner_def split: if_splits)

text \<open>No thread is inside a call on the parker and no timer is being handled.\<close>

definition pk_quiet :: "cpark \<Rightarrow> bool" where
  "pk_quiet s \<longleftrightarrow> pk_kern s = KOff \<and> \<not> pk_ready s \<and> pk_un s = (\<lambda>_. UnIdle) \<and> pk_cn s = (\<lambda>_. CnIdle) \<and> pk_popped s = {}"

text \<open>
  C7: no wake-up is lost. When the coroutine is suspended and no other thread is active on the parker, the coroutine is in the slot, no \<^verbatim>\<open>unpark\<close> is pending,
  the coroutine is not canceled, and the timer of a wait with a timeout is still set and not asked to be removed, unless its handler ran before the coroutine was put into the slot.
\<close>

theorem park_no_lost_wakeup:
  assumes "reach pk_start (pk_step m) s" and "pk_co s = CoSusp" and "pk_quiet s"
  shows "pk_slot s = Some Co \<and> \<not> pk_state s \<and> \<not> is_canceled (pk_cancel s) \<and>
    (pk_timed s \<longrightarrow> (\<exists>n. pk_handle s = Some n \<and> n \<notin> pk_del s \<and> (n \<in> pk_timers s \<or> n \<in> pk_missed s)))"
proof -
  note I = pk_invD [OF pk.inv_reach [OF assms(1)]]
  have q: "pk_kern s = KOff" "\<not> pk_ready s" "pk_un s = (\<lambda>_. UnIdle)" "pk_cn s = (\<lambda>_. CnIdle)" "pk_popped s = {}"
    using assms(3) by (simp_all add: pk_quiet_def)
  have sl: "pk_slot s \<noteq> None" using I(1) assms(2) q by (auto simp: pk_owner_def)
  then have "pk_slot s = Some Co" by (metis coroutine_impl.exhaust not_None_eq)
  moreover have "\<not> pk_state s" using I(2) sl q by (simp add: pk_wake_def)
  moreover have "\<not> is_canceled (pk_cancel s)" using I(3) sl q by (simp add: pk_canc_def canceling_def is_canceled_def)
  moreover have "\<exists>n. pk_handle s = Some n \<and> n \<notin> pk_del s \<and> (n \<in> pk_timers s \<or> n \<in> pk_missed s)" if tm: "pk_timed s"
  proof -
    obtain n where n: "pk_handle s = Some n" using pk_timerD(7) [OF I(4)] tm assms(2) q by auto
    then show ?thesis using pk_timerD(2,8) [OF I(4)] sl q by (auto simp: seen_def)
  qed
  ultimately show ?thesis by blast
qed

text \<open>
  C22: a timeout can be lost. \<^verbatim>\<open>subscribe\<close> sets the timer before it puts the coroutine into the slot. If the timer expires in
  between, its handler finds the slot empty; the coroutine is then stored and stays suspended although its timeout is over: no timer is
  left, and nothing is in progress.
\<close>

theorem park_timeout_lost:
  "\<exists>s. reach pk_start (pk_step 1) s \<and> pk_co s = CoSusp \<and> pk_quiet s \<and> pk_slot s = Some Co \<and> pk_timed s \<and>
     pk_timers s = {} \<and> pk_handle s = Some 0 \<and> 0 \<in> pk_missed s"
proof -
  let ?as = "[CallPark (Some 5000000), CoRun, CoRun, CoRun, CoRun, CoRun, Kernel, TimerPop 0, TimerFire 0,
    Kernel, Kernel, Kernel, Kernel, Kernel, Kernel, Kernel]"
  have e: "encode (Some 5000000) \<noteq> 0" by (rule encode_unat(1))
  obtain s where r: "run_acts (pk_next 1) ?as park_new = Some s" and p: "pk_co s = CoSusp" "pk_kern s = KOff" "\<not> pk_ready s"
      "pk_un s = (\<lambda>_. UnIdle)" "pk_cn s = (\<lambda>_. CnIdle)" "pk_popped s = {}" "pk_slot s = Some Co" "pk_timed s" "pk_timers s = {}"
      "pk_handle s = Some 0" "pk_missed s = {0}"
    using e by (simp add: park_new_def co_goto_def ao_defs dd_new_def ad_store_def ad_take_def cancel_new_def is_canceled_def
        timer_pop_def timer_event_handler_def wake_slot_def dd_delay_def dd_guard_drop_def set_co_def)
  from pk_acts_reach [OF r] p show ?thesis by (auto simp: pk_quiet_def)
qed

text \<open>The coroutine has ended on the stack of the thread in \<^verbatim>\<open>subscribe\<close>, and the drop of the parker waits for this thread.\<close>

definition drop_stuck :: "cpark \<Rightarrow> bool" where
  "drop_stuck s \<longleftrightarrow> pk_co s = CoWait (ToDrop False) \<and> pk_kern s = KRun \<and> pk_inline s \<and> pk_can_drop s = 2 \<and>
     pk_slot s = None \<and> \<not> pk_ready s"

lemma drop_stuck_step:
  assumes d: "drop_stuck s" and st: "pk_next m a s = Some s'" shows "drop_stuck s'"
proof -
  have w: "wake_slot p s = s" for p using d by (simp add: wake_slot_eq drop_stuck_def)
  show ?thesis using st d
    by (cases a) (auto simp: drop_stuck_def wait_yield_def un_goto_def cn_goto_def timer_pop_def timer_unlink_def timer_event_handler_def
        Let_def w split: if_splits upc.splits ccpc.splits prod.splits)
qed

lemma drop_stuck_steps: "(pk_step m)\<^sup>*\<^sup>* s s' \<Longrightarrow> drop_stuck s \<Longrightarrow> drop_stuck s'"
  by (induction rule: rtranclp_induct) (auto simp: pk_step_def intro: drop_stuck_step)

text \<open>
  C23: the drop of a parker can wait for ever. An \<^verbatim>\<open>unpark\<close> that comes between the check of \<^verbatim>\<open>park_timeout\<close> and the check of \<^verbatim>\<open>subscribe\<close> makes
  \<^verbatim>\<open>fast_wake_up\<close> run the coroutine on the stack of \<^verbatim>\<open>subscribe\<close>, which still holds the guard. If the coroutine ends now and its handle is the last one, the drop of
  the parker in it waits for the guard, which is released only when the coroutine returns: in all continuations the thread spins in this loop.
\<close>

theorem park_drop_waits_for_itself:
  "\<exists>s. reach pk_start (pk_step 1) s \<and> {s'. (pk_step 1)\<^sup>*\<^sup>* s s'} \<subseteq> {s'. pk_co s' = CoWait (ToDrop False) \<and> pk_kern s' = KRun \<and> pk_can_drop s' = 2}"
proof -
  let ?as = "[CallPark None, CoRun, CoRun, CoRun, CoRun, CoRun, Kernel, Kernel, Kernel,
    CallUnpark 0, Unparker 0, Unparker 0, Kernel, Kernel, Kernel, CoRun, CoRun, CoRun, CoRun, CoRun, Finish True]"
  obtain s where r: "run_acts (pk_next 1) ?as park_new = Some s" and d: "drop_stuck s"
    by (simp add: park_new_def co_goto_def ao_defs dd_new_def ad_store_def ad_take_def cancel_new_def is_canceled_def
        wake_slot_def dd_delay_def un_goto_def encode_def co_check_cancel_def drop_stuck_def)
  have "{s'. (pk_step 1)\<^sup>*\<^sup>* s s'} \<subseteq> {s'. pk_co s' = CoWait (ToDrop False) \<and> pk_kern s' = KRun \<and> pk_can_drop s' = 2}"
    using drop_stuck_steps [OF _ d] by (auto simp: drop_stuck_def)
  with pk_acts_reach [OF r] show ?thesis by blast
qed

text \<open>A coroutine parked with a timeout of 5 ms.\<close>

lemma parked_5ms:
  "\<exists>s. reach pk_start (pk_step 1) s \<and> pk_co s = CoSusp \<and> pk_quiet s \<and> pk_timed s \<and> pk_missed s = {}"
proof -
  let ?as = "[CallPark (Some 5000000), CoRun, CoRun, CoRun, CoRun, CoRun, Kernel, Kernel, Kernel, Kernel, Kernel, Kernel, Kernel, Kernel]"
  have e: "encode (Some 5000000) \<noteq> 0" by (rule encode_unat(1))
  obtain s where r: "run_acts (pk_next 1) ?as park_new = Some s" and p: "pk_co s = CoSusp" "pk_kern s = KOff" "\<not> pk_ready s"
      "pk_un s = (\<lambda>_. UnIdle)" "pk_cn s = (\<lambda>_. CnIdle)" "pk_popped s = {}" "pk_timed s" "pk_missed s = {}"
    using e by (simp add: park_new_def co_goto_def ao_defs dd_new_def ad_store_def ad_take_def cancel_new_def is_canceled_def
        dd_delay_def dd_guard_drop_def set_co_def)
  from pk_acts_reach [OF r] p show ?thesis by (auto simp: pk_quiet_def)
qed

theorem park_single_owner_witness:
  "\<exists>s. reach pk_start (pk_step 1) s \<and> pk_co s = CoSusp \<and> length (filter id [holding (pk_kern s), pk_slot s \<noteq> None, pk_ready s]) = 1"
proof -
  obtain s where r: "reach pk_start (pk_step 1) s" "pk_co s = CoSusp" using parked_5ms by blast
  have "length (filter id [holding (pk_kern s), pk_slot s \<noteq> None, pk_ready s]) = 1"
    using conjunct1 [OF park_single_owner [OF r(1)]] r(2) by (simp only: simp_thms if_True)
  with r show ?thesis by blast
qed

theorem park_no_lost_wakeup_witness:
  "\<exists>s n. reach pk_start (pk_step 1) s \<and> pk_co s = CoSusp \<and> pk_slot s = Some Co \<and> pk_handle s = Some n \<and> n \<in> pk_timers s"
proof -
  obtain s where r: "reach pk_start (pk_step 1) s" "pk_co s = CoSusp" "pk_quiet s" "pk_timed s" "pk_missed s = {}" using parked_5ms by blast
  from park_no_lost_wakeup [OF r(1-3)] r show ?thesis by blast
qed

end
