(* ===== verification/Scheduler.thy ===== *)
theory Scheduler
  imports Prelude "HOL-Library.Multiset"
begin

text \<open>
  The scheduler, \<^verbatim>\<open>src/scheduler.rs\<close>, with the event loop of its workers (\<^verbatim>\<open>src/io/event_loop.rs\<close> and \<^verbatim>\<open>select\<close> of
  \<^verbatim>\<open>src/io/sys/unix/epoll.rs\<close>), built with the default features, as a transition system: any number of workers and other threads, the local and
  global run queues, the slots in which suspended coroutines wait, and one event descriptor per worker. The queues are the lists that
  \<open>Spmc_Queue\<close> and \<open>Mpsc_Queue\<close> refine, and every access to one of them, to a slot or to a descriptor is one step. What a
  coroutine does is arbitrary: it may schedule others, spawn, run another one on its own stack, yield, wait in a slot, and end.
\<close>

section \<open>State\<close>

text \<open>What \<^verbatim>\<open>epoll_wait\<close> reports: the event descriptor, or a file descriptor with its \<^verbatim>\<open>EventData\<close>, given by its slot.\<close>

datatype event = Wakeup | Ready nat

text \<open>\<^verbatim>\<open>collect_global\<close> is called from the loop over the events and from \<^verbatim>\<open>run_queued_tasks\<close>.\<close>

datatype ckont = KEvents "event list" | KTasks

text \<open>A worker runs coroutines in \<^verbatim>\<open>run_queued_tasks\<close>, and in the handler of an I/O timeout.\<close>

datatype rkont = KWork | KTimers

datatype wpc =
    WSelect               \<comment> \<open>before \<^verbatim>\<open>select\<close>\<close>
  | WWait                 \<comment> \<open>in \<^verbatim>\<open>epoll.wait\<close>\<close>
  | WEvents "event list"  \<comment> \<open>the loop over the events\<close>
  | WIoPush "event list"  \<comment> \<open>before \<^verbatim>\<open>schedule_with_id\<close> of this loop\<close>
  | WCollect ckont        \<comment> \<open>\<^verbatim>\<open>collect_global\<close>: before \<^verbatim>\<open>global.bulk_pop()\<close>\<close>
  | WBatch ckont          \<comment> \<open>the loop over the popped coroutines\<close>
  | WPop                  \<comment> \<open>\<^verbatim>\<open>run_queued_tasks\<close>: before \<^verbatim>\<open>local.pop()\<close>\<close>
  | WHas                  \<comment> \<open>before \<^verbatim>\<open>local.has_tasks()\<close>\<close>
  | WSteal nat            \<comment> \<open>before the \<^verbatim>\<open>bulk_pop\<close> of \<^verbatim>\<open>steal_into\<close>\<close>
  | WStolen               \<comment> \<open>the loop over the stolen coroutines\<close>
  | WRun rkont            \<comment> \<open>in \<^verbatim>\<open>run_coroutine\<close>\<close>
  | WTimers               \<comment> \<open>in \<^verbatim>\<open>schedule_timer\<close>\<close>
  | WDead                 \<comment> \<open>the thread has panicked\<close>

text \<open>A call of \<^verbatim>\<open>schedule\<close>, \<^verbatim>\<open>schedule_global\<close> or \<^verbatim>\<open>schedule_global_with_id\<close>.\<close>

datatype call =
    NoCall
  | CSched                \<comment> \<open>before \<^verbatim>\<open>WORKER_ID.get()\<close>\<close>
  | CFetch                \<comment> \<open>before \<^verbatim>\<open>NEXT_THREAD_ID.fetch_add\<close>\<close>
  | CPush nat             \<comment> \<open>before \<^verbatim>\<open>global.push(co)\<close>\<close>
  | CWake nat             \<comment> \<open>before \<^verbatim>\<open>wakeup(thread_id)\<close>\<close>

text \<open>
  Threads are numbered, the workers first; a coroutine is a number as well. \<open>sd_stack\<close> are the coroutines that run on the stack of a
  thread, the current one first, and \<open>sd_var\<close> those in local variables of the functions above. \<open>sd_fault\<close> is set by an access out of the
  bounds of a vector. \<open>sd_late\<close> is ghost: a coroutine has run in the handler of an I/O timeout since the worker last looked for work.
\<close>

record sched =
  sd_workers :: nat
  sd_local :: "nat list list"
  sd_global :: "nat list list"
  sd_evfd :: "nat list"
  sd_next :: "64 word"
  sd_slots :: "nat option list"
  sd_done :: "nat list"
  sd_fresh :: nat
  sd_stack :: "nat list list"
  sd_var :: "nat list list"
  sd_call :: "nat \<Rightarrow> call"
  sd_pc :: "nat \<Rightarrow> wpc"
  sd_expire :: "nat \<Rightarrow> nat option"
  sd_fault :: bool
  sd_late :: "nat \<Rightarrow> bool"

text \<open>\<^verbatim>\<open>Scheduler::new\<close> and the start of the workers, with \<open>m\<close> threads and \<open>q\<close> slots.\<close>

definition sched_new :: "nat \<Rightarrow> nat \<Rightarrow> nat \<Rightarrow> sched" where
  "sched_new workers m q = \<lparr>sd_workers = workers, sd_local = replicate workers [], sd_global = replicate workers [],
     sd_evfd = replicate workers 0, sd_next = 0, sd_slots = replicate q None, sd_done = [], sd_fresh = 0,
     sd_stack = replicate m [], sd_var = replicate m [], sd_call = (\<lambda>_. NoCall), sd_pc = (\<lambda>_. WSelect), sd_expire = (\<lambda>_. None),
     sd_fault = False, sd_late = (\<lambda>_. False)\<rparr>"

section \<open>Accesses\<close>

definition checked :: "nat \<Rightarrow> 'a list \<Rightarrow> sched \<Rightarrow> sched \<Rightarrow> sched" where
  "checked i xs s s' = (if i < length xs then s' else s\<lparr>sd_fault := True\<rparr>)"

definition at_pc :: "nat \<Rightarrow> wpc \<Rightarrow> sched \<Rightarrow> sched" where
  "at_pc w p s = s\<lparr>sd_pc := (sd_pc s)(w := p)\<rparr>"

definition at_call :: "nat \<Rightarrow> call \<Rightarrow> sched \<Rightarrow> sched" where
  "at_call a p s = s\<lparr>sd_call := (sd_call s)(a := p)\<rparr>"

definition set_var :: "nat \<Rightarrow> nat list \<Rightarrow> sched \<Rightarrow> sched" where
  "set_var a v s = s\<lparr>sd_var := (sd_var s)[a := v]\<rparr>"

text \<open>\<^verbatim>\<open>run_coroutine(co)\<close> puts the coroutine on the stack of the thread.\<close>

definition run_coroutine :: "nat \<Rightarrow> nat \<Rightarrow> sched \<Rightarrow> sched" where
  "run_coroutine a co s = s\<lparr>sd_stack := (sd_stack s)[a := co # sd_stack s ! a]\<rparr>"

definition slot_take :: "nat \<Rightarrow> sched \<Rightarrow> nat option \<times> sched" where
  "slot_take d s = (if d < length (sd_slots s) then (sd_slots s ! d, s\<lparr>sd_slots := (sd_slots s)[d := None]\<rparr>) else (None, s))"

text \<open>The first \<open>k + 1\<close> elements of a queue, or all of them.\<close>

definition bulk_pop :: "nat \<Rightarrow> nat list \<Rightarrow> nat list \<times> nat list" where
  "bulk_pop k xs = (take (Suc k) xs, drop (Suc k) xs)"

section \<open>Scheduling\<close>

definition schedule_with_id :: "nat \<Rightarrow> nat \<Rightarrow> sched \<Rightarrow> sched" where
  "schedule_with_id co w s = checked w (sd_local s) s (s\<lparr>sd_local := (sd_local s)[w := sd_local s ! w @ [co]]\<rparr>)"

text \<open>\<^verbatim>\<open>Selector::wakeup\<close>: the write adds 1 to the counter of the descriptor, and fails if it is full.\<close>

definition wakeup :: "nat \<Rightarrow> sched \<Rightarrow> sched" where
  "wakeup w s = checked w (sd_evfd s) s
     (s\<lparr>sd_evfd := (sd_evfd s)[w := (if sd_evfd s ! w < 2 ^ 64 - 2 then sd_evfd s ! w + 1 else sd_evfd s ! w)]\<rparr>)"

text \<open>
  \<^verbatim>\<open>schedule_global\<close>; \<^verbatim>\<open>schedule_global_with_id\<close> joins it where the queue is known. In \<^verbatim>\<open>schedule\<close> the threads below \<open>sd_workers\<close> have set their
  \<^verbatim>\<open>WORKER_ID\<close>.
\<close>

fun schedule_global :: "nat \<Rightarrow> sched \<Rightarrow> sched option" where
  "schedule_global a s = (case sd_call s a of
     CFetch \<Rightarrow> Some (at_call a (CPush (unat (sd_next s) mod sd_workers s)) (s\<lparr>sd_next := sd_next s + 1\<rparr>))
   | CPush i \<Rightarrow> Some (at_call a (CWake i) (set_var a [] (checked i (sd_global s) s
       (s\<lparr>sd_global := (sd_global s)[i := sd_global s ! i @ [hd (sd_var s ! a)]]\<rparr>))))
   | CWake i \<Rightarrow> Some (at_call a NoCall (wakeup i s))
   | _ \<Rightarrow> None)"

definition schedule_global_with_id :: "nat \<Rightarrow> nat \<Rightarrow> sched \<Rightarrow> sched" where
  "schedule_global_with_id a tid s = at_call a (CPush (tid mod sd_workers s)) s"

fun schedule :: "nat \<Rightarrow> sched \<Rightarrow> sched option" where
  "schedule a s = (case sd_call s a of
     CSched \<Rightarrow>
       if a < sd_workers s then Some (at_call a NoCall (set_var a [] (schedule_with_id (hd (sd_var s ! a)) a s)))
       else Some (at_call a CFetch s)
   | _ \<Rightarrow> schedule_global a s)"

text \<open>\<^verbatim>\<open>Builder::spawn\<close> with an optional id.\<close>

definition spawn :: "nat \<Rightarrow> nat option \<Rightarrow> sched \<Rightarrow> sched" where
  "spawn a i s = (let s1 = set_var a [sd_fresh s] (s\<lparr>sd_fresh := Suc (sd_fresh s)\<rparr>) in
     case i of None \<Rightarrow> at_call a CFetch s1 | Some tid \<Rightarrow> schedule_global_with_id a tid s1)"

section \<open>The workers\<close>

text \<open>\<^verbatim>\<open>select\<close> up to \<^verbatim>\<open>epoll.wait\<close>; \<open>conv\<close> is \<^verbatim>\<open>EpollTimeout::try_from\<close>.\<close>

definition div_ceil :: "nat \<Rightarrow> nat \<Rightarrow> nat" where
  "div_ceil a b = (if a mod b = 0 then a div b else a div b + 1)"

definition select_enter :: "(nat \<Rightarrow> int option) \<Rightarrow> nat \<Rightarrow> sched \<Rightarrow> sched" where
  "select_enter conv w s = checked w (sd_evfd s) s (case sd_expire s w of
     None \<Rightarrow> at_pc w WWait s
   | Some t \<Rightarrow> at_pc w (if conv (div_ceil t 1000000) = None then WDead else WWait) s)"

text \<open>The descriptor is level-triggered; a wait without events ends only with a timeout.\<close>

definition epoll_wait :: "nat \<Rightarrow> event list \<Rightarrow> sched \<Rightarrow> sched option" where
  "epoll_wait w evs s = (if sd_pc s w = WWait \<and> (Wakeup \<in> set evs \<longrightarrow> 0 < sd_evfd s ! w) \<and> (evs = [] \<longrightarrow> sd_expire s w \<noteq> None)
     then Some (at_pc w (WEvents evs) s) else None)"

definition epoll_error :: "nat \<Rightarrow> nat \<Rightarrow> sched \<Rightarrow> sched option" where
  "epoll_error timeout_ns w s = (if sd_pc s w = WWait
     then Some (at_pc w WSelect (s\<lparr>sd_expire := (sd_expire s)(w := Some timeout_ns)\<rparr>)) else None)"

text \<open>The loop over the events.\<close>

fun handle_event :: "nat \<Rightarrow> event list \<Rightarrow> sched \<Rightarrow> sched" where
  "handle_event w [] s = at_pc w WPop s"
| "handle_event w (Wakeup # evs) s =
     checked w (sd_evfd s) s (at_pc w (WCollect (KEvents evs)) (s\<lparr>sd_evfd := (sd_evfd s)[w := 0]\<rparr>))"
| "handle_event w (Ready d # evs) s = (case slot_take d s of
     (None, s1) \<Rightarrow> at_pc w (WEvents evs) s1
   | (Some co, s1) \<Rightarrow> at_pc w (WIoPush evs) (set_var w [co] s1))"

fun collect_ret :: "ckont \<Rightarrow> wpc" where
  "collect_ret (KEvents evs) = WEvents evs"
| "collect_ret KTasks = WHas"

definition collect_global :: "nat \<Rightarrow> nat \<Rightarrow> ckont \<Rightarrow> sched \<Rightarrow> sched" where
  "collect_global w k c s = checked w (sd_global s) s
     (let (v, q) = bulk_pop k (sd_global s ! w); s1 = s\<lparr>sd_global := (sd_global s)[w := q]\<rparr> in
      if v = [] then at_pc w (collect_ret c) s1 else at_pc w (WBatch c) (set_var w v s1))"

definition collect_push :: "nat \<Rightarrow> ckont \<Rightarrow> sched \<Rightarrow> sched" where
  "collect_push w c s = (case sd_var s ! w of
     [] \<Rightarrow> at_pc w (WCollect c) s
   | co # v \<Rightarrow> set_var w v (schedule_with_id co w s))"

definition pop_local :: "nat \<Rightarrow> sched \<Rightarrow> sched" where
  "pop_local w s = checked w (sd_local s) s (case sd_local s ! w of
     [] \<Rightarrow> at_pc w (WCollect KTasks) s
   | co # q \<Rightarrow> at_pc w (WRun KWork) (run_coroutine w co (s\<lparr>sd_local := (sd_local s)[w := q]\<rparr>)))"

definition max_steal :: "sched \<Rightarrow> nat" where
  "max_steal s = min 3 (sd_workers s - 1)"

definition steal_target :: "nat \<Rightarrow> nat \<Rightarrow> sched \<Rightarrow> nat" where
  "steal_target w i s = (w + i + 1) mod sd_workers s"

text \<open>The loop over the victims, and \<^verbatim>\<open>steal_into\<close>: the last of the stolen coroutines is run, the others go to the local queue.\<close>

definition steal :: "nat \<Rightarrow> nat \<Rightarrow> nat \<Rightarrow> sched \<Rightarrow> sched" where
  "steal w k i s =
     (if i < max_steal s then
        let target = steal_target w i s in
        checked target (sd_local s) s
          (let (v, q) = bulk_pop k (sd_local s ! target); s1 = s\<lparr>sd_local := (sd_local s)[target := q]\<rparr> in
           if v = [] then at_pc w (WSteal (i + 1)) s1 else at_pc w WStolen (set_var w v s1))
      else at_pc w WTimers (s\<lparr>sd_late := (sd_late s)(w := False)\<rparr>))"

definition steal_push :: "nat \<Rightarrow> sched \<Rightarrow> sched" where
  "steal_push w s = (case sd_var s ! w of
     co # v \<Rightarrow> if v = [] then at_pc w (WRun KWork) (run_coroutine w co (set_var w [] s)) else set_var w v (schedule_with_id co w s)
   | [] \<Rightarrow> s)"

fun run_ret :: "rkont \<Rightarrow> wpc" where
  "run_ret KWork = WPop"
| "run_ret KTimers = WTimers"

text \<open>One step of a worker; \<open>k\<close> is the number of coroutines that a \<^verbatim>\<open>bulk_pop\<close> takes.\<close>

fun worker_step :: "(nat \<Rightarrow> int option) \<Rightarrow> nat \<Rightarrow> nat \<Rightarrow> sched \<Rightarrow> sched option" where
  "worker_step conv w k s = (case sd_pc s w of
     WSelect \<Rightarrow> Some (select_enter conv w s)
   | WEvents evs \<Rightarrow> Some (handle_event w evs s)
   | WIoPush evs \<Rightarrow> Some (at_pc w (WEvents evs) (set_var w [] (schedule_with_id (hd (sd_var s ! w)) w s)))
   | WCollect c \<Rightarrow> Some (collect_global w k c s)
   | WBatch c \<Rightarrow> Some (collect_push w c s)
   | WPop \<Rightarrow> Some (pop_local w s)
   | WHas \<Rightarrow> Some (checked w (sd_local s) s (at_pc w (if sd_local s ! w \<noteq> [] then WPop else WSteal 0) s))
   | WSteal i \<Rightarrow> Some (steal w k i s)
   | WStolen \<Rightarrow> Some (steal_push w s)
   | WRun r \<Rightarrow> if sd_stack s ! w = [] \<and> sd_call s w = NoCall then Some (at_pc w (run_ret r) s) else None
   | WWait \<Rightarrow> None
   | WTimers \<Rightarrow> None
   | WDead \<Rightarrow> None)"

text \<open>\<^verbatim>\<open>schedule_timer\<close> with \<^verbatim>\<open>timeout_handler\<close>: it runs the coroutine of an expired timer, and returns the time to the next one.\<close>

definition timeout_handler :: "nat \<Rightarrow> nat \<Rightarrow> sched \<Rightarrow> sched option" where
  "timeout_handler w d s = (if sd_pc s w = WTimers
     then case slot_take d s of
         (None, s1) \<Rightarrow> Some s1
       | (Some co, s1) \<Rightarrow> Some (at_pc w (WRun KTimers) (run_coroutine w co (s1\<lparr>sd_late := (sd_late s)(w := True)\<rparr>)))
     else None)"

definition timers_done :: "nat \<Rightarrow> nat \<Rightarrow> nat option \<Rightarrow> sched \<Rightarrow> sched option" where
  "timers_done timeout_ns w t s = (if sd_pc s w = WTimers
     then Some (at_pc w WSelect (s\<lparr>sd_expire := (sd_expire s)(w := Some (case t of None \<Rightarrow> timeout_ns | Some x \<Rightarrow> x))\<rparr>)) else None)"

section \<open>Runs\<close>

text \<open>Whether the thread runs a coroutine or code of a client.\<close>

definition in_client :: "nat \<Rightarrow> sched \<Rightarrow> bool" where
  "in_client a s \<longleftrightarrow> a < length (sd_stack s) \<and> sd_call s a = NoCall \<and> (a < sd_workers s \<longrightarrow> sd_pc s a \<in> {WRun KWork, WRun KTimers})"

datatype sact =
    Worker nat nat | Epoll nat "event list" | EpollError nat | TimerFire nat nat | TimersDone nat "nat option"
  | Call nat | Schedule nat nat | Spawn nat "nat option" | SpawnLocal nat | RunSlot nat nat
  | Park nat nat | Yield nat | Finish nat

text \<open>
  Clients: a coroutine is taken from its slot and scheduled, or run at once; spawned, or run at once; the current coroutine goes into a
  slot, is scheduled again, or ends.
\<close>

fun sched_next :: "(nat \<Rightarrow> int option) \<Rightarrow> nat \<Rightarrow> sact \<Rightarrow> sched \<Rightarrow> sched option" where
  "sched_next conv ns (Worker w k) s = (if w < sd_workers s then worker_step conv w k s else None)"
| "sched_next conv ns (Epoll w evs) s = (if w < sd_workers s then epoll_wait w evs s else None)"
| "sched_next conv ns (EpollError w) s = (if w < sd_workers s then epoll_error ns w s else None)"
| "sched_next conv ns (TimerFire w d) s = (if w < sd_workers s then timeout_handler w d s else None)"
| "sched_next conv ns (TimersDone w t) s = (if w < sd_workers s then timers_done ns w t s else None)"
| "sched_next conv ns (Call a) s = (if a < length (sd_stack s) then schedule a s else None)"
| "sched_next conv ns (Schedule a d) s = (if in_client a s
     then case slot_take d s of (None, s1) \<Rightarrow> Some s1 | (Some co, s1) \<Rightarrow> Some (at_call a CSched (set_var a [co] s1)) else None)"
| "sched_next conv ns (Spawn a i) s = (if in_client a s then Some (spawn a i s) else None)"
| "sched_next conv ns (SpawnLocal a) s = (if in_client a s
     then Some (run_coroutine a (sd_fresh s) (s\<lparr>sd_fresh := Suc (sd_fresh s)\<rparr>)) else None)"
| "sched_next conv ns (RunSlot a d) s = (if in_client a s
     then case slot_take d s of (None, s1) \<Rightarrow> Some s1 | (Some co, s1) \<Rightarrow> Some (run_coroutine a co s1) else None)"
| "sched_next conv ns (Park a d) s = (if in_client a s \<and> sd_stack s ! a \<noteq> [] \<and> d < length (sd_slots s) \<and> sd_slots s ! d = None
     then Some (s\<lparr>sd_slots := (sd_slots s)[d := Some (hd (sd_stack s ! a))], sd_stack := (sd_stack s)[a := tl (sd_stack s ! a)]\<rparr>)
     else None)"
| "sched_next conv ns (Yield a) s = (if in_client a s \<and> sd_stack s ! a \<noteq> []
     then Some (at_call a CSched (set_var a [hd (sd_stack s ! a)] (s\<lparr>sd_stack := (sd_stack s)[a := tl (sd_stack s ! a)]\<rparr>)))
     else None)"
| "sched_next conv ns (Finish a) s = (if in_client a s \<and> sd_stack s ! a \<noteq> []
     then Some (s\<lparr>sd_done := hd (sd_stack s ! a) # sd_done s, sd_stack := (sd_stack s)[a := tl (sd_stack s ! a)]\<rparr>)
     else None)"

definition sched_start :: "nat \<Rightarrow> nat \<Rightarrow> nat \<Rightarrow> sched \<Rightarrow> bool" where
  "sched_start n m q s \<longleftrightarrow> s = sched_new n m q"

definition sched_step :: "(nat \<Rightarrow> int option) \<Rightarrow> nat \<Rightarrow> sched \<Rightarrow> sched \<Rightarrow> bool" where
  "sched_step conv ns s s' \<longleftrightarrow> (\<exists>a. sched_next conv ns a s = Some s')"

section \<open>Invariant\<close>

text \<open>The vectors have one entry per worker or thread, and every index that a call has computed is in range.\<close>

fun call_ok :: "nat \<Rightarrow> call \<Rightarrow> bool" where
  "call_ok n (CPush i) = (i < n)"
| "call_ok n (CWake i) = (i < n)"
| "call_ok n _ = True"

definition sd_typ :: "nat \<Rightarrow> nat \<Rightarrow> sched \<Rightarrow> bool" where
  "sd_typ n m s \<longleftrightarrow> sd_workers s = n \<and> length (sd_local s) = n \<and> length (sd_global s) = n \<and> length (sd_evfd s) = n \<and>
     length (sd_stack s) = m \<and> length (sd_var s) = m \<and> \<not> sd_fault s \<and> (\<forall>a. call_ok n (sd_call s a))"

text \<open>The local variables hold coroutines only where the program point says so.\<close>

fun carries :: "call \<Rightarrow> bool" where
  "carries CSched = True"
| "carries CFetch = True"
| "carries (CPush _) = True"
| "carries _ = False"

fun running :: "wpc \<Rightarrow> bool" where
  "running (WRun _) = True"
| "running _ = False"

fun var_ok :: "wpc \<Rightarrow> nat list \<Rightarrow> bool" where
  "var_ok (WIoPush _) v = (length v = 1)"
| "var_ok WStolen v = (v \<noteq> [])"
| "var_ok (WBatch _) v = True"
| "var_ok _ v = (v = [])"

definition sd_vars :: "nat \<Rightarrow> nat \<Rightarrow> sched \<Rightarrow> bool" where
  "sd_vars n m s \<longleftrightarrow> (\<forall>a<m. if carries (sd_call s a) then length (sd_var s ! a) = 1
       else if a < n then var_ok (sd_pc s a) (sd_var s ! a) else sd_var s ! a = []) \<and>
     (\<forall>a<n. \<not> running (sd_pc s a) \<longrightarrow> sd_call s a = NoCall \<and> sd_stack s ! a = [])"

text \<open>Every coroutine is in exactly one place.\<close>

definition slot_list :: "nat option list \<Rightarrow> nat list list" where
  "slot_list = map (\<lambda>x. case x of None \<Rightarrow> [] | Some c \<Rightarrow> [c])"

definition places :: "sched \<Rightarrow> nat list" where
  "places s = concat (sd_local s) @ concat (sd_global s) @ concat (slot_list (sd_slots s)) @ concat (sd_stack s) @
     concat (sd_var s) @ sd_done s"

definition sd_cons :: "sched \<Rightarrow> bool" where
  "sd_cons s \<longleftrightarrow> (\<forall>c. count_list (places s) c = (if c < sd_fresh s then 1 else 0))"

text \<open>A global queue with coroutines has a wake-up on its way; a worker without a reason to look for work has none in its own queue.\<close>

fun collecting :: "wpc \<Rightarrow> bool" where
  "collecting (WCollect _) = True"
| "collecting (WBatch _) = True"
| "collecting _ = False"

definition sd_wake :: "nat \<Rightarrow> nat \<Rightarrow> sched \<Rightarrow> bool" where
  "sd_wake n m s \<longleftrightarrow> (\<forall>w<n. sd_global s ! w \<noteq> [] \<longrightarrow> 0 < sd_evfd s ! w \<or> (\<exists>a<m. sd_call s a = CWake w) \<or> collecting (sd_pc s w))"

fun no_work :: "wpc \<Rightarrow> bool \<Rightarrow> bool" where
  "no_work (WSteal _) late = True"
| "no_work WTimers late = (\<not> late)"
| "no_work WSelect late = (\<not> late)"
| "no_work WWait late = (\<not> late)"
| "no_work _ late = False"

definition sd_idle :: "nat \<Rightarrow> sched \<Rightarrow> bool" where
  "sd_idle n s \<longleftrightarrow> (\<forall>w<n. no_work (sd_pc s w) (sd_late s w) \<longrightarrow> sd_local s ! w = []) \<and>
     (\<forall>w<n. sd_pc s w = WRun KTimers \<longrightarrow> sd_late s w)"

definition sd_inv :: "nat \<Rightarrow> nat \<Rightarrow> sched \<Rightarrow> bool" where
  "sd_inv n m s \<longleftrightarrow> sd_typ n m s \<and> sd_vars n m s \<and> sd_cons s \<and> sd_wake n m s \<and> sd_idle n s"

lemma sd_invD:
  assumes "sd_inv n m s" shows "sd_typ n m s" "sd_vars n m s" "sd_cons s" "sd_wake n m s" "sd_idle n s"
  using assms by (simp_all add: sd_inv_def)

lemma sd_typD:
  assumes "sd_typ n m s"
  shows "sd_workers s = n" "length (sd_local s) = n" "length (sd_global s) = n" "length (sd_evfd s) = n"
    "length (sd_stack s) = m" "length (sd_var s) = m" "\<not> sd_fault s" "call_ok n (sd_call s a)"
  using assms by (simp_all add: sd_typ_def)

lemmas sched_defs = checked_def at_pc_def at_call_def set_var_def run_coroutine_def slot_take_def bulk_pop_def schedule_with_id_def
  wakeup_def spawn_def schedule_global_with_id_def select_enter_def epoll_wait_def epoll_error_def collect_global_def collect_push_def pop_local_def
  steal_def steal_push_def timeout_handler_def timers_done_def in_client_def Let_def

lemmas sched_splits = if_splits option.splits list.splits call.splits wpc.splits prod.splits event.splits

subsection \<open>Types\<close>

lemma sd_typ_new: "n \<le> m \<Longrightarrow> sd_typ n m (sched_new n m q)"
  by (simp add: sd_typ_def sched_new_def)

lemma steal_target_less: "0 < sd_workers s \<Longrightarrow> steal_target w i s < sd_workers s"
  by (simp add: steal_target_def)

lemma handle_event_typ: "sd_typ n m s \<Longrightarrow> w < n \<Longrightarrow> sd_typ n m (handle_event w evs s)"
  by (cases "(w, evs, s)" rule: handle_event.cases) (auto simp: sd_typ_def sched_defs split: option.split)

lemma worker_step_typ:
  assumes "sd_typ n m s" "worker_step conv w k s = Some s'" "w < n" "n \<le> m" shows "sd_typ n m s'"
  using assms steal_target_less [of s w] handle_event_typ [OF assms(1,3)]
  by (cases "sd_pc s w") (auto simp: sd_typ_def sched_defs split: if_splits option.splits list.splits)

lemma schedule_typ:
  assumes "sd_typ n m s" "schedule a s = Some s'" "a < m" "0 < n" shows "sd_typ n m s'"
  using assms by (cases "sd_call s a") (auto simp: sd_typ_def sched_defs split: if_splits, (metis call_ok.simps)+)

lemma sched_next_typ:
  assumes "sd_typ n m s" "sched_next conv ns x s = Some s'" "0 < n" "n \<le> m" shows "sd_typ n m s'"
proof (cases x)
  case (Worker w k)
  then show ?thesis using assms worker_step_typ [OF assms(1)] by (auto simp: sd_typ_def split: if_splits simp del: worker_step.simps)
next
  case (Call a)
  then show ?thesis using assms schedule_typ [OF assms(1)] by (auto simp: sd_typ_def split: if_splits simp del: schedule.simps)
qed (use assms in \<open>auto simp: sd_typ_def sched_defs split: if_splits option.splits\<close>)

subsection \<open>Local variables\<close>

lemma collect_ret_simps [simp]:
  "var_ok (collect_ret c) v \<longleftrightarrow> v = []" "\<not> running (collect_ret c)" "\<not> collecting (collect_ret c)" "\<not> no_work (collect_ret c) b"
  "collect_ret c \<noteq> WRun r"
  by (cases c; simp)+

lemma run_ret_simps [simp]: "var_ok (run_ret c) v \<longleftrightarrow> v = []" "\<not> running (run_ret c)" "\<not> collecting (run_ret c)" "run_ret c \<noteq> WRun r"
  "no_work (run_ret c) b \<longleftrightarrow> c = KTimers \<and> \<not> b"
  by (cases c; simp)+

lemma sd_vars_new: "n \<le> m \<Longrightarrow> sd_vars n m (sched_new n m q)"
  by (auto simp: sd_vars_def sched_new_def)

lemma sd_varsD:
  assumes "sd_vars n m s"
  shows "a < m \<Longrightarrow> carries (sd_call s a) \<Longrightarrow> length (sd_var s ! a) = 1"
    "a < m \<Longrightarrow> \<not> carries (sd_call s a) \<Longrightarrow> a < n \<Longrightarrow> var_ok (sd_pc s a) (sd_var s ! a)"
    "a < m \<Longrightarrow> \<not> carries (sd_call s a) \<Longrightarrow> \<not> a < n \<Longrightarrow> sd_var s ! a = []"
    "a < n \<Longrightarrow> \<not> running (sd_pc s a) \<Longrightarrow> sd_call s a = NoCall"
    "a < n \<Longrightarrow> \<not> running (sd_pc s a) \<Longrightarrow> sd_stack s ! a = []"
  using assms by (auto simp: sd_vars_def split: if_splits)

text \<open>A step of one thread keeps the local variables of the others.\<close>

lemma sd_varsI:
  assumes v: "sd_vars n m s" and t: "sd_typ n m s" and a: "a < m"
    and o: "\<And>b. b \<noteq> a \<Longrightarrow> sd_call s' b = sd_call s b \<and> sd_pc s' b = sd_pc s b \<and> sd_var s' ! b = sd_var s ! b \<and> sd_stack s' ! b = sd_stack s ! b"
    and l: "if carries (sd_call s' a) then length (sd_var s' ! a) = 1 else if a < n then var_ok (sd_pc s' a) (sd_var s' ! a) else sd_var s' ! a = []"
      "a < n \<Longrightarrow> \<not> running (sd_pc s' a) \<Longrightarrow> sd_call s' a = NoCall \<and> sd_stack s' ! a = []"
  shows "sd_vars n m s'"
proof -
  have "if carries (sd_call s' b) then length (sd_var s' ! b) = 1 else if b < n then var_ok (sd_pc s' b) (sd_var s' ! b) else sd_var s' ! b = []"
    if "b < m" for b
    using l(1) o [of b] v that by (cases "b = a") (auto simp: sd_vars_def)
  moreover have "sd_call s' b = NoCall \<and> sd_stack s' ! b = []" if "b < n" "\<not> running (sd_pc s' b)" for b
    using l(2) o [of b] v that by (cases "b = a") (auto simp: sd_vars_def)
  ultimately show ?thesis unfolding sd_vars_def by blast
qed

lemma handle_event_vars:
  assumes "sd_typ n m s" "sd_vars n m s" "w < n" "n \<le> m" "sd_pc s w = WEvents evs"
  shows "sd_vars n m (handle_event w evs s)"
  using assms sd_varsD(2,4,5) [OF assms(2), of w] sd_typD [OF assms(1)]
  by (intro sd_varsI [OF assms(2,1), of w]; cases "(w, evs, s)" rule: handle_event.cases) (auto simp: sched_defs split: option.splits)

lemma worker_step_vars:
  assumes "sd_typ n m s" "sd_vars n m s" "worker_step conv w k s = Some s'" "w < n" "n \<le> m" "0 < n" shows "sd_vars n m s'"
proof (cases "\<exists>evs. sd_pc s w = WEvents evs")
  case True
  then show ?thesis using assms handle_event_vars by auto
next
  case False
  show ?thesis
    using False assms sd_varsD(2,4,5) [OF assms(2), of w] sd_typD [OF assms(1)] steal_target_less [of s w]
    by (intro sd_varsI [OF assms(2,1), of w]; cases "sd_pc s w")
      (auto simp: sched_defs nth_list_update length_Suc_conv
        split: if_splits option.splits list.splits)
qed

text \<open>The thread that takes a step.\<close>

fun thread_of :: "sact \<Rightarrow> nat" where
  "thread_of (Worker w k) = w"
| "thread_of (Epoll w evs) = w"
| "thread_of (EpollError w) = w"
| "thread_of (TimerFire w d) = w"
| "thread_of (TimersDone w t) = w"
| "thread_of (Call a) = a"
| "thread_of (Schedule a d) = a"
| "thread_of (Spawn a i) = a"
| "thread_of (SpawnLocal a) = a"
| "thread_of (RunSlot a d) = a"
| "thread_of (Park a d) = a"
| "thread_of (Yield a) = a"
| "thread_of (Finish a) = a"

lemmas client_defs = slot_take_def at_call_def set_var_def run_coroutine_def spawn_def schedule_global_with_id_def Let_def

lemma var_ok_running: "running p \<Longrightarrow> var_ok p v \<longleftrightarrow> v = []"
  by (cases p) auto

lemma schedule_vars:
  assumes "sd_typ n m s" "sd_vars n m s" "schedule a s = Some s'" "a < m" "0 < n" shows "sd_vars n m s'"
proof -
  note T = sd_typD [OF assms(1)]
  have r: "sd_call s a \<noteq> NoCall \<Longrightarrow> a < n \<Longrightarrow> running (sd_pc s a)" using sd_varsD(4) [OF assms(2)] by blast
  have v: "sd_call s a = CWake i \<Longrightarrow> sd_var s ! a = []" for i
    using sd_varsD(2,3) [OF assms(2,4)] r var_ok_running by (cases "a < n") auto
  show ?thesis using assms(3-5) r v sd_varsD(1) [OF assms(2,4)] T
    by (intro sd_varsI [OF assms(2,1,4)]; cases "sd_call s a")
      (auto simp: at_call_def set_var_def schedule_with_id_def wakeup_def checked_def var_ok_running split: if_splits)
qed

lemma client_vars:
  assumes "sd_typ n m s" "sd_vars n m s" "in_client a s"
  shows "a < m" "sd_var s ! a = []" "a < n \<Longrightarrow> running (sd_pc s a)"
  using assms sd_varsD(2,3) [OF assms(2), of a] sd_typD [OF assms(1)] by (cases "a < n"; auto simp: in_client_def)+

fun is_client :: "sact \<Rightarrow> bool" where
  "is_client (Worker w k) = False"
| "is_client (Epoll w evs) = False"
| "is_client (EpollError w) = False"
| "is_client (TimerFire w d) = False"
| "is_client (TimersDone w t) = False"
| "is_client (Call a) = False"
| "is_client _ = True"

text \<open>What a step of a client leaves alone.\<close>

lemma client_frame:
  assumes "sched_next conv ns x s = Some s'" "is_client x"
  shows "in_client (thread_of x) s" "sd_local s' = sd_local s" "sd_global s' = sd_global s" "sd_evfd s' = sd_evfd s" "sd_pc s' = sd_pc s"
    "sd_late s' = sd_late s" "b \<noteq> thread_of x \<Longrightarrow> sd_call s' b = sd_call s b" "b \<noteq> thread_of x \<Longrightarrow> sd_var s' ! b = sd_var s ! b"
    "b \<noteq> thread_of x \<Longrightarrow> sd_stack s' ! b = sd_stack s ! b"
  using assms by (cases x; auto simp: client_defs split: if_splits option.splits)+

lemma client_carries:
  assumes "sd_typ n m s" "sd_vars n m s" "sched_next conv ns x s = Some s'" "is_client x"
  shows "if carries (sd_call s' (thread_of x)) then length (sd_var s' ! thread_of x) = 1 else sd_var s' ! thread_of x = []"
  using assms(3,4) client_vars(1,2) [OF assms(1,2) client_frame(1) [OF assms(3,4)]] sd_typD(5,6) [OF assms(1)]
  by (cases x) (auto simp: client_defs in_client_def split: if_splits option.splits)

text \<open>The steps of a worker in \<^verbatim>\<open>epoll.wait\<close> and in \<^verbatim>\<open>schedule_timer\<close>.\<close>

fun is_wait :: "sact \<Rightarrow> bool" where
  "is_wait (Worker w k) = False"
| "is_wait (Call a) = False"
| "is_wait x = (\<not> is_client x)"

lemma wait_frame:
  assumes "sched_next conv ns x s = Some s'" "is_wait x"
  shows "thread_of x < sd_workers s" "sd_pc s (thread_of x) \<in> {WWait, WTimers}" "b \<noteq> thread_of x \<Longrightarrow> sd_pc s' b = sd_pc s b"
    "sd_pc s' (thread_of x) \<in> range WEvents \<union> {WSelect, WTimers, WRun KTimers}"
    "sd_local s' = sd_local s" "sd_global s' = sd_global s" "sd_evfd s' = sd_evfd s" "sd_call s' = sd_call s" "sd_var s' = sd_var s"
    "b \<noteq> thread_of x \<Longrightarrow> sd_late s' b = sd_late s b" "b \<noteq> thread_of x \<Longrightarrow> sd_stack s' ! b = sd_stack s ! b"
    "\<not> running (sd_pc s' (thread_of x)) \<Longrightarrow> sd_stack s' = sd_stack s \<and> sd_late s' = sd_late s"
    "sd_pc s' (thread_of x) = WRun KTimers \<Longrightarrow> sd_late s' (thread_of x)"
  using assms by (cases x; auto simp: epoll_wait_def epoll_error_def timers_done_def timeout_handler_def at_pc_def slot_take_def run_coroutine_def
      split: if_splits option.splits)+

lemma sched_next_vars:
  assumes "sd_typ n m s" "sd_vars n m s" "sched_next conv ns x s = Some s'" "0 < n" "n \<le> m" shows "sd_vars n m s'"
proof (cases "is_client x")
  case True
  note F = client_frame [OF assms(3) True]
  note V = client_vars [OF assms(1,2) F(1)]
  show ?thesis using V(3) F(5) client_carries [OF assms(1-3) True]
    by (intro sd_varsI [OF assms(2,1) V(1)]) (auto simp: F(7-9) var_ok_running split: if_splits)
next
  case False
  note nc = this
  show ?thesis
  proof (cases "is_wait x")
    case True
    note W = wait_frame [OF assms(3) True] and w = sd_typD(1) [OF assms(1)]
    show ?thesis using W(1,2,4,12) sd_varsD(2,4,5) [OF assms(2), of "thread_of x"] assms(5) w
      by (intro sd_varsI [OF assms(2,1), of "thread_of x"]) (auto simp: W(3,8,9,11))
  next
    case False
    with nc assms show ?thesis using worker_step_vars [OF assms(1,2)] schedule_vars [OF assms(1,2)] sd_typD(1,5) [OF assms(1)]
      by (cases x) (auto split: if_splits simp del: worker_step.simps schedule.simps)
  qed
qed

subsection \<open>Wake-ups\<close>

lemma sd_wake_new: "sd_wake n m (sched_new n m q)"
  by (simp add: sd_wake_def sched_new_def)

lemma sd_wake_frame:
  assumes "sd_wake n m s" "\<And>w. sd_global s' ! w \<noteq> [] \<Longrightarrow> sd_global s ! w \<noteq> []" "sd_evfd s' = sd_evfd s"
    "\<And>w. w < n \<Longrightarrow> collecting (sd_pc s w) \<Longrightarrow> collecting (sd_pc s' w)" "\<And>a w. sd_call s a = CWake w \<Longrightarrow> sd_call s' a = CWake w"
  shows "sd_wake n m s'"
  using assms unfolding sd_wake_def by metis

text \<open>A step of one worker after which it collects, or its global queue is empty.\<close>

lemma sd_wake_one:
  assumes "sd_wake n m s" "sd_call s' = sd_call s"
    "\<And>v. v \<noteq> w \<Longrightarrow> sd_global s' ! v = sd_global s ! v \<and> sd_evfd s' ! v = sd_evfd s ! v \<and> sd_pc s' v = sd_pc s v"
    "sd_global s' ! w \<noteq> [] \<Longrightarrow> collecting (sd_pc s' w)"
  shows "sd_wake n m s'"
proof -
  have "0 < sd_evfd s' ! v \<or> (\<exists>a<m. sd_call s' a = CWake v) \<or> collecting (sd_pc s' v)" if "v < n" "sd_global s' ! v \<noteq> []" for v
    using assms that unfolding sd_wake_def by (cases "v = w") auto
  then show ?thesis by (simp add: sd_wake_def)
qed

lemma handle_event_wake:
  assumes "sd_typ n m s" "sd_wake n m s" "w < n" "sd_pc s w = WEvents evs" shows "sd_wake n m (handle_event w evs s)"
proof (cases "\<exists>r. evs = Wakeup # r")
  case True
  then show ?thesis using assms(3) sd_typD(4) [OF assms(1)]
    by (intro sd_wake_one [OF assms(2), of _ w]) (auto simp: checked_def at_pc_def)
next
  case False
  then show ?thesis using assms(4)
    by (intro sd_wake_frame [OF assms(2)]; cases "(w, evs, s)" rule: handle_event.cases)
      (auto simp: at_pc_def set_var_def slot_take_def split: if_splits option.splits)
qed

lemma collect_global_wake:
  assumes "sd_typ n m s" "sd_wake n m s" "w < n" shows "sd_wake n m (collect_global w k c s)"
  using assms(3) sd_typD(3) [OF assms(1)]
  by (intro sd_wake_one [OF assms(2), of _ w])
    (auto simp: collect_global_def bulk_pop_def at_pc_def set_var_def checked_def Let_def)

lemma worker_step_wake:
  assumes "sd_typ n m s" "sd_wake n m s" "worker_step conv w k s = Some s'" "w < n" shows "sd_wake n m s'"
proof (cases "(\<exists>evs. sd_pc s w = WEvents evs) \<or> (\<exists>c. sd_pc s w = WCollect c)")
  case True
  then show ?thesis using assms handle_event_wake collect_global_wake by auto
next
  case False
  then show ?thesis using assms(3,4) steal_target_less [of s w] sd_typD(1,2,4) [OF assms(1)]
    by (intro sd_wake_frame [OF assms(2)]; cases "sd_pc s w")
      (auto simp: sched_defs split: if_splits option.splits list.splits)
qed

lemma schedule_wake:
  assumes "sd_typ n m s" "sd_wake n m s" "schedule a s = Some s'" "a < m" shows "sd_wake n m s'"
proof (cases "\<exists>i. sd_call s a \<in> {CPush i, CWake i}")
  case True
  then obtain i where i: "sd_call s a = CPush i \<or> sd_call s a = CWake i" by blast
  have l: "i < n" using sd_typD(8) [OF assms(1), of a] i by auto
  show ?thesis unfolding sd_wake_def
  proof (intro allI impI)
    fix w assume w: "w < n" "sd_global s' ! w \<noteq> []"
    show "0 < sd_evfd s' ! w \<or> (\<exists>a<m. sd_call s' a = CWake w) \<or> collecting (sd_pc s' w)"
    proof (cases "w = i")
      case True
      then have "sd_call s' a = CWake w \<or> 0 < sd_evfd s' ! w" using assms(3) i l sd_typD(3,4) [OF assms(1)]
        by (auto simp: at_call_def set_var_def checked_def wakeup_def split: if_splits)
      then show ?thesis using assms(4) by blast
    next
      case False
      with w assms(3) i have "sd_global s ! w \<noteq> []" by (auto simp: at_call_def set_var_def checked_def wakeup_def split: if_splits)
      with assms(2) w(1) have "0 < sd_evfd s ! w \<or> (\<exists>a<m. sd_call s a = CWake w) \<or> collecting (sd_pc s w)" by (simp add: sd_wake_def)
      moreover have "sd_call s' b = CWake w" if "sd_call s b = CWake w" for b
        using that assms(3) i False by (cases "b = a") (auto simp: at_call_def set_var_def checked_def wakeup_def split: if_splits)
      moreover have "sd_evfd s' ! w = sd_evfd s ! w" "sd_pc s' = sd_pc s"
        using assms(3) i False by (auto simp: at_call_def set_var_def checked_def wakeup_def split: if_splits)
      ultimately show ?thesis by metis
    qed
  qed
next
  case False
  then show ?thesis using assms(3)
    by (intro sd_wake_frame [OF assms(2)]; cases "sd_call s a")
      (auto simp: at_call_def set_var_def schedule_with_id_def checked_def split: if_splits)
qed

lemma sched_next_wake:
  assumes "sd_typ n m s" "sd_wake n m s" "sched_next conv ns x s = Some s'" "n \<le> m" shows "sd_wake n m s'"
proof (cases "is_client x")
  case True
  note F = client_frame [OF assms(3) True]
  have "sd_call s' a = CWake w" if "sd_call s a = CWake w" for a w
    using that F(1) F(7) [of a] by (cases "a = thread_of x") (auto simp: in_client_def)
  then show ?thesis using F by (intro sd_wake_frame [OF assms(2)]) auto
next
  case False
  note nc = this
  show ?thesis
  proof (cases "is_wait x")
    case True
    note W = wait_frame [OF assms(3) True]
    have "\<not> collecting (sd_pc s (thread_of x))" using W(2) by auto
    then have "collecting (sd_pc s' w)" if "collecting (sd_pc s w)" for w using that W(3) [of w] by (cases "w = thread_of x") auto
    then show ?thesis by (intro sd_wake_frame [OF assms(2)]) (simp_all add: W)
  next
    case False
    with nc assms show ?thesis using worker_step_wake [OF assms(1,2)] schedule_wake [OF assms(1,2)] sd_typD(1,5) [OF assms(1)]
      by (cases x) (auto split: if_splits simp del: worker_step.simps schedule.simps)
  qed
qed

subsection \<open>Idle workers\<close>

lemma sd_idle_new: "sd_idle n (sched_new n m q)"
  by (simp add: sd_idle_def sched_new_def)

text \<open>A step of one worker, during which other queues only become shorter.\<close>

lemma sd_idle_one:
  assumes "sd_idle n s"
    "\<And>v. v \<noteq> w \<Longrightarrow> (sd_local s ! v = [] \<longrightarrow> sd_local s' ! v = []) \<and> sd_late s' v = sd_late s v \<and> sd_pc s' v = sd_pc s v"
    "w < n \<Longrightarrow> no_work (sd_pc s' w) (sd_late s' w) \<Longrightarrow> sd_local s' ! w = []" "w < n \<Longrightarrow> sd_pc s' w = WRun KTimers \<Longrightarrow> sd_late s' w"
  shows "sd_idle n s'"
proof -
  have "sd_local s' ! v = []" if "v < n" "no_work (sd_pc s' v) (sd_late s' v)" for v
    using assms(1,3) assms(2) [of v] that unfolding sd_idle_def by (cases "v = w") auto
  moreover have "sd_late s' v" if "v < n" "sd_pc s' v = WRun KTimers" for v
    using assms(1,4) assms(2) [of v] that unfolding sd_idle_def by (cases "v = w") auto
  ultimately show ?thesis by (simp add: sd_idle_def)
qed

lemma sd_idleD:
  assumes "sd_idle n s" "w < n"
  shows "no_work (sd_pc s w) (sd_late s w) \<Longrightarrow> sd_local s ! w = []" "sd_pc s w = WRun KTimers \<Longrightarrow> sd_late s w"
  using assms by (simp_all add: sd_idle_def)

lemma steal_target_neq: "w < sd_workers s \<Longrightarrow> i < max_steal s \<Longrightarrow> steal_target w i s \<noteq> w"
  by (cases "w + i + 1 < sd_workers s") (auto simp: max_steal_def steal_target_def mod_if)

lemma handle_event_idle:
  assumes "sd_typ n m s" "sd_idle n s" "w < n" shows "sd_idle n (handle_event w evs s)"
  using assms(3) sd_typD(4) [OF assms(1)]
  by (intro sd_idle_one [OF assms(2), of w]; cases "(w, evs, s)" rule: handle_event.cases)
    (auto simp: at_pc_def set_var_def slot_take_def checked_def split: if_splits option.splits)

lemma steal_idle:
  assumes "sd_typ n m s" "sd_idle n s" "w < n" "sd_pc s w = WSteal i" shows "sd_idle n (steal w k i s)"
proof -
  have t: "i < max_steal s \<Longrightarrow> steal_target w i s < length (sd_local s) \<and> steal_target w i s \<noteq> w"
    using steal_target_less [of s w i] steal_target_neq [of w s i] sd_typD(1,2) [OF assms(1)] assms(3) by auto
  show ?thesis using assms(3,4) sd_idleD(1) [OF assms(2,3)] t
    by (intro sd_idle_one [OF assms(2), of w])
      (auto simp: steal_def Let_def bulk_pop_def at_pc_def set_var_def checked_def nth_list_update split: if_splits)
qed

lemma worker_step_idle:
  assumes "sd_typ n m s" "sd_idle n s" "worker_step conv w k s = Some s'" "w < n" shows "sd_idle n s'"
proof (cases "(\<exists>evs. sd_pc s w = WEvents evs) \<or> (\<exists>i. sd_pc s w = WSteal i)")
  case True
  then show ?thesis using assms handle_event_idle steal_idle by auto
next
  case False
  then show ?thesis using assms(3,4) sd_idleD [OF assms(2,4)] sd_typD(1,2,3,4) [OF assms(1)]
    by (intro sd_idle_one [OF assms(2), of w]; cases "sd_pc s w")
      (auto simp: sched_defs split: if_splits option.splits list.splits)
qed

lemma schedule_idle:
  assumes "sd_typ n m s" "sd_vars n m s" "sd_idle n s" "schedule a s = Some s'" "a < m" shows "sd_idle n s'"
proof -
  have "running (sd_pc s a)" if "a < n" using sd_varsD(4) [OF assms(2) that] assms(4) by (cases "running (sd_pc s a)") auto
  then have "\<not> no_work (sd_pc s a) b" if "a < n" for b using that by (cases "sd_pc s a") auto
  then show ?thesis using assms(4) sd_idleD(2) [OF assms(3), of a] sd_typD(1,2) [OF assms(1)]
    by (intro sd_idle_one [OF assms(3), of a]; cases "sd_call s a")
      (auto simp: at_call_def set_var_def schedule_with_id_def wakeup_def checked_def split: if_splits)
qed

lemma sched_next_idle:
  assumes "sd_typ n m s" "sd_vars n m s" "sd_idle n s" "sched_next conv ns x s = Some s'" "n \<le> m" shows "sd_idle n s'"
proof (cases "is_client x")
  case True
  then show ?thesis using assms(3) client_frame(2,5,6) [OF assms(4) True] by (simp add: sd_idle_def)
next
  case False
  note nc = this
  show ?thesis
  proof (cases "is_wait x")
    case True
    note W = wait_frame [OF assms(4) True]
    show ?thesis using W(1,2,4,12,13) sd_idleD [OF assms(3), of "thread_of x"] sd_typD(1) [OF assms(1)]
      by (intro sd_idle_one [OF assms(3), of "thread_of x"]) (auto simp: W(3,5,10))
  next
    case False
    with nc assms show ?thesis using worker_step_idle [OF assms(1,3)] schedule_idle [OF assms(1-3)] sd_typD(1,5) [OF assms(1)]
      by (cases x) (auto split: if_splits simp del: worker_step.simps schedule.simps)
  qed
qed

subsection \<open>Conservation\<close>

text \<open>The number of occurrences of a coroutine, as an integer, so that moves are differences.\<close>

definition occ :: "nat \<Rightarrow> nat list \<Rightarrow> int" where
  "occ c xs = int (count_list xs c)"

lemma occ_simps [simp]:
  "occ c [] = 0" "occ c (x # xs) = occ c xs + (if x = c then 1 else 0)" "occ c (xs @ ys) = occ c xs + occ c ys"
  by (simp_all add: occ_def count_list_append)

lemma occ_drop: "occ c (drop k xs) = occ c xs - occ c (take k xs)"
proof -
  have "occ c (take k xs @ drop k xs) = occ c (take k xs) + occ c (drop k xs)" by (rule occ_simps)
  then show ?thesis by simp
qed

lemma occ_concat_upd: "i < length xs \<Longrightarrow> occ c (concat (xs[i := v])) = occ c (concat xs) - occ c (xs ! i) + occ c v"
  by (induction xs arbitrary: i) (auto split: nat.splits)

lemma slot_list_simps [simp]: "length (slot_list xs) = length xs"
  "slot_list (xs[d := x]) = (slot_list xs)[d := (case x of None \<Rightarrow> [] | Some c \<Rightarrow> [c])]"
  "d < length xs \<Longrightarrow> slot_list xs ! d = (case xs ! d of None \<Rightarrow> [] | Some c \<Rightarrow> [c])"
  by (simp_all add: slot_list_def map_update)

lemma sd_cons_occ: "sd_cons s \<longleftrightarrow> (\<forall>c. occ c (places s) = (if c < sd_fresh s then 1 else 0))"
  by (auto simp: sd_cons_def occ_def)

lemma sd_consI: "sd_cons s \<Longrightarrow> sd_fresh s' = sd_fresh s \<Longrightarrow> (\<And>c. occ c (places s') = occ c (places s)) \<Longrightarrow> sd_cons s'"
  by (simp add: sd_cons_occ)

lemma concat_replicate_Nil [simp]: "concat (replicate n []) = []"
  by (induction n) auto

lemma sd_cons_new: "sd_cons (sched_new n m q)"
  by (simp add: sd_cons_def places_def sched_new_def slot_list_def)

lemma handle_event_cons:
  assumes "sd_typ n m s" "sd_vars n m s" "sd_cons s" "w < n" "n \<le> m" "sd_pc s w = WEvents evs" shows "sd_cons (handle_event w evs s)"
proof -
  have "sd_var s ! w = []" using sd_varsD(2,4) [OF assms(2), of w] assms(4-6) by auto
  then show ?thesis using assms(4,5) sd_typD(4,6) [OF assms(1)]
    by (intro sd_consI [OF assms(3)]; cases "(w, evs, s)" rule: handle_event.cases)
      (auto simp: at_pc_def set_var_def slot_take_def checked_def places_def occ_concat_upd split: option.splits)
qed

lemma worker_step_cons:
  assumes "sd_typ n m s" "sd_vars n m s" "sd_cons s" "worker_step conv w k s = Some s'" "w < n" "n \<le> m" shows "sd_cons s'"
proof (cases "\<exists>evs. sd_pc s w = WEvents evs")
  case True
  then show ?thesis using assms handle_event_cons by auto
next
  case False
  have v: "var_ok (sd_pc s w) (sd_var s ! w)" if "\<not> running (sd_pc s w)" using that sd_varsD(2,4) [OF assms(2), of w] assms(5,6) by auto
  then show ?thesis using False assms(4-6) steal_target_less [of s w] sd_typD [OF assms(1)]
    by (intro sd_consI [OF assms(3)]; cases "sd_pc s w")
      (auto simp: sched_defs places_def occ_concat_upd occ_drop length_Suc_conv split: if_splits option.splits list.splits)
qed

lemma schedule_cons:
  assumes "sd_typ n m s" "sd_vars n m s" "sd_cons s" "schedule a s = Some s'" "a < m" shows "sd_cons s'"
  using assms(4,5) sd_varsD(1) [OF assms(2,5)] sd_typD(1,2,3,4,6) [OF assms(1)] sd_typD(8) [OF assms(1), of a]
  by (intro sd_consI [OF assms(3)]; cases "sd_call s a")
    (auto simp: at_call_def set_var_def schedule_with_id_def wakeup_def checked_def places_def occ_concat_upd length_Suc_conv split: if_splits)

lemma client_cons:
  assumes "sd_typ n m s" "sd_vars n m s" "sd_cons s" "sched_next conv ns x s = Some s'" "is_client x" shows "sd_cons s'"
proof -
  note V = client_vars(1,2) [OF assms(1,2) client_frame(1) [OF assms(4,5)]] and T = sd_typD(5,6) [OF assms(1)]
  have "occ c (places s') - occ c (places s) = (if c < sd_fresh s' then 1 else 0) - (if c < sd_fresh s then 1 else 0)" for c
    using assms(4,5) V T
    by (cases x) (auto simp: client_defs places_def occ_concat_upd less_Suc_eq neq_Nil_conv split: if_splits option.splits)
  then show ?thesis using assms(3) by (simp add: sd_cons_occ algebra_simps)
qed

lemma wait_cons:
  assumes "sd_typ n m s" "sd_cons s" "sched_next conv ns x s = Some s'" "is_wait x" "n \<le> m" shows "sd_cons s'"
  using assms(3-5) sd_typD(1,5) [OF assms(1)]
  by (intro sd_consI [OF assms(2)]; cases x)
    (auto simp: epoll_wait_def epoll_error_def timers_done_def timeout_handler_def at_pc_def slot_take_def run_coroutine_def places_def
      occ_concat_upd split: if_splits option.splits)

lemma sched_next_cons:
  assumes "sd_typ n m s" "sd_vars n m s" "sd_cons s" "sched_next conv ns x s = Some s'" "n \<le> m" shows "sd_cons s'"
proof (cases "is_client x \<or> is_wait x")
  case True
  then show ?thesis using client_cons [OF assms(1-4)] wait_cons [OF assms(1,3,4)] assms(5) by blast
next
  case False
  with assms show ?thesis using worker_step_cons [OF assms(1-3)] schedule_cons [OF assms(1-3)] sd_typD(1,5) [OF assms(1)]
    by (cases x) (auto split: if_splits simp del: worker_step.simps schedule.simps)
qed

subsection \<open>The transition system\<close>

lemma sched_next_inv:
  assumes "sd_inv n m s" "sched_next conv ns x s = Some s'" "0 < n" "n \<le> m" shows "sd_inv n m s'"
proof -
  note I = sd_invD [OF assms(1)]
  show ?thesis unfolding sd_inv_def
    using sched_next_typ [OF I(1) assms(2-4)] sched_next_vars [OF I(1,2) assms(2-4)] sched_next_cons [OF I(1-3) assms(2,4)]
      sched_next_wake [OF I(1,4) assms(2,4)] sched_next_idle [OF I(1,2,5) assms(2,4)] by blast
qed

lemma sd_inv_new: "n \<le> m \<Longrightarrow> sd_inv n m (sched_new n m q)"
  by (simp add: sd_inv_def sd_typ_new sd_vars_new sd_cons_new sd_wake_new sd_idle_new)

lemma count_list_upt: "count_list [0..<k] c = (if c < k then 1 else 0)"
  by (induction k) (auto simp: count_list_append)

text \<open>The number of workers is positive (\<^verbatim>\<open>get_workers\<close> of the configuration), and the workers are among the threads.\<close>

definition sched_init :: "nat \<Rightarrow> nat \<Rightarrow> nat \<Rightarrow> sched \<Rightarrow> bool" where
  "sched_init n m q s \<longleftrightarrow> 0 < n \<and> n \<le> m \<and> sched_start n m q s"

interpretation sd: invariant_system "sched_init n m q" "sched_step conv ns" "\<lambda>s. 0 < n \<and> n \<le> m \<and> sd_inv n m s" for n m q conv ns
  by unfold_locales (auto simp: sched_init_def sched_start_def sd_inv_new sched_step_def intro: sched_next_inv)

lemma sched_acts_reach:
  "run_acts (sched_next conv ns) as (sched_new n m q) = Some s \<Longrightarrow> 0 < n \<Longrightarrow> n \<le> m \<Longrightarrow> reach (sched_init n m q) (sched_step conv ns) s"
  by (rule run_acts_reach [of "sched_next conv ns", OF _ _ reach_start]) (auto simp: sched_step_def sched_start_def sched_init_def)

section \<open>Properties\<close>

text \<open>
  C20: every vector of the scheduler has one entry per worker, and no index leaves its bounds. The accesses with \<^verbatim>\<open>get_unchecked\<close>, the assertion of \<^verbatim>\<open>select\<close> and
  the \<^verbatim>\<open>unwrap\<close> of the stealer are safe, whatever id a coroutine was spawned with and also when \<^verbatim>\<open>NEXT_THREAD_ID\<close> wraps around; and a worker never tries to
  steal from itself.
\<close>

theorem sched_in_bounds:
  assumes "reach (sched_init n m q) (sched_step conv ns) s"
  shows "\<not> sd_fault s \<and> sd_workers s = n \<and> length (sd_local s) = n \<and> length (sd_global s) = n \<and> length (sd_evfd s) = n \<and>
    (\<forall>a i. sd_call s a \<in> {CPush i, CWake i} \<longrightarrow> i < n) \<and>
    (\<forall>w<n. \<forall>i<max_steal s. steal_target w i s < n \<and> steal_target w i s \<noteq> w)"
proof -
  have I: "0 < n" "sd_typ n m s" using sd.inv_reach [OF assms] sd_invD(1) by blast+
  note T = sd_typD [OF I(2)]
  have "i < n" if "sd_call s a \<in> {CPush i, CWake i}" for a i using T(8) [of a] that by auto
  then show ?thesis using T I(1) steal_target_less [of s] steal_target_neq [of _ s] by blast
qed

text \<open>
  C4: no coroutine is lost, duplicated or run by two threads. In every interleaving of workers, other threads, wake-ups, timers and steals, every
  coroutine that was spawned is in exactly one place: a local queue, a global queue, a slot, the stack of a thread, the hands of a thread that schedules, collects or
  steals it, or the list of ended coroutines.
\<close>

theorem sched_conserves:
  assumes "reach (sched_init n m q) (sched_step conv ns) s"
  shows "mset (concat (sd_local s)) + mset (concat (sd_global s)) + mset (concat (slot_list (sd_slots s))) + mset (concat (sd_stack s)) +
    mset (concat (sd_var s)) + mset (sd_done s) = mset [0..<sd_fresh s]"
proof -
  have "sd_cons s" using sd.inv_reach [OF assms] sd_invD(3) by blast
  then have "mset (places s) = mset [0..<sd_fresh s]"
    by (intro multiset_eqI) (simp add: sd_cons_def count_mset count_list_upt)
  then show ?thesis by (simp add: places_def add.assoc)
qed

text \<open>
  C6: no wake-up is lost. When a worker waits in \<^verbatim>\<open>epoll.wait\<close> and its descriptor is not ready, no coroutine is in its global queue unless a thread is
  just about to write to the descriptor, and none is in its local queue unless a coroutine ran in the handler of an I/O timeout after the worker had last
  looked for work.
\<close>

theorem sched_no_lost_wakeup:
  assumes "reach (sched_init n m q) (sched_step conv ns) s" and "w < n" and "sd_pc s w = WWait" and "sd_evfd s ! w = 0"
  shows "(sd_global s ! w = [] \<or> (\<exists>a<m. sd_call s a = CWake w)) \<and> (sd_local s ! w = [] \<or> sd_late s w)"
proof -
  have I: "sd_wake n m s" "sd_idle n s" using sd.inv_reach [OF assms(1)] sd_invD(4,5) by blast+
  show ?thesis using I(1) sd_idleD(1) [OF I(2) assms(2)] assms(2-4) by (auto simp: sd_wake_def)
qed

text \<open>The conversion of a timeout for \<^verbatim>\<open>epoll_wait\<close>, which takes an \<^verbatim>\<open>i32\<close>.\<close>

definition to_i32 :: "nat \<Rightarrow> int option" where
  "to_i32 t = (if t < 2 ^ 31 then Some (int t) else None)"

text \<open>A coroutine is spawned from a thread, waits for I/O in a slot, and the worker goes to its timers.\<close>

definition to_timers :: "sact list" where
  "to_timers = [Spawn 1 None, Call 1, Call 1, Call 1, Worker 0 0, Epoll 0 [Wakeup], Worker 0 0, Worker 0 0, Worker 0 0, Worker 0 0,
     Worker 0 0, Worker 0 0, Worker 0 0, Park 0 0, Worker 0 0, Worker 0 0, Worker 0 0, Worker 0 0, Worker 0 0]"

lemmas sched_run_defs = sched_new_def sched_defs max_steal_def steal_target_def to_i32_def div_ceil_def

text \<open>
  C21: a worker can sleep although a coroutine is ready. \<^verbatim>\<open>select\<close> handles the I/O timeouts after \<^verbatim>\<open>run_queued_tasks\<close>. A coroutine that is resumed there with a timeout and
  yields, or wakes another one, puts it into the local queue of this worker; the worker then waits for its next timer, here for a minute, and nobody is
  about to wake it.
\<close>

theorem sched_sleeps_with_work:
  "\<exists>s. reach (sched_init 1 2 1) (sched_step to_i32 10000000) s \<and> sd_pc s 0 = WWait \<and> sd_local s = [[0]] \<and> sd_evfd s = [0] \<and>
     sd_expire s 0 = Some 60000000000 \<and> sd_call s = (\<lambda>_. NoCall) \<and> sd_stack s = [[], []]"
proof -
  obtain s where r: "run_acts (sched_next to_i32 10000000)
      (to_timers @ [TimerFire 0 0, Yield 0, Call 0, Worker 0 0, TimersDone 0 (Some 60000000000), Worker 0 0]) (sched_new 1 2 1) = Some s"
    and p: "sd_pc s 0 = WWait" "sd_local s = [[0]]" "sd_evfd s = [0]" "sd_expire s 0 = Some 60000000000" "sd_call s = (\<lambda>_. NoCall)"
      "sd_stack s = [[], []]"
    by (simp add: to_timers_def sched_run_defs) (simp add: fun_eq_iff numeral_2_eq_2)
  from sched_acts_reach [OF r] p show ?thesis by auto
qed

text \<open>
  A worker does not survive a timer that is too far away: if the conversion of the timeout fails for a duration, the \<^verbatim>\<open>unwrap\<close> in \<^verbatim>\<open>select\<close> ends the thread of the
  worker whose next I/O timer has this distance.
\<close>

lemma sched_far_timer_panics:
  assumes "conv (div_ceil t 1000000) = None" "conv 0 \<noteq> None"
  shows "\<exists>s. reach (sched_init 1 2 1) (sched_step conv 0) s \<and> sd_pc s 0 = WDead"
proof -
  obtain s where r: "run_acts (sched_next conv 0) (to_timers @ [TimersDone 0 (Some t), Worker 0 0]) (sched_new 1 2 1) = Some s"
    and p: "sd_pc s 0 = WDead"
    using assms by (simp add: to_timers_def sched_new_def sched_defs max_steal_def steal_target_def)
  from sched_acts_reach [OF r] p show ?thesis by auto
qed

section \<open>Witnesses\<close>

text \<open>Two workers; worker 0 sleeps, and a thread has spawned a coroutine with id 3, which goes to worker 1.\<close>

lemma spawned_on_worker_1:
  "\<exists>s. reach (sched_init 2 3 1) (sched_step to_i32 10000000) s \<and> sd_pc s 0 = WWait \<and> sd_evfd s = [0, 0] \<and> sd_call s 2 = CWake 1 \<and>
    sd_call s 0 = NoCall \<and> sd_call s 1 = NoCall \<and> sd_global s = [[], [0]] \<and> sd_fresh s = 1 \<and> \<not> sd_late s 0"
proof -
  obtain s where r: "run_acts (sched_next to_i32 10000000) [Worker 0 0, Spawn 2 (Some 3), Call 2] (sched_new 2 3 1) = Some s"
    and p: "sd_pc s 0 = WWait" "sd_evfd s = [0, 0]" "sd_call s 2 = CWake 1" "sd_call s 0 = NoCall" "sd_call s 1 = NoCall"
      "sd_global s = [[], [0]]" "sd_fresh s = 1" "\<not> sd_late s 0"
    by (simp add: sched_run_defs) (simp add: numeral_2_eq_2 numeral_3_eq_3)
  from sched_acts_reach [OF r] p show ?thesis by auto
qed

theorem sched_in_bounds_witness:
  "\<exists>s. reach (sched_init 2 3 1) (sched_step to_i32 10000000) s \<and> length (sd_global s) = 2 \<and> (\<forall>i. sd_call s 2 = CWake i \<longrightarrow> i < 2)"
proof -
  obtain s where r: "reach (sched_init 2 3 1) (sched_step to_i32 10000000) s" using spawned_on_worker_1 by blast
  from sched_in_bounds [OF r] r show ?thesis by blast
qed

theorem sched_conserves_witness:
  "\<exists>s. reach (sched_init 2 3 1) (sched_step to_i32 10000000) s \<and> sd_global s = [[], [0]] \<and>
    mset (concat (sd_local s)) + mset (concat (sd_global s)) + mset (concat (slot_list (sd_slots s))) + mset (concat (sd_stack s)) +
    mset (concat (sd_var s)) + mset (sd_done s) = {#0#}"
proof -
  obtain s where r: "reach (sched_init 2 3 1) (sched_step to_i32 10000000) s" "sd_global s = [[], [0]]" "sd_fresh s = 1"
    using spawned_on_worker_1 by blast
  from sched_conserves [OF r(1)] r show ?thesis by auto
qed

theorem sched_no_lost_wakeup_witness:
  "\<exists>s. reach (sched_init 2 3 1) (sched_step to_i32 10000000) s \<and> sd_pc s 0 = WWait \<and> sd_evfd s ! 0 = 0 \<and>
    (sd_global s ! 0 = [] \<or> (\<exists>a<3. sd_call s a = CWake 0)) \<and> sd_local s ! 0 = []"
proof -
  obtain s where r: "reach (sched_init 2 3 1) (sched_step to_i32 10000000) s" "sd_pc s 0 = WWait" "sd_evfd s = [0, 0]" "\<not> sd_late s 0"
    using spawned_on_worker_1 by blast
  then have e: "sd_evfd s ! 0 = 0" by simp
  from sched_no_lost_wakeup [OF r(1) _ r(2) e] r e show ?thesis by auto
qed

end
