(* ===== verification/Handoff.thy ===== *)
theory Handoff
  imports Blocking
begin

text \<open>
  The hand-off protocol that the locks run over the two flags of a \<^verbatim>\<open>SyncBlocker\<close>
  (\<^verbatim>\<open>src/sync/blocking.rs\<close>, the ordering rules above \<^verbatim>\<open>struct SyncBlocker\<close>): a waiter pushes a fresh
  blocker, parks, and may leave early; a giver pops a blocker, unparks it and takes back what the
  waiter did not want. Each access to a flag is one step. The result is that every \<^verbatim>\<open>unpark\<close> is consumed
  by exactly one side.
\<close>

section \<open>The protocol\<close>

datatype wside = WNone | WPark nat | WLeave nat | WLate nat | WTake nat

datatype gside = GNone | Give nat | Wake nat | Rel nat

record hand =
  hd_queue :: "nat list"
  hd_fresh :: nat
  hd_blk :: "nat \<Rightarrow> blocker"
  hd_w :: "nat \<Rightarrow> wside"
  hd_g :: "nat \<Rightarrow> gside"

text \<open>
  A step may hand a resource to a waiter or consume the resource of a waiter.
\<close>

datatype hev = Tau | Handed nat | Consumed nat

inductive hstep :: "nat \<Rightarrow> hand \<Rightarrow> hev \<Rightarrow> hand \<Rightarrow> bool" for t s where
  h_push: "hd_w s t = WNone \<Longrightarrow> n = hd_fresh s \<Longrightarrow>
     hstep t s Tau (s\<lparr>hd_queue := hd_queue s @ [n], hd_fresh := Suc n,
       hd_blk := (hd_blk s)(n := sync_blocker), hd_w := (hd_w s)(t := WPark n)\<rparr>)"
| h_pop: "hd_queue s = w # q \<Longrightarrow> hd_g s t = GNone \<Longrightarrow>
     hstep t s Tau (s\<lparr>hd_queue := q, hd_g := (hd_g s)(t := Give w)\<rparr>)"
| h_unpark: "hd_g s t = Give w \<Longrightarrow>
     hstep t s (Handed w) (s\<lparr>hd_blk := (hd_blk s)(w := unpark_flag (hd_blk s w)), hd_g := (hd_g s)(t := Wake w)\<rparr>)"
| h_wake: "hd_g s t = Wake w \<Longrightarrow>
     hstep t s Tau (s\<lparr>hd_blk := (hd_blk s)(w := unpark_wake (hd_blk s w)), hd_g := (hd_g s)(t := Rel w)\<rparr>)"
| h_rel: "hd_g s t = Rel w \<Longrightarrow> take_release (hd_blk s w) = (r, b) \<Longrightarrow>
     hstep t s (if r then Consumed w else Tau) (s\<lparr>hd_blk := (hd_blk s)(w := b), hd_g := (hd_g s)(t := GNone)\<rparr>)"
| h_park: "hd_w s t = WPark b \<Longrightarrow> bk_token (hd_blk s b) \<Longrightarrow>
     hstep t s (Consumed b) (s\<lparr>hd_blk := (hd_blk s)(b := park_return (hd_blk s b)), hd_w := (hd_w s)(t := WNone)\<rparr>)"
| h_cancel: "hd_w s t = WPark b \<Longrightarrow>
     hstep t s Tau (s\<lparr>hd_blk := (hd_blk s)(b := park_return (hd_blk s b)), hd_w := (hd_w s)(t := WLeave b)\<rparr>)"
| h_leave: "hd_w s t = WPark b \<Longrightarrow> hstep t s Tau (s\<lparr>hd_w := (hd_w s)(t := WLeave b)\<rparr>)"
| h_take_now: "hd_w s t = WLeave b \<Longrightarrow> is_unparked (hd_blk s b) \<Longrightarrow>
     hstep t s (Consumed b) (s\<lparr>hd_w := (hd_w s)(t := WNone)\<rparr>)"
| h_back: "hd_w s t = WLeave b \<Longrightarrow> \<not> is_unparked (hd_blk s b) \<Longrightarrow>
     hstep t s Tau (s\<lparr>hd_w := (hd_w s)(t := WPark b)\<rparr>)"
| h_set_release: "hd_w s t = WLeave b \<Longrightarrow>
     hstep t s Tau (s\<lparr>hd_blk := (hd_blk s)(b := set_release (hd_blk s b)), hd_w := (hd_w s)(t := WLate b)\<rparr>)"
| h_gone: "hd_w s t = WLate b \<Longrightarrow> \<not> is_unparked (hd_blk s b) \<Longrightarrow>
     hstep t s Tau (s\<lparr>hd_w := (hd_w s)(t := WNone)\<rparr>)"
| h_recheck: "hd_w s t = WLate b \<Longrightarrow> is_unparked (hd_blk s b) \<Longrightarrow>
     hstep t s Tau (s\<lparr>hd_w := (hd_w s)(t := WTake b)\<rparr>)"
| h_take: "hd_w s t = WTake b \<Longrightarrow> take_release (hd_blk s b) = (r, v) \<Longrightarrow>
     hstep t s (if r then Consumed b else Tau) (s\<lparr>hd_blk := (hd_blk s)(b := v), hd_w := (hd_w s)(t := WNone)\<rparr>)"
| h_stutter: "hstep t s Tau s"

section \<open>Invariant\<close>

definition waits_on :: "hand \<Rightarrow> nat \<Rightarrow> nat \<Rightarrow> bool" where
  "waits_on s t b \<longleftrightarrow> hd_w s t = WPark b \<or> hd_w s t = WLeave b"

definition left :: "hand \<Rightarrow> nat \<Rightarrow> nat \<Rightarrow> bool" where
  "left s t b \<longleftrightarrow> hd_w s t = WLate b \<or> hd_w s t = WTake b"

definition gave :: "hand \<Rightarrow> nat \<Rightarrow> nat \<Rightarrow> bool" where
  "gave s t w \<longleftrightarrow> hd_g s t = Wake w \<or> hd_g s t = Rel w"

text \<open>The blockers that carry a resource nobody has consumed yet.\<close>

definition handed :: "hand \<Rightarrow> nat set" where
  "handed s = {w. w < hd_fresh s \<and> bk_unparked (hd_blk s w) \<and>
     (bk_release (hd_blk s w) \<or> (\<exists>t. waits_on s t w))}"

definition hand_queue :: "hand \<Rightarrow> bool" where
  "hand_queue s \<longleftrightarrow> distinct (hd_queue s) \<and>
     (\<forall>w \<in> set (hd_queue s). w < hd_fresh s \<and> \<not> bk_unparked (hd_blk s w)) \<and>
     (\<forall>w < hd_fresh s. \<not> bk_unparked (hd_blk s w) \<longrightarrow> w \<in> set (hd_queue s) \<or> (\<exists>t. hd_g s t = Give w))"

definition hand_give :: "hand \<Rightarrow> bool" where
  "hand_give s \<longleftrightarrow>
     (\<forall>t w. hd_g s t = Give w \<longrightarrow>
        w < hd_fresh s \<and> \<not> bk_unparked (hd_blk s w) \<and> w \<notin> set (hd_queue s)) \<and>
     (\<forall>t u w. hd_g s t = Give w \<longrightarrow> hd_g s u = Give w \<longrightarrow> t = u) \<and>
     (\<forall>t w. gave s t w \<longrightarrow> w < hd_fresh s \<and> bk_unparked (hd_blk s w))"

definition hand_wait :: "hand \<Rightarrow> bool" where
  "hand_wait s \<longleftrightarrow>
     (\<forall>t u b. waits_on s t b \<longrightarrow> waits_on s u b \<longrightarrow> t = u) \<and>
     (\<forall>t b. waits_on s t b \<longrightarrow> b < hd_fresh s \<and> \<not> bk_release (hd_blk s b)) \<and>
     (\<forall>t b. left s t b \<longrightarrow> b < hd_fresh s) \<and>
     (\<forall>t b. hd_w s t = WTake b \<longrightarrow> bk_unparked (hd_blk s b))"

definition hand_release :: "hand \<Rightarrow> bool" where
  "hand_release s \<longleftrightarrow>
     (\<forall>w < hd_fresh s. \<not> bk_unparked (hd_blk s w) \<longrightarrow>
        bk_release (hd_blk s w) \<or> (\<exists>t. waits_on s t w)) \<and>
     (\<forall>w < hd_fresh s. bk_unparked (hd_blk s w) \<longrightarrow> bk_release (hd_blk s w) \<longrightarrow>
        (\<exists>t. left s t w \<or> gave s t w))"

definition hand_token :: "hand \<Rightarrow> bool" where
  "hand_token s \<longleftrightarrow>
     (\<forall>w. bk_token (hd_blk s w) \<longrightarrow> bk_unparked (hd_blk s w)) \<and>
     (\<forall>t w. hd_w s t = WPark w \<longrightarrow> bk_unparked (hd_blk s w) \<longrightarrow>
        bk_token (hd_blk s w) \<or> (\<exists>u. hd_g s u = Wake w))"

definition hand_ok :: "hand \<Rightarrow> bool" where
  "hand_ok s \<longleftrightarrow> hand_queue s \<and> hand_give s \<and> hand_wait s \<and> hand_release s \<and> hand_token s"

lemmas hand_defs = waits_on_def left_def gave_def blocker_defs

lemma hand_okD:
  assumes "hand_ok s"
  shows "hand_queue s" "hand_give s" "hand_wait s" "hand_release s" "hand_token s"
  using assms by (simp_all add: hand_ok_def)

lemma blocker_simps [simp]:
  "bk_unparked (unpark_flag b) = True" "bk_release (unpark_flag b) = bk_release b" "bk_token (unpark_flag b) = bk_token b"
  "bk_unparked (unpark_wake b) = bk_unparked b" "bk_release (unpark_wake b) = bk_release b" "bk_token (unpark_wake b) = True"
  "bk_unparked (park_return b) = bk_unparked b" "bk_release (park_return b) = bk_release b" "bk_token (park_return b) = False"
  "bk_unparked (set_release b) = bk_unparked b" "bk_release (set_release b) = True" "bk_token (set_release b) = bk_token b"
  "bk_unparked sync_blocker = False" "bk_release sync_blocker = False" "bk_token sync_blocker = False"
  "is_unparked b = bk_unparked b"
  "take_release b = (r, v) \<longleftrightarrow> r = bk_release b \<and> v = b\<lparr>bk_release := False\<rparr>"
  by (auto simp: blocker_defs)

lemma ex_upd_same: "P (f t) = P v \<Longrightarrow> (\<exists>u. P ((f(t := v)) u)) = (\<exists>u. P (f u))"
  by (metis fun_upd_other fun_upd_same)

lemma hstep_queue:
  assumes "hstep t s e s'" "hand_queue s" "hand_give s"
  shows "hand_queue s'"
  using assms(1)
proof (cases rule: hstep.cases)
  case (h_push n)
  then show ?thesis using assms(2) by (auto simp: hand_queue_def less_Suc_eq)
next
  case (h_pop w q)
  have "w' \<in> set q \<or> (\<exists>u. ((hd_g s)(t := Give w)) u = Give w')"
    if "w' < hd_fresh s" "\<not> bk_unparked (hd_blk s w')" for w'
  proof -
    have "w' = w \<or> w' \<in> set q \<or> (\<exists>u. hd_g s u = Give w')"
      using assms(2) that h_pop(3) by (auto simp: hand_queue_def)
    then show ?thesis using h_pop(4) by (metis fun_upd_other fun_upd_same gside.distinct(1))
  qed
  then show ?thesis using assms(2) h_pop by (auto simp: hand_queue_def)
next
  case (h_unpark w)
  have "w' \<in> set (hd_queue s) \<or> (\<exists>u. ((hd_g s)(t := Wake w)) u = Give w')"
    if "w' < hd_fresh s" "\<not> bk_unparked (hd_blk s w')" "w' \<noteq> w" for w'
  proof -
    have "w' \<in> set (hd_queue s) \<or> (\<exists>u. hd_g s u = Give w')"
      using assms(2) that(1,2) by (auto simp: hand_queue_def)
    then show ?thesis using h_unpark(3) that(3) by (metis fun_upd_other gside.inject(1))
  qed
  then show ?thesis using assms(2,3) h_unpark by (auto simp: hand_queue_def hand_give_def)
next
  case (h_wake w)
  have "(\<exists>u. ((hd_g s)(t := Rel w)) u = Give w') \<longleftrightarrow> (\<exists>u. hd_g s u = Give w')" for w'
    by (rule ex_upd_same) (use h_wake(3) in simp)
  then show ?thesis using assms(2) h_wake by (auto simp: hand_queue_def simp del: fun_upd_apply) (auto split: if_splits)
next
  case (h_rel w r b)
  have "(\<exists>u. ((hd_g s)(t := GNone)) u = Give w') \<longleftrightarrow> (\<exists>u. hd_g s u = Give w')" for w'
    by (rule ex_upd_same) (use h_rel(3) in simp)
  then show ?thesis using assms(2) h_rel by (auto simp: hand_queue_def simp del: fun_upd_apply) (auto split: if_splits)
qed (use assms(2) in \<open>auto simp: hand_queue_def\<close>)


lemma hstep_give:
  assumes "hstep t s e s'" "hand_queue s" "hand_give s"
  shows "hand_give s'"
  using assms(1)
proof (cases rule: hstep.cases)
  case (h_push n)
  then show ?thesis using assms(3) unfolding hand_give_def gave_def by (auto 0 3)
next
  case (h_pop w q)
  then have "w \<in> set (hd_queue s)" by simp
  then have "hd_g s u \<noteq> Give w" for u using assms(3) by (auto simp: hand_give_def)
  then show ?thesis using assms(2,3) h_pop unfolding hand_give_def hand_queue_def gave_def by (auto 0 3)
next
  case (h_unpark w)
  then show ?thesis using assms(3) unfolding hand_give_def gave_def by (auto 0 3)
qed (use assms(3) in \<open>auto 0 3 simp: hand_give_def gave_def\<close>)

lemma hstep_wait:
  assumes "hstep t s e s'" "hand_wait s"
  shows "hand_wait s'"
  using assms(1)
proof (cases rule: hstep.cases)
  case (h_push n)
  then show ?thesis using assms(2) unfolding hand_wait_def waits_on_def left_def by (auto 0 4)
next
  case (h_set_release b)
  then have "waits_on s t b" by (simp add: waits_on_def)
  then have "\<not> waits_on s u b" if "u \<noteq> t" for u using assms(2) that unfolding hand_wait_def by blast
  then show ?thesis using assms(2) h_set_release unfolding hand_wait_def waits_on_def left_def by (auto 0 4)
qed (use assms(2) in \<open>auto 0 4 simp: hand_wait_def waits_on_def left_def\<close>)

lemma hstep_frame: "hstep t s e s' \<Longrightarrow> u \<noteq> t \<Longrightarrow> hd_w s' u = hd_w s u \<and> hd_g s' u = hd_g s u"
  by (auto elim!: hstep.cases)

lemma hstep_token:
  assumes st: "hstep t s e s'" and ok: "hand_token s" "hand_wait s" "hand_give s"
  shows "hand_token s'"
proof -
  have "bk_unparked (hd_blk s' w)" if w: "bk_token (hd_blk s' w)" for w
    using st w ok(1,3) by cases (auto simp: hand_token_def hand_give_def gave_def split: if_splits)
  moreover have "bk_token (hd_blk s' w) \<or> (\<exists>v. hd_g s' v = Wake w)"
    if w: "hd_w s' u = WPark w" "bk_unparked (hd_blk s' w)" for u w
  proof (cases "hd_w s u = WPark w \<and> bk_unparked (hd_blk s w)")
    case True
    with ok(1) consider "bk_token (hd_blk s w)" | v where "hd_g s v = Wake w"
      unfolding hand_token_def by blast
    then show ?thesis
    proof cases
      case 1
      have tu: "t = u" if "hd_w s t = WPark w" using that True ok(2) by (auto simp: hand_wait_def waits_on_def)
      show ?thesis using st 1 w tu by cases (auto split: if_splits)
    next
      case 2
      show ?thesis
      proof (cases "v = t")
        case True
        show ?thesis using st 2 True by cases (auto split: if_splits intro: exI [of _ t])
      next
        case False
        then show ?thesis using hstep_frame [OF st, of v] 2 by auto
      qed
    qed
  next
    case False
    show ?thesis using st w False by cases (auto split: if_splits)
  qed
  ultimately show ?thesis unfolding hand_token_def by blast
qed

lemma left_upd:
  assumes "\<exists>u. left s u w \<or> gave s u w"
    and "left s t w \<longrightarrow> left s' t w" "gave s t w \<longrightarrow> gave s' t w"
    and "\<And>u. u \<noteq> t \<Longrightarrow> hd_w s' u = hd_w s u \<and> hd_g s' u = hd_g s u"
  shows "\<exists>u. left s' u w \<or> gave s' u w"
proof -
  from assms(1) obtain u where u: "left s u w \<or> gave s u w" by blast
  show ?thesis
  proof (cases "u = t")
    case False
    with assms(4) u show ?thesis unfolding left_def gave_def by metis
  qed (use u assms(2,3) in blast)
qed

lemma waits_upd:
  assumes "\<exists>u. waits_on s u w" and "waits_on s t w \<longrightarrow> waits_on s' t w"
    and "\<And>u. u \<noteq> t \<Longrightarrow> hd_w s' u = hd_w s u"
  shows "\<exists>u. waits_on s' u w"
proof -
  from assms(1) obtain u where u: "waits_on s u w" by blast
  show ?thesis
  proof (cases "u = t")
    case False
    with assms(3) u show ?thesis unfolding waits_on_def by metis
  qed (use u assms(2) in blast)
qed

lemma hstep_release:
  assumes st: "hstep t s e s'" and ok: "hand_release s" "hand_give s" "hand_wait s" "hand_token s"
  shows "hand_release s'"
proof -
  note frame = hstep_frame [OF st]
  have a: "\<forall>w < hd_fresh s. \<not> bk_unparked (hd_blk s w) \<longrightarrow>
        bk_release (hd_blk s w) \<or> (\<exists>t. waits_on s t w)"
    and b: "\<forall>w < hd_fresh s. bk_unparked (hd_blk s w) \<longrightarrow> bk_release (hd_blk s w) \<longrightarrow>
        (\<exists>t. left s t w \<or> gave s t w)" using ok(1) by (simp_all add: hand_release_def)
  have "bk_release (hd_blk s' w) \<or> (\<exists>u. waits_on s' u w)"
    if w: "w < hd_fresh s'" "\<not> bk_unparked (hd_blk s' w)" for w
  proof (cases "w < hd_fresh s")
    case True
    have nu: "\<not> bk_unparked (hd_blk s w)" using st w True by cases (auto split: if_splits)
    show ?thesis
    proof (cases "bk_release (hd_blk s w)")
      case r: True
      show ?thesis using st r w True nu ok(2,3)
        by cases (auto simp: hand_give_def hand_wait_def gave_def split: if_splits)
    next
      case False
      with a True nu have ex: "\<exists>u. waits_on s u w" by blast
      show ?thesis
      proof (cases "waits_on s t w \<longrightarrow> waits_on s' t w")
        case True
        then show ?thesis using waits_upd [OF ex _ ] frame by blast
      next
        case False
        show ?thesis using st False nu ok(4) by cases (auto simp: waits_on_def hand_token_def split: if_splits)
      qed
    qed
  next
    case False
    show ?thesis using st w False by cases (auto simp: waits_on_def)
  qed
  moreover have "\<exists>u. left s' u w \<or> gave s' u w"
    if w: "w < hd_fresh s'" "bk_unparked (hd_blk s' w)" "bk_release (hd_blk s' w)" for w
  proof (cases "bk_unparked (hd_blk s w) \<and> bk_release (hd_blk s w) \<and> w < hd_fresh s")
    case True
    with b have ex: "\<exists>u. left s u w \<or> gave s u w" by blast
    show ?thesis
      by (rule left_upd [OF ex]) (use st w frame in \<open>auto simp: left_def gave_def elim!: hstep.cases split: if_splits\<close>)
  next
    case False
    show ?thesis using st w False by cases (auto simp: left_def gave_def split: if_splits)
  qed
  ultimately show ?thesis unfolding hand_release_def by blast
qed


text \<open>
  The step preserves the invariant, and it changes the set of waiters that carry a resource exactly as
  its label says.
\<close>

lemma hstep_ok: "hstep t s e s' \<Longrightarrow> hand_ok s \<Longrightarrow> hand_ok s'"
  using hstep_queue hstep_give hstep_wait hstep_release hstep_token unfolding hand_ok_def by blast

lemma handed_eqI:
  assumes "hd_fresh s' = hd_fresh s" "\<And>w. bk_unparked (hd_blk s' w) = bk_unparked (hd_blk s w)"
    and "\<And>w. w < hd_fresh s \<Longrightarrow> bk_unparked (hd_blk s w) \<Longrightarrow>
      (bk_release (hd_blk s' w) \<or> (\<exists>u. waits_on s' u w)) = (bk_release (hd_blk s w) \<or> (\<exists>u. waits_on s u w))"
  shows "handed s' = handed s"
  using assms by (auto simp: handed_def)

lemma waits_on_same:
  "hd_w s' = hd_w s \<Longrightarrow> waits_on s' = waits_on s"
  by (simp add: waits_on_def fun_eq_iff)

lemma waits_on_fun_upd: "waits_on (s\<lparr>hd_w := (hd_w s)(t := p)\<rparr>) u w \<longleftrightarrow>
    (if u = t then p = WPark w \<or> p = WLeave w else waits_on s u w)"
  by (simp add: waits_on_def)

text \<open>A waiter that stops waiting without having set its release flag takes its resource with it.\<close>

lemma handed_stop:
  assumes ok: "hand_ok s" and w: "waits_on s t b" "bk_unparked (hd_blk s b)"
    and s': "hd_fresh s' = hd_fresh s" "\<And>w. bk_unparked (hd_blk s' w) = bk_unparked (hd_blk s w)"
      "\<And>w. bk_release (hd_blk s' w) = bk_release (hd_blk s w)" "hd_w s' = (hd_w s)(t := WNone)"
  shows "b \<in> handed s \<and> handed s' = handed s - {b}"
proof -
  note W = hand_okD(3) [OF ok]
  have b: "b < hd_fresh s" "\<not> bk_release (hd_blk s b)" using W w(1) by (auto simp: hand_wait_def)
  have wt: "waits_on s' u c \<longleftrightarrow> u \<noteq> t \<and> waits_on s u c" for u c using s'(4) by (auto simp: waits_on_def)
  have "waits_on s u c \<and> u \<noteq> t \<longleftrightarrow> waits_on s u c \<and> c \<noteq> b" for u c
    using W w(1) unfolding hand_wait_def waits_on_def by auto
  then have "(\<exists>u. u \<noteq> t \<and> waits_on s u c) \<longleftrightarrow> c \<noteq> b \<and> (\<exists>u. waits_on s u c)" for c by blast
  then show ?thesis using b w unfolding handed_def s'(1-3) wt by auto
qed

lemma handed_take:
  assumes ok: "hand_ok s" and w: "w < hd_fresh s" "bk_unparked (hd_blk s w)" "bk_release (hd_blk s w)"
    and s': "hd_fresh s' = hd_fresh s" "\<And>v. bk_unparked (hd_blk s' v) = bk_unparked (hd_blk s v)"
      "\<And>v. bk_release (hd_blk s' v) \<longleftrightarrow> v \<noteq> w \<and> bk_release (hd_blk s v)"
      "\<And>u v. waits_on s' u v = waits_on s u v"
  shows "w \<in> handed s \<and> handed s' = handed s - {w}"
proof -
  have "\<not> waits_on s u w" for u using hand_okD(3) [OF ok] w(3) by (auto simp: hand_wait_def)
  then show ?thesis using w unfolding handed_def s' by blast
qed


lemma hstep_handed:
  assumes st: "hstep t s e s'" and ok: "hand_ok s"
  shows "handed s' = (case e of Tau \<Rightarrow> handed s | Handed w \<Rightarrow> insert w (handed s) | Consumed w \<Rightarrow> handed s - {w})"
    and "e = Handed w \<Longrightarrow> \<not> bk_unparked (hd_blk s w) \<and> w < hd_fresh s"
    and "e = Consumed w \<Longrightarrow> w \<in> handed s"
proof -
  note okD = hand_okD [OF ok]
  have "handed s' = (case e of Tau \<Rightarrow> handed s | Handed w \<Rightarrow> insert w (handed s) | Consumed w \<Rightarrow> handed s - {w}) \<and>
    (\<forall>w. e = Handed w \<longrightarrow> \<not> bk_unparked (hd_blk s w) \<and> w < hd_fresh s) \<and> (\<forall>w. e = Consumed w \<longrightarrow> w \<in> handed s)"
    using st
  proof (cases rule: hstep.cases)
    case (h_push n)
    have "waits_on s u w \<Longrightarrow> w \<noteq> n \<and> u \<noteq> t" for u w
      using okD(3) h_push by (auto simp: hand_wait_def waits_on_def)
    then show ?thesis using h_push by (auto simp: handed_def waits_on_def split: if_splits)
  next
    case (h_pop w q)
    then show ?thesis by (auto simp: handed_def waits_on_def)
  next
    case (h_unpark w)
    then have w: "w < hd_fresh s" "\<not> bk_unparked (hd_blk s w)" using okD(2) by (auto simp: hand_give_def)
    then have "bk_release (hd_blk s w) \<or> (\<exists>t. waits_on s t w)" using okD(4) by (auto simp: hand_release_def)
    then show ?thesis using h_unpark w by (auto simp: handed_def waits_on_def)
  next
    case (h_wake w)
    then show ?thesis by (auto simp: handed_def waits_on_def)
  next
    case (h_rel w r b)
    then have w: "w < hd_fresh s" "bk_unparked (hd_blk s w)" using okD(2) by (auto simp: hand_give_def gave_def)
    have eq: "bk_unparked (hd_blk s' v) = bk_unparked (hd_blk s v)" "waits_on s' u v = waits_on s u v"
      "bk_release (hd_blk s' v) \<longleftrightarrow> v \<noteq> w \<and> bk_release (hd_blk s v)" "hd_fresh s' = hd_fresh s" for u v
      using h_rel by (auto simp: waits_on_def)
    show ?thesis
    proof (cases r)
      case True
      then have "bk_release (hd_blk s w)" using h_rel by simp
      from handed_take [OF ok w this] eq True h_rel(1) show ?thesis by simp
    next
      case False
      then have "handed s' = handed s" using eq h_rel(4) by (auto simp: handed_def)
      then show ?thesis using False h_rel(1) by simp
    qed
  next
    case (h_park b)
    then have "bk_unparked (hd_blk s b)" "waits_on s t b" using okD(5) by (auto simp: hand_token_def waits_on_def)
    from handed_stop [OF ok this(2,1), of s'] h_park show ?thesis by auto
  next
    case (h_cancel b)
    then have "waits_on s' u w = waits_on s u w" for u w by (auto simp: waits_on_def)
    then have "handed s' = handed s" using h_cancel by (intro handed_eqI) auto
    then show ?thesis using h_cancel by simp
  next
    case (h_leave b)
    then have "waits_on s' u w = waits_on s u w" for u w by (auto simp: waits_on_def)
    then have "handed s' = handed s" using h_leave by (intro handed_eqI) auto
    then show ?thesis using h_leave by simp
  next
    case (h_take_now b)
    then have "bk_unparked (hd_blk s b)" "waits_on s t b" by (auto simp: waits_on_def)
    from handed_stop [OF ok this(2,1), of s'] h_take_now show ?thesis by auto
  next
    case (h_back b)
    then have "waits_on s' u w = waits_on s u w" for u w by (auto simp: waits_on_def)
    then have "handed s' = handed s" using h_back by (intro handed_eqI) auto
    then show ?thesis using h_back by simp
  next
    case (h_set_release b)
    then have "waits_on s t b" by (simp add: waits_on_def)
    moreover have "waits_on s' u w = waits_on s u w" if "w \<noteq> b" for u w
      using h_set_release that by (auto simp: waits_on_def)
    ultimately have "handed s' = handed s" using h_set_release by (intro handed_eqI) auto
    then show ?thesis using h_set_release by simp
  next
    case (h_gone b)
    then have "waits_on s' u w = waits_on s u w" for u w by (auto simp: waits_on_def)
    then have "handed s' = handed s" using h_gone by (intro handed_eqI) auto
    then show ?thesis using h_gone by simp
  next
    case (h_recheck b)
    then have "waits_on s' u w = waits_on s u w" for u w by (auto simp: waits_on_def)
    then have "handed s' = handed s" using h_recheck by (intro handed_eqI) auto
    then show ?thesis using h_recheck by simp
  next
    case (h_take b r v)
    then have w: "b < hd_fresh s" "bk_unparked (hd_blk s b)" using okD(3) by (auto simp: hand_wait_def left_def)
    have eq: "bk_unparked (hd_blk s' v) = bk_unparked (hd_blk s v)" "waits_on s' u v = waits_on s u v"
      "bk_release (hd_blk s' v) \<longleftrightarrow> v \<noteq> b \<and> bk_release (hd_blk s v)" "hd_fresh s' = hd_fresh s" for u v
      using h_take by (auto simp: waits_on_def)
    show ?thesis
    proof (cases r)
      case True
      then have "bk_release (hd_blk s b)" using h_take by simp
      from handed_take [OF ok w this] eq True h_take(1) show ?thesis by simp
    next
      case False
      then have "handed s' = handed s" using eq h_take(4) by (auto simp: handed_def)
      then show ?thesis using False h_take(1) by simp
    qed
  next
    case h_stutter
    then show ?thesis by simp
  qed
  then show "handed s' = (case e of Tau \<Rightarrow> handed s | Handed w \<Rightarrow> insert w (handed s) | Consumed w \<Rightarrow> handed s - {w})"
    "e = Handed w \<Longrightarrow> \<not> bk_unparked (hd_blk s w) \<and> w < hd_fresh s" "e = Consumed w \<Longrightarrow> w \<in> handed s" by auto
qed


lemma hstep_eqI: "hstep t H e K \<Longrightarrow> K = K' \<Longrightarrow> hstep t H e K'"
  by simp

section \<open>Quiescence\<close>

text \<open>
  When nobody is in the middle of a hand-off and every waiter is parked without a token, no resource is
  under way, and every waiter is still in the queue: no wake-up is lost.
\<close>

definition hand_quiet :: "hand \<Rightarrow> bool" where
  "hand_quiet s \<longleftrightarrow> (\<forall>t. hd_g s t = GNone) \<and>
     (\<forall>t. hd_w s t = WNone \<or> (\<exists>b. hd_w s t = WPark b \<and> \<not> bk_token (hd_blk s b)))"

lemma hand_quietD:
  assumes ok: "hand_ok s" and q: "hand_quiet s"
  shows "handed s = {}" and "hd_w s t = WPark b \<Longrightarrow> b \<in> set (hd_queue s)"
proof -
  note okD = hand_okD [OF ok]
  have nu: "\<not> bk_unparked (hd_blk s b)" if w: "waits_on s t b" for t b
  proof -
    have "hd_w s t = WNone \<or> (\<exists>b. hd_w s t = WPark b \<and> \<not> bk_token (hd_blk s b))" using q by (simp add: hand_quiet_def)
    then have p: "hd_w s t = WPark b" "\<not> bk_token (hd_blk s b)" using w by (auto simp: waits_on_def)
    then show ?thesis using okD(5) q by (auto simp: hand_token_def hand_quiet_def)
  qed
  have "\<not> left s t w" "\<not> gave s t w" for t w
  proof -
    have "hd_w s t = WNone \<or> (\<exists>b. hd_w s t = WPark b)" "hd_g s t = GNone" using q by (auto simp: hand_quiet_def)
    then show "\<not> left s t w" "\<not> gave s t w" by (auto simp: left_def gave_def)
  qed
  then have "\<not> (bk_unparked (hd_blk s w) \<and> bk_release (hd_blk s w))" if "w < hd_fresh s" for w
    using okD(4) that by (auto simp: hand_release_def)
  with nu show "handed s = {}" by (auto simp: handed_def)
  show "b \<in> set (hd_queue s)" if "hd_w s t = WPark b" for t b
  proof -
    have w: "waits_on s t b" using that by (simp add: waits_on_def)
    have "b < hd_fresh s" using okD(3) w by (auto simp: hand_wait_def)
    then show ?thesis using okD(1) nu [OF w] q by (auto simp: hand_queue_def hand_quiet_def)
  qed
qed

section \<open>Runs\<close>

definition hand_new :: hand where
  "hand_new = \<lparr>hd_queue = [], hd_fresh = 0, hd_blk = (\<lambda>_. sync_blocker), hd_w = (\<lambda>_. WNone), hd_g = (\<lambda>_. GNone)\<rparr>"

inductive hrun :: "hev list \<Rightarrow> hand \<Rightarrow> bool" where
  hrun_new: "hrun [] hand_new"
| hrun_step: "hrun es s \<Longrightarrow> hstep t s e s' \<Longrightarrow> hrun (es @ [e]) s'"

lemma hand_ok_new: "hand_ok hand_new"
  by (simp add: hand_ok_def hand_queue_def hand_give_def hand_wait_def hand_release_def hand_token_def
      waits_on_def left_def gave_def hand_new_def)

lemma hstep_unparked:
  assumes "hstep t s e s'" "hand_ok s"
  shows "w < hd_fresh s' \<and> bk_unparked (hd_blk s' w) \<longleftrightarrow>
    (w < hd_fresh s \<and> bk_unparked (hd_blk s w)) \<or> e = Handed w"
proof -
  have f: "w < hd_fresh s" if "e = Handed w" using hstep_handed(2) [OF assms that] by simp
  show ?thesis using assms(1) f by cases auto
qed

lemma hrun_counts:
  assumes "hrun es s"
  shows "hand_ok s \<and> (\<forall>w. count_list es (Handed w) = (if w < hd_fresh s \<and> bk_unparked (hd_blk s w) then 1 else 0) \<and>
    count_list es (Handed w) = count_list es (Consumed w) + (if w \<in> handed s then 1 else 0))"
  using assms
proof (induction rule: hrun.induct)
  case hrun_new
  show ?case by (simp add: hand_ok_new) (simp add: hand_new_def handed_def)
next
  case (hrun_step es s t e s')
  then have ok: "hand_ok s" by blast
  have IH: "count_list es (Handed w) = count_list es (Consumed w) + (if w \<in> handed s then 1 else 0)" for w
    using hrun_step.IH by blast
  note U = hstep_unparked [OF hrun_step.hyps(2) ok] and H = hstep_handed [OF hrun_step.hyps(2) ok]
  have "hand_ok s'" by (rule hstep_ok [OF hrun_step.hyps(2) ok])
  moreover have "count_list (es @ [e]) (Handed w) = (if w < hd_fresh s' \<and> bk_unparked (hd_blk s' w) then 1 else 0)" for w
    using hrun_step.IH U [of w] H(2) [of w] by auto
  moreover have "count_list (es @ [e]) (Handed w) = count_list (es @ [e]) (Consumed w) + (if w \<in> handed s' then 1 else 0)" for w
  proof (cases e)
    case Tau
    then show ?thesis using IH [of w] H(1) by simp
  next
    case (Handed v)
    have "v \<notin> handed s" using H(2) [OF Handed] by (simp add: handed_def)
    then show ?thesis using IH [of w] H(1) Handed by auto
  next
    case (Consumed v)
    then show ?thesis using IH [of w] H(1) H(3) [OF Consumed] by auto
  qed
  ultimately show ?case by blast
qed

text \<open>
  C17: the two flags of a \<^verbatim>\<open>SyncBlocker\<close> make the hand-off exact. In every run of the protocol, with any
  number of waiters and givers and with cancellation at any time, a blocker is handed a resource at most
  once, what was handed is consumed at most once and never before it was handed, and when the
  protocol is quiet everything that was handed has been consumed, and every parked waiter is still in
  the queue.
\<close>

theorem handoff_exactly_once:
  assumes "hrun es s"
  shows "count_list es (Handed w) \<le> 1 \<and> count_list es (Consumed w) \<le> count_list es (Handed w) \<and>
    (hand_quiet s \<longrightarrow> count_list es (Consumed w) = count_list es (Handed w) \<and>
       (\<forall>t b. hd_w s t = WPark b \<longrightarrow> b \<in> set (hd_queue s)))"
proof -
  from hrun_counts [OF assms] have ok: "hand_ok s" and
    c: "count_list es (Handed w) = (if w < hd_fresh s \<and> bk_unparked (hd_blk s w) then 1 else 0)"
      "count_list es (Handed w) = count_list es (Consumed w) + (if w \<in> handed s then 1 else 0)" by blast+
  from c(1) have "count_list es (Handed w) \<le> 1" by simp
  moreover from c(2) have "count_list es (Consumed w) \<le> count_list es (Handed w)" by simp
  ultimately show ?thesis using hand_quietD [OF ok] c(2) by auto
qed

text \<open>A waiter that parks, is popped, unparked and woken, and takes what it was handed.\<close>

theorem handoff_exactly_once_witness:
  "\<exists>es s. hrun es s \<and> count_list es (Handed 0) = 1 \<and> count_list es (Consumed 0) \<le> 1 \<and> es \<noteq> []"
proof -
  define s1 where "s1 = hand_new\<lparr>hd_queue := [0], hd_fresh := 1, hd_blk := (hd_blk hand_new)(0 := sync_blocker),
    hd_w := (hd_w hand_new)(5 := WPark 0)\<rparr>"
  define s2 where "s2 = s1\<lparr>hd_queue := [], hd_g := (hd_g s1)(6 := Give 0)\<rparr>"
  define s3 where "s3 = s2\<lparr>hd_blk := (hd_blk s2)(0 := unpark_flag (hd_blk s2 0)), hd_g := (hd_g s2)(6 := Wake 0)\<rparr>"
  have "hstep 5 hand_new Tau s1" using h_push [of hand_new 5 0] by (simp add: hand_new_def s1_def)
  then have r1: "hrun [Tau] s1" using hrun_step [OF hrun_new] by fastforce
  have "hstep 6 s1 Tau s2" using h_pop [of s1 0 "[]" 6] by (simp add: s1_def s2_def hand_new_def)
  then have r2: "hrun [Tau, Tau] s2" using hrun_step [OF r1] by fastforce
  have "hstep 6 s2 (Handed 0) s3" using h_unpark [of s2 6 0] by (simp add: s2_def s3_def)
  then have "hrun [Tau, Tau, Handed 0] s3" using hrun_step [OF r2] by fastforce
  from this handoff_exactly_once [OF this, of 0] show ?thesis
    by (intro exI [of _ "[Tau, Tau, Handed 0]"] exI [of _ s3]) simp
qed

end
