(* ===== verification/Mutex.thy ===== *)
theory Mutex
  imports Handoff
begin

text \<open>
  The mutex of \<^verbatim>\<open>src/sync/mutex.rs\<close> as a transition system. Any number of tasks (coroutines or
  threads) run \<^verbatim>\<open>lock\<close>, \<^verbatim>\<open>try_lock\<close> and the drop of a guard; every access to \<^verbatim>\<open>cnt\<close>, to the waiter
  queue and to the flags of a blocker is one step, so that all sequentially consistent interleavings
  are runs of the model. The waiter queue is the queue of \<^verbatim>\<open>may_queue::mpsc\<close>, taken here with its
  abstract first-in-first-out meaning. Cancellation of a parked coroutine can happen at any time.
\<close>

section \<open>State\<close>

text \<open>Where \<^verbatim>\<open>unlock\<close> returns to: the wait loop of \<^verbatim>\<open>lock\<close>, the drop of a guard, or a cancel panic.\<close>

datatype cont = KLock nat | KExit | KPanic

datatype pc =
    Idle                \<comment> \<open>outside the mutex\<close>
  | LTry                \<comment> \<open>\<^verbatim>\<open>lock\<close>: before the \<^verbatim>\<open>compare_exchange\<close> of \<^verbatim>\<open>try_lock\<close>\<close>
  | LPush               \<comment> \<open>before \<^verbatim>\<open>to_wake.push(cur)\<close>\<close>
  | LAdd nat            \<comment> \<open>before \<^verbatim>\<open>cnt.fetch_add(1)\<close>\<close>
  | LPop nat            \<comment> \<open>first grab: before \<^verbatim>\<open>to_wake.pop()\<close>\<close>
  | LPark nat           \<comment> \<open>in \<^verbatim>\<open>cur.park(None)\<close>\<close>
  | LCanceled nat bool  \<comment> \<open>\<^verbatim>\<open>park\<close> returned \<^verbatim>\<open>Canceled\<close>; the flag is \<^verbatim>\<open>b_ignore\<close>\<close>
  | LSetRelease nat     \<comment> \<open>before \<^verbatim>\<open>cur.set_release()\<close>\<close>
  | LRecheck nat        \<comment> \<open>before the second \<^verbatim>\<open>cur.is_unparked()\<close>\<close>
  | LTakeRelease nat    \<comment> \<open>before \<^verbatim>\<open>cur.take_release()\<close>\<close>
  | Unparking nat cont  \<comment> \<open>\<^verbatim>\<open>w.unpark()\<close>: before \<^verbatim>\<open>unparked.store(true)\<close>\<close>
  | Waking nat cont     \<comment> \<open>\<^verbatim>\<open>w.unpark()\<close>: before \<^verbatim>\<open>blocker.unpark()\<close>\<close>
  | Releasing nat cont  \<comment> \<open>before \<^verbatim>\<open>w.take_release()\<close>\<close>
  | Unlocking cont      \<comment> \<open>\<^verbatim>\<open>unlock\<close>: before \<^verbatim>\<open>cnt.fetch_sub(1)\<close>\<close>
  | UPop cont           \<comment> \<open>\<^verbatim>\<open>unlock\<close>: before \<^verbatim>\<open>to_wake.pop()\<close>\<close>
  | Holding             \<comment> \<open>owns a \<^verbatim>\<open>MutexGuard\<close>\<close>
  | Panicked            \<comment> \<open>left by a cancel panic\<close>
  | Broken              \<comment> \<open>\<^verbatim>\<open>expect("got null blocker!")\<close> failed\<close>

record mutex =
  mx_queue :: "nat list"
  mx_cnt :: usize
  mx_blk :: "nat \<Rightarrow> blocker"
  mx_fresh :: nat
  mx_pc :: "nat \<Rightarrow> pc"

definition mutex_new :: mutex where
  "mutex_new = \<lparr>mx_queue = [], mx_cnt = 0, mx_blk = (\<lambda>_. sync_blocker), mx_fresh = 0, mx_pc = (\<lambda>_. Idle)\<rparr>"

definition goto :: "nat \<Rightarrow> pc \<Rightarrow> mutex \<Rightarrow> mutex" where
  "goto t p s = s\<lparr>mx_pc := (mx_pc s)(t := p)\<rparr>"

definition upd_blk :: "nat \<Rightarrow> blocker \<Rightarrow> mutex \<Rightarrow> mutex" where
  "upd_blk b v s = s\<lparr>mx_blk := (mx_blk s)(b := v)\<rparr>"

fun resume :: "cont \<Rightarrow> pc" where
  "resume (KLock b) = LPark b"
| "resume KExit = Idle"
| "resume KPanic = Panicked"

section \<open>Steps\<close>

text \<open>\<^verbatim>\<open>cnt.compare_exchange(0, 1)\<close>\<close>

definition try_lock :: "nat \<Rightarrow> pc \<Rightarrow> mutex \<Rightarrow> mutex" where
  "try_lock t fail s = (if mx_cnt s = 0 then goto t Holding (s\<lparr>mx_cnt := 1\<rparr>) else goto t fail s)"

text \<open>\<^verbatim>\<open>to_wake.pop().expect(..)\<close>, then \<^verbatim>\<open>unpark_one\<close>\<close>

definition pop_waiter :: "nat \<Rightarrow> cont \<Rightarrow> mutex \<Rightarrow> mutex" where
  "pop_waiter t k s = (case mx_queue s of
     [] \<Rightarrow> goto t Broken s
   | w # q \<Rightarrow> goto t (Unparking w k) (s\<lparr>mx_queue := q\<rparr>))"

definition unlock :: "nat \<Rightarrow> cont \<Rightarrow> mutex \<Rightarrow> mutex" where
  "unlock t k s =
     (let cnt = mx_cnt s; s1 = s\<lparr>mx_cnt := cnt - 1\<rparr> in
      if cnt > 1 then goto t (UPop k) s1 else goto t (resume k) s1)"

fun unpark_one :: "nat \<Rightarrow> mutex \<Rightarrow> mutex option" where
  "unpark_one t s = (case mx_pc s t of
     Unparking w k \<Rightarrow> Some (goto t (Waking w k) (upd_blk w (unpark_flag (mx_blk s w)) s))
   | Waking w k \<Rightarrow> Some (goto t (Releasing w k) (upd_blk w (unpark_wake (mx_blk s w)) s))
   | Releasing w k \<Rightarrow>
       (let (r, b) = take_release (mx_blk s w) in
        Some (goto t (if r then Unlocking k else resume k) (upd_blk w b s)))
   | _ \<Rightarrow> None)"

text \<open>The steps of \<^verbatim>\<open>lock\<close> up to the wait loop, and the branches of a canceled wait.\<close>

fun lock_step :: "nat \<Rightarrow> mutex \<Rightarrow> mutex option" where
  "lock_step t s = (case mx_pc s t of
     LTry \<Rightarrow> Some (try_lock t LPush s)
   | LPush \<Rightarrow>
       (let cur = mx_fresh s in
        Some (goto t (LAdd cur)
          (s\<lparr>mx_queue := mx_queue s @ [cur], mx_blk := (mx_blk s)(cur := sync_blocker), mx_fresh := Suc cur\<rparr>)))
   | LAdd cur \<Rightarrow>
       (let old = mx_cnt s in
        Some (goto t (if old = 0 then LPop cur else LPark cur) (s\<lparr>mx_cnt := old + 1\<rparr>)))
   | LPop cur \<Rightarrow> Some (pop_waiter t (KLock cur) s)
   | LPark cur \<Rightarrow>
       if bk_token (mx_blk s cur)
       then Some (goto t Holding (upd_blk cur (park_return (mx_blk s cur)) s))
       else None
   | LCanceled cur b_ignore \<Rightarrow>
       if is_unparked (mx_blk s cur)
       then Some (goto t (if b_ignore then Holding else Unlocking KPanic) s)
       else Some (goto t (if b_ignore then LPark cur else LSetRelease cur) s)
   | LSetRelease cur \<Rightarrow> Some (goto t (LRecheck cur) (upd_blk cur (set_release (mx_blk s cur)) s))
   | LRecheck cur \<Rightarrow> Some (goto t (if is_unparked (mx_blk s cur) then LTakeRelease cur else Panicked) s)
   | LTakeRelease cur \<Rightarrow>
       (let (r, b) = take_release (mx_blk s cur) in
        Some (goto t (if r then Unlocking KPanic else Panicked) (upd_blk cur b s)))
   | _ \<Rightarrow> None)"

fun unlock_step :: "nat \<Rightarrow> mutex \<Rightarrow> mutex option" where
  "unlock_step t s = (case mx_pc s t of
     Unlocking k \<Rightarrow> Some (unlock t k s)
   | UPop k \<Rightarrow> Some (pop_waiter t k s)
   | _ \<Rightarrow> None)"

text \<open>
  What the client and the scheduler decide: to call \<^verbatim>\<open>lock\<close> or \<^verbatim>\<open>try_lock\<close>, to drop a guard, to cancel a
  parked coroutine (with cancellation disabled or not), or to let a task run on.
\<close>

datatype act = CallLock | CallTryLock | DropGuard | CancelPark bool | Run

fun mutex_next :: "nat \<Rightarrow> act \<Rightarrow> mutex \<Rightarrow> mutex option" where
  "mutex_next t CallLock s = (if mx_pc s t \<in> {Idle, Panicked} then Some (goto t LTry s) else None)"
| "mutex_next t CallTryLock s = (if mx_pc s t \<in> {Idle, Panicked} then Some (try_lock t Idle s) else None)"
| "mutex_next t DropGuard s = (if mx_pc s t = Holding then Some (goto t (Unlocking KExit) s) else None)"
| "mutex_next t (CancelPark ig) s = (case mx_pc s t of
     LPark b \<Rightarrow> Some (goto t (LCanceled b ig) (upd_blk b (park_return (mx_blk s b)) s))
   | _ \<Rightarrow> None)"
| "mutex_next t Run s = (case lock_step t s of
     Some s' \<Rightarrow> Some s'
   | None \<Rightarrow> (case unpark_one t s of Some s' \<Rightarrow> Some s' | None \<Rightarrow> unlock_step t s))"

definition mutex_start :: "mutex \<Rightarrow> bool" where
  "mutex_start s \<longleftrightarrow> s = mutex_new"

text \<open>
  The counter could wrap only after \<open>2\<^sup>6\<^sup>4 - 2\<close> contended calls of \<^verbatim>\<open>lock\<close>; runs are taken up to there.
\<close>

definition mutex_step :: "mutex \<Rightarrow> mutex \<Rightarrow> bool" where
  "mutex_step s s' \<longleftrightarrow> (\<exists>t a. mutex_next t a s = Some s') \<and> mx_fresh s' + 2 < 2 ^ 64"

section \<open>The hand-off protocol below the mutex\<close>

fun kview :: "cont \<Rightarrow> wside" where
  "kview (KLock b) = WPark b"
| "kview _ = WNone"

fun wview :: "pc \<Rightarrow> wside" where
  "wview (LAdd b) = WPark b"
| "wview (LPop b) = WPark b"
| "wview (LPark b) = WPark b"
| "wview (LCanceled b _) = WLeave b"
| "wview (LSetRelease b) = WLeave b"
| "wview (LRecheck b) = WLate b"
| "wview (LTakeRelease b) = WTake b"
| "wview (Unparking _ k) = kview k"
| "wview (Waking _ k) = kview k"
| "wview (Releasing _ k) = kview k"
| "wview (Unlocking k) = kview k"
| "wview (UPop k) = kview k"
| "wview _ = WNone"

fun gview :: "pc \<Rightarrow> gside" where
  "gview (Unparking w _) = Give w"
| "gview (Waking w _) = Wake w"
| "gview (Releasing w _) = Rel w"
| "gview _ = GNone"

definition hand_of :: "mutex \<Rightarrow> hand" where
  "hand_of s = \<lparr>hd_queue = mx_queue s, hd_fresh = mx_fresh s, hd_blk = mx_blk s,
     hd_w = (\<lambda>t. wview (mx_pc s t)), hd_g = (\<lambda>t. gview (mx_pc s t))\<rparr>"

text \<open>
  \<open>owns\<close>: the task has the right to the lock; \<open>popping\<close>: it has the right, and the waiter it will pass it
  to is still in the queue; \<open>adding\<close>: it is in the queue but not yet counted.
\<close>

fun owns :: "pc \<Rightarrow> bool" where
  "owns (LPop _) = True"
| "owns (Unparking _ _) = True"
| "owns (Unlocking _) = True"
| "owns (UPop _) = True"
| "owns Holding = True"
| "owns _ = False"

fun popping :: "pc \<Rightarrow> bool" where
  "popping (LPop _) = True"
| "popping (UPop _) = True"
| "popping _ = False"

fun adding :: "pc \<Rightarrow> bool" where
  "adding (LAdd _) = True"
| "adding _ = False"

lemma resume_simps [simp]:
  "wview (resume k) = kview k" "gview (resume k) = GNone" "owns (resume k) = False"
  "popping (resume k) = False" "adding (resume k) = False" "resume k \<noteq> Broken"
  by (cases k; simp)+

section \<open>Invariant\<close>

text \<open>The lock is free, owned by a task, or in the hands of a waiter that has been unparked.\<close>

datatype owner = Nobody | Task nat | Waiter nat

definition own_ok :: "owner \<Rightarrow> mutex \<Rightarrow> bool" where
  "own_ok h s \<longleftrightarrow> (\<forall>t. owns (mx_pc s t) \<longleftrightarrow> h = Task t) \<and> handed (hand_of s) = {w. h = Waiter w} \<and>
     (mx_cnt s = 0 \<longleftrightarrow> h = Nobody)"

definition adders :: "mutex \<Rightarrow> nat set" where
  "adders s = {t. adding (mx_pc s t)}"

definition counted :: "owner \<Rightarrow> mutex \<Rightarrow> nat" where
  "counted h s = (case h of Nobody \<Rightarrow> 0 | Task t \<Rightarrow> if popping (mx_pc s t) then 0 else 1 | Waiter _ \<Rightarrow> 1)"

text \<open>
  Every queue entry is counted in \<^verbatim>\<open>cnt\<close>, except those whose task has not reached its \<^verbatim>\<open>fetch_add\<close>, and so
  is the owner, unless the entry of its successor still has to be popped.
\<close>

definition cnt_ok :: "owner \<Rightarrow> mutex \<Rightarrow> bool" where
  "cnt_ok h s \<longleftrightarrow> finite (adders s) \<and>
     length (mx_queue s) + counted h s = unat (mx_cnt s) + card (adders s)"

definition mutex_inv :: "owner \<Rightarrow> mutex \<Rightarrow> bool" where
  "mutex_inv h s \<longleftrightarrow> hand_ok (hand_of s) \<and> own_ok h s \<and> cnt_ok h s \<and>
     (\<forall>t. mx_pc s t \<noteq> Broken) \<and> mx_fresh s + 2 < 2 ^ 64"

lemma mutex_inv_new: "mutex_inv Nobody mutex_new"
proof -
  have e: "hand_of mutex_new = hand_new" by (simp add: hand_of_def mutex_new_def hand_new_def)
  have "handed hand_new = {}" by (simp add: handed_def hand_new_def)
  then show ?thesis
    by (simp add: mutex_inv_def own_ok_def cnt_ok_def e hand_ok_new)
      (simp add: mutex_new_def adders_def counted_def)
qed

lemma goto_sel [simp]:
  "mx_queue (goto t p s) = mx_queue s" "mx_cnt (goto t p s) = mx_cnt s" "mx_blk (goto t p s) = mx_blk s"
  "mx_fresh (goto t p s) = mx_fresh s" "mx_pc (goto t p s) = (mx_pc s)(t := p)"
  by (simp_all add: goto_def)

lemma upd_blk_sel [simp]:
  "mx_queue (upd_blk b v s) = mx_queue s" "mx_cnt (upd_blk b v s) = mx_cnt s"
  "mx_blk (upd_blk b v s) = (mx_blk s)(b := v)"
  "mx_fresh (upd_blk b v s) = mx_fresh s" "mx_pc (upd_blk b v s) = mx_pc s"
  by (simp_all add: upd_blk_def)

lemma hand_of_sel [simp]:
  "hd_queue (hand_of s) = mx_queue s" "hd_fresh (hand_of s) = mx_fresh s" "hd_blk (hand_of s) = mx_blk s"
  "hd_w (hand_of s) t = wview (mx_pc s t)" "hd_g (hand_of s) t = gview (mx_pc s t)"
  by (simp_all add: hand_of_def)

text \<open>
  One step of task \<open>t\<close>, seen from the invariant: a step \<open>e\<close> of the protocol, the owner before and after,
  and the change of the counter.
\<close>

definition own_move :: "nat \<Rightarrow> hev \<Rightarrow> owner \<Rightarrow> owner \<Rightarrow> bool" where
  "own_move t e h h' \<longleftrightarrow> (case e of
     Tau \<Rightarrow> h' = h \<or> (h = Nobody \<and> h' = Task t) \<or> (h = Task t \<and> h' = Nobody)
   | Handed w \<Rightarrow> h = Task t \<and> h' = Waiter w
   | Consumed w \<Rightarrow> h = Waiter w \<and> h' = Task t)"

lemma own_ok_move:
  assumes I: "own_ok h s" and ok: "hand_ok (hand_of s)" and st: "hstep t (hand_of s) e (hand_of s')"
    and m: "own_move t e h h'" and pc: "mx_pc s' = (mx_pc s)(t := p)"
    and p: "owns p \<longleftrightarrow> h' = Task t" and c: "mx_cnt s' = 0 \<longleftrightarrow> h' = Nobody"
  shows "own_ok h' s'"
proof -
  have H: "handed (hand_of s) = {w. h = Waiter w}" and O: "\<And>u. owns (mx_pc s u) \<longleftrightarrow> h = Task u"
    using I by (auto simp: own_ok_def)
  have "handed (hand_of s') = {w. h' = Waiter w}"
    using hstep_handed(1) [OF st ok] m H by (auto simp: own_move_def split: hev.splits)
  moreover have "owns (mx_pc s' u) \<longleftrightarrow> h' = Task u" for u
  proof (cases "u = t")
    case False
    then have "h = Task u \<longleftrightarrow> h' = Task u" using m by (auto simp: own_move_def split: hev.splits)
    with False O show ?thesis by (simp add: pc)
  qed (use p in \<open>simp add: pc\<close>)
  ultimately show ?thesis using c by (simp add: own_ok_def)
qed

lemma adders_move:
  assumes "mx_pc s' = (mx_pc s)(t := p)" "finite (adders s)"
  shows "finite (adders s')" and "card (adders s') + (if adding (mx_pc s t) then 1 else 0) = card (adders s) + (if adding p then 1 else 0)"
  using card_fun_upd [of adding "mx_pc s" t p] assms unfolding adders_def by simp_all

lemma mutex_inv_move:
  assumes I: "mutex_inv h s" and st: "hstep t (hand_of s) e (hand_of s')"
    and m: "own_move t e h h'" and pc: "mx_pc s' = (mx_pc s)(t := p)"
    and p: "owns p \<longleftrightarrow> h' = Task t" and c: "mx_cnt s' = 0 \<longleftrightarrow> h' = Nobody" and nb: "p \<noteq> Broken"
    and fr: "mx_fresh s' + 2 < 2 ^ 64"
    and eq: "length (mx_queue s') + counted h' s' + unat (mx_cnt s) + (if adding (mx_pc s t) then 1 else 0) =
      length (mx_queue s) + counted h s + unat (mx_cnt s') + (if adding p then 1 else 0)"
  shows "mutex_inv h' s'"
proof -
  have ok: "hand_ok (hand_of s)" "own_ok h s" "cnt_ok h s" "\<And>u. mx_pc s u \<noteq> Broken" using I by (auto simp: mutex_inv_def)
  have fin: "finite (adders s)" using ok(3) by (simp add: cnt_ok_def)
  have "cnt_ok h' s'"
    using adders_move [OF pc fin] ok(3) eq unfolding cnt_ok_def by simp
  moreover have "own_ok h' s'" by (rule own_ok_move [OF ok(2,1) st m pc p c])
  moreover have "mx_pc s' u \<noteq> Broken" for u using ok(4) nb by (simp add: pc)
  ultimately show ?thesis using hstep_ok [OF st ok(1)] fr by (simp add: mutex_inv_def)
qed


section \<open>Every step keeps the invariant\<close>

lemma hand_of_eqI:
  assumes "mx_queue s' = hd_queue H" "mx_fresh s' = hd_fresh H" "mx_blk s' = hd_blk H"
    "\<And>t. wview (mx_pc s' t) = hd_w H t" "\<And>t. gview (mx_pc s' t) = hd_g H t"
  shows "H = hand_of s'"
  using assms by (intro hand.equality) (auto simp: hand_of_def)

lemma mutex_inv_cnt:
  assumes "mutex_inv h s"
  shows "unat (mx_cnt s) \<le> mx_fresh s + 1" and "unat (mx_cnt s) < 2 ^ 64 - 1"
    and "mx_cnt s = 0 \<longleftrightarrow> h = Nobody" and "owns (mx_pc s t) \<longleftrightarrow> h = Task t"
proof -
  have "distinct (mx_queue s)" "set (mx_queue s) \<subseteq> {..<mx_fresh s}"
    using assms by (auto simp: mutex_inv_def hand_ok_def hand_queue_def)
  then have "length (mx_queue s) \<le> mx_fresh s" by (metis card_lessThan card_mono distinct_card finite_lessThan)
  moreover have "counted h s \<le> 1" by (simp add: counted_def split: owner.splits)
  ultimately show le: "unat (mx_cnt s) \<le> mx_fresh s + 1" using assms by (simp add: mutex_inv_def cnt_ok_def)
  show "mx_cnt s = 0 \<longleftrightarrow> h = Nobody" "owns (mx_pc s t) \<longleftrightarrow> h = Task t"
    using assms by (auto simp: mutex_inv_def own_ok_def)
  show "unat (mx_cnt s) < 2 ^ 64 - 1" using le assms by (simp add: mutex_inv_def)
qed

text \<open>Steps inside one role.\<close>

lemma inv_neutral:
  assumes I: "mutex_inv h s" and p: "wview p = wview (mx_pc s t)" "gview p = gview (mx_pc s t)"
    "owns p = owns (mx_pc s t)" "popping p = popping (mx_pc s t)" "adding p = adding (mx_pc s t)" "p \<noteq> Broken"
  shows "mutex_inv h (goto t p s)"
proof -
  have e: "hand_of (goto t p s) = hand_of s"
    by (rule hand_of_eqI [symmetric]) (use p in auto)
  show ?thesis
  proof (rule mutex_inv_move [where p = p, OF I])
    show "hstep t (hand_of s) Tau (hand_of (goto t p s))" unfolding e by (rule h_stutter)
  qed (use p I mutex_inv_cnt [OF I] in \<open>auto simp: own_move_def mutex_inv_def counted_def split: owner.splits\<close>)
qed

lemma inv_try:
  assumes I: "mutex_inv h s" and p: "wview (mx_pc s t) = WNone" "gview (mx_pc s t) = GNone" "\<not> adding (mx_pc s t)"
    and z: "mx_cnt s = 0"
  shows "mutex_inv (Task t) (goto t Holding (s\<lparr>mx_cnt := 1\<rparr>))"
proof -
  have h: "h = Nobody" using mutex_inv_cnt(3) [OF I] z by simp
  have e: "hand_of (goto t Holding (s\<lparr>mx_cnt := 1\<rparr>)) = hand_of s"
    by (rule hand_of_eqI [symmetric]) (use p in auto)
  show ?thesis
  proof (rule mutex_inv_move [where p = Holding, OF I])
    show "hstep t (hand_of s) Tau (hand_of (goto t Holding (s\<lparr>mx_cnt := 1\<rparr>)))" unfolding e by (rule h_stutter)
  qed (use p I z in \<open>auto simp: h own_move_def mutex_inv_def counted_def\<close>)
qed

lemma inv_push:
  assumes I: "mutex_inv h s" and pc: "mx_pc s t = LPush" and b: "mx_fresh s + 3 < 2 ^ 64"
  shows "mutex_inv h (goto t (LAdd (mx_fresh s)) (s\<lparr>mx_queue := mx_queue s @ [mx_fresh s],
     mx_blk := (mx_blk s)(mx_fresh s := sync_blocker), mx_fresh := Suc (mx_fresh s)\<rparr>))"
    (is "mutex_inv h ?s")
proof (rule mutex_inv_move [where p = "LAdd (mx_fresh s)", OF I])
  show "hstep t (hand_of s) Tau (hand_of ?s)"
    by (rule hstep_eqI, rule h_push [of _ _ "mx_fresh s"], simp_all add: pc, rule hand_of_eqI) (use pc in auto)
qed (use pc b mutex_inv_cnt(3) [OF I] mutex_inv_cnt(4) [OF I, of t] in \<open>auto simp: own_move_def counted_def split: owner.splits\<close>)

lemma inv_add_first:
  assumes I: "mutex_inv h s" and pc: "mx_pc s t = LAdd b" and z: "mx_cnt s = 0"
  shows "mutex_inv (Task t) (goto t (LPop b) (s\<lparr>mx_cnt := 1\<rparr>))" (is "mutex_inv _ ?s")
proof -
  have h: "h = Nobody" using mutex_inv_cnt(3) [OF I] z by simp
  have e: "hand_of ?s = hand_of s" by (rule hand_of_eqI [symmetric]) (use pc in auto)
  show ?thesis
  proof (rule mutex_inv_move [where p = "LPop b", OF I])
    show "hstep t (hand_of s) Tau (hand_of ?s)" unfolding e by (rule h_stutter)
  qed (use pc I z in \<open>auto simp: h own_move_def mutex_inv_def counted_def\<close>)
qed

lemma inv_add_wait:
  assumes I: "mutex_inv h s" and pc: "mx_pc s t = LAdd b" and z: "mx_cnt s \<noteq> 0"
  shows "mutex_inv h (goto t (LPark b) (s\<lparr>mx_cnt := mx_cnt s + 1\<rparr>))" (is "mutex_inv _ ?s")
proof -
  have e: "hand_of ?s = hand_of s" by (rule hand_of_eqI [symmetric]) (use pc in auto)
  have u: "unat (mx_cnt s + 1) = unat (mx_cnt s) + 1"
    using mutex_inv_cnt(2) [OF I] by (simp add: unat_word_ariths)
  then have n0: "mx_cnt s + 1 \<noteq> 0" by (metis Suc_eq_plus1 nat.distinct(1) unsigned_0)
  have "\<not> owns (mx_pc s t)" by (simp add: pc)
  then have ne: "h \<noteq> Nobody" "h \<noteq> Task t" using mutex_inv_cnt(3) [OF I] mutex_inv_cnt(4) [OF I, of t] z by auto
  show ?thesis
  proof (rule mutex_inv_move [where p = "LPark b", OF I])
    show "hstep t (hand_of s) Tau (hand_of ?s)" unfolding e by (rule h_stutter)
  qed (use pc I n0 u ne in \<open>auto simp: own_move_def mutex_inv_def counted_def split: owner.splits\<close>)
qed

lemma inv_pop:
  assumes I: "mutex_inv h s" and p: "popping (mx_pc s t)" "wview (mx_pc s t) = kview k" "gview (mx_pc s t) = GNone"
    "\<not> adding (mx_pc s t)" "owns (mx_pc s t)"
  obtains w q where "mx_queue s = w # q" "mutex_inv h (goto t (Unparking w k) (s\<lparr>mx_queue := q\<rparr>))"
proof -
  have h: "h = Task t" using mutex_inv_cnt(4) [OF I] p by simp
  have c: "mx_cnt s \<noteq> 0" using mutex_inv_cnt(3) [OF I] h by simp
  then have "0 < unat (mx_cnt s)" by (simp add: unat_gt_0)
  with I h p(1) have "0 < length (mx_queue s)" by (simp add: mutex_inv_def cnt_ok_def counted_def)
  then obtain w q where q: "mx_queue s = w # q" by (cases "mx_queue s") auto
  let ?s = "goto t (Unparking w k) (s\<lparr>mx_queue := q\<rparr>)"
  have "mutex_inv h ?s"
  proof (rule mutex_inv_move [where p = "Unparking w k", OF I])
    show "hstep t (hand_of s) Tau (hand_of ?s)"
      by (rule hstep_eqI, rule h_pop [of _ w q], simp_all add: q p, rule hand_of_eqI) (use p in auto)
  qed (use p I h c q in \<open>auto simp: own_move_def mutex_inv_def counted_def\<close>)
  with q that show thesis by blast
qed

lemma inv_unpark:
  assumes I: "mutex_inv h s" and pc: "mx_pc s t = Unparking w k"
  shows "mutex_inv (Waiter w) (goto t (Waking w k) (upd_blk w (unpark_flag (mx_blk s w)) s))" (is "mutex_inv _ ?s")
proof -
  have h: "h = Task t" using mutex_inv_cnt(4) [OF I, of t] pc by simp
  show ?thesis
  proof (rule mutex_inv_move [where p = "Waking w k", OF I])
    show "hstep t (hand_of s) (Handed w) (hand_of ?s)"
      by (rule hstep_eqI, rule h_unpark [of _ _ w], simp_all add: pc, rule hand_of_eqI) (use pc in auto)
  qed (use pc I h mutex_inv_cnt(3) [OF I] in \<open>auto simp: own_move_def mutex_inv_def counted_def\<close>)
qed

lemma inv_wake:
  assumes I: "mutex_inv h s" and pc: "mx_pc s t = Waking w k"
  shows "mutex_inv h (goto t (Releasing w k) (upd_blk w (unpark_wake (mx_blk s w)) s))" (is "mutex_inv _ ?s")
proof -
  have h: "h \<noteq> Task t" using mutex_inv_cnt(4) [OF I, of t] pc by simp
  show ?thesis
  proof (rule mutex_inv_move [where p = "Releasing w k", OF I])
    show "hstep t (hand_of s) Tau (hand_of ?s)"
      by (rule hstep_eqI, rule h_wake [of _ _ w], simp_all add: pc, rule hand_of_eqI) (use pc in auto)
  qed (use pc I h mutex_inv_cnt(3) [OF I] in \<open>auto simp: own_move_def mutex_inv_def counted_def split: owner.splits\<close>)
qed

text \<open>Whoever consumes what a waiter was handed becomes the owner of the lock.\<close>

lemma inv_consume:
  assumes I: "mutex_inv h s" and st: "hstep t (hand_of s) (Consumed w) (hand_of (goto t p r))"
    and r: "mx_pc r = mx_pc s" "mx_queue r = mx_queue s" "mx_cnt r = mx_cnt s" "mx_fresh r = mx_fresh s"
    and p: "owns p" "\<not> popping p" "\<not> adding p" "\<not> adding (mx_pc s t)"
  shows "mutex_inv (Task t) (goto t p r)"
proof -
  have "w \<in> handed (hand_of s)" using hstep_handed(3) [OF st] I by (simp add: mutex_inv_def)
  then have h: "h = Waiter w" using I by (simp add: mutex_inv_def own_ok_def)
  have "p \<noteq> Broken" using p(1) by auto
  then show ?thesis
    by (intro mutex_inv_move [where p = p, OF I st])
      (use r p I h mutex_inv_cnt(3) [OF I] in \<open>auto simp: own_move_def mutex_inv_def counted_def\<close>)
qed

text \<open>A step of the protocol that hands nothing over, by a task that does not own the lock.\<close>

lemma inv_quiet_step:
  assumes I: "mutex_inv h s" and st: "hstep t (hand_of s) Tau (hand_of (goto t p r))"
    and r: "mx_pc r = mx_pc s" "mx_queue r = mx_queue s" "mx_cnt r = mx_cnt s" "mx_fresh r = mx_fresh s"
    and p: "\<not> owns p" "\<not> owns (mx_pc s t)" "\<not> adding p" "\<not> adding (mx_pc s t)" "p \<noteq> Broken"
  shows "mutex_inv h (goto t p r)"
proof -
  have h: "h \<noteq> Task t" using mutex_inv_cnt(4) [OF I, of t] p by simp
  then show ?thesis
    by (intro mutex_inv_move [where p = p, OF I st])
      (use r p I h mutex_inv_cnt(3) [OF I] in \<open>auto simp: own_move_def mutex_inv_def counted_def split: owner.splits\<close>)
qed

lemma inv_release:
  assumes I: "mutex_inv h s" and pc: "mx_pc s t = Releasing w k" and r: "take_release (mx_blk s w) = (r, b)"
  shows "\<exists>h'. mutex_inv h' (goto t (if r then Unlocking k else resume k) (upd_blk w b s))"
proof -
  let ?s = "goto t (if r then Unlocking k else resume k) (upd_blk w b s)"
  have "hstep t (hand_of s) (if r then Consumed w else Tau) (hand_of ?s)"
    by (rule hstep_eqI [OF h_rel [of "hand_of s" t w r b] hand_of_eqI]) (use pc r in auto)
  then show ?thesis
    using inv_consume [OF I, of t w "Unlocking k" "upd_blk w b s"]
      inv_quiet_step [OF I, of t "resume k" "upd_blk w b s"] pc by (cases r) auto
qed

lemma inv_park:
  assumes I: "mutex_inv h s" and pc: "mx_pc s t = LPark b" and tk: "bk_token (mx_blk s b)"
  shows "mutex_inv (Task t) (goto t Holding (upd_blk b (park_return (mx_blk s b)) s))" (is "mutex_inv _ ?s")
proof -
  have "hstep t (hand_of s) (Consumed b) (hand_of ?s)"
    by (rule hstep_eqI [OF h_park [of "hand_of s" t b] hand_of_eqI]) (use pc tk in auto)
  from inv_consume [OF I this] pc show ?thesis by simp
qed

lemma inv_cancel:
  assumes I: "mutex_inv h s" and pc: "mx_pc s t = LPark b"
  shows "mutex_inv h (goto t (LCanceled b ig) (upd_blk b (park_return (mx_blk s b)) s))" (is "mutex_inv _ ?s")
proof -
  have "hstep t (hand_of s) Tau (hand_of ?s)"
    by (rule hstep_eqI [OF h_cancel [of "hand_of s" t b] hand_of_eqI]) (use pc in auto)
  from inv_quiet_step [OF I this] pc show ?thesis by simp
qed

lemma inv_canceled_unparked:
  assumes I: "mutex_inv h s" and pc: "mx_pc s t = LCanceled b ig" and u: "is_unparked (mx_blk s b)"
  shows "mutex_inv (Task t) (goto t (if ig then Holding else Unlocking KPanic) s)" (is "mutex_inv _ ?s")
proof -
  have "hstep t (hand_of s) (Consumed b) (hand_of ?s)"
    by (rule hstep_eqI [OF h_take_now [of "hand_of s" t b] hand_of_eqI]) (use pc u in auto)
  from inv_consume [OF I this] pc show ?thesis by simp
qed

lemma inv_canceled_waiting:
  assumes I: "mutex_inv h s" and pc: "mx_pc s t = LCanceled b ig" and u: "\<not> is_unparked (mx_blk s b)"
  shows "mutex_inv h (goto t (if ig then LPark b else LSetRelease b) s)" (is "mutex_inv _ ?s")
proof -
  have "hstep t (hand_of s) Tau (hand_of ?s)"
  proof (cases ig)
    case True
    show ?thesis by (rule hstep_eqI [OF h_back [of "hand_of s" t b] hand_of_eqI]) (use pc u True in auto)
  next
    case False
    then have "hand_of ?s = hand_of s" by (intro hand_of_eqI [symmetric]) (use pc in auto)
    then show ?thesis by (simp only: h_stutter)
  qed
  from inv_quiet_step [OF I this] pc show ?thesis by (simp split: if_splits)
qed

lemma inv_set_release:
  assumes I: "mutex_inv h s" and pc: "mx_pc s t = LSetRelease b"
  shows "mutex_inv h (goto t (LRecheck b) (upd_blk b (set_release (mx_blk s b)) s))" (is "mutex_inv _ ?s")
proof -
  have "hstep t (hand_of s) Tau (hand_of ?s)"
    by (rule hstep_eqI [OF h_set_release [of "hand_of s" t b] hand_of_eqI]) (use pc in auto)
  from inv_quiet_step [OF I this] pc show ?thesis by simp
qed

lemma inv_recheck:
  assumes I: "mutex_inv h s" and pc: "mx_pc s t = LRecheck b"
  shows "mutex_inv h (goto t (if is_unparked (mx_blk s b) then LTakeRelease b else Panicked) s)" (is "mutex_inv _ ?s")
proof -
  have "hstep t (hand_of s) Tau (hand_of ?s)"
  proof (cases "is_unparked (mx_blk s b)")
    case True
    show ?thesis by (rule hstep_eqI [OF h_recheck [of "hand_of s" t b] hand_of_eqI]) (use pc True in auto)
  next
    case False
    show ?thesis by (rule hstep_eqI [OF h_gone [of "hand_of s" t b] hand_of_eqI]) (use pc False in auto)
  qed
  from inv_quiet_step [OF I this] pc show ?thesis by (simp split: if_splits)
qed

lemma inv_take_release:
  assumes I: "mutex_inv h s" and pc: "mx_pc s t = LTakeRelease b" and r: "take_release (mx_blk s b) = (r, v)"
  shows "\<exists>h'. mutex_inv h' (goto t (if r then Unlocking KPanic else Panicked) (upd_blk b v s))"
proof -
  let ?s = "goto t (if r then Unlocking KPanic else Panicked) (upd_blk b v s)"
  have "hstep t (hand_of s) (if r then Consumed b else Tau) (hand_of ?s)"
    by (rule hstep_eqI [OF h_take [of "hand_of s" t b r v] hand_of_eqI]) (use pc r in auto)
  then show ?thesis
    using inv_consume [OF I, of t b "Unlocking KPanic" "upd_blk b v s"]
      inv_quiet_step [OF I, of t Panicked "upd_blk b v s"] pc by (cases r) auto
qed

lemma inv_unlock:
  assumes I: "mutex_inv h s" and pc: "mx_pc s t = Unlocking k"
  shows "\<exists>h'. mutex_inv h' (unlock t k s)"
proof -
  have h: "h = Task t" using mutex_inv_cnt(4) [OF I, of t] pc by simp
  have c: "mx_cnt s \<noteq> 0" using mutex_inv_cnt(3) [OF I] h by simp
  then have u: "unat (mx_cnt s - 1) = unat (mx_cnt s) - 1" "0 < unat (mx_cnt s)"
    by (simp_all add: unat_gt_0 unat_minus_one)
  show ?thesis
  proof (cases "mx_cnt s > 1")
    case True
    then have n: "mx_cnt s - 1 \<noteq> 0" by auto
    let ?s = "goto t (UPop k) (s\<lparr>mx_cnt := mx_cnt s - 1\<rparr>)"
    have e: "hand_of ?s = hand_of s" by (rule hand_of_eqI [symmetric]) (use pc in auto)
    have "mutex_inv h ?s"
    proof (rule mutex_inv_move [where p = "UPop k", OF I])
      show "hstep t (hand_of s) Tau (hand_of ?s)" unfolding e by (rule h_stutter)
    qed (use pc I h n u in \<open>auto simp: own_move_def mutex_inv_def counted_def\<close>)
    with True show ?thesis by (auto simp: unlock_def)
  next
    case False
    then have "unat (mx_cnt s) = 1" using u(2) by (simp add: word_less_nat_alt)
    with u have z: "mx_cnt s - 1 = 0" by (simp add: unat_eq_0)
    let ?s = "goto t (resume k) (s\<lparr>mx_cnt := mx_cnt s - 1\<rparr>)"
    have e: "hand_of ?s = hand_of s" by (rule hand_of_eqI [symmetric]) (use pc in auto)
    have "mutex_inv Nobody ?s"
    proof (rule mutex_inv_move [where p = "resume k", OF I])
      show "hstep t (hand_of s) Tau (hand_of ?s)" unfolding e by (rule h_stutter)
    qed (use pc I h z \<open>unat (mx_cnt s) = 1\<close> in \<open>auto simp: own_move_def mutex_inv_def counted_def\<close>)
    with False show ?thesis by (auto simp: unlock_def)
  qed
qed

lemma inv_pop_waiter:
  assumes I: "mutex_inv h s" and p: "popping (mx_pc s t)" "wview (mx_pc s t) = kview k" "gview (mx_pc s t) = GNone"
    "\<not> adding (mx_pc s t)" "owns (mx_pc s t)"
  shows "\<exists>h'. mutex_inv h' (pop_waiter t k s)"
proof (rule inv_pop [OF assms])
  fix w q assume "mx_queue s = w # q" "mutex_inv h (goto t (Unparking w k) (s\<lparr>mx_queue := q\<rparr>))"
  then show ?thesis by (auto simp: pop_waiter_def)
qed

lemma inv_lock_step:
  assumes I: "mutex_inv h s" and st: "lock_step t s = Some s'" and b: "mx_fresh s' + 2 < 2 ^ 64"
  shows "\<exists>h'. mutex_inv h' s'"
proof (cases "mx_pc s t")
  case LTry
  then show ?thesis using st inv_try [OF I, of t] inv_neutral [OF I, of LPush t] by (auto simp: try_lock_def split: if_splits)
next
  case LPush
  then show ?thesis using st b inv_push [OF I LPush] by (auto simp: Let_def)
next
  case (LAdd x)
  then show ?thesis using st inv_add_first [OF I LAdd] inv_add_wait [OF I LAdd]
    by (cases "mx_cnt s = 0") (auto simp: Let_def)
next
  case (LPop x)
  then show ?thesis using st inv_pop_waiter [OF I, of t "KLock x"] by auto
next
  case (LPark x)
  then show ?thesis using st inv_park [OF I LPark] by (auto split: if_splits)
next
  case (LCanceled x ig)
  then show ?thesis using st inv_canceled_unparked [OF I LCanceled] inv_canceled_waiting [OF I LCanceled]
    by (cases "is_unparked (mx_blk s x)") auto
next
  case (LSetRelease x)
  then show ?thesis using st inv_set_release [OF I LSetRelease] by auto
next
  case (LRecheck x)
  then show ?thesis using st inv_recheck [OF I LRecheck] by auto
next
  case (LTakeRelease x)
  then show ?thesis using st inv_take_release [OF I LTakeRelease] by (auto split: prod.splits)
qed (use st in auto)

lemma inv_unpark_one:
  assumes I: "mutex_inv h s" and st: "unpark_one t s = Some s'"
  shows "\<exists>h'. mutex_inv h' s'"
proof (cases "mx_pc s t")
  case (Unparking w k)
  then show ?thesis using st inv_unpark [OF I Unparking] by auto
next
  case (Waking w k)
  then show ?thesis using st inv_wake [OF I Waking] by auto
next
  case (Releasing w k)
  then show ?thesis using st inv_release [OF I Releasing] by (auto split: prod.splits)
qed (use st in auto)

lemma inv_unlock_step:
  assumes I: "mutex_inv h s" and st: "unlock_step t s = Some s'"
  shows "\<exists>h'. mutex_inv h' s'"
proof (cases "mx_pc s t")
  case (Unlocking k)
  then show ?thesis using st inv_unlock [OF I Unlocking] by auto
next
  case (UPop k)
  then show ?thesis using st inv_pop_waiter [OF I, of t k] by auto
qed (use st in auto)

lemma inv_mutex_next:
  assumes I: "mutex_inv h s" and st: "mutex_next t a s = Some s'" and b: "mx_fresh s' + 2 < 2 ^ 64"
  shows "\<exists>h'. mutex_inv h' s'"
proof (cases a)
  case CallLock
  then show ?thesis using st inv_neutral [OF I, of LTry t] by (auto split: if_splits)
next
  case CallTryLock
  then show ?thesis using st inv_try [OF I, of t] inv_neutral [OF I, of Idle t]
    by (auto simp: try_lock_def split: if_splits)
next
  case DropGuard
  then show ?thesis using st inv_neutral [OF I, of "Unlocking KExit" t] by (auto split: if_splits)
next
  case (CancelPark ig)
  then show ?thesis using st inv_cancel [OF I] by (auto split: pc.splits)
next
  case Run
  then show ?thesis using st b inv_lock_step [OF I] inv_unpark_one [OF I] inv_unlock_step [OF I]
    by (auto split: option.splits simp del: lock_step.simps unpark_one.simps unlock_step.simps)
qed

interpretation mutex_sys: invariant_system mutex_start mutex_step "\<lambda>s. \<exists>h. mutex_inv h s"
proof
  fix s assume "mutex_start s"
  then show "\<exists>h. mutex_inv h s" using mutex_inv_new by (auto simp: mutex_start_def)
next
  fix s s' assume "\<exists>h. mutex_inv h s" "mutex_step s s'"
  then show "\<exists>h. mutex_inv h s'" using inv_mutex_next by (auto simp: mutex_step_def simp del: mutex_next.simps)
qed

lemmas mutex_reach_inv = mutex_sys.inv_reach

lemma mutex_inv_quiet:
  assumes I: "mutex_inv h s"
    and q: "\<forall>t. mx_pc s t \<in> {Idle, Panicked} \<or> (\<exists>b. mx_pc s t = LPark b \<and> \<not> bk_token (mx_blk s b))"
  shows "mx_cnt s = 0 \<and> mx_queue s = [] \<and> (\<forall>t. mx_pc s t \<in> {Idle, Panicked})"
proof -
  have ok: "hand_ok (hand_of s)" using I by (simp add: mutex_inv_def)
  have pc: "mx_pc s t = Idle \<or> mx_pc s t = Panicked \<or> (\<exists>b. mx_pc s t = LPark b \<and> \<not> bk_token (mx_blk s b))" for t
    using q by auto
  have q: "hand_quiet (hand_of s)" unfolding hand_quiet_def
  proof (intro conjI allI)
    fix t
    show "hd_g (hand_of s) t = GNone" using pc [of t] by auto
    show "hd_w (hand_of s) t = WNone \<or> (\<exists>b. hd_w (hand_of s) t = WPark b \<and> \<not> bk_token (hd_blk (hand_of s) b))"
      using pc [of t] by auto
  qed
  have "\<not> owns (mx_pc s t)" for t using pc [of t] by auto
  moreover have "handed (hand_of s) = {}" by (rule hand_quietD(1) [OF ok q])
  ultimately have h: "h = Nobody" using I by (cases h) (auto simp: mutex_inv_def own_ok_def)
  then have c: "mx_cnt s = 0" using mutex_inv_cnt(3) [OF I] by simp
  have "\<not> adding (mx_pc s t)" for t using pc [of t] by auto
  then have "adders s = {}" by (simp add: adders_def)
  then have e: "mx_queue s = []" using I h c by (simp add: mutex_inv_def cnt_ok_def counted_def)
  have "mx_pc s t \<noteq> LPark b" for t b using hand_quietD(2) [OF ok q, of t b] e by auto
  then show ?thesis using c e pc by auto
qed

lemma mutex_quiet:
  assumes "reach mutex_start mutex_step s"
    and "\<forall>t. mx_pc s t \<in> {Idle, Panicked} \<or> (\<exists>b. mx_pc s t = LPark b \<and> \<not> bk_token (mx_blk s b))"
  shows "mx_cnt s = 0 \<and> mx_queue s = [] \<and> (\<forall>t. mx_pc s t \<in> {Idle, Panicked})"
  using mutex_inv_quiet [OF _ assms(2)] mutex_reach_inv [OF assms(1)] by blast

section \<open>Properties\<close>

text \<open>
  C1: mutual exclusion. In every reachable state at most one task holds the lock, whatever the number of
  tasks, the interleaving and the cancellations; \<^verbatim>\<open>cnt\<close> is positive while a task holds it or passes it on,
  so \<^verbatim>\<open>try_lock\<close> fails then; and no task ever pops a waiter from an empty queue.
\<close>

theorem mutex_exclusion:
  assumes "reach mutex_start mutex_step s"
  shows "(\<forall>t u. owns (mx_pc s t) \<longrightarrow> owns (mx_pc s u) \<longrightarrow> t = u) \<and>
    (\<forall>t. owns (mx_pc s t) \<longrightarrow> 0 < mx_cnt s \<and> (\<forall>u p. try_lock u p s = goto u p s)) \<and>
    (\<forall>t. mx_pc s t \<noteq> Broken)"
proof -
  from mutex_reach_inv [OF assms] obtain h where I: "mutex_inv h s" by blast
  have pos: "0 < mx_cnt s" if "owns (mx_pc s t)" for t
    using mutex_inv_cnt(3) [OF I] mutex_inv_cnt(4) [OF I, of t] that by (simp add: word_gt_0)
  then have "try_lock u p s = goto u p s" if "owns (mx_pc s t)" for t u p
    using that by (fastforce simp: try_lock_def)
  moreover have "t = u" if "owns (mx_pc s t)" "owns (mx_pc s u)" for t u
    using mutex_inv_cnt(4) [OF I] that by simp
  moreover have "mx_pc s t \<noteq> Broken" for t using I by (simp add: mutex_inv_def)
  ultimately show ?thesis using pos by blast
qed

text \<open>
  C14: no lost hand-off. If every task is outside the mutex or parked without a wake-up token, then no
  task is parked, the counter is zero and the waiter queue is empty: a waiter can only be blocked while
  another task holds the lock or is still passing it on.
\<close>

theorem mutex_no_lost_wakeup:
  assumes "reach mutex_start mutex_step s"
    and "\<forall>t. mx_pc s t \<in> {Idle, Panicked} \<or> (\<exists>b. mx_pc s t = LPark b \<and> \<not> bk_token (mx_blk s b))"
  shows "mx_cnt s = 0 \<and> mx_queue s = [] \<and> (\<forall>t. mx_pc s t \<in> {Idle, Panicked})"
  using mutex_quiet [OF assms] .

text \<open>
  No deadlock inside the mutex. As long as some task is inside the mutex, a task holds a guard, or a
  task other than a blocked waiter has a step to take.
\<close>

theorem mutex_no_deadlock:
  assumes "reach mutex_start mutex_step s" and "mx_pc s t \<notin> {Idle, Panicked}"
  shows "\<exists>u. mx_pc s u = Holding \<or> (\<exists>s'. mutex_next u Run s = Some s')"
proof (rule ccontr)
  assume n: "\<not> ?thesis"
  from mutex_reach_inv [OF assms(1)] obtain h where I: "mutex_inv h s" by blast
  have "mx_pc s u \<in> {Idle, Panicked} \<or> (\<exists>b. mx_pc s u = LPark b \<and> \<not> bk_token (mx_blk s b))" for u
  proof -
    have nn: "mx_pc s u \<noteq> Holding" "mutex_next u Run s = None" "mx_pc s u \<noteq> Broken"
      using n I by (auto simp: mutex_inv_def simp del: mutex_next.simps)
    show ?thesis using nn by (cases "mx_pc s u") (auto split: if_splits simp: Let_def split: prod.splits)
  qed
  then show False using assms mutex_quiet by blast
qed

lemma mutex_stepI: "mutex_next t a s = Some s' \<Longrightarrow> mx_fresh s' + 2 < 2 ^ 64 \<Longrightarrow> mutex_step s s'"
  by (auto simp: mutex_step_def simp del: mutex_next.simps)

text \<open>Task 0 holds the lock and task 1 is parked behind it; then task 0 drops its guard.\<close>

lemma mutex_contended:
  "\<exists>s. reach mutex_start mutex_step s \<and> mx_pc s 0 = Holding \<and> mx_pc s 1 = LPark 0"
proof -
  let ?st = "\<lambda>t a s. the (mutex_next t a s)"
  let ?s1 = "?st 0 CallTryLock mutex_new" and ?run = "?st 1 Run"
  let ?s2 = "?st 1 CallLock ?s1"
  have n: "reach mutex_start mutex_step mutex_new" by (rule reach_start) (simp add: mutex_start_def)
  have r1: "reach mutex_start mutex_step ?s1"
    by (rule reach_step [OF n], rule mutex_stepI [of 0 CallTryLock]) (simp_all add: mutex_new_def try_lock_def goto_def)
  have r2: "reach mutex_start mutex_step ?s2"
    by (rule reach_step [OF r1], rule mutex_stepI [of 1 CallLock]) (simp_all add: mutex_new_def try_lock_def goto_def)
  have r3: "reach mutex_start mutex_step (?run ?s2)"
    by (rule reach_step [OF r2], rule mutex_stepI [of 1 Run]) (simp_all add: mutex_new_def try_lock_def goto_def)
  have r4: "reach mutex_start mutex_step (?run (?run ?s2))"
    by (rule reach_step [OF r3], rule mutex_stepI [of 1 Run]) (simp_all add: mutex_new_def try_lock_def goto_def Let_def)
  have r5: "reach mutex_start mutex_step (?run (?run (?run ?s2)))"
    by (rule reach_step [OF r4], rule mutex_stepI [of 1 Run]) (simp_all add: mutex_new_def try_lock_def goto_def Let_def)
  have "mx_pc (?run (?run (?run ?s2))) 0 = Holding" "mx_pc (?run (?run (?run ?s2))) 1 = LPark 0"
    by (simp_all add: mutex_new_def try_lock_def goto_def Let_def)
  with r5 show ?thesis by blast
qed

theorem mutex_exclusion_witness:
  "\<exists>s :: mutex. mx_pc s 0 = Holding \<and> mx_pc s 1 = LPark 0 \<and> 0 < mx_cnt s"
proof -
  obtain s where s: "reach mutex_start mutex_step s" "mx_pc s 0 = Holding" "mx_pc s 1 = LPark 0"
    using mutex_contended by blast
  then have "owns (mx_pc s 0)" by simp
  then have "0 < mx_cnt s" using mutex_exclusion [OF s(1)] by blast
  with s show ?thesis by blast
qed

theorem mutex_no_lost_wakeup_witness:
  "\<exists>s. (\<exists>r. mutex_step r s) \<and> mx_cnt s = 0 \<and> mx_queue s = []"
proof -
  let ?s1 = "the (mutex_next 0 CallTryLock mutex_new)"
  let ?s2 = "the (mutex_next 0 DropGuard ?s1)"
  let ?s3 = "the (mutex_next 0 Run ?s2)"
  have n: "reach mutex_start mutex_step mutex_new" by (rule reach_start) (simp add: mutex_start_def)
  have r1: "reach mutex_start mutex_step ?s1"
    by (rule reach_step [OF n], rule mutex_stepI [of 0 CallTryLock]) (simp_all add: mutex_new_def try_lock_def goto_def)
  have r2: "reach mutex_start mutex_step ?s2"
    by (rule reach_step [OF r1], rule mutex_stepI [of 0 DropGuard]) (simp_all add: mutex_new_def try_lock_def goto_def)
  have st: "mutex_step ?s2 ?s3"
    by (rule mutex_stepI [of 0 Run]) (simp_all add: mutex_new_def try_lock_def goto_def unlock_def)
  from mutex_no_lost_wakeup [OF reach_step [OF r2 st]] have "mx_cnt ?s3 = 0 \<and> mx_queue ?s3 = []"
    by (simp add: mutex_new_def try_lock_def goto_def unlock_def)
  with st show ?thesis by blast
qed

end
