(* ===== verification/Mutex_Client.thy ===== *)
theory Mutex_Client
  imports Mutex
begin

text \<open>
  The mutex as its clients see it: where a task is inside a call of \<^verbatim>\<open>lock\<close> or \<^verbatim>\<open>unlock\<close>, that a step of one
  task leaves the others where they are, and when a task inside has a step to take. The reader-writer
  lock and the condition variable are built on it.
\<close>

section \<open>Frame\<close>

lemma goto_goto [simp]: "goto t p (goto t q m) = goto t p m"
  by (simp add: goto_def)

lemma pop_waiter_frame: "u \<noteq> t \<Longrightarrow> mx_pc (pop_waiter t k m) u = mx_pc m u"
  by (simp add: pop_waiter_def split: list.splits)

lemma try_lock_frame: "u \<noteq> t \<Longrightarrow> mx_pc (try_lock t p m) u = mx_pc m u"
  by (simp add: try_lock_def)

lemma mutex_next_frame: "mutex_next t a m = Some m' \<Longrightarrow> u \<noteq> t \<Longrightarrow> mx_pc m' u = mx_pc m u"
  by (cases a) (auto simp: Let_def unlock_def pop_waiter_frame try_lock_frame
    split: option.splits pc.splits prod.splits if_splits)

lemma mutex_next_bnd: "mutex_next t a m = Some m' \<Longrightarrow> a \<noteq> Run \<Longrightarrow> mx_fresh m' = mx_fresh m"
  by (cases a) (auto simp: try_lock_def split: pc.splits if_splits)

lemma holding_unique: "mutex_inv h m \<Longrightarrow> mx_pc m t = Holding \<Longrightarrow> mx_pc m u = Holding \<Longrightarrow> t = u"
  using mutex_inv_cnt(4) [of h m t] mutex_inv_cnt(4) [of h m u] by simp

lemma held_cnt: "mutex_inv h m \<Longrightarrow> mx_pc m t = Holding \<Longrightarrow> 0 < mx_cnt m"
  using mutex_inv_cnt(3) [of h m] mutex_inv_cnt(4) [of h m t] by (simp add: word_gt_0)

section \<open>Where a task is\<close>

abbreviation out_of :: "pc \<Rightarrow> bool" where
  "out_of p \<equiv> p \<in> {Idle, Panicked}"

text \<open>In a \<^verbatim>\<open>lock\<close> that ignores cancellation: it can only end with the lock.\<close>

fun klock :: "cont \<Rightarrow> bool" where
  "klock (KLock _) = True"
| "klock _ = False"

fun firm :: "pc \<Rightarrow> bool" where
  "firm Idle = False"
| "firm Panicked = False"
| "firm (LCanceled _ ig) = ig"
| "firm (LSetRelease _) = False"
| "firm (LRecheck _) = False"
| "firm (LTakeRelease _) = False"
| "firm (Unparking _ k) = klock k"
| "firm (Waking _ k) = klock k"
| "firm (Releasing _ k) = klock k"
| "firm (Unlocking k) = klock k"
| "firm (UPop k) = klock k"
| "firm _ = True"

text \<open>Inside a call of \<^verbatim>\<open>lock\<close>, and inside a call of \<^verbatim>\<open>unlock\<close>.\<close>

fun entering :: "pc \<Rightarrow> bool" where
  "entering Idle = False"
| "entering (Unparking _ k) = (k \<noteq> KExit)"
| "entering (Waking _ k) = (k \<noteq> KExit)"
| "entering (Releasing _ k) = (k \<noteq> KExit)"
| "entering (Unlocking k) = (k \<noteq> KExit)"
| "entering (UPop k) = (k \<noteq> KExit)"
| "entering _ = True"

fun leaving :: "pc \<Rightarrow> bool" where
  "leaving Idle = True"
| "leaving Broken = True"
| "leaving (Unparking _ k) = (k = KExit)"
| "leaving (Waking _ k) = (k = KExit)"
| "leaving (Releasing _ k) = (k = KExit)"
| "leaving (Unlocking k) = (k = KExit)"
| "leaving (UPop k) = (k = KExit)"
| "leaving _ = False"

lemma firm_resume: "klock k \<Longrightarrow> firm (resume k)"
  by (cases k) auto

lemma firm_next:
  assumes "mutex_next t a m = Some m'" "firm (mx_pc m t)" "a = Run \<and> mx_pc m t \<noteq> Holding \<or> a = CancelPark True"
  shows "firm (mx_pc m' t)"
  using assms by (cases "mx_pc m t")
    (auto simp: Let_def try_lock_def unlock_def pop_waiter_def firm_resume split: list.splits prod.splits if_splits)

lemma entering_resume: "k \<noteq> KExit \<Longrightarrow> entering (resume k)"
  by (cases k) auto

lemma entering_next:
  assumes "mutex_next t a m = Some m'" "entering (mx_pc m t)" "a = Run \<or> a = CancelPark ig"
  shows "entering (mx_pc m' t)"
  using assms by (cases "mx_pc m t")
    (auto simp: Let_def try_lock_def unlock_def pop_waiter_def entering_resume split: list.splits prod.splits if_splits)

lemma leaving_next:
  assumes "mutex_next t Run m = Some m'" "leaving (mx_pc m t)"
  shows "leaving (mx_pc m' t)"
  using assms by (cases "mx_pc m t")
    (auto simp: Let_def unlock_def pop_waiter_def split: list.splits prod.splits if_splits)

section \<open>Progress\<close>

definition parked :: "mutex \<Rightarrow> nat \<Rightarrow> bool" where
  "parked m t \<longleftrightarrow> (\<exists>b. mx_pc m t = LPark b \<and> \<not> bk_token (mx_blk m b))"

lemma mutex_run_enabled:
  assumes "mutex_inv h m" "mx_pc m t \<notin> {Idle, Panicked, Holding}" "\<not> parked m t"
  shows "\<exists>m'. mutex_next t Run m = Some m'"
proof -
  have "mx_pc m t \<noteq> Broken" using assms(1) by (simp add: mutex_inv_def)
  with assms(2,3) show "\<exists>m'. mutex_next t Run m = Some m'"
    by (cases "mx_pc m t") (auto simp: parked_def Let_def split: prod.splits)
qed

lemmas mutex_place = entering_next leaving_next firm_next

end
