(* ===== verification/RwLock.thy ===== *)
theory RwLock
  imports Mutex_Client Cancel_Data
begin

text \<open>
  The reader-writer lock of \<^verbatim>\<open>src/sync/rwlock.rs\<close> as a transition system over two hand-off locks: the
  global lock made of \<^verbatim>\<open>to_wake\<close> and \<^verbatim>\<open>cnt\<close>, and the mutex \<^verbatim>\<open>rlock\<close> around the reader count. Each access
  to shared memory is one step. A task is one use of the lock: a call of \<^verbatim>\<open>read\<close>, \<^verbatim>\<open>try_read\<close>, \<^verbatim>\<open>write\<close> or
  \<^verbatim>\<open>try_write\<close> with the guard it returns, up to the end of the drop of this guard; a thread with several
  guards is several tasks. Tasks are numbered from 1. The global lock is taken by the first reader and
  released by the last, which may be different tasks; in between it is held in the name of task 0, which
  stands for the readers together.
\<close>

section \<open>The global lock\<close>

text \<open>
  The progress of a task inside \<^verbatim>\<open>lock\<close> and \<^verbatim>\<open>unlock\<close> is kept as in the mutex: \<open>Holding\<close> after
  \<^verbatim>\<open>lock\<close> returned \<^verbatim>\<open>Ok\<close>, \<open>Panicked\<close> after it returned \<^verbatim>\<open>Err(Canceled)\<close>, \<open>Idle\<close> after \<^verbatim>\<open>unlock\<close>.
\<close>

definition rw_try_lock :: "nat \<Rightarrow> pc \<Rightarrow> mutex \<Rightarrow> mutex" where
  "rw_try_lock t would_block m =
     (if mx_cnt m = 0 then goto t Holding (m\<lparr>mx_cnt := 1\<rparr>) else goto t would_block m)"

fun rw_lock :: "nat \<Rightarrow> mutex \<Rightarrow> mutex option" where
  "rw_lock t m = (case mx_pc m t of
     LTry \<Rightarrow> Some (rw_try_lock t LPush m)
   | LPush \<Rightarrow>
       (let cur = mx_fresh m in
        Some (goto t (LAdd cur)
          (m\<lparr>mx_queue := mx_queue m @ [cur], mx_blk := (mx_blk m)(cur := sync_blocker), mx_fresh := Suc cur\<rparr>)))
   | LAdd cur \<Rightarrow>
       (let old = mx_cnt m in
        Some (goto t (if old = 0 then LPop cur else LPark cur) (m\<lparr>mx_cnt := old + 1\<rparr>)))
   | LPop cur \<Rightarrow> Some (pop_waiter t (KLock cur) m)
   | LPark cur \<Rightarrow>
       if bk_token (mx_blk m cur)
       then Some (goto t Holding (upd_blk cur (park_return (mx_blk m cur)) m))
       else None
   | LCanceled cur _ \<Rightarrow> Some (goto t (if is_unparked (mx_blk m cur) then Unlocking KPanic else LSetRelease cur) m)
   | LSetRelease cur \<Rightarrow> Some (goto t (LRecheck cur) (upd_blk cur (set_release (mx_blk m cur)) m))
   | LRecheck cur \<Rightarrow> Some (goto t (if is_unparked (mx_blk m cur) then LTakeRelease cur else Panicked) m)
   | LTakeRelease cur \<Rightarrow>
       (let (r, b) = take_release (mx_blk m cur) in
        Some (goto t (if r then Unlocking KPanic else Panicked) (upd_blk cur b m)))
   | _ \<Rightarrow> None)"

fun rw_unpark_one :: "nat \<Rightarrow> mutex \<Rightarrow> mutex option" where
  "rw_unpark_one t m = (case mx_pc m t of
     Unparking w k \<Rightarrow> Some (goto t (Waking w k) (upd_blk w (unpark_flag (mx_blk m w)) m))
   | Waking w k \<Rightarrow> Some (goto t (Releasing w k) (upd_blk w (unpark_wake (mx_blk m w)) m))
   | Releasing w k \<Rightarrow>
       (let (r, b) = take_release (mx_blk m w) in
        Some (goto t (if r then Unlocking k else resume k) (upd_blk w b m)))
   | _ \<Rightarrow> None)"

fun rw_unlock :: "nat \<Rightarrow> mutex \<Rightarrow> mutex option" where
  "rw_unlock t m = (case mx_pc m t of
     Unlocking k \<Rightarrow>
       (let cnt = mx_cnt m; m1 = m\<lparr>mx_cnt := cnt - 1\<rparr> in
        Some (goto t (if cnt > 1 then UPop k else resume k) m1))
   | UPop k \<Rightarrow> Some (pop_waiter t k m)
   | _ \<Rightarrow> None)"

definition glob_run :: "nat \<Rightarrow> mutex \<Rightarrow> mutex option" where
  "glob_run t m = (case rw_lock t m of
     Some m' \<Rightarrow> Some m'
   | None \<Rightarrow> (case rw_unpark_one t m of Some m' \<Rightarrow> Some m' | None \<Rightarrow> rw_unlock t m))"

section \<open>State\<close>

datatype phase =
    Out                \<comment> \<open>no guard, no call\<close>
  | RdLock             \<comment> \<open>\<^verbatim>\<open>read\<close>: in \<^verbatim>\<open>self.rlock.lock()\<close>\<close>
  | RdCheck            \<comment> \<open>before \<^verbatim>\<open>if *r == 0\<close>\<close>
  | RdGlob             \<comment> \<open>in \<^verbatim>\<open>self.lock()\<close>\<close>
  | RdForget           \<comment> \<open>canceled: in \<^verbatim>\<open>unlock_mutex(&self.rlock)\<close>\<close>
  | RdInc              \<comment> \<open>before \<^verbatim>\<open>*r += 1\<close>\<close>
  | RdNew              \<comment> \<open>before \<^verbatim>\<open>RwLockReadGuard::new\<close>\<close>
  | RdEnd bool         \<comment> \<open>before the drop of \<^verbatim>\<open>r\<close>; the result is poisoned or not\<close>
  | RdRet bool         \<comment> \<open>in the drop of \<^verbatim>\<open>r\<close>\<close>
  | Reading bool       \<comment> \<open>owns an \<^verbatim>\<open>RwLockReadGuard\<close>\<close>
  | TrBorrow           \<comment> \<open>\<^verbatim>\<open>try_read\<close>: the \<^verbatim>\<open>try_lock\<close> of \<^verbatim>\<open>rlock\<close> succeeded\<close>
  | TrPoison           \<comment> \<open>\<^verbatim>\<open>rlock\<close> is poisoned: before the drop of the guard in the error\<close>
  | TrPoisonRet        \<comment> \<open>in the drop of the guard in the error\<close>
  | TrCheck            \<comment> \<open>before \<^verbatim>\<open>if *r == 0\<close>\<close>
  | TrFail             \<comment> \<open>\<^verbatim>\<open>WouldBlock\<close>: before the drop of \<^verbatim>\<open>r\<close>\<close>
  | TrFailRet          \<comment> \<open>in the drop of \<^verbatim>\<open>r\<close>\<close>
  | RuSpin nat         \<comment> \<open>\<^verbatim>\<open>try_lock_rlock\<close>: rounds left\<close>
  | RuBorrow nat       \<comment> \<open>the \<^verbatim>\<open>try_lock\<close> of the round succeeded\<close>
  | RuClear nat        \<comment> \<open>\<^verbatim>\<open>rlock\<close> is poisoned: before \<^verbatim>\<open>clear_poison\<close>\<close>
  | RuClearEnd nat     \<comment> \<open>before the drop of the guard in the error\<close>
  | RuClearRet nat     \<comment> \<open>in the drop of the guard in the error\<close>
  | RuLock             \<comment> \<open>\<^verbatim>\<open>read_unlock\<close>: in \<^verbatim>\<open>self.rlock.lock()\<close>\<close>
  | RuDec              \<comment> \<open>before \<^verbatim>\<open>*r -= 1\<close>\<close>
  | RuGlob             \<comment> \<open>in \<^verbatim>\<open>self.unlock()\<close>\<close>
  | RuEnd              \<comment> \<open>before the drop of \<^verbatim>\<open>r\<close>\<close>
  | RuRet              \<comment> \<open>in the drop of \<^verbatim>\<open>r\<close>\<close>
  | WrGlob             \<comment> \<open>\<^verbatim>\<open>write\<close>: in \<^verbatim>\<open>self.lock()\<close>\<close>
  | WrNew              \<comment> \<open>before \<^verbatim>\<open>RwLockWriteGuard::new\<close>\<close>
  | Writing bool       \<comment> \<open>owns an \<^verbatim>\<open>RwLockWriteGuard\<close>\<close>
  | WrUnlock           \<comment> \<open>in \<^verbatim>\<open>write_unlock\<close>\<close>
  | ExEnd              \<comment> \<open>\<^verbatim>\<open>expect\<close> failed: before the drop of the guard in the error\<close>
  | ExRet              \<comment> \<open>in the drop of the guard in the error\<close>
  | Gone               \<comment> \<open>left by a panic\<close>

record 'd rwlock =
  rw_glob :: mutex
  rw_rlock :: mutex
  rw_readers :: usize
  rw_rpoison :: poison_flag
  rw_poison :: poison_flag
  rw_data :: 'd
  rw_rguard :: "nat \<Rightarrow> poison_guard"
  rw_wguard :: "nat \<Rightarrow> poison_guard"
  rw_ph :: "nat \<Rightarrow> phase"

definition rwlock_new :: "'d \<Rightarrow> 'd rwlock" where
  "rwlock_new d = \<lparr>rw_glob = mutex_new, rw_rlock = mutex_new, rw_readers = 0, rw_rpoison = flag_new,
     rw_poison = flag_new, rw_data = d, rw_rguard = (\<lambda>_. \<lparr>pg_panicking = False\<rparr>),
     rw_wguard = (\<lambda>_. \<lparr>pg_panicking = False\<rparr>), rw_ph = (\<lambda>_. Out)\<rparr>"

definition rgoto :: "nat \<Rightarrow> phase \<Rightarrow> 'd rwlock \<Rightarrow> 'd rwlock" where
  "rgoto t p s = s\<lparr>rw_ph := (rw_ph s)(t := p)\<rparr>"

section \<open>Steps below a phase\<close>

text \<open>An action of task \<open>t\<close> on \<^verbatim>\<open>rlock\<close> or on the global lock, with the phase it enters.\<close>

definition on_rlock :: "nat \<Rightarrow> act \<Rightarrow> phase \<Rightarrow> 'd rwlock \<Rightarrow> 'd rwlock option" where
  "on_rlock t a p s = map_option (\<lambda>m. rgoto t p (s\<lparr>rw_rlock := m\<rparr>)) (mutex_next t a (rw_rlock s))"

definition on_glob :: "nat \<Rightarrow> phase \<Rightarrow> mutex option \<Rightarrow> 'd rwlock \<Rightarrow> 'd rwlock option" where
  "on_glob t p r s = map_option (\<lambda>m. rgoto t p (s\<lparr>rw_glob := m\<rparr>)) r"

text \<open>\<^verbatim>\<open>MutexGuard::new\<close>: the poison flag of \<^verbatim>\<open>rlock\<close> is read after the lock is taken.\<close>

definition rborrow :: "nat \<Rightarrow> thread_env \<Rightarrow> phase \<Rightarrow> phase \<Rightarrow> 'd rwlock \<Rightarrow> 'd rwlock" where
  "rborrow t env ok bad s = (case flag_borrow env (rw_rpoison s) of
     Inr g \<Rightarrow> rgoto t ok (s\<lparr>rw_rguard := (rw_rguard s)(t := g)\<rparr>)
   | Inl g \<Rightarrow> rgoto t bad (s\<lparr>rw_rguard := (rw_rguard s)(t := g)\<rparr>))"

text \<open>\<^verbatim>\<open>MutexGuard::drop\<close>: \<^verbatim>\<open>poison.done\<close>, then \<^verbatim>\<open>unlock\<close>, whose steps follow.\<close>

definition rdrop :: "nat \<Rightarrow> thread_env \<Rightarrow> phase \<Rightarrow> 'd rwlock \<Rightarrow> 'd rwlock option" where
  "rdrop t env p s =
     on_rlock t DropGuard p (s\<lparr>rw_rpoison := flag_done (rw_rguard s t) env (rw_rpoison s)\<rparr>)"

definition rrun :: "nat \<Rightarrow> 'd rwlock \<Rightarrow> 'd rwlock option" where
  "rrun t s = on_rlock t Run (rw_ph s t) s"

definition runtil :: "nat \<Rightarrow> phase \<Rightarrow> 'd rwlock \<Rightarrow> 'd rwlock option" where
  "runtil t p s = (if mx_pc (rw_rlock s) t = Idle then Some (rgoto t p s) else rrun t s)"

text \<open>\<^verbatim>\<open>self.rlock.lock().expect(..)\<close>\<close>

definition rlock_wait :: "nat \<Rightarrow> thread_env \<Rightarrow> phase \<Rightarrow> 'd rwlock \<Rightarrow> 'd rwlock option" where
  "rlock_wait t env p s = (case mx_pc (rw_rlock s) t of
     Holding \<Rightarrow> Some (rborrow t env p ExEnd s)
   | Panicked \<Rightarrow> Some (rgoto t Gone s)
   | _ \<Rightarrow> rrun t s)"

definition grun :: "nat \<Rightarrow> 'd rwlock \<Rightarrow> 'd rwlock option" where
  "grun t s = on_glob t (rw_ph s t) (glob_run t (rw_glob s)) s"

section \<open>Operations\<close>

text \<open>
  \<^verbatim>\<open>*r += 1\<close>: the first reader leaves the global lock to the readers together. \<^verbatim>\<open>*r -= 1\<close>: the last one
  takes it back and unlocks it.
\<close>

definition rw_inc :: "nat \<Rightarrow> 'd rwlock \<Rightarrow> 'd rwlock" where
  "rw_inc t s = rgoto t RdNew (s\<lparr>rw_readers := rw_readers s + 1,
     rw_glob := (if rw_readers s = 0 then goto 0 Holding (goto t Idle (rw_glob s)) else rw_glob s)\<rparr>)"

definition rw_dec :: "nat \<Rightarrow> 'd rwlock \<Rightarrow> 'd rwlock" where
  "rw_dec t s = (let r = rw_readers s - 1; s1 = s\<lparr>rw_readers := r\<rparr> in
     if r = 0 then rgoto t RuGlob (s1\<lparr>rw_glob := goto t (Unlocking KExit) (goto 0 Idle (rw_glob s))\<rparr>)
     else rgoto t RuEnd s1)"

fun rw_read :: "nat \<Rightarrow> thread_env \<Rightarrow> 'd rwlock \<Rightarrow> 'd rwlock option" where
  "rw_read t env s = (case rw_ph s t of
     RdLock \<Rightarrow> rlock_wait t env RdCheck s
   | RdCheck \<Rightarrow>
       if rw_readers s = 0 then on_glob t RdGlob (mutex_next t CallLock (rw_glob s)) s
       else Some (rgoto t RdInc s)
   | RdGlob \<Rightarrow> (case mx_pc (rw_glob s) t of
       Holding \<Rightarrow> Some (rgoto t RdInc s)
     | Panicked \<Rightarrow> on_rlock t DropGuard RdForget s
     | _ \<Rightarrow> grun t s)
   | RdForget \<Rightarrow> runtil t Gone s
   | RdInc \<Rightarrow> Some (rw_inc t s)
   | RdNew \<Rightarrow> Some (rgoto t (RdEnd (flag_get (rw_poison s))) s)
   | RdEnd b \<Rightarrow> rdrop t env (RdRet b) s
   | RdRet b \<Rightarrow> runtil t (Reading b) s
   | ExEnd \<Rightarrow> rdrop t env ExRet s
   | ExRet \<Rightarrow> runtil t Gone s
   | _ \<Rightarrow> None)"

definition rw_call_try_read :: "nat \<Rightarrow> 'd rwlock \<Rightarrow> 'd rwlock option" where
  "rw_call_try_read t s = (case mutex_next t CallTryLock (rw_rlock s) of
     None \<Rightarrow> None
   | Some m \<Rightarrow> Some (rgoto t (if mx_pc m t = Holding then TrBorrow else Out) (s\<lparr>rw_rlock := m\<rparr>)))"

fun rw_try_read :: "nat \<Rightarrow> thread_env \<Rightarrow> 'd rwlock \<Rightarrow> 'd rwlock option" where
  "rw_try_read t env s = (case rw_ph s t of
     TrBorrow \<Rightarrow> Some (rborrow t env TrCheck TrPoison s)
   | TrPoison \<Rightarrow> rdrop t env TrPoisonRet s
   | TrPoisonRet \<Rightarrow> runtil t (Reading True) s
   | TrCheck \<Rightarrow>
       if rw_readers s = 0 then
         (let m = rw_try_lock t Idle (rw_glob s) in
          Some (rgoto t (if mx_pc m t = Holding then RdInc else TrFail) (s\<lparr>rw_glob := m\<rparr>)))
       else Some (rgoto t RdInc s)
   | TrFail \<Rightarrow> rdrop t env TrFailRet s
   | TrFailRet \<Rightarrow> runtil t Out s
   | _ \<Rightarrow> None)"

text \<open>One million rounds, then the blocking lock.\<close>

fun rw_try_lock_rlock :: "nat \<Rightarrow> thread_env \<Rightarrow> 'd rwlock \<Rightarrow> 'd rwlock option" where
  "rw_try_lock_rlock t env s = (case rw_ph s t of
     RuSpin n \<Rightarrow>
       if n = 0 then on_rlock t CallLock RuLock s
       else (case mutex_next t CallTryLock (rw_rlock s) of
           None \<Rightarrow> None
         | Some m \<Rightarrow> Some (rgoto t (if mx_pc m t = Holding then RuBorrow (n - 1) else RuSpin (n - 1))
             (s\<lparr>rw_rlock := m\<rparr>)))
   | RuBorrow n \<Rightarrow> Some (rborrow t env RuDec (RuClear n) s)
   | RuClear n \<Rightarrow> Some (rgoto t (RuClearEnd n) (s\<lparr>rw_rpoison := flag_clear (rw_rpoison s)\<rparr>))
   | RuClearEnd n \<Rightarrow> rdrop t env (RuClearRet n) s
   | RuClearRet n \<Rightarrow> runtil t (RuSpin n) s
   | _ \<Rightarrow> None)"

definition rw_call_read_unlock :: "nat \<Rightarrow> thread_env \<Rightarrow> 'd rwlock \<Rightarrow> 'd rwlock option" where
  "rw_call_read_unlock t env s =
     (if te_panicking env then Some (rgoto t (RuSpin 1000000) s) else on_rlock t CallLock RuLock s)"

fun rw_read_unlock :: "nat \<Rightarrow> thread_env \<Rightarrow> 'd rwlock \<Rightarrow> 'd rwlock option" where
  "rw_read_unlock t env s = (case rw_ph s t of
     RuLock \<Rightarrow> rlock_wait t env RuDec s
   | RuDec \<Rightarrow> Some (rw_dec t s)
   | RuGlob \<Rightarrow> if mx_pc (rw_glob s) t = Idle then Some (rgoto t RuEnd s) else grun t s
   | RuEnd \<Rightarrow> rdrop t env RuRet s
   | RuRet \<Rightarrow> runtil t Out s
   | _ \<Rightarrow> None)"

fun rw_write :: "nat \<Rightarrow> thread_env \<Rightarrow> 'd rwlock \<Rightarrow> 'd rwlock option" where
  "rw_write t env s = (case rw_ph s t of
     WrGlob \<Rightarrow> (case mx_pc (rw_glob s) t of
       Holding \<Rightarrow> Some (rgoto t WrNew s)
     | Panicked \<Rightarrow> Some (rgoto t Gone s)
     | _ \<Rightarrow> grun t s)
   | WrNew \<Rightarrow> (case flag_borrow env (rw_poison s) of
       Inr g \<Rightarrow> Some (rgoto t (Writing False) (s\<lparr>rw_wguard := (rw_wguard s)(t := g)\<rparr>))
     | Inl g \<Rightarrow> Some (rgoto t (Writing True) (s\<lparr>rw_wguard := (rw_wguard s)(t := g)\<rparr>)))
   | WrUnlock \<Rightarrow> if mx_pc (rw_glob s) t = Idle then Some (rgoto t Out s) else grun t s
   | _ \<Rightarrow> None)"

definition rw_call_try_write :: "nat \<Rightarrow> 'd rwlock \<Rightarrow> 'd rwlock option" where
  "rw_call_try_write t s =
     (let m = rw_try_lock t Idle (rw_glob s) in
      Some (rgoto t (if mx_pc m t = Holding then WrNew else Out) (s\<lparr>rw_glob := m\<rparr>)))"

text \<open>\<^verbatim>\<open>RwLockWriteGuard::drop\<close>: \<^verbatim>\<open>poison.done\<close>, then \<^verbatim>\<open>write_unlock\<close>.\<close>

definition rw_write_drop :: "nat \<Rightarrow> thread_env \<Rightarrow> 'd rwlock \<Rightarrow> 'd rwlock option" where
  "rw_write_drop t env s =
     on_glob t WrUnlock (mutex_next t DropGuard (rw_glob s))
       (s\<lparr>rw_poison := flag_done (rw_wguard s t) env (rw_poison s)\<rparr>)"

text \<open>\<^verbatim>\<open>is_poisoned\<close>, and \<^verbatim>\<open>into_inner\<close> and \<^verbatim>\<open>get_mut\<close>, which need no lock.\<close>

definition rw_is_poisoned :: "'d rwlock \<Rightarrow> bool" where
  "rw_is_poisoned s = flag_get (rw_poison s)"

definition rw_into_inner :: "thread_env \<Rightarrow> 'd rwlock \<Rightarrow> 'd lock_result" where
  "rw_into_inner env s = map_result (\<lambda>_. rw_data s) (flag_borrow env (rw_poison s))"

section \<open>Runs\<close>

text \<open>
  What the client and the scheduler decide. A cancellation reaches a task that is parked in \<^verbatim>\<open>rlock\<close> or in the
  global lock; \<^verbatim>\<open>read_unlock\<close> disables it, so there the wait goes on.
\<close>

datatype 'd ract = CallRead | CallTryRead | CallWrite | CallTryWrite | DropRead thread_env
  | DropWrite thread_env | CancelRlock bool | CancelGlob | ClearPoison | SetData 'd | Go thread_env

definition rw_go :: "nat \<Rightarrow> thread_env \<Rightarrow> 'd rwlock \<Rightarrow> 'd rwlock option" where
  "rw_go t env s = (case rw_read t env s of Some s' \<Rightarrow> Some s' | None \<Rightarrow>
     (case rw_try_read t env s of Some s' \<Rightarrow> Some s' | None \<Rightarrow>
     (case rw_try_lock_rlock t env s of Some s' \<Rightarrow> Some s' | None \<Rightarrow>
     (case rw_read_unlock t env s of Some s' \<Rightarrow> Some s' | None \<Rightarrow> rw_write t env s))))"

fun is_reading :: "phase \<Rightarrow> bool" where
  "is_reading (Reading _) = True"
| "is_reading _ = False"

fun is_writing :: "phase \<Rightarrow> bool" where
  "is_writing (Writing _) = True"
| "is_writing _ = False"

fun rw_next :: "nat \<Rightarrow> 'd ract \<Rightarrow> 'd rwlock \<Rightarrow> 'd rwlock option" where
  "rw_next t CallRead s = (if rw_ph s t \<in> {Out, Gone} then on_rlock t CallLock RdLock s else None)"
| "rw_next t CallTryRead s = (if rw_ph s t \<in> {Out, Gone} then rw_call_try_read t s else None)"
| "rw_next t CallWrite s =
     (if rw_ph s t \<in> {Out, Gone} then on_glob t WrGlob (mutex_next t CallLock (rw_glob s)) s else None)"
| "rw_next t CallTryWrite s = (if rw_ph s t \<in> {Out, Gone} then rw_call_try_write t s else None)"
| "rw_next t (DropRead env) s = (if is_reading (rw_ph s t) then rw_call_read_unlock t env s else None)"
| "rw_next t (DropWrite env) s = (if is_writing (rw_ph s t) then rw_write_drop t env s else None)"
| "rw_next t (CancelRlock ig) s =
     (if rw_ph s t = RdLock \<or> rw_ph s t = RuLock \<and> ig then on_rlock t (CancelPark ig) (rw_ph s t) s else None)"
| "rw_next t CancelGlob s =
     (if rw_ph s t \<in> {RdGlob, WrGlob} then on_glob t (rw_ph s t) (mutex_next t (CancelPark False) (rw_glob s)) s else None)"
| "rw_next t ClearPoison s = Some (s\<lparr>rw_poison := flag_clear (rw_poison s)\<rparr>)"
| "rw_next t (SetData d) s = (if is_writing (rw_ph s t) then Some (s\<lparr>rw_data := d\<rparr>) else None)"
| "rw_next t (Go env) s = rw_go t env s"

definition rw_start :: "'d rwlock \<Rightarrow> bool" where
  "rw_start s \<longleftrightarrow> (\<exists>d. s = rwlock_new d)"

text \<open>
  Runs are taken up to \<open>2\<^sup>6\<^sup>4 - 2\<close> contended acquisitions, as for the mutex, and with fewer than
  \<open>2\<^sup>6\<^sup>4 - 1\<close> read guards alive at once. \<open>rw_step\<close> is a step in which the internal mutex \<^verbatim>\<open>rlock\<close> is not
  poisoned; its critical sections do not panic, and only a foreign panic that is suspended on the same
  thread can poison it.
\<close>

definition rw_any :: "'d rwlock \<Rightarrow> 'd rwlock \<Rightarrow> bool" where
  "rw_any s s' \<longleftrightarrow> (\<exists>t a. 0 < t \<and> rw_next t a s = Some s') \<and> unat (rw_readers s) + 1 < 2 ^ 64 \<and>
     mx_fresh (rw_glob s') + 2 < 2 ^ 64 \<and> mx_fresh (rw_rlock s') + 2 < 2 ^ 64"

definition rw_step :: "'d rwlock \<Rightarrow> 'd rwlock \<Rightarrow> bool" where
  "rw_step s s' \<longleftrightarrow> rw_any s s' \<and> \<not> flag_get (rw_rpoison s')"

section \<open>The global lock behaves as a mutex\<close>

lemma rw_try_lock_eq: "rw_try_lock = try_lock"
  by (simp add: fun_eq_iff rw_try_lock_def try_lock_def)

lemma rw_lock_inv:
  assumes I: "mutex_inv h m" and st: "rw_lock t m = Some m'" and b: "mx_fresh m' + 2 < 2 ^ 64"
  shows "\<exists>h'. mutex_inv h' m'"
proof (cases "\<exists>b ig. mx_pc m t = LCanceled b ig")
  case True
  then obtain b ig where pc: "mx_pc m t = LCanceled b ig" by blast
  have J: "mutex_inv h (goto t (LCanceled b False) m)" by (rule inv_neutral [OF I]) (simp_all add: pc)
  have "lock_step t (goto t (LCanceled b False) m) = Some m'" using st pc by auto
  from inv_lock_step [OF J this b] show ?thesis .
next
  case False
  then have "lock_step t m = Some m'" using st by (auto simp: rw_try_lock_eq split: pc.splits)
  from inv_lock_step [OF I this b] show ?thesis .
qed

lemma glob_run_inv:
  assumes I: "mutex_inv h m" and st: "glob_run t m = Some m'" and b: "mx_fresh m' + 2 < 2 ^ 64"
  shows "\<exists>h'. mutex_inv h' m'"
proof -
  have u: "unpark_one t m = rw_unpark_one t m" by (simp split: pc.splits)
  have v: "unlock_step t m = rw_unlock t m" by (simp add: unlock_def Let_def split: pc.splits)
  consider "rw_lock t m = Some m'" | "unpark_one t m = Some m'" | "unlock_step t m = Some m'"
    using st u v by (auto simp: glob_run_def simp del: rw_lock.simps rw_unpark_one.simps rw_unlock.simps
      unpark_one.simps unlock_step.simps split: option.splits)
  then show ?thesis
    by cases (use rw_lock_inv [OF I] inv_unpark_one [OF I] inv_unlock_step [OF I] b in \<open>blast+\<close>)
qed

lemma glob_run_frame: "glob_run t m = Some m' \<Longrightarrow> u \<noteq> t \<Longrightarrow> mx_pc m' u = mx_pc m u"
  by (auto simp: glob_run_def Let_def rw_try_lock_eq pop_waiter_frame try_lock_frame
    split: option.splits pc.splits prod.splits if_splits)

text \<open>The lock changes hands between two tasks that are not queued in it.\<close>

lemma mutex_inv_transfer:
  assumes I: "mutex_inv h m" and a: "mx_pc m a = Holding" and b: "mx_pc m b \<in> {Idle, Panicked}"
    and p: "p = Holding \<or> p = Unlocking KExit"
  shows "mutex_inv (Task b) (goto b p (goto a Idle m))" (is "mutex_inv _ ?m")
proof -
  have ab: "a \<noteq> b" using a b by auto
  have h: "h = Task a" using mutex_inv_cnt(4) [OF I, of a] a by simp
  have v: "wview (mx_pc ?m t) = wview (mx_pc m t)" "gview (mx_pc ?m t) = gview (mx_pc m t)"
    "adding (mx_pc ?m t) = adding (mx_pc m t)" for t using a b p by auto
  have e: "hand_of ?m = hand_of m" by (rule hand_of_eqI [symmetric]) (use v in auto)
  have ad: "adders ?m = adders m" unfolding adders_def v ..
  have "owns (mx_pc ?m t) \<longleftrightarrow> Task b = Task t" for t
    using mutex_inv_cnt(4) [OF I, of t] h p ab b by auto
  moreover have "handed (hand_of m) = {}" using I h by (simp add: mutex_inv_def own_ok_def)
  moreover have "mx_cnt m \<noteq> 0" using mutex_inv_cnt(3) [OF I] h by simp
  ultimately have "own_ok (Task b) ?m" by (simp add: own_ok_def e)
  moreover have "cnt_ok (Task b) ?m" using I h a p unfolding mutex_inv_def cnt_ok_def ad by (auto simp: counted_def)
  moreover have "mx_pc ?m t \<noteq> Broken" for t using I p by (auto simp: mutex_inv_def)
  ultimately show ?thesis using I by (simp add: mutex_inv_def e)
qed

section \<open>Invariant\<close>

text \<open>
  What a phase says about the place of the task in the global lock and in \<^verbatim>\<open>rlock\<close>.
\<close>

fun ph_ok :: "usize \<Rightarrow> phase \<Rightarrow> pc \<Rightarrow> pc \<Rightarrow> bool" where
  "ph_ok n RdGlob g r \<longleftrightarrow> r = Holding \<and> n = 0 \<and> entering g"
| "ph_ok n RdInc g r \<longleftrightarrow> r = Holding \<and> (if n = 0 then g = Holding else out_of g)"
| "ph_ok n RuGlob g r \<longleftrightarrow> r = Holding \<and> leaving g"
| "ph_ok n WrGlob g r \<longleftrightarrow> out_of r \<and> entering g"
| "ph_ok n WrUnlock g r \<longleftrightarrow> out_of r \<and> leaving g"
| "ph_ok n WrNew g r \<longleftrightarrow> g = Holding \<and> out_of r"
| "ph_ok n (Writing _) g r \<longleftrightarrow> g = Holding \<and> out_of r"
| "ph_ok n Out g r \<longleftrightarrow> out_of g \<and> out_of r"
| "ph_ok n Gone g r \<longleftrightarrow> out_of g \<and> out_of r"
| "ph_ok n (Reading _) g r \<longleftrightarrow> out_of g \<and> out_of r"
| "ph_ok n (RuSpin _) g r \<longleftrightarrow> out_of g \<and> out_of r"
| "ph_ok n RdLock g r \<longleftrightarrow> out_of g \<and> entering r"
| "ph_ok n RuLock g r \<longleftrightarrow> out_of g \<and> firm r"
| "ph_ok n RdForget g r \<longleftrightarrow> out_of g \<and> leaving r"
| "ph_ok n (RdRet _) g r \<longleftrightarrow> out_of g \<and> leaving r"
| "ph_ok n TrFailRet g r \<longleftrightarrow> out_of g \<and> leaving r"
| "ph_ok n RuRet g r \<longleftrightarrow> out_of g \<and> leaving r"
| "ph_ok n TrPoison g r \<longleftrightarrow> False"
| "ph_ok n TrPoisonRet g r \<longleftrightarrow> False"
| "ph_ok n (RuClear _) g r \<longleftrightarrow> False"
| "ph_ok n (RuClearEnd _) g r \<longleftrightarrow> False"
| "ph_ok n (RuClearRet _) g r \<longleftrightarrow> False"
| "ph_ok n ExEnd g r \<longleftrightarrow> False"
| "ph_ok n ExRet g r \<longleftrightarrow> False"
| "ph_ok n _ g r \<longleftrightarrow> r = Holding \<and> out_of g"

text \<open>The phases that are counted in the reader count.\<close>

fun reader_ph :: "phase \<Rightarrow> bool" where
  "reader_ph RdNew = True"
| "reader_ph (RdEnd _) = True"
| "reader_ph (RdRet _) = True"
| "reader_ph (Reading _) = True"
| "reader_ph (RuSpin _) = True"
| "reader_ph (RuBorrow _) = True"
| "reader_ph RuLock = True"
| "reader_ph RuDec = True"
| "reader_ph _ = False"

definition rw_readset :: "'d rwlock \<Rightarrow> nat set" where
  "rw_readset s = {t. reader_ph (rw_ph s t)}"

definition rw_inv :: "'d rwlock \<Rightarrow> bool" where
  "rw_inv s \<longleftrightarrow> (\<exists>h. mutex_inv h (rw_glob s)) \<and> (\<exists>h. mutex_inv h (rw_rlock s)) \<and>
     (\<forall>t>0. ph_ok (rw_readers s) (rw_ph s t) (mx_pc (rw_glob s) t) (mx_pc (rw_rlock s) t)) \<and>
     mx_pc (rw_glob s) 0 = (if rw_readers s = 0 then Idle else Holding) \<and>
     finite (rw_readset s) \<and> card (rw_readset s) = unat (rw_readers s) \<and>
     rw_ph s 0 = Out \<and> mx_pc (rw_rlock s) 0 = Idle \<and> \<not> flag_get (rw_rpoison s)"

lemma rw_invD:
  assumes "rw_inv s"
  shows "\<exists>h. mutex_inv h (rw_glob s)" "\<exists>h. mutex_inv h (rw_rlock s)"
    "0 < t \<Longrightarrow> ph_ok (rw_readers s) (rw_ph s t) (mx_pc (rw_glob s) t) (mx_pc (rw_rlock s) t)"
    "mx_pc (rw_glob s) 0 = (if rw_readers s = 0 then Idle else Holding)"
    "finite (rw_readset s)" "card (rw_readset s) = unat (rw_readers s)"
    "rw_ph s 0 = Out" "\<not> flag_get (rw_rpoison s)" "mx_pc (rw_rlock s) 0 = Idle"
  using assms by (simp_all add: rw_inv_def)

lemma rw_inv_new: "rw_inv (rwlock_new d)"
  using mutex_inv_new by (auto simp: rw_inv_def rwlock_new_def rw_readset_def mutex_new_def flag_get_def flag_new_def)

text \<open>One step of task \<open>t\<close>: the reader count changes only under \<^verbatim>\<open>rlock\<close>.\<close>

lemma rw_inv_move:
  assumes I: "rw_inv s" and t: "0 < t"
    and g: "\<exists>h. mutex_inv h (rw_glob s')" and r: "\<exists>h. mutex_inv h (rw_rlock s')"
    and fr: "\<And>u. u \<noteq> t \<Longrightarrow> u \<noteq> 0 \<Longrightarrow> mx_pc (rw_glob s') u = mx_pc (rw_glob s) u"
      "\<And>u. u \<noteq> t \<Longrightarrow> mx_pc (rw_rlock s') u = mx_pc (rw_rlock s) u"
    and ph: "rw_ph s' = (rw_ph s)(t := p)"
    and ok: "ph_ok (rw_readers s') p (mx_pc (rw_glob s') t) (mx_pc (rw_rlock s') t)"
    and n: "rw_readers s' = rw_readers s \<or> mx_pc (rw_rlock s) t = Holding"
    and z: "mx_pc (rw_glob s') 0 = (if rw_readers s' = 0 then Idle else Holding)"
    and c: "unat (rw_readers s') + (if reader_ph (rw_ph s t) then 1 else 0) =
      unat (rw_readers s) + (if reader_ph p then 1 else 0)"
    and f: "\<not> flag_get (rw_rpoison s')"
  shows "rw_inv s'"
proof -
  note D = rw_invD [OF I]
  obtain h where R: "mutex_inv h (rw_rlock s)" using D(2) by blast
  have "ph_ok (rw_readers s') (rw_ph s' u) (mx_pc (rw_glob s') u) (mx_pc (rw_rlock s') u)" if u: "0 < u" for u
  proof (cases "u = t")
    case False
    have o: "ph_ok (rw_readers s) (rw_ph s u) (mx_pc (rw_glob s) u) (mx_pc (rw_rlock s) u)" by (rule D(3) [OF u])
    have "ph_ok (rw_readers s') (rw_ph s u) (mx_pc (rw_glob s) u) (mx_pc (rw_rlock s) u)"
    proof (cases "rw_readers s' = rw_readers s")
      case True
      with o show ?thesis by simp
    next
      case ne: False
      then have "mx_pc (rw_rlock s) u \<noteq> Holding" using n False holding_unique [OF R] by blast
      with o show ?thesis by (cases "rw_ph s u") auto
    qed
    then show ?thesis using False u fr by (simp add: ph)
  qed (use ok in \<open>simp add: ph\<close>)
  moreover have "finite (rw_readset s')" "card (rw_readset s') = unat (rw_readers s')"
    using card_fun_upd [of reader_ph "rw_ph s" t p] D(5,6) c unfolding rw_readset_def ph by auto
  ultimately show ?thesis using g r z f D(7,9) t fr(2) [of 0] unfolding rw_inv_def by (simp add: ph)
qed

section \<open>Every step keeps the invariant\<close>

lemma glob_run_entering: "glob_run t m = Some m' \<Longrightarrow> entering (mx_pc m t) \<Longrightarrow> entering (mx_pc m' t)"
  by (cases "mx_pc m t") (auto simp: glob_run_def Let_def rw_try_lock_def pop_waiter_def entering_resume
    split: list.splits prod.splits if_splits)

lemma glob_run_leaving: "glob_run t m = Some m' \<Longrightarrow> leaving (mx_pc m t) \<Longrightarrow> leaving (mx_pc m' t)"
  by (cases "mx_pc m t") (auto simp: glob_run_def Let_def pop_waiter_def split: list.splits prod.splits if_splits)

lemma rgoto_sel [simp]:
  "rw_glob (rgoto t p s) = rw_glob s" "rw_rlock (rgoto t p s) = rw_rlock s" "rw_readers (rgoto t p s) = rw_readers s"
  "rw_rpoison (rgoto t p s) = rw_rpoison s" "rw_poison (rgoto t p s) = rw_poison s" "rw_data (rgoto t p s) = rw_data s"
  "rw_rguard (rgoto t p s) = rw_rguard s" "rw_wguard (rgoto t p s) = rw_wguard s"
  "rw_ph (rgoto t p s) = (rw_ph s)(t := p)"
  by (simp_all add: rgoto_def)

lemma rw_inv_local:
  assumes I: "rw_inv s" and t: "0 < t"
    and s': "rw_glob s' = rw_glob s" "rw_rlock s' = rw_rlock s" "rw_readers s' = rw_readers s"
      "rw_ph s' = (rw_ph s)(t := p)" "\<not> flag_get (rw_rpoison s')"
    and p: "ph_ok (rw_readers s) p (mx_pc (rw_glob s) t) (mx_pc (rw_rlock s) t)" "reader_ph p = reader_ph (rw_ph s t)"
  shows "rw_inv s'"
  by (rule rw_inv_move [where p = p, OF I t]) (use s' p rw_invD [OF I] in \<open>auto\<close>)

lemma rw_inv_rlock:
  assumes I: "rw_inv s" and t: "0 < t" and st: "mutex_next t a (rw_rlock s) = Some m"
    and b: "mx_fresh m + 2 < 2 ^ 64"
    and s': "rw_glob s' = rw_glob s" "rw_rlock s' = m" "rw_readers s' = rw_readers s"
      "rw_ph s' = (rw_ph s)(t := p)" "\<not> flag_get (rw_rpoison s')"
    and p: "ph_ok (rw_readers s) p (mx_pc (rw_glob s) t) (mx_pc m t)" "reader_ph p = reader_ph (rw_ph s t)"
  shows "rw_inv s'"
proof (rule rw_inv_move [where p = p, OF I t])
  show "\<exists>h. mutex_inv h (rw_rlock s')" using rw_invD(2) [OF I] inv_mutex_next [OF _ st b] s' by blast
  show "\<And>u. u \<noteq> t \<Longrightarrow> mx_pc (rw_rlock s') u = mx_pc (rw_rlock s) u" using mutex_next_frame [OF st] s' by simp
qed (use s' p rw_invD [OF I] in \<open>auto\<close>)

lemma rw_inv_glob:
  assumes I: "rw_inv s" and t: "0 < t" and m: "\<exists>h. mutex_inv h m" "\<And>u. u \<noteq> t \<Longrightarrow> mx_pc m u = mx_pc (rw_glob s) u"
    and s': "rw_glob s' = m" "rw_rlock s' = rw_rlock s" "rw_readers s' = rw_readers s"
      "rw_ph s' = (rw_ph s)(t := p)" "\<not> flag_get (rw_rpoison s')"
    and p: "ph_ok (rw_readers s) p (mx_pc m t) (mx_pc (rw_rlock s) t)" "reader_ph p = reader_ph (rw_ph s t)"
  shows "rw_inv s'"
  by (rule rw_inv_move [where p = p, OF I t]) (use s' p m t rw_invD [OF I] in \<open>auto\<close>)

text \<open>The combinators of the operations.\<close>

lemma on_rlock_inv:
  assumes I: "rw_inv s" and t: "0 < t" and st: "on_rlock t a p s = Some s'" and b: "mx_fresh (rw_rlock s') + 2 < 2 ^ 64"
    and p: "\<And>m. mutex_next t a (rw_rlock s) = Some m \<Longrightarrow> ph_ok (rw_readers s) p (mx_pc (rw_glob s) t) (mx_pc m t)"
      "reader_ph p = reader_ph (rw_ph s t)"
  shows "rw_inv s'"
proof -
  from st obtain m where m: "mutex_next t a (rw_rlock s) = Some m" "s' = rgoto t p (s\<lparr>rw_rlock := m\<rparr>)"
    by (auto simp: on_rlock_def simp del: mutex_next.simps)
  show ?thesis by (rule rw_inv_rlock [where p = p, OF I t m(1)]) (use m(2) b p(1) [OF m(1)] p(2) rw_invD(8) [OF I] in auto)
qed

lemma on_glob_inv:
  assumes I: "rw_inv s" and t: "0 < t" and st: "on_glob t p r s = Some s'"
    and r: "\<And>m. r = Some m \<Longrightarrow> mx_fresh m + 2 < 2 ^ 64 \<Longrightarrow> \<exists>h. mutex_inv h m"
      "\<And>m u. r = Some m \<Longrightarrow> u \<noteq> t \<Longrightarrow> mx_pc m u = mx_pc (rw_glob s) u"
    and b: "mx_fresh (rw_glob s') + 2 < 2 ^ 64"
    and p: "\<And>m. r = Some m \<Longrightarrow> ph_ok (rw_readers s) p (mx_pc m t) (mx_pc (rw_rlock s) t)"
      "reader_ph p = reader_ph (rw_ph s t)"
  shows "rw_inv s'"
proof -
  from st obtain m where m: "r = Some m" "s' = rgoto t p (s\<lparr>rw_glob := m\<rparr>)"
    by (auto simp: on_glob_def)
  show ?thesis by (rule rw_inv_glob [where p = p, OF I t r(1) [OF m(1)] r(2) [OF m(1)]])
    (use m(2) b p(1) [OF m(1)] p(2) rw_invD(8) [OF I] in auto)
qed

lemma on_glob_next_inv:
  assumes I: "rw_inv s" and t: "0 < t" and st: "on_glob t p (mutex_next t a (rw_glob s)) s = Some s'"
    and b: "mx_fresh (rw_glob s') + 2 < 2 ^ 64"
    and p: "\<And>m. mutex_next t a (rw_glob s) = Some m \<Longrightarrow> ph_ok (rw_readers s) p (mx_pc m t) (mx_pc (rw_rlock s) t)"
      "reader_ph p = reader_ph (rw_ph s t)"
  shows "rw_inv s'"
proof (rule on_glob_inv [OF I t st _ _ b p])
  fix m assume "mutex_next t a (rw_glob s) = Some m" "mx_fresh m + 2 < 2 ^ 64"
  then show "\<exists>h. mutex_inv h m" using rw_invD(1) [OF I] inv_mutex_next by blast
qed (use mutex_next_frame in blast)

lemma grun_inv:
  assumes I: "rw_inv s" and t: "0 < t" and st: "grun t s = Some s'" and b: "mx_fresh (rw_glob s') + 2 < 2 ^ 64"
    and p: "\<And>m. glob_run t (rw_glob s) = Some m \<Longrightarrow> ph_ok (rw_readers s) (rw_ph s t) (mx_pc m t) (mx_pc (rw_rlock s) t)"
  shows "rw_inv s'"
proof (rule on_glob_inv [OF I t st [unfolded grun_def] _ _ b p refl])
  fix m assume "glob_run t (rw_glob s) = Some m" "mx_fresh m + 2 < 2 ^ 64"
  then show "\<exists>h. mutex_inv h m" using rw_invD(1) [OF I] glob_run_inv by blast
qed (use glob_run_frame in blast)

lemma rrun_inv:
  assumes I: "rw_inv s" and t: "0 < t" and st: "rrun t s = Some s'" and b: "mx_fresh (rw_rlock s') + 2 < 2 ^ 64"
    and p: "\<And>m. mutex_next t Run (rw_rlock s) = Some m \<Longrightarrow> ph_ok (rw_readers s) (rw_ph s t) (mx_pc (rw_glob s) t) (mx_pc m t)"
  shows "rw_inv s'"
  by (rule on_rlock_inv [OF I t st [unfolded rrun_def] b p refl])

lemma runtil_inv:
  assumes I: "rw_inv s" and t: "0 < t" and st: "runtil t q s = Some s'" and b: "mx_fresh (rw_rlock s') + 2 < 2 ^ 64"
    and p: "\<And>m. mutex_next t Run (rw_rlock s) = Some m \<Longrightarrow> ph_ok (rw_readers s) (rw_ph s t) (mx_pc (rw_glob s) t) (mx_pc m t)"
      "ph_ok (rw_readers s) q (mx_pc (rw_glob s) t) Idle" "reader_ph q = reader_ph (rw_ph s t)"
  shows "rw_inv s'"
proof (cases "mx_pc (rw_rlock s) t = Idle")
  case True
  then have "s' = rgoto t q s" using st by (simp add: runtil_def)
  then show ?thesis by (intro rw_inv_local [where p = q, OF I t]) (use True p(2,3) rw_invD(8) [OF I] in auto)
next
  case False
  then show ?thesis using rrun_inv [OF I t _ b p(1)] st by (simp add: runtil_def)
qed

lemma rdrop_inv:
  assumes I: "rw_inv s" and t: "0 < t" and st: "rdrop t env q s = Some s'" and b: "mx_fresh (rw_rlock s') + 2 < 2 ^ 64"
    and f: "\<not> flag_get (rw_rpoison s')"
    and p: "\<And>r. leaving r \<Longrightarrow> ph_ok (rw_readers s) q (mx_pc (rw_glob s) t) r" "reader_ph q = reader_ph (rw_ph s t)"
  shows "rw_inv s'"
proof -
  from st obtain m where m: "mutex_next t DropGuard (rw_rlock s) = Some m"
    "s' = rgoto t q (s\<lparr>rw_rpoison := flag_done (rw_rguard s t) env (rw_rpoison s), rw_rlock := m\<rparr>)"
    by (auto simp: rdrop_def on_rlock_def simp del: mutex_next.simps)
  have "leaving (mx_pc m t)" using m(1) by (auto split: if_splits)
  then show ?thesis by (intro rw_inv_rlock [where p = q, OF I t m(1)]) (use m(2) b p f in auto)
qed

lemma rborrow_inv:
  assumes I: "rw_inv s" and t: "0 < t"
    and p: "ph_ok (rw_readers s) q (mx_pc (rw_glob s) t) (mx_pc (rw_rlock s) t)" "reader_ph q = reader_ph (rw_ph s t)"
  shows "rw_inv (rborrow t env q bad s)"
  using rw_invD(8) [OF I]
  by (intro rw_inv_local [where p = q, OF I t]) (use p in \<open>auto simp: rborrow_def flag_borrow_def\<close>)

lemma rlock_wait_inv:
  assumes I: "rw_inv s" and t: "0 < t" and st: "rlock_wait t env q s = Some s'" and b: "mx_fresh (rw_rlock s') + 2 < 2 ^ 64"
    and p: "\<And>m. mutex_next t Run (rw_rlock s) = Some m \<Longrightarrow> mx_pc (rw_rlock s) t \<noteq> Holding \<Longrightarrow>
        ph_ok (rw_readers s) (rw_ph s t) (mx_pc (rw_glob s) t) (mx_pc m t)"
      "ph_ok (rw_readers s) q (mx_pc (rw_glob s) t) Holding" "reader_ph q = reader_ph (rw_ph s t)"
      "mx_pc (rw_rlock s) t = Panicked \<Longrightarrow> out_of (mx_pc (rw_glob s) t) \<and> \<not> reader_ph (rw_ph s t)"
  shows "rw_inv s'"
proof (cases "mx_pc (rw_rlock s) t = Holding")
  case True
  with st have "s' = rborrow t env q ExEnd s" by (simp add: rlock_wait_def)
  with rborrow_inv [OF I t] True p show ?thesis by simp
next
  case nh: False
  show ?thesis
  proof (cases "mx_pc (rw_rlock s) t = Panicked")
    case True
    with st have "s' = rgoto t Gone s" by (simp add: rlock_wait_def)
    then show ?thesis by (intro rw_inv_local [where p = Gone, OF I t]) (use True p(4) rw_invD(8) [OF I] in auto)
  next
    case False
    with nh st have "rrun t s = Some s'" by (simp add: rlock_wait_def split: pc.splits)
    from on_rlock_inv [OF I t this [unfolded rrun_def] b p(1) refl] nh show ?thesis by blast
  qed
qed

declare mutex_next.simps(4,5) [simp del]

lemmas place_next = entering_next leaving_next glob_run_entering glob_run_leaving

lemma rw_read_inv:
  assumes I: "rw_inv s" and t: "0 < t" and st: "rw_read t env s = Some s'"
    and bg: "mx_fresh (rw_glob s') + 2 < 2 ^ 64" and br: "mx_fresh (rw_rlock s') + 2 < 2 ^ 64"
    and n: "unat (rw_readers s) + 1 < 2 ^ 64" and f: "\<not> flag_get (rw_rpoison s')"
  shows "rw_inv s'"
proof (cases "rw_ph s t")
  case RdLock
  then show ?thesis
    using rw_invD(3) [OF I t] st by (intro rlock_wait_inv [OF I t _ br, of env RdCheck]) (auto intro: place_next)
next
  case RdCheck
  then show ?thesis
  proof (cases "rw_readers s = 0")
    case True
    then show ?thesis using RdCheck rw_invD(3) [OF I t] st
      by (intro on_glob_next_inv [where p = RdGlob and a = CallLock, OF I t _ bg]) auto
  next
    case False
    then show ?thesis using RdCheck rw_invD(3) [OF I t] st rw_invD(8) [OF I]
      by (intro rw_inv_local [where p = RdInc, OF I t]) auto
  qed
next
  case RdGlob
  have ok: "mx_pc (rw_rlock s) t = Holding" "rw_readers s = 0" "entering (mx_pc (rw_glob s) t)" using rw_invD(3) [OF I t] RdGlob by auto
  show ?thesis
  proof (cases "mx_pc (rw_glob s) t = Holding \<or> mx_pc (rw_glob s) t = Panicked")
    case True
    then show ?thesis
    proof
      assume h: "mx_pc (rw_glob s) t = Holding"
      then show ?thesis using RdGlob ok st rw_invD(8) [OF I]
        by (intro rw_inv_local [where p = RdInc, OF I t]) auto
    next
      assume h: "mx_pc (rw_glob s) t = Panicked"
      then have "on_rlock t DropGuard RdForget s = Some s'" using st RdGlob by simp
      then show ?thesis by (rule on_rlock_inv [OF I t _ br]) (use RdGlob ok h in auto)
    qed
  next
    case False
    then have "grun t s = Some s'" using RdGlob st by (simp split: pc.splits)
    then show ?thesis by (rule grun_inv [OF I t _ bg]) (use RdGlob ok in \<open>auto intro: place_next\<close>)
  qed
next
  case RdForget
  then show ?thesis using rw_invD(3) [OF I t] st by (intro runtil_inv [where q = Gone, OF I t _ br]) (auto intro: place_next)
next
  case RdNew
  then show ?thesis using rw_invD(3) [OF I t] st rw_invD(8) [OF I]
    by (intro rw_inv_local [where p = "RdEnd (flag_get (rw_poison s))", OF I t]) auto
next
  case (RdEnd b)
  then show ?thesis using rw_invD(3) [OF I t] st by (intro rdrop_inv [where q = "RdRet b", OF I t _ br f]) auto
next
  case (RdRet b)
  then show ?thesis using rw_invD(3) [OF I t] st by (intro runtil_inv [where q = "Reading b", OF I t _ br]) (auto intro: place_next)
next
  case RdInc
  have e: "s' = rw_inc t s" using st RdInc by simp
  have ok: "mx_pc (rw_rlock s) t = Holding" "if rw_readers s = 0 then mx_pc (rw_glob s) t = Holding else out_of (mx_pc (rw_glob s) t)"
    using rw_invD(3) [OF I t] RdInc by auto
  have u: "unat (rw_readers s + 1) = unat (rw_readers s) + 1" using n by (simp add: unat_word_ariths)
  then have nz: "rw_readers s + 1 \<noteq> 0" by (metis Suc_eq_plus1 nat.distinct(1) unsigned_0)
  obtain h where G: "mutex_inv h (rw_glob s)" using rw_invD(1) [OF I] by blast
  show ?thesis
  proof (rule rw_inv_move [where p = RdNew, OF I t])
    show "\<exists>h. mutex_inv h (rw_glob s')"
      using G ok mutex_inv_transfer [OF G, of t 0 Holding] rw_invD(4) [OF I] by (auto simp: e rw_inc_def)
  qed (use e ok t u nz RdInc rw_invD(2,4,8) [OF I] in \<open>auto simp: rw_inc_def split: if_splits\<close>)
qed (use st rw_invD(3) [OF I t] in auto)

lemma rw_try_read_inv:
  assumes I: "rw_inv s" and t: "0 < t" and st: "rw_try_read t env s = Some s'"
    and br: "mx_fresh (rw_rlock s') + 2 < 2 ^ 64" and f: "\<not> flag_get (rw_rpoison s')"
  shows "rw_inv s'"
proof (cases "rw_ph s t")
  case TrBorrow
  then show ?thesis using rw_invD(3) [OF I t] st rborrow_inv [OF I t, of TrCheck env TrPoison] by auto
next
  case TrCheck
  then have ok: "mx_pc (rw_rlock s) t = Holding" "out_of (mx_pc (rw_glob s) t)" using rw_invD(3) [OF I t] by auto
  show ?thesis
  proof (cases "rw_readers s = 0")
    case True
    obtain h where G: "mutex_inv h (rw_glob s)" using rw_invD(1) [OF I] by blast
    let ?m = "try_lock t Idle (rw_glob s)"
    have nx: "mutex_next t CallTryLock (rw_glob s) = Some ?m" using ok by simp
    have "mx_fresh ?m = mx_fresh (rw_glob s)" by (rule mutex_next_bnd [OF nx]) simp
    then have "\<exists>h. mutex_inv h ?m" using inv_mutex_next [OF G nx] G by (simp add: mutex_inv_def)
    moreover have "s' = rgoto t (if mx_pc ?m t = Holding then RdInc else TrFail) (s\<lparr>rw_glob := ?m\<rparr>)"
      using st TrCheck True by (simp add: rw_try_lock_eq Let_def)
    ultimately show ?thesis
      by (intro rw_inv_glob [where p = "if mx_pc ?m t = Holding then RdInc else TrFail" and m = ?m, OF I t])
        (use ok True TrCheck f in \<open>auto simp: try_lock_def\<close>)
  next
    case False
    then show ?thesis using TrCheck ok st rw_invD(8) [OF I]
      by (intro rw_inv_local [where p = RdInc, OF I t]) auto
  qed
next
  case TrFail
  then show ?thesis using rw_invD(3) [OF I t] st by (intro rdrop_inv [where q = TrFailRet, OF I t _ br f]) auto
next
  case TrFailRet
  then show ?thesis using rw_invD(3) [OF I t] st by (intro runtil_inv [where q = Out, OF I t _ br]) (auto intro: place_next)
qed (use st rw_invD(3) [OF I t] in auto)

lemma rw_try_lock_rlock_inv:
  assumes I: "rw_inv s" and t: "0 < t" and st: "rw_try_lock_rlock t env s = Some s'"
    and br: "mx_fresh (rw_rlock s') + 2 < 2 ^ 64"
  shows "rw_inv s'"
proof (cases "rw_ph s t")
  case (RuSpin n)
  then have ok: "out_of (mx_pc (rw_rlock s) t)" "out_of (mx_pc (rw_glob s) t)" using rw_invD(3) [OF I t] by auto
  show ?thesis
  proof (cases "n = 0")
    case True
    then have "on_rlock t CallLock RuLock s = Some s'" using st RuSpin by simp
    then show ?thesis by (rule on_rlock_inv [OF I t _ br]) (use RuSpin ok in auto)
  next
    case False
    let ?m = "try_lock t Idle (rw_rlock s)"
    let ?p = "if mx_pc ?m t = Holding then RuBorrow (n - 1) else RuSpin (n - 1)"
    have nx: "mutex_next t CallTryLock (rw_rlock s) = Some ?m" using ok by simp
    have e: "s' = rgoto t ?p (s\<lparr>rw_rlock := ?m\<rparr>)" using st RuSpin False ok by simp
    show ?thesis by (rule rw_inv_rlock [where p = ?p, OF I t nx])
      (use e br ok RuSpin rw_invD(8) [OF I] in \<open>auto simp: try_lock_def\<close>)
  qed
next
  case (RuBorrow n)
  then show ?thesis using rw_invD(3) [OF I t] st rborrow_inv [OF I t, of RuDec env "RuClear n"] by auto
qed (use st rw_invD(3) [OF I t] in auto)

lemma rw_read_unlock_inv:
  assumes I: "rw_inv s" and t: "0 < t" and st: "rw_read_unlock t env s = Some s'"
    and bg: "mx_fresh (rw_glob s') + 2 < 2 ^ 64" and br: "mx_fresh (rw_rlock s') + 2 < 2 ^ 64"
    and f: "\<not> flag_get (rw_rpoison s')"
  shows "rw_inv s'"
proof (cases "rw_ph s t")
  case RuLock
  then have ok: "firm (mx_pc (rw_rlock s) t)" "out_of (mx_pc (rw_glob s) t)" using rw_invD(3) [OF I t] by auto
  have w: "rlock_wait t env RuDec s = Some s'" using st RuLock by simp
  show ?thesis by (rule rlock_wait_inv [OF I t w br]) (use ok RuLock in \<open>auto intro: firm_next\<close>)
next
  case RuGlob
  then have ok: "mx_pc (rw_rlock s) t = Holding" "leaving (mx_pc (rw_glob s) t)" using rw_invD(3) [OF I t] by auto
  show ?thesis
  proof (cases "mx_pc (rw_glob s) t = Idle")
    case True
    then show ?thesis using RuGlob ok st rw_invD(8) [OF I] by (intro rw_inv_local [where p = RuEnd, OF I t]) auto
  next
    case False
    then have "grun t s = Some s'" using RuGlob st by simp
    then show ?thesis by (rule grun_inv [OF I t _ bg]) (use RuGlob ok in \<open>auto intro: place_next\<close>)
  qed
next
  case RuEnd
  then show ?thesis using rw_invD(3) [OF I t] st by (intro rdrop_inv [where q = RuRet, OF I t _ br f]) auto
next
  case RuRet
  then show ?thesis using rw_invD(3) [OF I t] st by (intro runtil_inv [where q = Out, OF I t _ br]) (auto intro: place_next)
next
  case RuDec
  have e: "s' = rw_dec t s" using st RuDec by simp
  have ok: "mx_pc (rw_rlock s) t = Holding" "out_of (mx_pc (rw_glob s) t)" using rw_invD(3) [OF I t] RuDec by auto
  have "t \<in> rw_readset s" using RuDec by (simp add: rw_readset_def)
  then have "0 < unat (rw_readers s)" using rw_invD(5,6) [OF I] by (metis card_gt_0_iff empty_iff)
  then have nz: "rw_readers s \<noteq> 0" and u: "unat (rw_readers s - 1) + 1 = unat (rw_readers s)"
    by (auto simp: unat_gt_0 unat_minus_one)
  have z: "mx_pc (rw_glob s) 0 = Holding" using rw_invD(4) [OF I] nz by simp
  obtain h where G: "mutex_inv h (rw_glob s)" using rw_invD(1) [OF I] by blast
  have H: "mutex_inv (Task t) (goto t (Unlocking KExit) (goto 0 Idle (rw_glob s)))"
    by (rule mutex_inv_transfer [OF G z]) (use ok in auto)
  show ?thesis
    by (rule rw_inv_move [where p = "if rw_readers s - 1 = 0 then RuGlob else RuEnd", OF I t])
      (use e ok t u z H RuDec rw_invD [OF I] in \<open>auto simp: rw_dec_def Let_def\<close>)
qed (use st rw_invD(3) [OF I t] in auto)

lemma rw_write_inv:
  assumes I: "rw_inv s" and t: "0 < t" and st: "rw_write t env s = Some s'"
    and bg: "mx_fresh (rw_glob s') + 2 < 2 ^ 64"
  shows "rw_inv s'"
proof (cases "rw_ph s t")
  case WrGlob
  then have ok: "out_of (mx_pc (rw_rlock s) t)" "entering (mx_pc (rw_glob s) t)" using rw_invD(3) [OF I t] by auto
  consider "mx_pc (rw_glob s) t = Holding" | "mx_pc (rw_glob s) t = Panicked" | "grun t s = Some s'"
    using WrGlob st by (auto split: pc.splits)
  then show ?thesis
  proof cases
    case 1
    then show ?thesis using WrGlob ok st rw_invD(8) [OF I] by (intro rw_inv_local [where p = WrNew, OF I t]) auto
  next
    case 2
    then show ?thesis using WrGlob ok st rw_invD(8) [OF I] by (intro rw_inv_local [where p = Gone, OF I t]) auto
  next
    case 3
    then show ?thesis by (rule grun_inv [OF I t _ bg]) (use WrGlob ok in \<open>auto intro: place_next\<close>)
  qed
next
  case WrNew
  then have "s' = rgoto t (Writing (flag_get (rw_poison s))) (s\<lparr>rw_wguard := (rw_wguard s)(t := \<lparr>pg_panicking = te_panicking env\<rparr>)\<rparr>)"
    using st by (auto simp: flag_borrow_def Let_def split: if_splits)
  then show ?thesis using WrNew rw_invD(3) [OF I t] rw_invD(8) [OF I]
    by (intro rw_inv_local [where p = "Writing (flag_get (rw_poison s))", OF I t]) auto
next
  case WrUnlock
  then have ok: "out_of (mx_pc (rw_rlock s) t)" "leaving (mx_pc (rw_glob s) t)" using rw_invD(3) [OF I t] by auto
  show ?thesis
  proof (cases "mx_pc (rw_glob s) t = Idle")
    case True
    then show ?thesis using WrUnlock ok st rw_invD(8) [OF I] by (intro rw_inv_local [where p = Out, OF I t]) auto
  next
    case False
    then have "grun t s = Some s'" using WrUnlock st by simp
    then show ?thesis by (rule grun_inv [OF I t _ bg]) (use WrUnlock ok in \<open>auto intro: place_next\<close>)
  qed
qed (use st rw_invD(3) [OF I t] in auto)

lemma rw_go_inv:
  assumes I: "rw_inv s" and t: "0 < t" and st: "rw_go t env s = Some s'"
    and bg: "mx_fresh (rw_glob s') + 2 < 2 ^ 64" and br: "mx_fresh (rw_rlock s') + 2 < 2 ^ 64"
    and n: "unat (rw_readers s) + 1 < 2 ^ 64" and f: "\<not> flag_get (rw_rpoison s')"
  shows "rw_inv s'"
proof -
  consider "rw_read t env s = Some s'" | "rw_try_read t env s = Some s'" | "rw_try_lock_rlock t env s = Some s'"
    | "rw_read_unlock t env s = Some s'" | "rw_write t env s = Some s'"
    using st by (auto simp: rw_go_def simp del: rw_read.simps rw_try_read.simps rw_try_lock_rlock.simps
      rw_read_unlock.simps rw_write.simps split: option.splits)
  then show ?thesis
    using rw_read_inv [OF I t _ bg br n f] rw_try_read_inv [OF I t _ br f] rw_try_lock_rlock_inv [OF I t _ br]
      rw_read_unlock_inv [OF I t _ bg br f] rw_write_inv [OF I t _ bg] by cases blast+
qed

lemma rw_call_try_inv:
  assumes I: "rw_inv s" and t: "0 < t" and p: "rw_ph s t \<in> {Out, Gone}"
  shows "rw_call_try_read t s = Some s' \<Longrightarrow> mx_fresh (rw_rlock s') + 2 < 2 ^ 64 \<Longrightarrow> rw_inv s'"
    and "rw_call_try_write t s = Some s' \<Longrightarrow> mx_fresh (rw_glob s') + 2 < 2 ^ 64 \<Longrightarrow> rw_inv s'"
proof -
  have ok: "out_of (mx_pc (rw_glob s) t)" "out_of (mx_pc (rw_rlock s) t)" using rw_invD(3) [OF I t] p by auto
  have np: "\<not> reader_ph (rw_ph s t)" using p by auto
  note f = rw_invD(8) [OF I]
  {
    assume st: "rw_call_try_read t s = Some s'" and b: "mx_fresh (rw_rlock s') + 2 < 2 ^ 64"
    let ?m = "try_lock t Idle (rw_rlock s)"
    let ?p = "if mx_pc ?m t = Holding then TrBorrow else Out"
    have nx: "mutex_next t CallTryLock (rw_rlock s) = Some ?m" using ok by simp
    have "s' = rgoto t ?p (s\<lparr>rw_rlock := ?m\<rparr>)" using st nx by (simp add: rw_call_try_read_def)
    then show "rw_inv s'" by (intro rw_inv_rlock [where p = ?p, OF I t nx])
      (use b ok np f in \<open>auto simp: try_lock_def\<close>)
  next
    assume st: "rw_call_try_write t s = Some s'" and b: "mx_fresh (rw_glob s') + 2 < 2 ^ 64"
    let ?m = "try_lock t Idle (rw_glob s)"
    let ?p = "if mx_pc ?m t = Holding then WrNew else Out"
    have nx: "mutex_next t CallTryLock (rw_glob s) = Some ?m" using ok by simp
    have e: "s' = rgoto t ?p (s\<lparr>rw_glob := ?m\<rparr>)" using st by (simp add: rw_call_try_write_def rw_try_lock_eq Let_def)
    have "\<exists>h. mutex_inv h ?m" using rw_invD(1) [OF I] inv_mutex_next [OF _ nx] b e by auto
    then show "rw_inv s'" using e by (intro rw_inv_glob [where p = ?p and m = ?m, OF I t])
      (use ok np f in \<open>auto simp: try_lock_def\<close>)
  }
qed

lemma rw_drop_inv:
  assumes I: "rw_inv s" and t: "0 < t"
  shows "is_reading (rw_ph s t) \<Longrightarrow> rw_call_read_unlock t env s = Some s' \<Longrightarrow> mx_fresh (rw_rlock s') + 2 < 2 ^ 64 \<Longrightarrow> rw_inv s'"
    and "is_writing (rw_ph s t) \<Longrightarrow> rw_write_drop t env s = Some s' \<Longrightarrow> mx_fresh (rw_glob s') + 2 < 2 ^ 64 \<Longrightarrow> rw_inv s'"
proof -
  note f = rw_invD(8) [OF I]
  {
    assume p: "is_reading (rw_ph s t)" and st: "rw_call_read_unlock t env s = Some s'"
      and b: "mx_fresh (rw_rlock s') + 2 < 2 ^ 64"
    have ok: "out_of (mx_pc (rw_glob s) t)" "out_of (mx_pc (rw_rlock s) t)" "reader_ph (rw_ph s t)"
      using rw_invD(3) [OF I t] p by (cases "rw_ph s t"; auto)+
    show "rw_inv s'"
    proof (cases "te_panicking env")
      case True
      then show ?thesis using st by (intro rw_inv_local [where p = "RuSpin 1000000", OF I t])
        (use ok f in \<open>auto simp: rw_call_read_unlock_def\<close>)
    next
      case False
      then have "on_rlock t CallLock RuLock s = Some s'" using st by (simp add: rw_call_read_unlock_def)
      then show ?thesis by (rule on_rlock_inv [OF I t _ b]) (use ok in auto)
    qed
  next
    assume p: "is_writing (rw_ph s t)" and st: "rw_write_drop t env s = Some s'"
      and b: "mx_fresh (rw_glob s') + 2 < 2 ^ 64"
    have ok: "mx_pc (rw_glob s) t = Holding" "out_of (mx_pc (rw_rlock s) t)" "\<not> reader_ph (rw_ph s t)"
      using rw_invD(3) [OF I t] p by (cases "rw_ph s t"; auto)+
    from st obtain m where m: "mutex_next t DropGuard (rw_glob s) = Some m"
      "s' = rgoto t WrUnlock (s\<lparr>rw_poison := flag_done (rw_wguard s t) env (rw_poison s), rw_glob := m\<rparr>)"
      by (auto simp: rw_write_drop_def on_glob_def simp del: mutex_next.simps)
    have "\<exists>h. mutex_inv h m" using rw_invD(1) [OF I] inv_mutex_next [OF _ m(1)] b m(2) by auto
    then show "rw_inv s'"
      by (intro rw_inv_glob [where p = WrUnlock and m = m, OF I t]) (use m ok f mutex_next_frame [OF m(1)] in auto)
  }
qed

lemma rw_next_inv:
  assumes I: "rw_inv s" and t: "0 < t" and st: "rw_next t a s = Some s'"
    and bg: "mx_fresh (rw_glob s') + 2 < 2 ^ 64" and br: "mx_fresh (rw_rlock s') + 2 < 2 ^ 64"
    and n: "unat (rw_readers s) + 1 < 2 ^ 64" and f: "\<not> flag_get (rw_rpoison s')"
  shows "rw_inv s'"
proof (cases a)
  case CallRead
  then have p: "rw_ph s t \<in> {Out, Gone}" "on_rlock t CallLock RdLock s = Some s'" using st by (auto split: if_splits)
  then show ?thesis using rw_invD(3) [OF I t] by (intro on_rlock_inv [OF I t p(2) br]) auto
next
  case CallTryRead
  then show ?thesis using st rw_call_try_inv(1) [OF I t _ _ br] by (auto split: if_splits)
next
  case CallWrite
  then have p: "rw_ph s t \<in> {Out, Gone}" "on_glob t WrGlob (mutex_next t CallLock (rw_glob s)) s = Some s'"
    using st by (auto split: if_splits)
  then show ?thesis using rw_invD(3) [OF I t] by (intro on_glob_next_inv [OF I t p(2) bg]) auto
next
  case CallTryWrite
  then show ?thesis using st rw_call_try_inv(2) [OF I t _ _ bg] by (auto split: if_splits)
next
  case (DropRead env)
  then show ?thesis using st rw_drop_inv(1) [OF I t _ _ br] by (auto split: if_splits)
next
  case (DropWrite env)
  then show ?thesis using st rw_drop_inv(2) [OF I t _ _ bg] by (auto split: if_splits)
next
  case (CancelRlock ig)
  then have p: "rw_ph s t = RdLock \<or> rw_ph s t = RuLock \<and> ig" "on_rlock t (CancelPark ig) (rw_ph s t) s = Some s'"
    using st by (auto split: if_splits)
  show ?thesis
    by (rule on_rlock_inv [OF I t p(2) br]) (use p(1) rw_invD(3) [OF I t] in \<open>auto intro: place_next firm_next\<close>)
next
  case CancelGlob
  then have p: "rw_ph s t \<in> {RdGlob, WrGlob}"
    "on_glob t (rw_ph s t) (mutex_next t (CancelPark False) (rw_glob s)) s = Some s'"
    using st by (auto split: if_splits)
  show ?thesis
    by (rule on_glob_next_inv [OF I t p(2) bg]) (use p(1) rw_invD(3) [OF I t] in \<open>auto intro: place_next\<close>)
next
  case ClearPoison
  then show ?thesis using st I by (auto simp: rw_inv_def rw_readset_def)
next
  case (SetData d)
  then show ?thesis using st I by (auto simp: rw_inv_def rw_readset_def split: if_splits)
next
  case (Go env)
  then show ?thesis using st rw_go_inv [OF I t _ bg br n f] by simp
qed

interpretation rw_sys: invariant_system rw_start rw_step rw_inv
proof
  fix s :: "'a rwlock" assume "rw_start s"
  then show "rw_inv s" using rw_inv_new by (auto simp: rw_start_def)
next
  fix s s' :: "'a rwlock" assume "rw_inv s" "rw_step s s'"
  then show "rw_inv s'" using rw_next_inv by (auto simp: rw_step_def rw_any_def simp del: rw_next.simps)
qed

section \<open>Properties\<close>

lemma writer_owns: "rw_inv s \<Longrightarrow> is_writing (rw_ph s t) \<Longrightarrow> mx_pc (rw_glob s) t = Holding \<and> 0 < t"
  using rw_invD(3) [of s t] rw_invD(7) [of s] by (cases "rw_ph s t"; cases "t = 0") auto

lemma reader_counted: "rw_inv s \<Longrightarrow> is_reading (rw_ph s t) \<Longrightarrow> mx_pc (rw_glob s) 0 = Holding \<and> rw_readers s \<noteq> 0"
proof -
  assume I: "rw_inv s" and p: "is_reading (rw_ph s t)"
  have "t \<in> rw_readset s" using p by (cases "rw_ph s t") (auto simp: rw_readset_def)
  then have "0 < unat (rw_readers s)" using rw_invD(5,6) [OF I] by (metis card_gt_0_iff empty_iff)
  then have "rw_readers s \<noteq> 0" by (auto simp: unat_gt_0)
  then show ?thesis using rw_invD(4) [OF I] by simp
qed

lemma rw_data_frame: "rw_next t a s = Some s' \<Longrightarrow> rw_data s' \<noteq> rw_data s \<Longrightarrow> is_writing (rw_ph s t)"
  by (cases a) (auto simp: on_rlock_def on_glob_def rdrop_def rrun_def grun_def runtil_def rlock_wait_def rborrow_def
    rw_inc_def rw_dec_def rw_go_def rw_call_try_read_def rw_call_try_write_def rw_call_read_unlock_def rw_write_drop_def
    Let_def simp del: mutex_next.simps split: option.splits phase.splits pc.splits sum.splits if_splits)


definition rw_blocked :: "'d rwlock \<Rightarrow> nat \<Rightarrow> bool" where
  "rw_blocked s t \<longleftrightarrow> rw_ph s t \<in> {Out, Gone} \<or> (rw_ph s t \<in> {RdLock, RuLock} \<and> parked (rw_rlock s) t) \<or>
     (rw_ph s t \<in> {RdGlob, WrGlob} \<and> parked (rw_glob s) t)"

lemma rw_quiet:
  assumes I: "rw_inv s" and q: "\<forall>t. rw_blocked s t"
  shows "(\<forall>t. rw_ph s t \<in> {Out, Gone}) \<and> rw_readers s = 0 \<and> mx_cnt (rw_glob s) = 0 \<and> mx_cnt (rw_rlock s) = 0"
proof -
  obtain h where G: "mutex_inv h (rw_glob s)" using rw_invD(1) [OF I] by blast
  obtain k where R: "mutex_inv k (rw_rlock s)" using rw_invD(2) [OF I] by blast
  have q0: "rw_blocked s t" for t using q by blast
  have ph: "ph_ok (rw_readers s) (rw_ph s t) (mx_pc (rw_glob s) t) (mx_pc (rw_rlock s) t)" if "t \<noteq> 0" for t
    using rw_invD(3) [OF I] that by simp
  have rq: "out_of (mx_pc (rw_rlock s) t) \<or> parked (rw_rlock s) t" if "rw_ph s t \<noteq> RdGlob" for t
  proof (cases "t = 0")
    case False
    then show ?thesis using ph [OF False] q0 [of t] that by (auto simp: rw_blocked_def)
  qed (use rw_invD(9) [OF I] in simp)
  have gq: "out_of (mx_pc (rw_glob s) t) \<or> parked (rw_glob s) t" if "t \<noteq> 0" for t
    using ph [OF that] q0 [of t] by (auto simp: rw_blocked_def)
  have quiet_r: "mx_cnt (rw_rlock s) = 0 \<and> (\<forall>t. out_of (mx_pc (rw_rlock s) t))" if "\<forall>t. rw_ph s t \<noteq> RdGlob"
  proof -
    have "\<forall>t. out_of (mx_pc (rw_rlock s) t) \<or> (\<exists>b. mx_pc (rw_rlock s) t = LPark b \<and> \<not> bk_token (mx_blk (rw_rlock s) b))"
      using rq that unfolding parked_def by blast
    from mutex_inv_quiet [OF R this] show ?thesis by blast
  qed
  have n: "rw_readers s = 0"
  proof (rule ccontr)
    assume ne: "rw_readers s \<noteq> 0"
    have no: "rw_ph s t \<noteq> RdGlob" for t using ph [of t] rw_invD(7) [OF I] ne by (cases "t = 0") auto
    then have z: "out_of (mx_pc (rw_rlock s) t)" for t using quiet_r by blast
    have "\<not> reader_ph (rw_ph s t)" for t using q0 [of t] z [of t] by (auto simp: rw_blocked_def parked_def)
    then have "rw_readset s = {}" by (simp add: rw_readset_def)
    then show False using rw_invD(6) [OF I] ne by (simp add: unat_eq_zero)
  qed
  have "mx_pc (rw_glob s) 0 = Idle" using rw_invD(4) [OF I] n by simp
  then have "\<forall>t. out_of (mx_pc (rw_glob s) t) \<or> (\<exists>b. mx_pc (rw_glob s) t = LPark b \<and> \<not> bk_token (mx_blk (rw_glob s) b))"
    using gq unfolding parked_def by (metis insertI1)
  from mutex_inv_quiet [OF G this] have g: "mx_cnt (rw_glob s) = 0" "\<And>t. out_of (mx_pc (rw_glob s) t)" by blast+
  have no: "rw_ph s t \<notin> {RdGlob, WrGlob}" for t using q0 [of t] g(2) [of t] by (auto simp: rw_blocked_def parked_def)
  then have r: "mx_cnt (rw_rlock s) = 0" "\<And>t. out_of (mx_pc (rw_rlock s) t)" using quiet_r by blast+
  have "rw_ph s t \<in> {Out, Gone}" for t using q0 [of t] no [of t] r(2) [of t] by (auto simp: rw_blocked_def parked_def)
  then show ?thesis using n g(1) r(1) by blast
qed

lemma glob_run_enabled:
  assumes "mutex_inv h m" "mx_pc m t \<notin> {Idle, Panicked, Holding}" "\<not> parked m t"
  shows "\<exists>m'. glob_run t m = Some m'"
proof -
  have "mx_pc m t \<noteq> Broken" using assms(1) by (simp add: mutex_inv_def)
  with assms(2,3) show "\<exists>m'. glob_run t m = Some m'"
    by (cases "mx_pc m t") (auto simp: parked_def glob_run_def Let_def split: prod.splits)
qed

lemma rw_go_enabled:
  assumes I: "rw_inv s" and t: "0 < t" and b: "\<not> rw_blocked s t" and nr: "\<not> is_reading (rw_ph s t)" and nw: "\<not> is_writing (rw_ph s t)"
  shows "rw_go t env s \<noteq> None"
proof -
  obtain h where G: "mutex_inv h (rw_glob s)" using rw_invD(1) [OF I] by blast
  obtain k where R: "mutex_inv k (rw_rlock s)" using rw_invD(2) [OF I] by blast
  note ph = rw_invD(3) [OF I t]
  have ru: "runtil t p s \<noteq> None" if "leaving (mx_pc (rw_rlock s) t)" for p
    using that mutex_run_enabled [OF R, of t]
    by (cases "mx_pc (rw_rlock s) t") (auto simp: runtil_def rrun_def on_rlock_def parked_def)
  have rd: "rdrop t env p s \<noteq> None" if "mx_pc (rw_rlock s) t = Holding" for p
    using that by (simp add: rdrop_def on_rlock_def)
  have rw: "rlock_wait t env p s \<noteq> None" if "\<not> parked (rw_rlock s) t" "mx_pc (rw_rlock s) t \<noteq> Idle" for p
    using that mutex_run_enabled [OF R, of t]
    by (cases "mx_pc (rw_rlock s) t") (auto simp: rlock_wait_def rrun_def on_rlock_def)
  have gr: "grun t s \<noteq> None" if "\<not> parked (rw_glob s) t" "mx_pc (rw_glob s) t \<notin> {Idle, Panicked, Holding}"
    using that glob_run_enabled [OF G, of t] by (auto simp: grun_def on_glob_def)
  have gl: "leaving (mx_pc (rw_glob s) t) \<Longrightarrow> \<not> parked (rw_glob s) t \<and> mx_pc (rw_glob s) t \<notin> {Panicked, Holding}"
    by (auto simp: parked_def)
  have fi: "firm (mx_pc (rw_rlock s) t) \<Longrightarrow> mx_pc (rw_rlock s) t \<noteq> Idle"
    "entering (mx_pc (rw_rlock s) t) \<Longrightarrow> mx_pc (rw_rlock s) t \<noteq> Idle"
    "entering (mx_pc (rw_glob s) t) \<Longrightarrow> mx_pc (rw_glob s) t \<noteq> Idle" by auto
  note D = rw_go_def rw_blocked_def on_rlock_def on_glob_def
  show ?thesis
  proof (cases "rw_ph s t")
    case RdGlob
    then show ?thesis using ph b gr fi by (cases "mx_pc (rw_glob s) t") (auto simp: D split: option.splits)
  next
    case WrGlob
    then show ?thesis using ph b gr fi by (cases "mx_pc (rw_glob s) t") (auto simp: D split: option.splits)
  next
    case RuGlob
    then show ?thesis using ph b gr gl by (cases "mx_pc (rw_glob s) t = Idle") (auto simp: D split: option.splits)
  next
    case WrUnlock
    then show ?thesis using ph b gr gl by (cases "mx_pc (rw_glob s) t = Idle") (auto simp: D split: option.splits)
  next
    case (RuSpin n)
    then show ?thesis using ph by (auto simp: D split: option.splits)
  next
    case WrNew
    then show ?thesis by (auto simp: D flag_borrow_def Let_def)
  qed (use ph b nr nw ru rd rw fi in \<open>auto simp: D Let_def split: option.splits\<close>)
qed


section \<open>Runs that witness the properties\<close>

definition calm :: thread_env where
  "calm = \<lparr>te_panicking = False, te_cancel_in_flight = False, te_coroutine = False, te_cancel = cancel_new\<rparr>"

definition unwinding :: thread_env where
  "unwinding = calm\<lparr>te_panicking := True\<rparr>"

fun rw_acts :: "nat \<times> 'd ract \<Rightarrow> 'd rwlock \<Rightarrow> 'd rwlock option" where
  "rw_acts (t, a) s = (if 0 < t \<and> unat (rw_readers s) + 1 < 2 ^ 64 then case rw_next t a s of
     Some s' \<Rightarrow> if mx_fresh (rw_glob s') + 2 < 2 ^ 64 \<and> mx_fresh (rw_rlock s') + 2 < 2 ^ 64 then Some s' else None
   | None \<Rightarrow> None else None)"

lemma rw_acts_any: "rw_acts x s = Some s' \<Longrightarrow> rw_any s s'"
  by (cases x) (auto simp: rw_any_def simp del: rw_next.simps split: if_splits option.splits)

lemma rw_any_run:
  assumes "run_acts rw_acts as (rwlock_new d) = Some s"
  shows "reach rw_start rw_any s"
proof (rule run_acts_reach [OF rw_acts_any assms])
  show "reach rw_start rw_any (rwlock_new d)" by (rule reach_start) (auto simp: rw_start_def)
qed

lemmas rw_exec = rwlock_new_def mutex_new_def calm_def unwinding_def rw_go_def on_rlock_def on_glob_def rdrop_def rrun_def
  grun_def runtil_def rlock_wait_def rborrow_def rw_inc_def rw_dec_def rw_call_try_read_def rw_call_try_write_def
  rw_try_lock_def try_lock_def flag_borrow_def flag_done_def flag_get_def flag_new_def rgoto_def goto_def
  mutex_next.simps unlock_def glob_run_def cancel_new_def


text \<open>The runs of the other properties keep \<^verbatim>\<open>rlock\<close> unpoisoned.\<close>

fun rw_calm_acts :: "nat \<times> 'd ract \<Rightarrow> 'd rwlock \<Rightarrow> 'd rwlock option" where
  "rw_calm_acts x s = (case rw_acts x s of
     Some s' \<Rightarrow> if flag_get (rw_rpoison s') then None else Some s'
   | None \<Rightarrow> None)"

lemma rw_calm_step: "rw_calm_acts x s = Some s' \<Longrightarrow> rw_step s s'"
  using rw_acts_any [of x s s'] by (auto simp: rw_step_def simp del: rw_acts.simps split: option.splits if_splits)

lemma rw_calm_run:
  assumes "run_acts rw_calm_acts as (rwlock_new d) = Some s"
  shows "reach rw_start rw_step s"
proof (rule run_acts_reach [OF rw_calm_step assms])
  show "reach rw_start rw_step (rwlock_new d)" by (rule reach_start) (auto simp: rw_start_def)
qed

text \<open>Task 1 reads; task 2 waits for the global lock to write.\<close>

lemma rw_contended:
  "\<exists>s :: nat rwlock. reach rw_start rw_step s \<and> rw_ph s 1 = Reading False \<and> rw_ph s 2 = WrGlob \<and> rw_readers s = 1 \<and>
     mx_pc (rw_glob s) 2 = LPark 0"
proof -
  let ?as = "[(1, CallTryRead), (1, Go calm), (1, Go calm), (1, Go calm), (1, Go calm), (1, Go calm), (1, Go calm), (1, Go calm),
    (2, CallWrite), (2, Go calm), (2, Go calm), (2, Go calm)]"
  have "map_option (\<lambda>s. (rw_ph s 1, rw_ph s 2, rw_readers s, mx_pc (rw_glob s) 2)) (run_acts rw_calm_acts ?as (rwlock_new (0::nat))) =
    Some (Reading False, WrGlob, 1, LPark 0)"
    by (simp add: rw_exec Let_def)
  then show ?thesis using rw_calm_run by fastforce
qed



end
