(* ===== verification/Condvar.thy ===== *)
theory Condvar
  imports Mutex_Client Cancel_Data
begin

text \<open>
  The condition variable of \<^verbatim>\<open>src/sync/condvar.rs\<close>, together with the mutex it is used with, as a transition
  system: the waiter queue, the blockers, and for each task the place in \<^verbatim>\<open>wait_impl\<close>, \<^verbatim>\<open>notify_one\<close> or
  \<^verbatim>\<open>notify_all\<close>. Each access to the queue, to a flag of a blocker or to the mutex is one step; timeouts and
  cancellations can end a wait at any time. The queue runs the hand-off protocol of the locks, with one
  difference: \<^verbatim>\<open>notify_all\<close> does not take back the signal of a waiter that has left.
\<close>

section \<open>State\<close>

text \<open>\<open>None\<close> is \<^verbatim>\<open>Ok(())\<close>.\<close>

type_synonym wait_res = "park_error option"

text \<open>Where a notification returns to: the code outside or inside the critical section, or a wait that failed.\<close>

datatype ncont = NOut | NHeld | NWait wait_res

datatype cvpc =
    COut                        \<comment> \<open>outside, without the mutex\<close>
  | CLocking                    \<comment> \<open>the client in \<^verbatim>\<open>lock\<close>\<close>
  | CHeld                       \<comment> \<open>the client owns the guard of the mutex\<close>
  | CUnlocking                  \<comment> \<open>the client in the drop of its guard\<close>
  | CVerify bool                \<comment> \<open>\<^verbatim>\<open>wait\<close>: before \<^verbatim>\<open>verify\<close>; with a duration or not\<close>
  | CPush bool                  \<comment> \<open>before \<^verbatim>\<open>to_wake.push(cur)\<close>\<close>
  | CUnlockMutex nat bool       \<comment> \<open>in \<^verbatim>\<open>unlock_mutex(lock)\<close>\<close>
  | CParked nat bool            \<comment> \<open>in \<^verbatim>\<open>cur.park(dur)\<close>\<close>
  | CErr nat wait_res           \<comment> \<open>\<^verbatim>\<open>park\<close> failed: before \<^verbatim>\<open>cur.is_unparked()\<close>\<close>
  | CSetRelease nat wait_res    \<comment> \<open>before \<^verbatim>\<open>cur.set_release()\<close>\<close>
  | CRecheck nat wait_res       \<comment> \<open>before the second \<^verbatim>\<open>cur.is_unparked()\<close>\<close>
  | CTakeRelease nat wait_res   \<comment> \<open>before \<^verbatim>\<open>cur.take_release()\<close>\<close>
  | CRelock wait_res            \<comment> \<open>before and in \<^verbatim>\<open>lock.lock()\<close>\<close>
  | CRelocking wait_res
  | CReturn wait_res            \<comment> \<open>\<^verbatim>\<open>wait_impl\<close> has returned\<close>
  | CDropCanceled               \<comment> \<open>canceled: in \<^verbatim>\<open>unlock_mutex(lock)\<close>\<close>
  | CPanicked                   \<comment> \<open>left by a panic\<close>
  | N1Pop ncont                 \<comment> \<open>\<^verbatim>\<open>notify_one\<close>: before \<^verbatim>\<open>to_wake.pop()\<close>\<close>
  | N1Unpark nat ncont          \<comment> \<open>\<^verbatim>\<open>w.unpark()\<close>: before \<^verbatim>\<open>unparked.store(true)\<close>\<close>
  | N1Wake nat ncont            \<comment> \<open>\<^verbatim>\<open>w.unpark()\<close>: before \<^verbatim>\<open>blocker.unpark()\<close>\<close>
  | N1Release nat ncont         \<comment> \<open>before \<^verbatim>\<open>w.take_release()\<close>\<close>
  | NAPop ncont                 \<comment> \<open>\<^verbatim>\<open>notify_all\<close>: before \<^verbatim>\<open>to_wake.pop()\<close>\<close>
  | NAUnpark nat ncont
  | NAWake nat ncont
  | NANext nat ncont            \<comment> \<open>end of the loop body\<close>

text \<open>
  The last four fields are ghost: the number of signals sent, of waits they ended, of calls of \<^verbatim>\<open>notify_one\<close>
  that found the queue empty, and the waiters that \<^verbatim>\<open>notify_all\<close> unparked after they had left.
\<close>

record condvar =
  cv_queue :: "nat list"
  cv_blk :: "nat \<Rightarrow> blocker"
  cv_fresh :: nat
  cv_bound :: usize
  cv_addr :: usize
  cv_mutex :: mutex
  cv_poison :: poison_flag
  cv_pc :: "nat \<Rightarrow> cvpc"
  cv_ret :: "nat \<Rightarrow> (wait_res \<times> bool) option"
  cv_sent :: nat
  cv_woken :: nat
  cv_void :: nat
  cv_lost :: "nat set"

definition condvar_new :: "usize \<Rightarrow> condvar" where
  "condvar_new addr = \<lparr>cv_queue = [], cv_blk = (\<lambda>_. sync_blocker), cv_fresh = 0, cv_bound = 0, cv_addr = addr,
     cv_mutex = mutex_new, cv_poison = flag_new, cv_pc = (\<lambda>_. COut), cv_ret = (\<lambda>_. None),
     cv_sent = 0, cv_woken = 0, cv_void = 0, cv_lost = {}\<rparr>"

definition cgoto :: "nat \<Rightarrow> cvpc \<Rightarrow> condvar \<Rightarrow> condvar" where
  "cgoto t p s = s\<lparr>cv_pc := (cv_pc s)(t := p)\<rparr>"

definition cupd :: "nat \<Rightarrow> blocker \<Rightarrow> condvar \<Rightarrow> condvar" where
  "cupd b v s = s\<lparr>cv_blk := (cv_blk s)(b := v)\<rparr>"

fun nresume :: "ncont \<Rightarrow> cvpc" where
  "nresume NOut = COut"
| "nresume NHeld = CHeld"
| "nresume (NWait r) = CRelock r"

section \<open>Operations\<close>

text \<open>\<^verbatim>\<open>verify\<close>: the new value of the cell, or the panic for a second mutex.\<close>

definition verify :: "usize \<Rightarrow> usize \<Rightarrow> usize option" where
  "verify addr bound = (if bound = 0 then Some addr else if bound = addr then Some bound else None)"

definition on_mutex :: "nat \<Rightarrow> act \<Rightarrow> cvpc \<Rightarrow> condvar \<Rightarrow> condvar option" where
  "on_mutex t a p s = map_option (\<lambda>m. cgoto t p (s\<lparr>cv_mutex := m\<rparr>)) (mutex_next t a (cv_mutex s))"

definition unlock_until :: "nat \<Rightarrow> cvpc \<Rightarrow> condvar \<Rightarrow> condvar option" where
  "unlock_until t p s = (if mx_pc (cv_mutex s) t = Idle then Some (cgoto t p s)
     else on_mutex t Run (cv_pc s t) s)"

text \<open>\<^verbatim>\<open>wait_impl\<close>; a wait that has failed passes on the signal it was sent.\<close>

fun wait_impl :: "nat \<Rightarrow> condvar \<Rightarrow> condvar option" where
  "wait_impl t s = (case cv_pc s t of
     CPush dur \<Rightarrow>
       (let cur = cv_fresh s in
        on_mutex t DropGuard (CUnlockMutex cur dur)
          (s\<lparr>cv_queue := cv_queue s @ [cur], cv_blk := (cv_blk s)(cur := sync_blocker), cv_fresh := Suc cur\<rparr>))
   | CUnlockMutex cur dur \<Rightarrow> unlock_until t (CParked cur dur) s
   | CParked cur dur \<Rightarrow>
       if bk_token (cv_blk s cur)
       then Some (cgoto t (CRelock None) (cupd cur (park_return (cv_blk s cur)) (s\<lparr>cv_woken := Suc (cv_woken s)\<rparr>)))
       else None
   | CErr cur r \<Rightarrow> Some (cgoto t (if is_unparked (cv_blk s cur) then N1Pop (NWait r) else CSetRelease cur r) s)
   | CSetRelease cur r \<Rightarrow> Some (cgoto t (CRecheck cur r) (cupd cur (set_release (cv_blk s cur)) s))
   | CRecheck cur r \<Rightarrow> Some (cgoto t (if is_unparked (cv_blk s cur) then CTakeRelease cur r else CRelock r) s)
   | CTakeRelease cur r \<Rightarrow>
       (let (rel, b) = take_release (cv_blk s cur) in
        if rel then Some (cgoto t (N1Pop (NWait r)) (cupd cur b (s\<lparr>cv_lost := cv_lost s - {cur}\<rparr>)))
        else Some (cgoto t (CRelock r) (cupd cur b s)))
   | CRelock r \<Rightarrow> on_mutex t CallLock (CRelocking r) s
   | CRelocking r \<Rightarrow>
       if mx_pc (cv_mutex s) t = Holding then Some (cgoto t (CReturn r) s) else on_mutex t Run (CRelocking r) s
   | _ \<Rightarrow> None)"

text \<open>
  \<^verbatim>\<open>wait\<close> and \<^verbatim>\<open>wait_timeout\<close> around it: a canceled wait releases the mutex and panics, any other returns the
  guard with the result of the wait and the poison flag of the mutex.
\<close>

fun wait :: "nat \<Rightarrow> condvar \<Rightarrow> condvar option" where
  "wait t s = (case cv_pc s t of
     CVerify dur \<Rightarrow> (case verify (cv_addr s) (cv_bound s) of
       Some b \<Rightarrow> Some (cgoto t (CPush dur) (s\<lparr>cv_bound := b\<rparr>))
     | None \<Rightarrow> on_mutex t DropGuard CDropCanceled s)
   | CReturn r \<Rightarrow>
       if r = Some Canceled then on_mutex t DropGuard CDropCanceled s
       else Some (cgoto t CHeld (s\<lparr>cv_ret := (cv_ret s)(t := Some (r, flag_get (cv_poison s)))\<rparr>))
   | CDropCanceled \<Rightarrow> unlock_until t CPanicked s
   | _ \<Rightarrow> None)"

text \<open>What \<^verbatim>\<open>wait_timeout\<close> makes of it: a poisoned result also carries whether the wait timed out.\<close>

definition wait_timeout_result :: "wait_res \<times> bool \<Rightarrow> bool lock_result" where
  "wait_timeout_result x = (case x of (ret, poisoned) \<Rightarrow>
     (let result = (ret \<noteq> None) in if poisoned then Inl result else Inr result))"

fun notify_one :: "nat \<Rightarrow> condvar \<Rightarrow> condvar option" where
  "notify_one t s = (case cv_pc s t of
     N1Pop k \<Rightarrow> (case cv_queue s of
       [] \<Rightarrow> Some (cgoto t (nresume k) (s\<lparr>cv_void := Suc (cv_void s)\<rparr>))
     | w # q \<Rightarrow> Some (cgoto t (N1Unpark w k) (s\<lparr>cv_queue := q\<rparr>)))
   | N1Unpark w k \<Rightarrow> Some (cgoto t (N1Wake w k) (cupd w (unpark_flag (cv_blk s w)) s))
   | N1Wake w k \<Rightarrow> Some (cgoto t (N1Release w k) (cupd w (unpark_wake (cv_blk s w)) s))
   | N1Release w k \<Rightarrow>
       (let (rel, b) = take_release (cv_blk s w) in
        if rel then Some (cgoto t (N1Pop k) (cupd w b (s\<lparr>cv_lost := cv_lost s - {w}\<rparr>)))
        else Some (cgoto t (nresume k) (cupd w b s)))
   | _ \<Rightarrow> None)"

fun notify_all :: "nat \<Rightarrow> condvar \<Rightarrow> condvar option" where
  "notify_all t s = (case cv_pc s t of
     NAPop k \<Rightarrow> (case cv_queue s of
       [] \<Rightarrow> Some (cgoto t (nresume k) s)
     | w # q \<Rightarrow> Some (cgoto t (NAUnpark w k) (s\<lparr>cv_queue := q\<rparr>)))
   | NAUnpark w k \<Rightarrow>
       Some (cgoto t (NAWake w k) (cupd w (unpark_flag (cv_blk s w)) (s\<lparr>cv_sent := Suc (cv_sent s)\<rparr>)))
   | NAWake w k \<Rightarrow> Some (cgoto t (NANext w k) (cupd w (unpark_wake (cv_blk s w)) s))
   | NANext w k \<Rightarrow>
       Some (cgoto t (NAPop k) (s\<lparr>cv_lost := (if bk_release (cv_blk s w) then insert w (cv_lost s) else cv_lost s)\<rparr>))
   | _ \<Rightarrow> None)"

text \<open>
  The loops of \<^verbatim>\<open>wait_while\<close> and \<^verbatim>\<open>wait_timeout_while\<close>. \<open>cond\<close> may change the data; the list holds what the waits
  return: the data found under the re-acquired guard, the poison flag, and for the timed one how long the
  wait took and whether it timed out. \<open>None\<close> is a call that still waits when the list is used up.
\<close>

fun wait_while :: "('d \<Rightarrow> bool \<times> 'd) \<Rightarrow> 'd \<Rightarrow> ('d \<times> bool) list \<Rightarrow> 'd lock_result option" where
  "wait_while cond d [] = (case cond d of (go_on, d1) \<Rightarrow> if go_on then None else Some (Inr d1))"
| "wait_while cond d ((d2, poisoned) # ws) = (case cond d of (go_on, d1) \<Rightarrow>
     if go_on then if poisoned then Some (Inl d2) else wait_while cond d2 ws
     else Some (Inr d1))"

record 'd timed_wait =
  tw_data :: 'd
  tw_poisoned :: bool
  tw_timed_out :: bool
  tw_elapsed :: nat

fun wait_timeout_while ::
  "('d \<Rightarrow> bool \<times> 'd) \<Rightarrow> 'd \<Rightarrow> 'd timed_wait list \<Rightarrow> ('d \<times> bool) lock_result option" where
  "wait_timeout_while cond d [] = (case cond d of (go_on, d1) \<Rightarrow> if go_on then None else Some (Inr (d1, False)))"
| "wait_timeout_while cond d (w # ws) = (case cond d of (go_on, d1) \<Rightarrow>
     if go_on then
       if tw_poisoned w then Some (Inl (tw_data w, tw_timed_out w))
       else if tw_timed_out w then Some (Inr (tw_data w, True))
       else wait_timeout_while cond (tw_data w) ws
     else Some (Inr (d1, False)))"

section \<open>Runs\<close>

text \<open>
  The client locks and unlocks the mutex, waits with or without a duration while it owns the guard, and
  notifies with or without the guard. A timeout or a cancellation ends a parked wait; in the re-lock
  cancellation is disabled.
\<close>

datatype cact = ClLock | ClUnlock | ClWait bool | ClNotifyOne | ClNotifyAll | EvTimeout | EvCancel
  | EvCancelLock bool | CRun

fun ncont_of :: "cvpc \<Rightarrow> ncont option" where
  "ncont_of COut = Some NOut"
| "ncont_of CPanicked = Some NOut"
| "ncont_of CHeld = Some NHeld"
| "ncont_of _ = None"

definition cv_client :: "nat \<Rightarrow> condvar \<Rightarrow> condvar option" where
  "cv_client t s = (case cv_pc s t of
     CLocking \<Rightarrow> (case mx_pc (cv_mutex s) t of
       Holding \<Rightarrow> Some (cgoto t CHeld s)
     | Panicked \<Rightarrow> Some (cgoto t CPanicked s)
     | _ \<Rightarrow> on_mutex t Run CLocking s)
   | CUnlocking \<Rightarrow> unlock_until t COut s
   | _ \<Rightarrow> None)"

definition cv_run :: "nat \<Rightarrow> condvar \<Rightarrow> condvar option" where
  "cv_run t s = (case wait_impl t s of Some s' \<Rightarrow> Some s' | None \<Rightarrow>
     (case wait t s of Some s' \<Rightarrow> Some s' | None \<Rightarrow>
     (case notify_one t s of Some s' \<Rightarrow> Some s' | None \<Rightarrow>
     (case notify_all t s of Some s' \<Rightarrow> Some s' | None \<Rightarrow> cv_client t s))))"

text \<open>The end of a parked wait by a timeout or a cancellation.\<close>

definition park_fails :: "nat \<Rightarrow> nat \<Rightarrow> park_error \<Rightarrow> condvar \<Rightarrow> condvar" where
  "park_fails t cur e s = cgoto t (CErr cur (Some e)) (cupd cur (park_return (cv_blk s cur)) s)"

fun cv_next :: "nat \<Rightarrow> cact \<Rightarrow> condvar \<Rightarrow> condvar option" where
  "cv_next t ClLock s = (if cv_pc s t \<in> {COut, CPanicked} then on_mutex t CallLock CLocking s else None)"
| "cv_next t ClUnlock s = (if cv_pc s t = CHeld then on_mutex t DropGuard CUnlocking s else None)"
| "cv_next t (ClWait dur) s = (if cv_pc s t = CHeld then Some (cgoto t (CVerify dur) s) else None)"
| "cv_next t ClNotifyOne s = (case ncont_of (cv_pc s t) of
     None \<Rightarrow> None
   | Some k \<Rightarrow> Some (cgoto t (N1Pop k) (s\<lparr>cv_sent := Suc (cv_sent s)\<rparr>)))"
| "cv_next t ClNotifyAll s = (case ncont_of (cv_pc s t) of
     None \<Rightarrow> None
   | Some k \<Rightarrow> Some (cgoto t (NAPop k) s))"
| "cv_next t EvTimeout s = (case cv_pc s t of
     CParked cur True \<Rightarrow> Some (park_fails t cur Timeout s)
   | _ \<Rightarrow> None)"
| "cv_next t EvCancel s = (case cv_pc s t of
     CParked cur _ \<Rightarrow> Some (park_fails t cur Canceled s)
   | _ \<Rightarrow> None)"
| "cv_next t (EvCancelLock ig) s =
     (if cv_pc s t = CLocking then on_mutex t (CancelPark ig) CLocking s
      else case cv_pc s t of
        CRelocking r \<Rightarrow> if ig then on_mutex t (CancelPark True) (CRelocking r) s else None
      | _ \<Rightarrow> None)"
| "cv_next t CRun s = cv_run t s"

text \<open>The condition variable may already be bound, to this mutex or to another one.\<close>

definition cv_start :: "condvar \<Rightarrow> bool" where
  "cv_start s \<longleftrightarrow> (\<exists>addr bound. addr \<noteq> 0 \<and> s = (condvar_new addr)\<lparr>cv_bound := bound\<rparr>)"

definition cv_step :: "condvar \<Rightarrow> condvar \<Rightarrow> bool" where
  "cv_step s s' \<longleftrightarrow> (\<exists>t a. cv_next t a s = Some s') \<and> mx_fresh (cv_mutex s') + 2 < 2 ^ 64"

section \<open>The hand-off protocol below the condition variable\<close>

fun cwview :: "cvpc \<Rightarrow> wside" where
  "cwview (CUnlockMutex b _) = WPark b"
| "cwview (CParked b _) = WPark b"
| "cwview (CErr b _) = WLeave b"
| "cwview (CSetRelease b _) = WLeave b"
| "cwview (CRecheck b _) = WLate b"
| "cwview (CTakeRelease b _) = WTake b"
| "cwview _ = WNone"

fun cgview :: "cvpc \<Rightarrow> gside" where
  "cgview (N1Unpark w _) = Give w"
| "cgview (NAUnpark w _) = Give w"
| "cgview (N1Wake w _) = Wake w"
| "cgview (NAWake w _) = Wake w"
| "cgview (N1Release w _) = Rel w"
| "cgview (NANext w _) = Rel w"
| "cgview _ = GNone"

text \<open>
  In the protocol the giver always takes the release flag; a flag that \<^verbatim>\<open>notify_all\<close> leaves set is masked.
\<close>

definition cblk :: "condvar \<Rightarrow> nat \<Rightarrow> blocker" where
  "cblk s b = (if b \<in> cv_lost s then (cv_blk s b)\<lparr>bk_release := False\<rparr> else cv_blk s b)"

definition chand :: "condvar \<Rightarrow> hand" where
  "chand s = \<lparr>hd_queue = cv_queue s, hd_fresh = cv_fresh s, hd_blk = cblk s,
     hd_w = (\<lambda>t. cwview (cv_pc s t)), hd_g = (\<lambda>t. cgview (cv_pc s t))\<rparr>"

section \<open>Invariant\<close>

text \<open>A signal of \<^verbatim>\<open>notify_one\<close> that is on its way to a waiter.\<close>

fun flying :: "cvpc \<Rightarrow> bool" where
  "flying (N1Pop _) = True"
| "flying (N1Unpark _ _) = True"
| "flying _ = False"

fun nplace :: "ncont \<Rightarrow> pc \<Rightarrow> bool" where
  "nplace NHeld m \<longleftrightarrow> m = Holding"
| "nplace _ m \<longleftrightarrow> out_of m"

text \<open>Where a task is in the mutex.\<close>

fun cplace :: "cvpc \<Rightarrow> pc \<Rightarrow> bool" where
  "cplace CLocking m \<longleftrightarrow> entering m"
| "cplace CHeld m \<longleftrightarrow> m = Holding"
| "cplace CUnlocking m \<longleftrightarrow> leaving m"
| "cplace (CVerify _) m \<longleftrightarrow> m = Holding"
| "cplace (CPush _) m \<longleftrightarrow> m = Holding"
| "cplace (CUnlockMutex _ _) m \<longleftrightarrow> leaving m"
| "cplace (CRelocking _) m \<longleftrightarrow> firm m"
| "cplace (CReturn _) m \<longleftrightarrow> m = Holding"
| "cplace CDropCanceled m \<longleftrightarrow> leaving m"
| "cplace (N1Pop k) m \<longleftrightarrow> nplace k m"
| "cplace (N1Unpark _ k) m \<longleftrightarrow> nplace k m"
| "cplace (N1Wake _ k) m \<longleftrightarrow> nplace k m"
| "cplace (N1Release _ k) m \<longleftrightarrow> nplace k m"
| "cplace (NAPop k) m \<longleftrightarrow> nplace k m"
| "cplace (NAUnpark _ k) m \<longleftrightarrow> nplace k m"
| "cplace (NAWake _ k) m \<longleftrightarrow> nplace k m"
| "cplace (NANext _ k) m \<longleftrightarrow> nplace k m"
| "cplace _ m \<longleftrightarrow> out_of m"

definition lost_ok :: "condvar \<Rightarrow> bool" where
  "lost_ok s \<longleftrightarrow> (\<forall>b \<in> cv_lost s. b < cv_fresh s \<and> bk_release (cv_blk s b) \<and> (\<forall>t. \<not> waits_on (chand s) t b))"

definition cv_ledger :: "condvar \<Rightarrow> bool" where
  "cv_ledger s \<longleftrightarrow> finite {t. flying (cv_pc s t)} \<and>
     cv_sent s = cv_woken s + cv_void s + card (cv_lost s) + card (handed (chand s)) + card {t. flying (cv_pc s t)}"

definition cv_inv :: "condvar \<Rightarrow> bool" where
  "cv_inv s \<longleftrightarrow> hand_ok (chand s) \<and> (\<exists>h. mutex_inv h (cv_mutex s)) \<and>
     (\<forall>t. cplace (cv_pc s t) (mx_pc (cv_mutex s) t)) \<and> lost_ok s \<and> cv_ledger s"

lemma cgoto_sel [simp]:
  "cv_queue (cgoto t p s) = cv_queue s" "cv_blk (cgoto t p s) = cv_blk s" "cv_fresh (cgoto t p s) = cv_fresh s"
  "cv_mutex (cgoto t p s) = cv_mutex s" "cv_pc (cgoto t p s) = (cv_pc s)(t := p)" "cv_sent (cgoto t p s) = cv_sent s"
  "cv_woken (cgoto t p s) = cv_woken s" "cv_void (cgoto t p s) = cv_void s" "cv_lost (cgoto t p s) = cv_lost s"
  "cv_bound (cgoto t p s) = cv_bound s" "cv_addr (cgoto t p s) = cv_addr s" "cv_ret (cgoto t p s) = cv_ret s"
  by (simp_all add: cgoto_def)

lemma cupd_sel [simp]:
  "cv_queue (cupd b v s) = cv_queue s" "cv_blk (cupd b v s) = (cv_blk s)(b := v)" "cv_fresh (cupd b v s) = cv_fresh s"
  "cv_mutex (cupd b v s) = cv_mutex s" "cv_pc (cupd b v s) = cv_pc s" "cv_sent (cupd b v s) = cv_sent s"
  "cv_woken (cupd b v s) = cv_woken s" "cv_void (cupd b v s) = cv_void s" "cv_lost (cupd b v s) = cv_lost s"
  "cv_bound (cupd b v s) = cv_bound s" "cv_addr (cupd b v s) = cv_addr s" "cv_ret (cupd b v s) = cv_ret s"
  by (simp_all add: cupd_def)

lemma chand_sel [simp]:
  "hd_queue (chand s) = cv_queue s" "hd_fresh (chand s) = cv_fresh s" "hd_blk (chand s) = cblk s"
  "hd_w (chand s) t = cwview (cv_pc s t)" "hd_g (chand s) t = cgview (cv_pc s t)"
  by (simp_all add: chand_def)

lemma cblk_sel [simp]:
  "bk_unparked (cblk s b) = bk_unparked (cv_blk s b)" "bk_token (cblk s b) = bk_token (cv_blk s b)"
  "bk_release (cblk s b) \<longleftrightarrow> b \<notin> cv_lost s \<and> bk_release (cv_blk s b)"
  by (simp_all add: cblk_def)

lemma chand_eqI:
  assumes "cv_queue s' = hd_queue H" "cv_fresh s' = hd_fresh H" "\<And>b. cblk s' b = hd_blk H b"
    "\<And>t. cwview (cv_pc s' t) = hd_w H t" "\<And>t. cgview (cv_pc s' t) = hd_g H t"
  shows "H = chand s'"
  using assms by (intro hand.equality) (auto simp: chand_def)

lemma nresume_simps [simp]:
  "cwview (nresume k) = WNone" "cgview (nresume k) = GNone" "\<not> flying (nresume k)" "cplace (nresume k) m = nplace k m"
  by (cases k; simp)+

lemma cv_inv_new: "addr \<noteq> 0 \<Longrightarrow> cv_inv ((condvar_new addr)\<lparr>cv_bound := bound\<rparr>)"
proof -
  let ?s = "(condvar_new addr)\<lparr>cv_bound := bound\<rparr>"
  have e: "chand ?s = hand_new" by (simp add: chand_def cblk_def condvar_new_def hand_new_def fun_eq_iff)
  have "handed hand_new = {}" by (simp add: handed_def hand_new_def)
  then show ?thesis using hand_ok_new mutex_inv_new
    by (auto simp: cv_inv_def e lost_ok_def cv_ledger_def) (auto simp: condvar_new_def mutex_new_def)
qed

lemma cv_invD:
  assumes "cv_inv s"
  shows "hand_ok (chand s)" "\<exists>h. mutex_inv h (cv_mutex s)" "cplace (cv_pc s t) (mx_pc (cv_mutex s) t)" "lost_ok s"
    "cv_ledger s" "finite (cv_lost s)" "finite (handed (chand s))"
proof -
  show l: "hand_ok (chand s)" "\<exists>h. mutex_inv h (cv_mutex s)" "cplace (cv_pc s t) (mx_pc (cv_mutex s) t)" "lost_ok s"
    "cv_ledger s" using assms by (simp_all add: cv_inv_def)
  have "cv_lost s \<subseteq> {..<cv_fresh s}" using l(4) by (auto simp: lost_ok_def)
  then show "finite (cv_lost s)" using finite_subset by blast
  have "handed (chand s) \<subseteq> {..<cv_fresh s}" by (auto simp: handed_def)
  then show "finite (handed (chand s))" using finite_subset by blast
qed

lemma handed_card:
  assumes st: "hstep t (chand s) e (chand s')" and I: "cv_inv s"
  shows "card (handed (chand s')) + (if \<exists>w. e = Consumed w then 1 else 0) =
    card (handed (chand s)) + (if \<exists>w. e = Handed w then 1 else 0)"
proof -
  note H = hstep_handed [OF st cv_invD(1) [OF I]] and F = cv_invD(7) [OF I]
  show ?thesis
  proof (cases e)
    case Tau
    then show ?thesis using H(1) by simp
  next
    case (Handed w)
    then have "w \<notin> handed (chand s)" using H(2) [of w] by (auto simp: handed_def)
    then show ?thesis using H(1) Handed F by simp
  next
    case (Consumed w)
    then have w: "w \<in> handed (chand s)" using H(3) by simp
    then have "0 < card (handed (chand s))" using F by (auto simp: card_gt_0_iff)
    then show ?thesis using H(1) Consumed F w by (simp add: card_Diff_singleton)
  qed
qed

text \<open>One step of task \<open>t\<close>: a step \<open>e\<close> of the protocol, a move in the mutex, and the entries of the ledger.\<close>

lemma cv_inv_move:
  assumes I: "cv_inv s" and st: "hstep t (chand s) e (chand s')" and pc: "cv_pc s' = (cv_pc s)(t := p)"
    and m: "\<exists>h. mutex_inv h (cv_mutex s')" "\<And>u. u \<noteq> t \<Longrightarrow> mx_pc (cv_mutex s') u = mx_pc (cv_mutex s) u"
      "cplace p (mx_pc (cv_mutex s') t)"
    and l: "lost_ok s'"
    and n: "cv_sent s' + cv_woken s + cv_void s + card (cv_lost s) + (if flying (cv_pc s t) then 1 else 0)
        + (if \<exists>w. e = Consumed w then 1 else 0) =
      cv_sent s + cv_woken s' + cv_void s' + card (cv_lost s') + (if flying p then 1 else 0)
        + (if \<exists>w. e = Handed w then 1 else 0)"
  shows "cv_inv s'"
proof -
  have F: "finite {u. flying (cv_pc s u)}" using cv_invD(5) [OF I] by (simp add: cv_ledger_def)
  have "cplace (cv_pc s' u) (mx_pc (cv_mutex s') u)" for u
    using cv_invD(3) [OF I, of u] m(2,3) by (simp add: pc)
  moreover have "cv_ledger s'"
    using card_fun_upd [of flying "cv_pc s" t p] F cv_invD(5) [OF I] handed_card [OF st I] n unfolding cv_ledger_def pc by auto
  ultimately show ?thesis using hstep_ok [OF st cv_invD(1) [OF I]] m(1) l unfolding cv_inv_def by blast
qed

section \<open>Every step keeps the invariant\<close>

lemma lost_ok_move:
  assumes "lost_ok s" "cv_pc s' = (cv_pc s)(t := p)" "cv_lost s' \<subseteq> cv_lost s" "cv_fresh s \<le> cv_fresh s'"
    and "\<And>b. b \<in> cv_lost s' \<Longrightarrow> bk_release (cv_blk s' b)"
    and "\<And>b. cwview p = WPark b \<or> cwview p = WLeave b \<Longrightarrow> b \<notin> cv_lost s'"
  shows "lost_ok s'"
  unfolding lost_ok_def
proof
  fix b assume b: "b \<in> cv_lost s'"
  then have o: "b < cv_fresh s" "\<And>u. \<not> waits_on (chand s) u b" using assms(1,3) by (auto simp: lost_ok_def)
  have "\<not> waits_on (chand s') u b" for u
    using o(2) [of u] assms(2) assms(6) [of b] b by (cases "u = t") (auto simp: waits_on_def)
  then show "b < cv_fresh s' \<and> bk_release (cv_blk s' b) \<and> (\<forall>t. \<not> waits_on (chand s') t b)"
    using o(1) assms(4) assms(5) [OF b] by auto
qed

lemma waits_not_lost:
  assumes "cv_inv s" "cwview (cv_pc s t) = WPark b \<or> cwview (cv_pc s t) = WLeave b"
  shows "b \<notin> cv_lost s"
  using cv_invD(4) [OF assms(1)] assms(2) by (auto simp: lost_ok_def waits_on_def)

text \<open>A step inside the mutex.\<close>

lemma on_mutex_inv:
  assumes I: "cv_inv s" and st: "on_mutex t a p s = Some s'" and b: "mx_fresh (cv_mutex s') + 2 < 2 ^ 64"
    and p: "\<And>m. mutex_next t a (cv_mutex s) = Some m \<Longrightarrow> cplace p (mx_pc m t)"
      "cwview p = cwview (cv_pc s t)" "cgview p = cgview (cv_pc s t)" "flying p = flying (cv_pc s t)"
  shows "cv_inv s'"
proof -
  from st obtain m where m: "mutex_next t a (cv_mutex s) = Some m" "s' = cgoto t p (s\<lparr>cv_mutex := m\<rparr>)"
    by (auto simp: on_mutex_def simp del: mutex_next.simps)
  have e: "chand s' = chand s" by (rule chand_eqI [symmetric]) (use m(2) p in \<open>auto simp: cblk_def\<close>)
  show ?thesis
  proof (rule cv_inv_move [where p = p and t = t and e = Tau, OF I])
    show "hstep t (chand s) Tau (chand s')" unfolding e by (rule h_stutter)
    show "\<exists>h. mutex_inv h (cv_mutex s')" using cv_invD(2) [OF I] inv_mutex_next [OF _ m(1)] b m(2) by auto
    show "lost_ok s'"
      by (rule lost_ok_move [where p = p and t = t, OF cv_invD(4) [OF I]])
        (use m(2) p(2) waits_not_lost [OF I, of t] cv_invD(4) [OF I] in \<open>auto simp: lost_ok_def\<close>)
  qed (use m p mutex_next_frame [OF m(1)] in auto)
qed

lemma cgoto_inv:
  assumes I: "cv_inv s" and p: "cplace p (mx_pc (cv_mutex s) t)"
      "cwview p = cwview (cv_pc s t)" "cgview p = cgview (cv_pc s t)" "flying p = flying (cv_pc s t)"
    and s': "cv_queue s' = cv_queue s" "cv_blk s' = cv_blk s" "cv_fresh s' = cv_fresh s" "cv_mutex s' = cv_mutex s"
      "cv_pc s' = (cv_pc s)(t := p)" "cv_lost s' = cv_lost s" "cv_sent s' = cv_sent s" "cv_woken s' = cv_woken s"
      "cv_void s' = cv_void s"
  shows "cv_inv s'"
proof -
  have e: "chand s' = chand s" by (rule chand_eqI [symmetric]) (use s' p in \<open>auto simp: cblk_def\<close>)
  show ?thesis
  proof (rule cv_inv_move [where p = p and t = t and e = Tau, OF I])
    show "hstep t (chand s) Tau (chand s')" unfolding e by (rule h_stutter)
    show "lost_ok s'"
      by (rule lost_ok_move [where p = p and t = t, OF cv_invD(4) [OF I]])
        (use s' p(2) waits_not_lost [OF I, of t] cv_invD(4) [OF I] in \<open>auto simp: lost_ok_def\<close>)
  qed (use s' p cv_invD(2) [OF I] in auto)
qed

lemma unlock_until_inv:
  assumes I: "cv_inv s" and st: "unlock_until t p s = Some s'" and b: "mx_fresh (cv_mutex s') + 2 < 2 ^ 64"
    and q: "\<And>m. cplace (cv_pc s t) m = leaving m"
    and p: "cplace p Idle" "cwview p = cwview (cv_pc s t)" "cgview p = cgview (cv_pc s t)" "flying p = flying (cv_pc s t)"
  shows "cv_inv s'"
proof (cases "mx_pc (cv_mutex s) t = Idle")
  case True
  then have "s' = cgoto t p s" using st by (simp add: unlock_until_def)
  then show ?thesis by (intro cgoto_inv [where p = p and t = t, OF I]) (use True p in auto)
next
  case False
  then have "on_mutex t Run (cv_pc s t) s = Some s'" using st by (simp add: unlock_until_def)
  then show ?thesis
    by (rule on_mutex_inv [OF I _ b]) (use q cv_invD(3) [OF I, of t] leaving_next in \<open>auto simp del: mutex_next.simps\<close>)
qed

text \<open>A step of the protocol that does not touch the mutex.\<close>

lemma hand_step_inv:
  assumes I: "cv_inv s" and st: "hstep t (chand s) e (chand s')" and pc: "cv_pc s' = (cv_pc s)(t := p)"
    and m: "cv_mutex s' = cv_mutex s" "cplace p (mx_pc (cv_mutex s) t)"
    and s': "cv_fresh s' = cv_fresh s" "cv_lost s' \<subseteq> cv_lost s"
      "\<And>b. b \<in> cv_lost s' \<Longrightarrow> bk_release (cv_blk s' b)"
      "cwview p \<in> {WNone, cwview (cv_pc s t)} \<or> (\<forall>b. cwview p \<noteq> WPark b \<and> cwview p \<noteq> WLeave b) \<or>
        (\<exists>b. cwview (cv_pc s t) = WPark b \<and> cwview p = WLeave b)"
    and n: "cv_sent s' + cv_woken s + cv_void s + card (cv_lost s) + (if flying (cv_pc s t) then 1 else 0)
        + (if \<exists>w. e = Consumed w then 1 else 0) =
      cv_sent s + cv_woken s' + cv_void s' + card (cv_lost s') + (if flying p then 1 else 0)
        + (if \<exists>w. e = Handed w then 1 else 0)"
  shows "cv_inv s'"
proof (rule cv_inv_move [where p = p, OF I st pc])
  show "\<exists>h. mutex_inv h (cv_mutex s')" using cv_invD(2) [OF I] m by simp
  show "lost_ok s'"
    by (rule lost_ok_move [where p = p and t = t, OF cv_invD(4) [OF I] pc])
      (use s' waits_not_lost [OF I, of t] in auto)
qed (use m n in auto)

lemma lost_release: "cv_inv s \<Longrightarrow> b \<in> cv_lost s \<Longrightarrow> bk_release (cv_blk s b)"
  using cv_invD(4) by (auto simp: lost_ok_def)

lemma inv_cpush:
  assumes I: "cv_inv s" and pc: "cv_pc s t = CPush dur" and st: "wait_impl t s = Some s'"
    and b: "mx_fresh (cv_mutex s') + 2 < 2 ^ 64"
  shows "cv_inv s'"
proof -
  have hold: "mx_pc (cv_mutex s) t = Holding" using cv_invD(3) [OF I, of t] pc by simp
  let ?n = "cv_fresh s"
  from st obtain m where m: "mutex_next t DropGuard (cv_mutex s) = Some m" "s' = cgoto t (CUnlockMutex ?n dur)
    (s\<lparr>cv_queue := cv_queue s @ [?n], cv_blk := (cv_blk s)(?n := sync_blocker), cv_fresh := Suc ?n, cv_mutex := m\<rparr>)"
    using pc hold by (auto simp: on_mutex_def Let_def)
  have nl: "?n \<notin> cv_lost s" using cv_invD(4) [OF I] by (auto simp: lost_ok_def)
  show ?thesis
  proof (rule cv_inv_move [where p = "CUnlockMutex ?n dur" and t = t and e = Tau, OF I])
    show "hstep t (chand s) Tau (chand s')"
      by (rule hstep_eqI [OF h_push [of "chand s" t ?n] chand_eqI]) (use m(2) pc nl in \<open>auto simp: cblk_def\<close>)
    show "\<exists>h. mutex_inv h (cv_mutex s')" using cv_invD(2) [OF I] inv_mutex_next [OF _ m(1)] b m(2) by auto
    show "lost_ok s'"
      by (rule lost_ok_move [where p = "CUnlockMutex ?n dur" and t = t, OF cv_invD(4) [OF I]])
        (use m(2) nl lost_release [OF I] in auto)
  qed (use m pc hold mutex_next_frame [OF m(1)] in \<open>auto simp del: mutex_next.simps simp: mutex_next.simps(3)\<close>)
qed

lemma inv_cparked:
  assumes I: "cv_inv s" and pc: "cv_pc s t = CParked b dur" and tk: "bk_token (cv_blk s b)"
  shows "cv_inv (cgoto t (CRelock None) (cupd b (park_return (cv_blk s b)) (s\<lparr>cv_woken := Suc (cv_woken s)\<rparr>)))" (is "cv_inv ?s")
proof (rule hand_step_inv [where p = "CRelock None" and t = t and e = "Consumed b", OF I])
  show "hstep t (chand s) (Consumed b) (chand ?s)"
    by (rule hstep_eqI [OF h_park [of "chand s" t b] chand_eqI])
      (use pc tk waits_not_lost [OF I, of t b] in \<open>auto simp: cblk_def park_return_def\<close>)
qed (use pc cv_invD(3) [OF I, of t] lost_release [OF I] waits_not_lost [OF I, of t b] in auto)

lemma inv_park_fails:
  assumes I: "cv_inv s" and pc: "cv_pc s t = CParked b dur"
  shows "cv_inv (park_fails t b e s)"
  unfolding park_fails_def
proof (rule hand_step_inv [where p = "CErr b (Some e)" and t = t and e = Tau, OF I])
  show "hstep t (chand s) Tau (chand (cgoto t (CErr b (Some e)) (cupd b (park_return (cv_blk s b)) s)))"
    by (rule hstep_eqI [OF h_cancel [of "chand s" t b] chand_eqI])
      (use pc waits_not_lost [OF I, of t b] in \<open>auto simp: cblk_def park_return_def\<close>)
qed (use pc cv_invD(3) [OF I, of t] lost_release [OF I] waits_not_lost [OF I, of t b] in auto)

lemma inv_cerr_unparked:
  assumes I: "cv_inv s" and pc: "cv_pc s t = CErr b r" and u: "is_unparked (cv_blk s b)"
  shows "cv_inv (cgoto t (N1Pop (NWait r)) s)"
proof (rule hand_step_inv [where p = "N1Pop (NWait r)" and t = t and e = "Consumed b", OF I])
  show "hstep t (chand s) (Consumed b) (chand (cgoto t (N1Pop (NWait r)) s))"
    by (rule hstep_eqI [OF h_take_now [of "chand s" t b] chand_eqI]) (use pc u in \<open>auto simp: cblk_def\<close>)
qed (use pc cv_invD(3) [OF I, of t] lost_release [OF I] in auto)

lemma inv_cset_release:
  assumes I: "cv_inv s" and pc: "cv_pc s t = CSetRelease b r"
  shows "cv_inv (cgoto t (CRecheck b r) (cupd b (set_release (cv_blk s b)) s))" (is "cv_inv ?s")
proof (rule hand_step_inv [where p = "CRecheck b r" and t = t and e = Tau, OF I])
  show "hstep t (chand s) Tau (chand ?s)"
    by (rule hstep_eqI [OF h_set_release [of "chand s" t b] chand_eqI])
      (use pc waits_not_lost [OF I, of t b] in \<open>auto simp: cblk_def set_release_def\<close>)
qed (use pc cv_invD(3) [OF I, of t] lost_release [OF I] in auto)

lemma inv_crecheck:
  assumes I: "cv_inv s" and pc: "cv_pc s t = CRecheck b r"
  shows "cv_inv (cgoto t (if is_unparked (cv_blk s b) then CTakeRelease b r else CRelock r) s)" (is "cv_inv ?s")
proof -
  have "hstep t (chand s) Tau (chand ?s)"
  proof (cases "is_unparked (cv_blk s b)")
    case True
    show ?thesis by (rule hstep_eqI [OF h_recheck [of "chand s" t b] chand_eqI]) (use pc True in \<open>auto simp: cblk_def\<close>)
  next
    case False
    show ?thesis by (rule hstep_eqI [OF h_gone [of "chand s" t b] chand_eqI]) (use pc False in \<open>auto simp: cblk_def\<close>)
  qed
  then show ?thesis
    by (rule hand_step_inv [where p = "if is_unparked (cv_blk s b) then CTakeRelease b r else CRelock r" and t = t, OF I])
      (use pc cv_invD(3) [OF I, of t] lost_release [OF I] in auto)
qed

text \<open>\<^verbatim>\<open>take_release\<close> by the waiter or by the notifier; a masked flag turns a lost signal into a live one.\<close>

lemma cblk_take:
  "take_release (cv_blk s w) = (rel, v) \<Longrightarrow>
     take_release (cblk s w) = (rel \<and> w \<notin> cv_lost s, (cblk s w)\<lparr>bk_release := False\<rparr>)"
  by (auto simp: cblk_def)

lemma card_lost_Diff: "cv_inv s \<Longrightarrow> w \<in> cv_lost s \<Longrightarrow> card (cv_lost s - {w}) + 1 = card (cv_lost s)"
  using cv_invD(6) [of s] by (metis Suc_eq_plus1 card.remove)

lemma inv_take:
  assumes I: "cv_inv s" and r: "take_release (cv_blk s w) = (rel, v)"
    and s': "s' = (if rel then cgoto t p (cupd w v (s\<lparr>cv_lost := cv_lost s - {w}\<rparr>)) else cgoto t q (cupd w v s))"
    and h: "\<And>b. take_release (cblk s w) = (b, (cblk s w)\<lparr>bk_release := False\<rparr>) \<Longrightarrow>
      hstep t (chand s) (if b then Consumed w else Tau) (chand s')"
    and p: "flying p" "\<not> flying q" "\<not> flying (cv_pc s t)" "cwview p = WNone" "cwview q = WNone"
      "cplace p (mx_pc (cv_mutex s) t)" "cplace q (mx_pc (cv_mutex s) t)"
  shows "cv_inv s'"
proof (rule hand_step_inv [OF I h [OF cblk_take [OF r]]])
  show "cv_pc s' = (cv_pc s)(t := if rel then p else q)" by (simp add: s')
  show "bk_release (cv_blk s' b)" if "b \<in> cv_lost s'" for b
    using that lost_release [OF I, of b] r by (auto simp: s' split: if_splits)
  show "cv_sent s' + cv_woken s + cv_void s + card (cv_lost s) + (if flying (cv_pc s t) then 1 else 0)
        + (if \<exists>u. (if rel \<and> w \<notin> cv_lost s then Consumed w else Tau) = Consumed u then 1 else 0) =
      cv_sent s + cv_woken s' + cv_void s' + card (cv_lost s') + (if flying (if rel then p else q) then 1 else 0)
        + (if \<exists>u. (if rel \<and> w \<notin> cv_lost s then Consumed w else Tau) = Handed u then 1 else 0)"
    using p card_lost_Diff [OF I, of w] by (auto simp: s')
qed (use p in \<open>auto simp: s'\<close>)

lemma chand_take_eqI:
  assumes "take_release (cv_blk s w) = (rel, v)"
    and "s' = (if rel then cgoto t p (cupd w v (s\<lparr>cv_lost := cv_lost s - {w}\<rparr>)) else cgoto t q (cupd w v s))"
  shows "cblk s' = (cblk s)(w := (cblk s w)\<lparr>bk_release := False\<rparr>)"
  using assms by (auto simp: cblk_def fun_eq_iff)

lemma inv_ctake_release:
  assumes I: "cv_inv s" and pc: "cv_pc s t = CTakeRelease w r" and st: "wait_impl t s = Some s'"
  shows "cv_inv s'"
proof -
  obtain rel v where r: "take_release (cv_blk s w) = (rel, v)" by fastforce
  let ?p = "N1Pop (NWait r)" and ?q = "CRelock r"
  have s': "s' = (if rel then cgoto t ?p (cupd w v (s\<lparr>cv_lost := cv_lost s - {w}\<rparr>)) else cgoto t ?q (cupd w v s))"
    using st pc r by (auto simp: Let_def simp del: blocker_simps split: if_splits)
  note bl = chand_take_eqI [OF r s']
  have "hstep t (chand s) (if b then Consumed w else Tau) (chand s')"
    if "take_release (cblk s w) = (b, (cblk s w)\<lparr>bk_release := False\<rparr>)" for b
    by (rule hstep_eqI [OF h_take [of "chand s" t w b "(cblk s w)\<lparr>bk_release := False\<rparr>"] chand_eqI])
      (use pc that s' bl in auto)
  then show ?thesis by (rule inv_take [OF I r s']) (use pc cv_invD(3) [OF I, of t] in auto)
qed

lemma inv_n1release:
  assumes I: "cv_inv s" and pc: "cv_pc s t = N1Release w k" and st: "notify_one t s = Some s'"
  shows "cv_inv s'"
proof -
  obtain rel v where r: "take_release (cv_blk s w) = (rel, v)" by fastforce
  let ?p = "N1Pop k" and ?q = "nresume k"
  have s': "s' = (if rel then cgoto t ?p (cupd w v (s\<lparr>cv_lost := cv_lost s - {w}\<rparr>)) else cgoto t ?q (cupd w v s))"
    using st pc r by (auto simp: Let_def simp del: blocker_simps split: if_splits)
  note bl = chand_take_eqI [OF r s']
  have "hstep t (chand s) (if b then Consumed w else Tau) (chand s')"
    if "take_release (cblk s w) = (b, (cblk s w)\<lparr>bk_release := False\<rparr>)" for b
    by (rule hstep_eqI [OF h_rel [of "chand s" t w b "(cblk s w)\<lparr>bk_release := False\<rparr>"] chand_eqI])
      (use pc that s' bl in auto)
  then show ?thesis by (rule inv_take [OF I r s']) (use pc cv_invD(3) [OF I, of t] in auto)
qed

lemma inv_npop:
  assumes I: "cv_inv s" and q: "cv_queue s = w # q" and pc: "cwview (cv_pc s t) = WNone" "cgview (cv_pc s t) = GNone"
    and p: "cwview p = WNone" "cgview p = Give w" "flying p = flying (cv_pc s t)" "cplace p (mx_pc (cv_mutex s) t)"
  shows "cv_inv (cgoto t p (s\<lparr>cv_queue := q\<rparr>))" (is "cv_inv ?s")
proof (rule hand_step_inv [where p = p and t = t and e = Tau, OF I])
  show "hstep t (chand s) Tau (chand ?s)"
    by (rule hstep_eqI [OF h_pop [of "chand s" w q t] chand_eqI]) (use q pc p in \<open>auto simp: cblk_def\<close>)
qed (use p lost_release [OF I] in auto)

lemma inv_nempty:
  assumes I: "cv_inv s" and pc: "cv_pc s t = N1Pop k"
  shows "cv_inv (cgoto t (nresume k) (s\<lparr>cv_void := Suc (cv_void s)\<rparr>))" (is "cv_inv ?s")
proof -
  have e: "chand ?s = chand s" by (rule chand_eqI [symmetric]) (use pc in \<open>auto simp: cblk_def\<close>)
  show ?thesis
  proof (rule hand_step_inv [where p = "nresume k" and t = t and e = Tau, OF I])
    show "hstep t (chand s) Tau (chand ?s)" unfolding e by (rule h_stutter)
  qed (use pc cv_invD(3) [OF I, of t] lost_release [OF I] in auto)
qed

lemma inv_nunpark:
  assumes I: "cv_inv s" and pc: "cgview (cv_pc s t) = Give w" "cwview (cv_pc s t) = WNone"
    and p: "cwview p = WNone" "cgview p = Wake w" "\<not> flying p" "cplace p (mx_pc (cv_mutex s) t)"
    and n: "n + (if flying (cv_pc s t) then 1 else 0) = cv_sent s + 1"
  shows "cv_inv (cgoto t p (cupd w (unpark_flag (cv_blk s w)) (s\<lparr>cv_sent := n\<rparr>)))" (is "cv_inv ?s")
proof (rule hand_step_inv [where p = p and t = t and e = "Handed w", OF I])
  show "hstep t (chand s) (Handed w) (chand ?s)"
    by (rule hstep_eqI [OF h_unpark [of "chand s" t w] chand_eqI])
      (use pc p in \<open>auto simp: cblk_def unpark_flag_def\<close>)
qed (use pc p n lost_release [OF I] in auto)

lemma inv_nwake:
  assumes I: "cv_inv s" and pc: "cgview (cv_pc s t) = Wake w" "cwview (cv_pc s t) = WNone" "\<not> flying (cv_pc s t)"
    and p: "cwview p = WNone" "cgview p = Rel w" "\<not> flying p" "cplace p (mx_pc (cv_mutex s) t)"
  shows "cv_inv (cgoto t p (cupd w (unpark_wake (cv_blk s w)) s))" (is "cv_inv ?s")
proof (rule hand_step_inv [where p = p and t = t and e = Tau, OF I])
  show "hstep t (chand s) Tau (chand ?s)"
    by (rule hstep_eqI [OF h_wake [of "chand s" t w] chand_eqI])
      (use pc p in \<open>auto simp: cblk_def unpark_wake_def\<close>)
qed (use pc p lost_release [OF I] in auto)

lemma inv_nanext:
  assumes I: "cv_inv s" and pc: "cv_pc s t = NANext w k" and st: "notify_all t s = Some s'"
  shows "cv_inv s'"
proof -
  have s': "s' = cgoto t (NAPop k) (s\<lparr>cv_lost := (if bk_release (cv_blk s w) then insert w (cv_lost s) else cv_lost s)\<rparr>)"
    using st pc by simp
  let ?b = "bk_release (cblk s w)"
  have gv: "gave (chand s) t w" using pc by (simp add: gave_def)
  have w: "w < cv_fresh s" "bk_unparked (cv_blk s w)"
    using hand_okD(2) [OF cv_invD(1) [OF I]] gv by (auto simp: hand_give_def)
  have nw: "\<not> waits_on (chand s) u w" if ?b for u
    using hand_okD(3) [OF cv_invD(1) [OF I]] that by (auto simp: hand_wait_def)
  have h: "hstep t (chand s) (if ?b then Consumed w else Tau) (chand s')"
    by (rule hstep_eqI [OF h_rel [of "chand s" t w ?b "(cblk s w)\<lparr>bk_release := False\<rparr>"] chand_eqI])
      (use pc s' in \<open>auto simp: cblk_def\<close>)
  have l: "lost_ok s'" unfolding lost_ok_def
  proof
    fix b assume b: "b \<in> cv_lost s'"
    have wt: "waits_on (chand s') u b = waits_on (chand s) u b" for u using pc by (auto simp: s' waits_on_def)
    show "b < cv_fresh s' \<and> bk_release (cv_blk s' b) \<and> (\<forall>u. \<not> waits_on (chand s') u b)"
    proof (cases "b \<in> cv_lost s")
      case True
      then show ?thesis using cv_invD(4) [OF I] unfolding wt by (simp add: lost_ok_def s')
    next
      case False
      then have "b = w" "bk_release (cv_blk s w)" using b by (auto simp: s' split: if_splits)
      then show ?thesis using w nw False unfolding wt by (simp add: s')
    qed
  qed
  show ?thesis
    by (rule cv_inv_move [where p = "NAPop k", OF I h _ _ _ _ l])
      (use s' pc cv_invD(2,6) [OF I] cv_invD(3) [OF I, of t] in \<open>auto simp: insert_absorb\<close>)
qed

lemma wait_impl_inv:
  assumes I: "cv_inv s" and st: "wait_impl t s = Some s'" and b: "mx_fresh (cv_mutex s') + 2 < 2 ^ 64"
  shows "cv_inv s'"
proof (cases "cv_pc s t")
  case (CPush dur)
  then show ?thesis using inv_cpush [OF I _ st b] by blast
next
  case (CUnlockMutex cur dur)
  then show ?thesis using st by (intro unlock_until_inv [where p = "CParked cur dur", OF I _ b]) auto
next
  case (CParked cur dur)
  then show ?thesis using st inv_cparked [OF I CParked] by (auto split: if_splits)
next
  case (CErr cur r)
  show ?thesis
  proof (cases "is_unparked (cv_blk s cur)")
    case True
    then show ?thesis using st CErr inv_cerr_unparked [OF I CErr] by simp
  next
    case False
    then have "s' = cgoto t (CSetRelease cur r) s" using st CErr by simp
    then show ?thesis by (intro cgoto_inv [where p = "CSetRelease cur r" and t = t, OF I]) (use CErr cv_invD(3) [OF I, of t] in auto)
  qed
next
  case (CSetRelease cur r)
  then show ?thesis using st inv_cset_release [OF I CSetRelease] by simp
next
  case (CRecheck cur r)
  then show ?thesis using st inv_crecheck [OF I CRecheck] by simp
next
  case (CTakeRelease cur r)
  then show ?thesis using inv_ctake_release [OF I _ st] by blast
next
  case (CRelock r)
  then have "on_mutex t CallLock (CRelocking r) s = Some s'" using st by simp
  then show ?thesis by (rule on_mutex_inv [OF I _ b]) (use CRelock in \<open>auto split: if_splits\<close>)
next
  case (CRelocking r)
  show ?thesis
  proof (cases "mx_pc (cv_mutex s) t = Holding")
    case True
    then have "s' = cgoto t (CReturn r) s" using st CRelocking by simp
    then show ?thesis by (intro cgoto_inv [where p = "CReturn r" and t = t, OF I]) (use CRelocking True in auto)
  next
    case False
    then have "on_mutex t Run (CRelocking r) s = Some s'" using st CRelocking by simp
    then show ?thesis by (rule on_mutex_inv [OF I _ b])
      (use CRelocking False cv_invD(3) [OF I, of t] firm_next in \<open>auto simp del: mutex_next.simps\<close>)
  qed
qed (use st in auto)

lemma wait_inv:
  assumes I: "cv_inv s" and st: "wait t s = Some s'" and b: "mx_fresh (cv_mutex s') + 2 < 2 ^ 64"
  shows "cv_inv s'"
proof (cases "cv_pc s t")
  case (CVerify dur)
  show ?thesis
  proof (cases "verify (cv_addr s) (cv_bound s)")
    case None
    then have "on_mutex t DropGuard CDropCanceled s = Some s'" using st CVerify by simp
    then show ?thesis by (rule on_mutex_inv [OF I _ b]) (use CVerify in \<open>auto split: if_splits\<close>)
  next
    case (Some c)
    then show ?thesis using st CVerify cv_invD(3) [OF I, of t]
      by (intro cgoto_inv [where p = "CPush dur" and t = t, OF I]) auto
  qed
next
  case (CReturn r)
  show ?thesis
  proof (cases "r = Some Canceled")
    case True
    then have "on_mutex t DropGuard CDropCanceled s = Some s'" using st CReturn by simp
    then show ?thesis by (rule on_mutex_inv [OF I _ b]) (use CReturn in \<open>auto split: if_splits\<close>)
  next
    case False
    then show ?thesis using st CReturn cv_invD(3) [OF I, of t]
      by (intro cgoto_inv [where p = CHeld and t = t, OF I]) auto
  qed
next
  case CDropCanceled
  then show ?thesis using st by (intro unlock_until_inv [where p = CPanicked, OF I _ b]) auto
qed (use st in auto)

lemma notify_one_inv:
  assumes I: "cv_inv s" and st: "notify_one t s = Some s'"
  shows "cv_inv s'"
proof (cases "cv_pc s t")
  case (N1Pop k)
  then show ?thesis using st inv_nempty [OF I N1Pop] inv_npop [OF I, of _ _ t "N1Unpark _ k"] cv_invD(3) [OF I, of t]
    by (auto split: list.splits)
next
  case (N1Unpark w k)
  then show ?thesis using st inv_nunpark [OF I, of t w "N1Wake w k" "cv_sent s"] cv_invD(3) [OF I, of t] by auto
next
  case (N1Wake w k)
  then show ?thesis using st inv_nwake [OF I, of t w "N1Release w k"] cv_invD(3) [OF I, of t] by auto
next
  case (N1Release w k)
  then show ?thesis using inv_n1release [OF I _ st] by blast
qed (use st in auto)

lemma notify_all_inv:
  assumes I: "cv_inv s" and st: "notify_all t s = Some s'"
  shows "cv_inv s'"
proof (cases "cv_pc s t")
  case (NAPop k)
  show ?thesis
  proof (cases "cv_queue s")
    case Nil
    then show ?thesis using st NAPop cv_invD(3) [OF I, of t] by (intro cgoto_inv [where p = "nresume k" and t = t, OF I]) auto
  next
    case (Cons w q)
    then show ?thesis using st NAPop inv_npop [OF I Cons, of t "NAUnpark w k"] cv_invD(3) [OF I, of t] by auto
  qed
next
  case (NAUnpark w k)
  then show ?thesis using st inv_nunpark [OF I, of t w "NAWake w k" "Suc (cv_sent s)"] cv_invD(3) [OF I, of t] by auto
next
  case (NAWake w k)
  then show ?thesis using st inv_nwake [OF I, of t w "NANext w k"] cv_invD(3) [OF I, of t] by auto
next
  case (NANext w k)
  then show ?thesis using inv_nanext [OF I _ st] by blast
qed (use st in auto)

lemma cv_client_inv:
  assumes I: "cv_inv s" and st: "cv_client t s = Some s'" and b: "mx_fresh (cv_mutex s') + 2 < 2 ^ 64"
  shows "cv_inv s'"
proof (cases "cv_pc s t")
  case CLocking
  consider "mx_pc (cv_mutex s) t = Holding" | "mx_pc (cv_mutex s) t = Panicked" | "on_mutex t Run CLocking s = Some s'"
    using st CLocking by (auto simp: cv_client_def split: pc.splits)
  then show ?thesis
  proof cases
    case 1
    then show ?thesis using st CLocking by (intro cgoto_inv [where p = CHeld and t = t, OF I]) (auto simp: cv_client_def)
  next
    case 2
    then show ?thesis using st CLocking by (intro cgoto_inv [where p = CPanicked and t = t, OF I]) (auto simp: cv_client_def)
  next
    case 3
    then show ?thesis by (rule on_mutex_inv [OF I _ b])
      (use CLocking cv_invD(3) [OF I, of t] entering_next in \<open>auto simp del: mutex_next.simps\<close>)
  qed
next
  case CUnlocking
  then show ?thesis using st by (intro unlock_until_inv [where p = COut, OF I _ b]) (auto simp: cv_client_def)
qed (use st in \<open>auto simp: cv_client_def\<close>)

lemma cv_run_inv:
  assumes I: "cv_inv s" and st: "cv_run t s = Some s'" and b: "mx_fresh (cv_mutex s') + 2 < 2 ^ 64"
  shows "cv_inv s'"
proof -
  consider "wait_impl t s = Some s'" | "wait t s = Some s'" | "notify_one t s = Some s'" | "notify_all t s = Some s'"
    | "cv_client t s = Some s'"
    using st by (auto simp: cv_run_def simp del: wait_impl.simps wait.simps notify_one.simps notify_all.simps split: option.splits)
  then show ?thesis
    using wait_impl_inv [OF I _ b] wait_inv [OF I _ b] notify_one_inv [OF I] notify_all_inv [OF I] cv_client_inv [OF I _ b]
    by cases blast+
qed

lemma inv_ncall:
  assumes I: "cv_inv s" and k: "ncont_of (cv_pc s t) = Some k"
  shows "cv_inv (cgoto t (N1Pop k) (s\<lparr>cv_sent := Suc (cv_sent s)\<rparr>))" (is "cv_inv ?s")
    and "cv_inv (cgoto t (NAPop k) s)"
proof -
  have p: "cwview (cv_pc s t) = WNone" "cgview (cv_pc s t) = GNone" "\<not> flying (cv_pc s t)" "nplace k (mx_pc (cv_mutex s) t)"
    using k cv_invD(3) [OF I, of t] by (cases "cv_pc s t"; auto)+
  have e: "chand ?s = chand s" by (rule chand_eqI [symmetric]) (use p in \<open>auto simp: cblk_def\<close>)
  show "cv_inv ?s"
  proof (rule hand_step_inv [where p = "N1Pop k" and t = t and e = Tau, OF I])
    show "hstep t (chand s) Tau (chand ?s)" unfolding e by (rule h_stutter)
  qed (use p lost_release [OF I] in auto)
  show "cv_inv (cgoto t (NAPop k) s)" by (rule cgoto_inv [where p = "NAPop k" and t = t, OF I]) (use p in auto)
qed

lemma cv_next_inv:
  assumes I: "cv_inv s" and st: "cv_next t a s = Some s'" and b: "mx_fresh (cv_mutex s') + 2 < 2 ^ 64"
  shows "cv_inv s'"
proof (cases a)
  case ClLock
  then have p: "cv_pc s t \<in> {COut, CPanicked}" "on_mutex t CallLock CLocking s = Some s'" using st by (auto split: if_splits)
  show ?thesis by (rule on_mutex_inv [OF I p(2) b]) (use p(1) in \<open>auto split: if_splits\<close>)
next
  case ClUnlock
  then have p: "cv_pc s t = CHeld" "on_mutex t DropGuard CUnlocking s = Some s'" using st by (auto split: if_splits)
  show ?thesis by (rule on_mutex_inv [OF I p(2) b]) (use p(1) in \<open>auto split: if_splits\<close>)
next
  case (ClWait dur)
  then have p: "cv_pc s t = CHeld" "s' = cgoto t (CVerify dur) s" using st by (auto split: if_splits)
  then show ?thesis using cv_invD(3) [OF I, of t] by (intro cgoto_inv [where p = "CVerify dur" and t = t, OF I]) auto
next
  case ClNotifyOne
  then show ?thesis using st inv_ncall(1) [OF I] by (auto split: option.splits)
next
  case ClNotifyAll
  then show ?thesis using st inv_ncall(2) [OF I] by (auto split: option.splits)
next
  case EvTimeout
  then obtain cur where "cv_pc s t = CParked cur True" "s' = park_fails t cur Timeout s"
    using st by (auto split: cvpc.splits bool.splits)
  then show ?thesis using inv_park_fails [OF I] by blast
next
  case EvCancel
  then obtain cur dur where "cv_pc s t = CParked cur dur" "s' = park_fails t cur Canceled s"
    using st by (auto split: cvpc.splits)
  then show ?thesis using inv_park_fails [OF I] by blast
next
  case (EvCancelLock ig)
  show ?thesis
  proof (cases "cv_pc s t = CLocking")
    case True
    then have "on_mutex t (CancelPark ig) CLocking s = Some s'" using st EvCancelLock by simp
    then show ?thesis by (rule on_mutex_inv [OF I _ b])
      (use True cv_invD(3) [OF I, of t] entering_next in \<open>auto simp del: mutex_next.simps\<close>)
  next
    case False
    then obtain r where r: "cv_pc s t = CRelocking r" "on_mutex t (CancelPark True) (CRelocking r) s = Some s'"
      using st EvCancelLock by (auto split: cvpc.splits if_splits)
    show ?thesis by (rule on_mutex_inv [OF I r(2) b])
      (use r(1) cv_invD(3) [OF I, of t] firm_next in \<open>auto simp del: mutex_next.simps\<close>)
  qed
next
  case CRun
  then show ?thesis using st cv_run_inv [OF I _ b] by simp
qed

interpretation cv_sys: invariant_system cv_start cv_step cv_inv
proof
  fix s assume "cv_start s"
  then show "cv_inv s" using cv_inv_new by (auto simp: cv_start_def)
next
  fix s s' assume "cv_inv s" "cv_step s s'"
  then show "cv_inv s'" using cv_next_inv by (auto simp: cv_step_def simp del: cv_next.simps)
qed

section \<open>Properties\<close>

fun in_section :: "cvpc \<Rightarrow> bool" where
  "in_section CHeld = True"
| "in_section (CVerify _) = True"
| "in_section (CPush _) = True"
| "in_section (CReturn _) = True"
| "in_section _ = False"

text \<open>
  C9: signals of the condition variable are conserved, in every interleaving with timeouts and cancellations.
  Every signal sent has ended a wait, has found the queue empty (\<^verbatim>\<open>notify_one\<close>), was given by \<^verbatim>\<open>notify_all\<close> to a
  waiter that had already left, is with a waiter that has not returned yet, or is on its way; in
  particular a waiter that times out or is canceled after it was notified passes its signal on. And a wait
  gives the mutex back: the tasks that are inside the section, before a wait or when it has returned, are at most
  one.
\<close>

theorem condvar_signals_conserved:
  assumes "reach cv_start cv_step s"
  shows "cv_sent s = cv_woken s + cv_void s + card (cv_lost s) + card (handed (chand s)) + card {t. flying (cv_pc s t)} \<and>
    (\<forall>t u. in_section (cv_pc s t) \<longrightarrow> in_section (cv_pc s u) \<longrightarrow> t = u)"
proof -
  have I: "cv_inv s" by (rule cv_sys.inv_reach [OF assms])
  obtain h where M: "mutex_inv h (cv_mutex s)" using cv_invD(2) [OF I] by blast
  have "mx_pc (cv_mutex s) t = Holding" if "in_section (cv_pc s t)" for t
    using that cv_invD(3) [OF I, of t] by (cases "cv_pc s t") auto
  then show ?thesis using cv_invD(5) [OF I] holding_unique [OF M] by (auto simp: cv_ledger_def)
qed

text \<open>
  C16: no lost wake-up. A waiter is registered before it releases the mutex and stays registered: as long as it has
  not been unparked, it is in the queue or in the hands of a notifier. When every task is at rest, outside,
  inside the section, or parked without a token, every parked task is in the queue, where the next
  notification finds it, and no signal is pending.
\<close>

theorem condvar_no_lost_wakeup:
  assumes "reach cv_start cv_step s"
  shows "(\<forall>t b dur. cv_pc s t = CUnlockMutex b dur \<or> cv_pc s t = CParked b dur \<longrightarrow> \<not> is_unparked (cv_blk s b) \<longrightarrow>
       b \<in> set (cv_queue s) \<or> (\<exists>u k. cv_pc s u = N1Unpark b k \<or> cv_pc s u = NAUnpark b k)) \<and>
    ((\<forall>t. cv_pc s t \<in> {COut, CHeld, CPanicked} \<or> (\<exists>b dur. cv_pc s t = CParked b dur \<and> \<not> bk_token (cv_blk s b))) \<longrightarrow>
      (\<forall>t b dur. cv_pc s t = CParked b dur \<longrightarrow> b \<in> set (cv_queue s)) \<and>
      cv_sent s = cv_woken s + cv_void s + card (cv_lost s))"
proof -
  have I: "cv_inv s" by (rule cv_sys.inv_reach [OF assms])
  note H = cv_invD(1) [OF I]
  have gv: "\<exists>k. cv_pc s u = N1Unpark b k \<or> cv_pc s u = NAUnpark b k" if "cgview (cv_pc s u) = Give b" for u b
    using that by (cases "cv_pc s u") auto
  have "b \<in> set (cv_queue s) \<or> (\<exists>u k. cv_pc s u = N1Unpark b k \<or> cv_pc s u = NAUnpark b k)"
    if p: "cv_pc s t = CUnlockMutex b dur \<or> cv_pc s t = CParked b dur" and n: "\<not> is_unparked (cv_blk s b)" for t b dur
  proof -
    have "waits_on (chand s) t b" using p by (auto simp: waits_on_def)
    then have "b < cv_fresh s" using hand_okD(3) [OF H] by (auto simp: hand_wait_def)
    then have "b \<in> set (cv_queue s) \<or> (\<exists>u. cgview (cv_pc s u) = Give b)"
      using hand_okD(1) [OF H] n by (auto simp: hand_queue_def)
    then show ?thesis using gv by blast
  qed
  moreover {
    assume q: "\<forall>t. cv_pc s t \<in> {COut, CHeld, CPanicked} \<or> (\<exists>b dur. cv_pc s t = CParked b dur \<and> \<not> bk_token (cv_blk s b))"
    have r: "cv_pc s t \<in> {COut, CHeld, CPanicked} \<or> (\<exists>b dur. cv_pc s t = CParked b dur \<and> \<not> bk_token (cv_blk s b))" for t
      using q by blast
    have hq: "hand_quiet (chand s)" unfolding hand_quiet_def
    proof (intro conjI allI)
      fix t
      show "hd_g (chand s) t = GNone" using r [of t] by auto
      show "hd_w (chand s) t = WNone \<or> (\<exists>b. hd_w (chand s) t = WPark b \<and> \<not> bk_token (hd_blk (chand s) b))" using r [of t] by auto
    qed
    have "\<not> flying (cv_pc s t)" for t using r [of t] by auto
    then have "cv_sent s = cv_woken s + cv_void s + card (cv_lost s)"
      using cv_invD(5) [OF I] hand_quietD(1) [OF H hq] by (simp add: cv_ledger_def)
    moreover have "b \<in> set (cv_queue s)" if "cv_pc s t = CParked b dur" for t b dur
      using hand_quietD(2) [OF H hq, of t b] that by simp
    ultimately have "(\<forall>t b dur. cv_pc s t = CParked b dur \<longrightarrow> b \<in> set (cv_queue s)) \<and>
      cv_sent s = cv_woken s + cv_void s + card (cv_lost s)" by blast
  }
  ultimately show ?thesis by blast
qed


section \<open>Runs that witness the properties\<close>

fun cv_acts :: "nat \<times> cact \<Rightarrow> condvar \<Rightarrow> condvar option" where
  "cv_acts (t, a) s = (case cv_next t a s of
     Some s' \<Rightarrow> if mx_fresh (cv_mutex s') + 2 < 2 ^ 64 then Some s' else None
   | None \<Rightarrow> None)"

lemma cv_acts_step: "cv_acts x s = Some s' \<Longrightarrow> cv_step s s'"
  by (cases x) (auto simp: cv_step_def simp del: cv_next.simps split: if_splits option.splits)

lemma cv_acts_run:
  assumes "run_acts cv_acts as (condvar_new 8) = Some s"
  shows "reach cv_start cv_step s"
proof (rule run_acts_reach [OF cv_acts_step assms])
  have "(8::usize) \<noteq> 0 \<and> condvar_new 8 = (condvar_new 8)\<lparr>cv_bound := 0\<rparr>" by (simp add: condvar_new_def)
  then have "cv_start (condvar_new 8)" unfolding cv_start_def by blast
  then show "reach cv_start cv_step (condvar_new 8)" by (rule reach_start)
qed

lemmas cv_exec = condvar_new_def mutex_new_def cv_run_def cv_client_def on_mutex_def unlock_until_def park_fails_def
  verify_def try_lock_def goto_def unlock_def cgoto_def cupd_def upd_blk_def park_return_def unpark_flag_def unpark_wake_def
  sync_blocker_def set_release_def is_unparked_def take_release_def

text \<open>Task 1 locks and waits; task 2 notifies, task 1 is woken and locks the mutex again.\<close>

lemma cv_waiting:
  "\<exists>s. reach cv_start cv_step s \<and> cv_pc s 1 = CParked 0 False \<and> (\<forall>t. t \<noteq> 1 \<longrightarrow> cv_pc s t = COut) \<and>
     cv_sent s = 0 \<and> \<not> bk_token (cv_blk s 0)"
proof -
  let ?as = "[(1, ClLock), (1, CRun), (1, CRun), (1, ClWait False), (1, CRun), (1, CRun), (1, CRun), (1, CRun)]"
  have "map_option (\<lambda>s. (cv_pc s, cv_sent s, bk_token (cv_blk s 0))) (run_acts cv_acts ?as (condvar_new 8)) =
    Some ((\<lambda>_. COut)(1 := CParked 0 False), 0, False)"
    by (simp add: cv_exec Let_def)
  then obtain s where s: "run_acts cv_acts ?as (condvar_new 8) = Some s" "cv_pc s = (\<lambda>_. COut)(1 := CParked 0 False)"
    "cv_sent s = 0" "\<not> bk_token (cv_blk s 0)" by auto
  then show ?thesis using cv_acts_run [OF s(1)] by auto
qed

lemma cv_woken_up:
  "\<exists>s. reach cv_start cv_step s \<and> cv_pc s 1 = CReturn None \<and> cv_sent s = 1 \<and> cv_woken s = 1"
proof -
  let ?as = "[(1, ClLock), (1, CRun), (1, CRun), (1, ClWait False), (1, CRun), (1, CRun), (1, CRun), (1, CRun),
    (2, ClNotifyOne), (2, CRun), (2, CRun), (2, CRun), (2, CRun), (1, CRun), (1, CRun), (1, CRun), (1, CRun)]"
  have "map_option (\<lambda>s. (cv_pc s 1, cv_sent s, cv_woken s)) (run_acts cv_acts ?as (condvar_new 8)) =
    Some (CReturn None, 1, 1)"
    by (simp add: cv_exec Let_def)
  then obtain s where s: "run_acts cv_acts ?as (condvar_new 8) = Some s" "cv_pc s 1 = CReturn None"
    "cv_sent s = 1" "cv_woken s = 1" by auto
  then show ?thesis using cv_acts_run [OF s(1)] by blast
qed

theorem condvar_signals_conserved_witness:
  "\<exists>s. cv_pc s 1 = CReturn None \<and> cv_sent s = 1 \<and> cv_void s = 0 \<and> card (handed (chand s)) = 0"
proof -
  obtain s where s: "reach cv_start cv_step s" "cv_pc s 1 = CReturn None" "cv_sent s = 1" "cv_woken s = 1"
    using cv_woken_up by blast
  from condvar_signals_conserved [OF s(1)] s(3,4) have "cv_void s = 0 \<and> card (handed (chand s)) = 0" by linarith
  with s show ?thesis by blast
qed

theorem condvar_no_lost_wakeup_witness:
  "\<exists>s :: condvar. cv_pc s 1 = CParked 0 False \<and> 0 \<in> set (cv_queue s)"
proof -
  obtain s where s: "reach cv_start cv_step s" "cv_pc s 1 = CParked 0 False" "\<forall>t. t \<noteq> 1 \<longrightarrow> cv_pc s t = COut"
    "\<not> bk_token (cv_blk s 0)" using cv_waiting by blast
  have "\<forall>t. cv_pc s t \<in> {COut, CHeld, CPanicked} \<or> (\<exists>b dur. cv_pc s t = CParked b dur \<and> \<not> bk_token (cv_blk s b))"
    using s(2-4) by (metis insertI1)
  from condvar_no_lost_wakeup [OF s(1), THEN conjunct2, THEN mp, OF this] s(2) show ?thesis by blast
qed


end
