(* ===== verification/Semphore.thy ===== *)
theory Semphore
  imports Handoff
begin

text \<open>
  The semaphore of \<^verbatim>\<open>src/sync/semphore.rs\<close> as a transition system of \<open>m\<close> tasks. Every access to \<^verbatim>\<open>cnt\<close>, to
  the waiter queue (a \<^verbatim>\<open>SegQueue\<close>, with its first-in-first-out meaning) and to the flags of a blocker is
  one step; waits can time out or be canceled at any time, and the \<^verbatim>\<open>stop\<close> closure of
  \<^verbatim>\<open>wait_timeout_until\<close> may return either value.
\<close>

section \<open>State\<close>

text \<open>Who called \<^verbatim>\<open>try_wait\<close>, and where \<^verbatim>\<open>wakeup_one\<close> or \<^verbatim>\<open>post\<close> returns to.\<close>

datatype scall = CTry | CWait

datatype scont = KStop nat | KIdle | KErr park_error

datatype spc =
    SIdle
  | TLoad scall              \<comment> \<open>\<^verbatim>\<open>try_wait\<close>: before \<^verbatim>\<open>cnt.load\<close>\<close>
  | TCas scall int           \<comment> \<open>\<^verbatim>\<open>try_wait\<close>: before the \<^verbatim>\<open>compare_exchange\<close>\<close>
  | SPush                    \<comment> \<open>before \<^verbatim>\<open>to_wake.push(cur)\<close>\<close>
  | SSub nat                 \<comment> \<open>before \<^verbatim>\<open>cnt.fetch_sub(1)\<close>\<close>
  | SStop nat                \<comment> \<open>before \<^verbatim>\<open>stop()\<close>\<close>
  | SStopCheck nat           \<comment> \<open>stopped: before \<^verbatim>\<open>cur.is_unparked()\<close>\<close>
  | SStopRelease nat         \<comment> \<open>stopped: before \<^verbatim>\<open>cur.set_release()\<close>\<close>
  | SStopRecheck nat
  | SStopTake nat
  | SPark nat                \<comment> \<open>in \<^verbatim>\<open>cur.park(dur)\<close>\<close>
  | SErr nat park_error      \<comment> \<open>\<^verbatim>\<open>park\<close> failed: before \<^verbatim>\<open>cur.is_unparked()\<close>\<close>
  | SErrRelease nat park_error
  | SErrRecheck nat park_error
  | SErrTake nat park_error
  | KPop scont               \<comment> \<open>\<^verbatim>\<open>wakeup_one\<close>: before \<^verbatim>\<open>to_wake.pop()\<close>\<close>
  | KUnpark nat scont
  | KWake nat scont
  | KRelease nat scont
  | KAdd scont               \<comment> \<open>\<^verbatim>\<open>wakeup_one\<close>: before \<^verbatim>\<open>cnt.fetch_add(1)\<close>\<close>
  | PLoad scont bool         \<comment> \<open>\<^verbatim>\<open>post\<close>: before \<^verbatim>\<open>cnt.load\<close>; the flag: the permit was taken from a waiter\<close>
  | PCas scont bool int
  | SPanicked                \<comment> \<open>a cancel panic\<close>
  | SOverflow                \<comment> \<open>\<^verbatim>\<open>semaphore permit count overflow\<close>\<close>
  | SBroken                  \<comment> \<open>\<^verbatim>\<open>got null blocker!\<close>\<close>

record semphore =
  sm_cnt :: int
  sm_queue :: "nat list"
  sm_blk :: "nat \<Rightarrow> blocker"
  sm_fresh :: nat
  sm_pc :: "nat \<Rightarrow> spc"

text \<open>\<open>sm_cnt\<close> is an \<^verbatim>\<open>AtomicIsize\<close>; its updates go through \<open>isize\<close>.\<close>

definition semphore_new :: "nat \<Rightarrow> semphore option" where
  "semphore_new init = (if int init < isize_max
     then Some \<lparr>sm_cnt = int init, sm_queue = [], sm_blk = (\<lambda>_. sync_blocker), sm_fresh = 0, sm_pc = (\<lambda>_. SIdle)\<rparr>
     else None)"

definition sgoto :: "nat \<Rightarrow> spc \<Rightarrow> semphore \<Rightarrow> semphore" where
  "sgoto t p s = s\<lparr>sm_pc := (sm_pc s)(t := p)\<rparr>"

definition supd :: "nat \<Rightarrow> blocker \<Rightarrow> semphore \<Rightarrow> semphore" where
  "supd b v s = s\<lparr>sm_blk := (sm_blk s)(b := v)\<rparr>"

section \<open>Steps\<close>

text \<open>A step posts a permit, acquires one, or neither.\<close>

datatype sev = SQuiet | SPosted | SAcquired

fun sresume :: "scont \<Rightarrow> spc" where
  "sresume (KStop b) = SStop b"
| "sresume KIdle = SIdle"
| "sresume (KErr e) = (if e = Canceled then SPanicked else SIdle)"

fun try_fail :: "scall \<Rightarrow> spc" where
  "try_fail CTry = SIdle"
| "try_fail CWait = SPush"

fun try_wait :: "nat \<Rightarrow> semphore \<Rightarrow> (sev \<times> semphore) option" where
  "try_wait t s = (case sm_pc s t of
     TLoad c \<Rightarrow> Some (SQuiet, sgoto t (if sm_cnt s > 0 then TCas c (sm_cnt s) else try_fail c) s)
   | TCas c x \<Rightarrow>
       if sm_cnt s = x then Some (SAcquired, sgoto t SIdle (s\<lparr>sm_cnt := x - 1\<rparr>))
       else Some (SQuiet, sgoto t (if sm_cnt s > 0 then TCas c (sm_cnt s) else try_fail c) s)
   | _ \<Rightarrow> None)"

fun wakeup_one :: "nat \<Rightarrow> semphore \<Rightarrow> (sev \<times> semphore) option" where
  "wakeup_one t s = (case sm_pc s t of
     KPop k \<Rightarrow> (case sm_queue s of
       [] \<Rightarrow> Some (SQuiet, sgoto t SBroken s)
     | w # q \<Rightarrow> Some (SQuiet, sgoto t (KUnpark w k) (s\<lparr>sm_queue := q\<rparr>)))
   | KUnpark w k \<Rightarrow> Some (SQuiet, sgoto t (KWake w k) (supd w (unpark_flag (sm_blk s w)) s))
   | KWake w k \<Rightarrow> Some (SQuiet, sgoto t (KRelease w k) (supd w (unpark_wake (sm_blk s w)) s))
   | KRelease w k \<Rightarrow>
       (let (r, b) = take_release (sm_blk s w) in
        Some (SQuiet, sgoto t (if r then KAdd k else sresume k) (supd w b s)))
   | KAdd k \<Rightarrow>
       (let old = sm_cnt s in
        Some (SQuiet, sgoto t (if old \<ge> 0 then sresume k else KPop k) (s\<lparr>sm_cnt := isize (old + 1)\<rparr>)))
   | _ \<Rightarrow> None)"

fun wait_timeout_until :: "nat \<Rightarrow> semphore \<Rightarrow> (sev \<times> semphore) option" where
  "wait_timeout_until t s = (case sm_pc s t of
     SPush \<Rightarrow>
       (let cur = sm_fresh s in
        Some (SQuiet, sgoto t (SSub cur)
          (s\<lparr>sm_queue := sm_queue s @ [cur], sm_blk := (sm_blk s)(cur := sync_blocker), sm_fresh := Suc cur\<rparr>)))
   | SSub cur \<Rightarrow>
       (let old = sm_cnt s in
        Some (SQuiet, sgoto t (if old > 0 then KPop (KStop cur) else SStop cur) (s\<lparr>sm_cnt := isize (old - 1)\<rparr>)))
   | SStop cur \<Rightarrow> Some (SQuiet, sgoto t (SPark cur) s)
   | SStopCheck cur \<Rightarrow>
       if is_unparked (sm_blk s cur) then Some (SAcquired, sgoto t SIdle s)
       else Some (SQuiet, sgoto t (SStopRelease cur) s)
   | SStopRelease cur \<Rightarrow> Some (SQuiet, sgoto t (SStopRecheck cur) (supd cur (set_release (sm_blk s cur)) s))
   | SStopRecheck cur \<Rightarrow>
       Some (SQuiet, sgoto t (if is_unparked (sm_blk s cur) then SStopTake cur else SIdle) s)
   | SStopTake cur \<Rightarrow>
       (let (r, b) = take_release (sm_blk s cur) in
        Some (if r then SAcquired else SQuiet, sgoto t SIdle (supd cur b s)))
   | SPark cur \<Rightarrow>
       if bk_token (sm_blk s cur)
       then Some (SAcquired, sgoto t SIdle (supd cur (park_return (sm_blk s cur)) s))
       else None
   | SErr cur e \<Rightarrow>
       Some (SQuiet, sgoto t (if is_unparked (sm_blk s cur) then PLoad (KErr e) True else SErrRelease cur e) s)
   | SErrRelease cur e \<Rightarrow> Some (SQuiet, sgoto t (SErrRecheck cur e) (supd cur (set_release (sm_blk s cur)) s))
   | SErrRecheck cur e \<Rightarrow>
       Some (SQuiet, sgoto t (if is_unparked (sm_blk s cur) then SErrTake cur e else sresume (KErr e)) s)
   | SErrTake cur e \<Rightarrow>
       (let (r, b) = take_release (sm_blk s cur) in
        Some (SQuiet, sgoto t (if r then PLoad (KErr e) True else sresume (KErr e)) (supd cur b s)))
   | _ \<Rightarrow> None)"

fun post :: "nat \<Rightarrow> semphore \<Rightarrow> (sev \<times> semphore) option" where
  "post t s = (case sm_pc s t of
     PLoad k own \<Rightarrow>
       Some (SQuiet, sgoto t (if sm_cnt s < isize_max then PCas k own (sm_cnt s) else SOverflow) s)
   | PCas k own cur \<Rightarrow>
       if sm_cnt s = cur
       then Some (if own then SQuiet else SPosted,
                  sgoto t (if cur < 0 then KPop k else sresume k) (s\<lparr>sm_cnt := cur + 1\<rparr>))
       else Some (SQuiet, sgoto t (PLoad k own) s)
   | _ \<Rightarrow> None)"

definition get_value :: "semphore \<Rightarrow> nat" where
  "get_value s = (if sm_cnt s > 0 then nat (sm_cnt s) else 0)"

definition has_waiters :: "semphore \<Rightarrow> bool" where
  "has_waiters s \<longleftrightarrow> sm_cnt s < 0"

datatype sact = CallWait | CallTryWait | CallPost | StopTrue | ParkFails park_error | SRun | SpuriousCas

fun sem_next :: "nat \<Rightarrow> sact \<Rightarrow> semphore \<Rightarrow> (sev \<times> semphore) option" where
  "sem_next t CallWait s = (if sm_pc s t \<in> {SIdle, SPanicked} then Some (SQuiet, sgoto t (TLoad CWait) s) else None)"
| "sem_next t CallTryWait s = (if sm_pc s t \<in> {SIdle, SPanicked} then Some (SQuiet, sgoto t (TLoad CTry) s) else None)"
| "sem_next t CallPost s = (if sm_pc s t \<in> {SIdle, SPanicked} then Some (SQuiet, sgoto t (PLoad KIdle False) s) else None)"
| "sem_next t StopTrue s = (case sm_pc s t of SStop b \<Rightarrow> Some (SQuiet, sgoto t (SStopCheck b) s) | _ \<Rightarrow> None)"
| "sem_next t (ParkFails e) s = (case sm_pc s t of
     SPark b \<Rightarrow> Some (SQuiet, sgoto t (SErr b e) (supd b (park_return (sm_blk s b)) s))
   | _ \<Rightarrow> None)"
| "sem_next t SpuriousCas s = (case sm_pc s t of PCas k own cur \<Rightarrow> Some (SQuiet, sgoto t (PLoad k own) s) | _ \<Rightarrow> None)"
| "sem_next t SRun s = (case try_wait t s of
     Some r \<Rightarrow> Some r
   | None \<Rightarrow> (case wait_timeout_until t s of
       Some r \<Rightarrow> Some r
     | None \<Rightarrow> (case wakeup_one t s of Some r \<Rightarrow> Some r | None \<Rightarrow> post t s)))"

text \<open>Runs of tasks \<open>t < m\<close>, with the events of the run.\<close>

inductive sem_run :: "nat \<Rightarrow> nat \<Rightarrow> sev list \<Rightarrow> semphore \<Rightarrow> bool" for m init where
  sem_run_new: "semphore_new init = Some s \<Longrightarrow> sem_run m init [] s"
| sem_run_step: "sem_run m init es s \<Longrightarrow> t < m \<Longrightarrow> sem_next t a s = Some (e, s') \<Longrightarrow> sem_run m init (es @ [e]) s'"

section \<open>Invariant\<close>

fun skview :: "scont \<Rightarrow> wside" where
  "skview (KStop b) = WPark b"
| "skview _ = WNone"

fun swview :: "spc \<Rightarrow> wside" where
  "swview (SSub b) = WPark b"
| "swview (SStop b) = WPark b"
| "swview (SPark b) = WPark b"
| "swview (SStopCheck b) = WLeave b"
| "swview (SStopRelease b) = WLeave b"
| "swview (SErr b _) = WLeave b"
| "swview (SErrRelease b _) = WLeave b"
| "swview (SStopRecheck b) = WLate b"
| "swview (SErrRecheck b _) = WLate b"
| "swview (SStopTake b) = WTake b"
| "swview (SErrTake b _) = WTake b"
| "swview (KPop k) = skview k"
| "swview (KUnpark _ k) = skview k"
| "swview (KWake _ k) = skview k"
| "swview (KRelease _ k) = skview k"
| "swview (KAdd k) = skview k"
| "swview (PLoad k _) = skview k"
| "swview (PCas k _ _) = skview k"
| "swview _ = WNone"

fun sgview :: "spc \<Rightarrow> gside" where
  "sgview (KUnpark w _) = Give w"
| "sgview (KWake w _) = Wake w"
| "sgview (KRelease w _) = Rel w"
| "sgview _ = GNone"

definition sem_hand :: "semphore \<Rightarrow> hand" where
  "sem_hand s = \<lparr>hd_queue = sm_queue s, hd_fresh = sm_fresh s, hd_blk = sm_blk s,
     hd_w = (\<lambda>t. swview (sm_pc s t)), hd_g = (\<lambda>t. sgview (sm_pc s t))\<rparr>"

text \<open>
  Weights of a task: \<open>adds\<close>: in the queue but not yet counted; \<open>pops\<close>: owns a permit whose waiter is
  still in the queue; \<open>holds\<close>: carries a permit.
\<close>

fun adds :: "spc \<Rightarrow> int" where
  "adds (SSub _) = 1"
| "adds _ = 0"

fun pops :: "spc \<Rightarrow> int" where
  "pops (KPop _) = 1"
| "pops _ = 0"

fun holds :: "spc \<Rightarrow> int" where
  "holds (KPop _) = 1"
| "holds (KUnpark _ _) = 1"
| "holds (KAdd _) = 1"
| "holds (PLoad _ own) = (if own then 1 else 0)"
| "holds (PCas _ own _) = (if own then 1 else 0)"
| "holds _ = 0"

definition total :: "(spc \<Rightarrow> int) \<Rightarrow> nat \<Rightarrow> semphore \<Rightarrow> int" where
  "total f m s = (\<Sum>t<m. f (sm_pc s t))"

text \<open>The permits that are free or on their way.\<close>

definition permits :: "nat \<Rightarrow> semphore \<Rightarrow> int" where
  "permits m s = max 0 (sm_cnt s) + total holds m s + int (card (handed (sem_hand s)))"

text \<open>What the loops of \<^verbatim>\<open>try_wait\<close> and \<^verbatim>\<open>post\<close> know of the value they read.\<close>

fun spc_ok :: "spc \<Rightarrow> bool" where
  "spc_ok (TCas _ x) = (0 < x)"
| "spc_ok (PCas _ _ x) = (x < isize_max)"
| "spc_ok SBroken = False"
| "spc_ok _ = True"

definition sem_inv :: "nat \<Rightarrow> semphore \<Rightarrow> bool" where
  "sem_inv m s \<longleftrightarrow> hand_ok (sem_hand s) \<and>
     int (length (sm_queue s)) = total adds m s + total pops m s + max 0 (- sm_cnt s) \<and>
     (\<forall>t. spc_ok (sm_pc s t)) \<and> (\<forall>t \<ge> m. sm_pc s t = SIdle)"

lemma sresume_simps [simp]:
  "swview (sresume k) = skview k" "sgview (sresume k) = GNone" "adds (sresume k) = 0" "pops (sresume k) = 0"
  "holds (sresume k) = 0" "spc_ok (sresume k)"
  by (cases k; simp)+

lemma try_fail_simps [simp]:
  "swview (try_fail c) = WNone" "sgview (try_fail c) = GNone" "adds (try_fail c) = 0" "pops (try_fail c) = 0"
  "holds (try_fail c) = 0" "spc_ok (try_fail c)"
  by (cases c; simp)+

lemma sgoto_sel [simp]:
  "sm_queue (sgoto t p s) = sm_queue s" "sm_cnt (sgoto t p s) = sm_cnt s" "sm_blk (sgoto t p s) = sm_blk s"
  "sm_fresh (sgoto t p s) = sm_fresh s" "sm_pc (sgoto t p s) = (sm_pc s)(t := p)"
  by (simp_all add: sgoto_def)

lemma supd_sel [simp]:
  "sm_queue (supd b v s) = sm_queue s" "sm_cnt (supd b v s) = sm_cnt s" "sm_blk (supd b v s) = (sm_blk s)(b := v)"
  "sm_fresh (supd b v s) = sm_fresh s" "sm_pc (supd b v s) = sm_pc s"
  by (simp_all add: supd_def)

lemma sem_hand_sel [simp]:
  "hd_queue (sem_hand s) = sm_queue s" "hd_fresh (sem_hand s) = sm_fresh s" "hd_blk (sem_hand s) = sm_blk s"
  "hd_w (sem_hand s) t = swview (sm_pc s t)" "hd_g (sem_hand s) t = sgview (sm_pc s t)"
  by (simp_all add: sem_hand_def)

lemma sem_hand_eqI:
  assumes "sm_queue s' = hd_queue H" "sm_fresh s' = hd_fresh H" "sm_blk s' = hd_blk H"
    "\<And>t. swview (sm_pc s' t) = hd_w H t" "\<And>t. sgview (sm_pc s' t) = hd_g H t"
  shows "H = sem_hand s'"
  using assms by (intro hand.equality) (auto simp: sem_hand_def)

fun hdelta :: "hev \<Rightarrow> int" where
  "hdelta Tau = 0"
| "hdelta (Handed _) = 1"
| "hdelta (Consumed _) = - 1"

fun sdelta :: "sev \<Rightarrow> int" where
  "sdelta SQuiet = 0"
| "sdelta SPosted = 1"
| "sdelta SAcquired = - 1"

lemma card_handed:
  assumes "hstep t H e H'" "hand_ok H"
  shows "int (card (handed H')) = int (card (handed H)) + hdelta e"
proof -
  have fin: "finite (handed H)" by (rule finite_subset [of _ "{..<hd_fresh H}"]) (auto simp: handed_def)
  show ?thesis
  proof (cases e)
    case Tau
    then show ?thesis using hstep_handed(1) [OF assms] by simp
  next
    case (Handed w)
    have "w \<notin> handed H" using hstep_handed(2) [OF assms Handed] by (simp add: handed_def)
    then show ?thesis using hstep_handed(1) [OF assms] Handed fin by simp
  next
    case (Consumed w)
    have w: "w \<in> handed H" by (rule hstep_handed(3) [OF assms Consumed])
    then have "0 < card (handed H)" using fin by (auto simp: card_gt_0_iff)
    then show ?thesis using hstep_handed(1) [OF assms] Consumed w by (simp add: card_Diff_singleton of_nat_diff)
  qed
qed

text \<open>One step of a task, seen from the invariant and the permits.\<close>

lemma sem_move:
  assumes I: "sem_inv m s" and t: "t < m" and st: "hstep t (sem_hand s) he (sem_hand s')"
    and pc: "sm_pc s' = (sm_pc s)(t := p)" and nb: "spc_ok p"
    and q: "int (length (sm_queue s')) - adds p - pops p - max 0 (- sm_cnt s') =
      int (length (sm_queue s)) - adds (sm_pc s t) - pops (sm_pc s t) - max 0 (- sm_cnt s)"
    and c: "max 0 (sm_cnt s') + holds p + hdelta he = max 0 (sm_cnt s) + holds (sm_pc s t) + sdelta e"
  shows "sem_inv m s' \<and> permits m s' = permits m s + sdelta e"
proof -
  have ok: "hand_ok (sem_hand s)" using I by (simp add: sem_inv_def)
  have tot: "total f m s' = total f m s - f (sm_pc s t) + f p" for f
    unfolding total_def pc by (rule sum_upd [OF t])
  have "sem_inv m s'"
    using I hstep_ok [OF st ok] q nb t unfolding sem_inv_def tot [of adds] tot [of pops] by (auto simp: pc)
  moreover have "permits m s' = permits m s + sdelta e"
    unfolding permits_def card_handed [OF st ok] tot [of holds] using c by linarith
  ultimately show ?thesis by blast
qed

lemma sem_stutter:
  assumes I: "sem_inv m s" and t: "t < m"
    and s': "sm_queue s' = sm_queue s" "sm_fresh s' = sm_fresh s" "sm_blk s' = sm_blk s"
    and pc: "sm_pc s' = (sm_pc s)(t := p)" and nb: "spc_ok p"
    and v: "swview p = swview (sm_pc s t)" "sgview p = sgview (sm_pc s t)"
    and q: "adds p + pops p + max 0 (- sm_cnt s') = adds (sm_pc s t) + pops (sm_pc s t) + max 0 (- sm_cnt s)"
    and c: "max 0 (sm_cnt s') + holds p = max 0 (sm_cnt s) + holds (sm_pc s t) + sdelta e"
  shows "sem_inv m s' \<and> permits m s' = permits m s + sdelta e"
proof (rule sem_move [OF I t _ pc nb])
  have "sem_hand s = sem_hand s'" by (rule sem_hand_eqI) (use s' pc v in auto)
  then show "hstep t (sem_hand s) Tau (sem_hand s')" by (simp add: h_stutter)
qed (use q c s' in auto)

text \<open>Bounds that keep the counter away from its wrap-around.\<close>

lemma weights_nonneg: "0 \<le> adds p" "0 \<le> pops p" "0 \<le> holds p"
  by (cases p; simp)+

lemma total_nonneg: "0 \<le> total adds m s" "0 \<le> total pops m s" "0 \<le> total holds m s"
  unfolding total_def by (intro sum_nonneg weights_nonneg)+

lemma sem_cnt_bounds:
  assumes I: "sem_inv m s"
  shows "- int (sm_fresh s) \<le> sm_cnt s" and "sm_cnt s \<le> permits m s"
proof -
  note n = total_nonneg [of m s]
  have "distinct (sm_queue s)" "set (sm_queue s) \<subseteq> {..<sm_fresh s}"
    using I by (auto simp: sem_inv_def hand_ok_def hand_queue_def)
  then have "length (sm_queue s) \<le> sm_fresh s" by (metis card_lessThan card_mono distinct_card finite_lessThan)
  then show "- int (sm_fresh s) \<le> sm_cnt s" using I n unfolding sem_inv_def by linarith
  show "sm_cnt s \<le> permits m s" using n unfolding permits_def by linarith
qed

text \<open>What a step establishes.\<close>

definition sem_kept :: "nat \<Rightarrow> semphore \<Rightarrow> sev \<times> semphore \<Rightarrow> bool" where
  "sem_kept m s r \<longleftrightarrow> sem_inv m (snd r) \<and> permits m (snd r) = permits m s + sdelta (fst r) \<and>
     sm_fresh (snd r) \<le> sm_fresh s + 1"

lemma sem_keptI:
  "sem_inv m s' \<and> permits m s' = permits m s + sdelta e \<Longrightarrow> sm_fresh s' \<le> sm_fresh s + 1 \<Longrightarrow> sem_kept m s (e, s')"
  by (simp add: sem_kept_def)

lemma sem_try_wait:
  assumes I: "sem_inv m s" and t: "t < m" and st: "try_wait t s = Some r"
  shows "sem_kept m s r"
proof (cases "sm_pc s t")
  case (TLoad c)
  have "sem_kept m s (SQuiet, sgoto t (if sm_cnt s > 0 then TCas c (sm_cnt s) else try_fail c) s)"
    by (rule sem_keptI, rule sem_stutter [OF I t, where p = "if sm_cnt s > 0 then TCas c (sm_cnt s) else try_fail c"])
      (use TLoad in auto)
  then show ?thesis using st TLoad by simp
next
  case (TCas c x)
  have "spc_ok (sm_pc s t)" using I by (simp add: sem_inv_def)
  then have x: "0 < x" by (simp add: TCas)
  show ?thesis
  proof (cases "sm_cnt s = x")
    case True
    have "sem_kept m s (SAcquired, sgoto t SIdle (s\<lparr>sm_cnt := x - 1\<rparr>))"
      by (rule sem_keptI, rule sem_stutter [OF I t, where p = SIdle]) (use TCas True x in auto)
    then show ?thesis using st TCas True by simp
  next
    case False
    have "sem_kept m s (SQuiet, sgoto t (if sm_cnt s > 0 then TCas c (sm_cnt s) else try_fail c) s)"
      by (rule sem_keptI, rule sem_stutter [OF I t, where p = "if sm_cnt s > 0 then TCas c (sm_cnt s) else try_fail c"])
        (use TCas in auto)
    then show ?thesis using st TCas False by simp
  qed
qed (use st in auto)

lemma sem_consume:
  assumes I: "sem_inv m s" and t: "t < m" and st: "hstep t (sem_hand s) (Consumed w) (sem_hand (sgoto t p r))"
    and r: "sm_pc r = sm_pc s" "sm_queue r = sm_queue s" "sm_cnt r = sm_cnt s" "sm_fresh r = sm_fresh s"
    and p: "spc_ok p" "adds p = 0" "pops p = 0" "adds (sm_pc s t) = 0" "pops (sm_pc s t) = 0" "holds (sm_pc s t) = 0"
    and e: "holds p - 1 = sdelta e"
  shows "sem_kept m s (e, sgoto t p r)"
  by (rule sem_keptI, rule sem_move [where p = p, OF I t st]) (use assms in auto)

lemma sem_tau:
  assumes I: "sem_inv m s" and t: "t < m" and st: "hstep t (sem_hand s) Tau (sem_hand (sgoto t p r))"
    and r: "sm_pc r = sm_pc s" "sm_queue r = sm_queue s" "sm_cnt r = sm_cnt s" "sm_fresh r = sm_fresh s"
    and p: "spc_ok p" "adds p = 0" "pops p = 0" "adds (sm_pc s t) = 0" "pops (sm_pc s t) = 0"
      "holds p = holds (sm_pc s t)"
  shows "sem_kept m s (SQuiet, sgoto t p r)"
  by (rule sem_keptI, rule sem_move [where p = p, OF I t st]) (use assms in auto)

lemma sem_wakeup_one:
  assumes I: "sem_inv m s" and t: "t < m" and st: "wakeup_one t s = Some r"
    and b: "int (sm_fresh s) < 2 ^ 62" "permits m s < 2 ^ 62"
  shows "sem_kept m s r"
proof (cases "sm_pc s t")
  case (KPop k)
  have "total pops m s = pops (sm_pc s t) + (\<Sum>u\<in>{..<m} - {t}. pops (sm_pc s u))"
    unfolding total_def using t by (subst sum.remove [of _ t]) auto
  moreover have "0 \<le> (\<Sum>u\<in>{..<m} - {t}. pops (sm_pc s u))"
    by (intro sum_nonneg weights_nonneg)
  ultimately have "0 < length (sm_queue s)" using I total_nonneg(1) [of m s] KPop unfolding sem_inv_def by auto
  then obtain w q where q: "sm_queue s = w # q" by (cases "sm_queue s") auto
  let ?s = "sgoto t (KUnpark w k) (s\<lparr>sm_queue := q\<rparr>)"
  have "hstep t (sem_hand s) Tau (sem_hand ?s)"
    by (rule hstep_eqI [OF h_pop [of "sem_hand s" w q t] sem_hand_eqI]) (use KPop q in auto)
  then have "sem_kept m s (SQuiet, ?s)"
    by (intro sem_keptI sem_move [where p = "KUnpark w k", OF I t]) (use KPop q in auto)
  then show ?thesis using st KPop q by simp
next
  case (KUnpark w k)
  let ?s = "sgoto t (KWake w k) (supd w (unpark_flag (sm_blk s w)) s)"
  have "hstep t (sem_hand s) (Handed w) (sem_hand ?s)"
    by (rule hstep_eqI [OF h_unpark [of "sem_hand s" t w] sem_hand_eqI]) (use KUnpark in auto)
  then have "sem_kept m s (SQuiet, ?s)"
    by (intro sem_keptI sem_move [where p = "KWake w k", OF I t]) (use KUnpark in auto)
  then show ?thesis using st KUnpark by simp
next
  case (KWake w k)
  let ?s = "sgoto t (KRelease w k) (supd w (unpark_wake (sm_blk s w)) s)"
  have "hstep t (sem_hand s) Tau (sem_hand ?s)"
    by (rule hstep_eqI [OF h_wake [of "sem_hand s" t w] sem_hand_eqI]) (use KWake in auto)
  from sem_tau [OF I t this] show ?thesis using st KWake by simp
next
  case (KRelease w k)
  obtain r' b' where r': "take_release (sm_blk s w) = (r', b')" by fastforce
  let ?s = "sgoto t (if r' then KAdd k else sresume k) (supd w b' s)"
  have h: "hstep t (sem_hand s) (if r' then Consumed w else Tau) (sem_hand ?s)"
    by (rule hstep_eqI [OF h_rel [of "sem_hand s" t w r' b'] sem_hand_eqI]) (use KRelease r' in auto)
  have "sem_kept m s (SQuiet, ?s)"
    using sem_consume [OF I t, of w "KAdd k" "supd w b' s" SQuiet] sem_tau [OF I t, of "sresume k" "supd w b' s"] h KRelease
    by (cases r') auto
  then show ?thesis using st KRelease r' by simp
next
  case (KAdd k)
  have i: "isize (sm_cnt s + 1) = sm_cnt s + 1"
    using sem_cnt_bounds [OF I] b by (intro isize_id) auto
  let ?p = "if sm_cnt s \<ge> 0 then sresume k else KPop k"
  have "sem_kept m s (SQuiet, sgoto t ?p (s\<lparr>sm_cnt := isize (sm_cnt s + 1)\<rparr>))"
    by (rule sem_keptI, rule sem_stutter [where p = ?p, OF I t]) (use KAdd i in auto)
  then show ?thesis using st KAdd by (simp add: Let_def)
qed (use st in auto)

lemma sem_wait_steps:
  assumes I: "sem_inv m s" and t: "t < m" and st: "wait_timeout_until t s = Some r"
    and b: "int (sm_fresh s) < 2 ^ 62" "permits m s < 2 ^ 62"
  shows "sem_kept m s r"
proof (cases "sm_pc s t")
  case SPush
  let ?n = "sm_fresh s"
  let ?s = "sgoto t (SSub ?n) (s\<lparr>sm_queue := sm_queue s @ [?n], sm_blk := (sm_blk s)(?n := sync_blocker), sm_fresh := Suc ?n\<rparr>)"
  have "hstep t (sem_hand s) Tau (sem_hand ?s)"
    by (rule hstep_eqI [OF h_push [of "sem_hand s" t ?n] sem_hand_eqI]) (use SPush in auto)
  then have "sem_kept m s (SQuiet, ?s)"
    by (intro sem_keptI sem_move [where p = "SSub ?n", OF I t]) (use SPush in auto)
  then show ?thesis using st SPush by (simp add: Let_def)
next
  case (SSub x)
  have i: "isize (sm_cnt s - 1) = sm_cnt s - 1"
    using sem_cnt_bounds [OF I] b by (intro isize_id) auto
  let ?p = "if sm_cnt s > 0 then KPop (KStop x) else SStop x"
  have "sem_kept m s (SQuiet, sgoto t ?p (s\<lparr>sm_cnt := isize (sm_cnt s - 1)\<rparr>))"
    by (rule sem_keptI, rule sem_stutter [where p = ?p, OF I t]) (use SSub i in auto)
  then show ?thesis using st SSub by (simp add: Let_def)
next
  case (SStop x)
  have "sem_kept m s (SQuiet, sgoto t (SPark x) s)"
    by (rule sem_keptI, rule sem_stutter [where p = "SPark x", OF I t]) (use SStop in auto)
  then show ?thesis using st SStop by simp
next
  case (SStopCheck x)
  show ?thesis
  proof (cases "is_unparked (sm_blk s x)")
    case True
    have "hstep t (sem_hand s) (Consumed x) (sem_hand (sgoto t SIdle s))"
      by (rule hstep_eqI [OF h_take_now [of "sem_hand s" t x] sem_hand_eqI]) (use SStopCheck True in auto)
    from sem_consume [OF I t this, of SAcquired] show ?thesis using st SStopCheck True by simp
  next
    case False
    have "sem_kept m s (SQuiet, sgoto t (SStopRelease x) s)"
      by (rule sem_keptI, rule sem_stutter [where p = "SStopRelease x", OF I t]) (use SStopCheck in auto)
    then show ?thesis using st SStopCheck False by simp
  qed
next
  case (SStopRelease x)
  have "hstep t (sem_hand s) Tau (sem_hand (sgoto t (SStopRecheck x) (supd x (set_release (sm_blk s x)) s)))"
    by (rule hstep_eqI [OF h_set_release [of "sem_hand s" t x] sem_hand_eqI]) (use SStopRelease in auto)
  from sem_tau [OF I t this] show ?thesis using st SStopRelease by simp
next
  case (SStopRecheck x)
  let ?p = "if is_unparked (sm_blk s x) then SStopTake x else SIdle"
  have "hstep t (sem_hand s) Tau (sem_hand (sgoto t ?p s))"
  proof (cases "is_unparked (sm_blk s x)")
    case True
    show ?thesis by (rule hstep_eqI [OF h_recheck [of "sem_hand s" t x] sem_hand_eqI]) (use SStopRecheck True in auto)
  next
    case False
    show ?thesis by (rule hstep_eqI [OF h_gone [of "sem_hand s" t x] sem_hand_eqI]) (use SStopRecheck False in auto)
  qed
  from sem_tau [OF I t this] show ?thesis using st SStopRecheck by (simp split: if_splits)
next
  case (SStopTake x)
  obtain r' b' where r': "take_release (sm_blk s x) = (r', b')" by fastforce
  have h: "hstep t (sem_hand s) (if r' then Consumed x else Tau) (sem_hand (sgoto t SIdle (supd x b' s)))"
    by (rule hstep_eqI [OF h_take [of "sem_hand s" t x r' b'] sem_hand_eqI]) (use SStopTake r' in auto)
  have "sem_kept m s (if r' then SAcquired else SQuiet, sgoto t SIdle (supd x b' s))"
    using sem_consume [OF I t, of x SIdle "supd x b' s" SAcquired] sem_tau [OF I t, of SIdle "supd x b' s"] h SStopTake
    by (cases r') auto
  then show ?thesis using st SStopTake r' by simp
next
  case (SPark x)
  then have tk: "bk_token (sm_blk s x)" using st by (simp split: if_splits)
  have "hstep t (sem_hand s) (Consumed x) (sem_hand (sgoto t SIdle (supd x (park_return (sm_blk s x)) s)))"
    by (rule hstep_eqI [OF h_park [of "sem_hand s" t x] sem_hand_eqI]) (use SPark tk in auto)
  from sem_consume [OF I t this, of SAcquired] show ?thesis using st SPark tk by simp
next
  case (SErr x e)
  show ?thesis
  proof (cases "is_unparked (sm_blk s x)")
    case True
    have "hstep t (sem_hand s) (Consumed x) (sem_hand (sgoto t (PLoad (KErr e) True) s))"
      by (rule hstep_eqI [OF h_take_now [of "sem_hand s" t x] sem_hand_eqI]) (use SErr True in auto)
    from sem_consume [OF I t this, of SQuiet] show ?thesis using st SErr True by simp
  next
    case False
    have "sem_kept m s (SQuiet, sgoto t (SErrRelease x e) s)"
      by (rule sem_keptI, rule sem_stutter [where p = "SErrRelease x e", OF I t]) (use SErr in auto)
    then show ?thesis using st SErr False by simp
  qed
next
  case (SErrRelease x e)
  have "hstep t (sem_hand s) Tau (sem_hand (sgoto t (SErrRecheck x e) (supd x (set_release (sm_blk s x)) s)))"
    by (rule hstep_eqI [OF h_set_release [of "sem_hand s" t x] sem_hand_eqI]) (use SErrRelease in auto)
  from sem_tau [OF I t this] show ?thesis using st SErrRelease by simp
next
  case (SErrRecheck x e)
  let ?p = "if is_unparked (sm_blk s x) then SErrTake x e else sresume (KErr e)"
  have "hstep t (sem_hand s) Tau (sem_hand (sgoto t ?p s))"
  proof (cases "is_unparked (sm_blk s x)")
    case True
    show ?thesis by (rule hstep_eqI [OF h_recheck [of "sem_hand s" t x] sem_hand_eqI]) (use SErrRecheck True in auto)
  next
    case False
    show ?thesis by (rule hstep_eqI [OF h_gone [of "sem_hand s" t x] sem_hand_eqI]) (use SErrRecheck False in auto)
  qed
  from sem_tau [OF I t this] show ?thesis using st SErrRecheck by (simp split: if_splits)
next
  case (SErrTake x e)
  obtain r' b' where r': "take_release (sm_blk s x) = (r', b')" by fastforce
  let ?p = "if r' then PLoad (KErr e) True else sresume (KErr e)"
  have h: "hstep t (sem_hand s) (if r' then Consumed x else Tau) (sem_hand (sgoto t ?p (supd x b' s)))"
    by (rule hstep_eqI [OF h_take [of "sem_hand s" t x r' b'] sem_hand_eqI]) (use SErrTake r' in auto)
  have "sem_kept m s (SQuiet, sgoto t ?p (supd x b' s))"
    using sem_consume [OF I t, of x "PLoad (KErr e) True" "supd x b' s" SQuiet]
      sem_tau [OF I t, of "sresume (KErr e)" "supd x b' s"] h SErrTake
    by (cases r') auto
  then show ?thesis using st SErrTake r' by simp
qed (use st in auto)

lemma sem_post:
  assumes I: "sem_inv m s" and t: "t < m" and st: "post t s = Some r" and b: "permits m s < 2 ^ 62"
  shows "sem_kept m s r"
proof (cases "sm_pc s t")
  case (PLoad k own)
  have c: "sm_cnt s < isize_max" using sem_cnt_bounds(2) [OF I] b by (simp add: isize_max_def)
  have "sem_kept m s (SQuiet, sgoto t (PCas k own (sm_cnt s)) s)"
    by (rule sem_keptI, rule sem_stutter [where p = "PCas k own (sm_cnt s)", OF I t]) (use PLoad c in auto)
  then show ?thesis using st PLoad c by simp
next
  case (PCas k own x)
  show ?thesis
  proof (cases "sm_cnt s = x")
    case True
    let ?p = "if x < 0 then KPop k else sresume k"
    have "sem_kept m s (if own then SQuiet else SPosted, sgoto t ?p (s\<lparr>sm_cnt := x + 1\<rparr>))"
      by (rule sem_keptI, rule sem_stutter [where p = ?p, OF I t]) (use PCas True in auto)
    then show ?thesis using st PCas True by simp
  next
    case False
    have "sem_kept m s (SQuiet, sgoto t (PLoad k own) s)"
      by (rule sem_keptI, rule sem_stutter [where p = "PLoad k own", OF I t]) (use PCas in auto)
    then show ?thesis using st PCas False by simp
  qed
qed (use st in auto)

lemma sem_step:
  assumes I: "sem_inv m s" and t: "t < m" and st: "sem_next t a s = Some r"
    and b: "int (sm_fresh s) < 2 ^ 62" "permits m s < 2 ^ 62"
  shows "sem_kept m s r"
proof (cases a)
  case SRun
  then show ?thesis
    using st sem_try_wait [OF I t] sem_wait_steps [OF I t _ b] sem_wakeup_one [OF I t _ b] sem_post [OF I t _ b(2)]
    by (auto split: option.splits simp del: try_wait.simps wait_timeout_until.simps wakeup_one.simps post.simps)
next
  case StopTrue
  then obtain x where x: "sm_pc s t = SStop x" "r = (SQuiet, sgoto t (SStopCheck x) s)" using st by (auto split: spc.splits)
  have "hstep t (sem_hand s) Tau (sem_hand (sgoto t (SStopCheck x) s))"
    by (rule hstep_eqI [OF h_leave [of "sem_hand s" t x] sem_hand_eqI]) (use x in auto)
  from sem_tau [OF I t this] show ?thesis using x by simp
next
  case (ParkFails e)
  then obtain x where x: "sm_pc s t = SPark x" "r = (SQuiet, sgoto t (SErr x e) (supd x (park_return (sm_blk s x)) s))"
    using st by (auto split: spc.splits)
  have "hstep t (sem_hand s) Tau (sem_hand (sgoto t (SErr x e) (supd x (park_return (sm_blk s x)) s)))"
    by (rule hstep_eqI [OF h_cancel [of "sem_hand s" t x] sem_hand_eqI]) (use x in auto)
  from sem_tau [OF I t this] show ?thesis using x by simp
next
  case SpuriousCas
  then obtain k own x where x: "sm_pc s t = PCas k own x" "r = (SQuiet, sgoto t (PLoad k own) s)"
    using st by (auto split: spc.splits)
  show ?thesis unfolding x(2)
    by (rule sem_keptI, rule sem_stutter [where p = "PLoad k own", OF I t]) (use x in auto)
next
  case CallWait
  then have x: "sm_pc s t \<in> {SIdle, SPanicked}" "r = (SQuiet, sgoto t (TLoad CWait) s)" using st by (auto split: if_splits)
  show ?thesis unfolding x(2)
    by (rule sem_keptI, rule sem_stutter [where p = "TLoad CWait", OF I t]) (use x(1) in auto)
next
  case CallTryWait
  then have x: "sm_pc s t \<in> {SIdle, SPanicked}" "r = (SQuiet, sgoto t (TLoad CTry) s)" using st by (auto split: if_splits)
  show ?thesis unfolding x(2)
    by (rule sem_keptI, rule sem_stutter [where p = "TLoad CTry", OF I t]) (use x(1) in auto)
next
  case CallPost
  then have x: "sm_pc s t \<in> {SIdle, SPanicked}" "r = (SQuiet, sgoto t (PLoad KIdle False) s)" using st by (auto split: if_splits)
  show ?thesis unfolding x(2)
    by (rule sem_keptI, rule sem_stutter [where p = "PLoad KIdle False", OF I t]) (use x(1) in auto)
qed

lemma sem_inv_new:
  assumes "semphore_new init = Some s"
  shows "sem_inv m s \<and> permits m s = int init \<and> sm_fresh s = 0"
proof -
  have s: "s = \<lparr>sm_cnt = int init, sm_queue = [], sm_blk = (\<lambda>_. sync_blocker), sm_fresh = 0, sm_pc = (\<lambda>_. SIdle)\<rparr>"
    using assms by (simp add: semphore_new_def split: if_splits)
  then have h: "sem_hand s = hand_new" by (simp add: sem_hand_def hand_new_def)
  have "handed hand_new = {}" by (simp add: handed_def hand_new_def)
  then show ?thesis unfolding sem_inv_def permits_def h by (simp add: hand_ok_new s total_def)
qed

lemma sem_run_inv:
  assumes "sem_run m init es s" "init + length es < 2 ^ 62"
  shows "sem_inv m s \<and> sm_fresh s \<le> length es \<and>
    permits m s + int (count_list es SAcquired) = int init + int (count_list es SPosted)"
  using assms
proof (induction rule: sem_run.induct)
  case (sem_run_new s)
  then show ?case using sem_inv_new [of init s m] by simp
next
  case (sem_run_step es s t a e s')
  then have IH: "sem_inv m s" "sm_fresh s \<le> length es"
    "permits m s + int (count_list es SAcquired) = int init + int (count_list es SPosted)" by auto
  have c: "count_list es SPosted \<le> length es" by (rule count_le_length)
  have "int (init + length es) < int (2 ^ 62)" using sem_run_step.prems by (simp only: of_nat_less_iff length_append)
  then have l: "int init + int (length es) < 2 ^ 62" by simp
  have "sem_kept m s (e, s')"
    by (rule sem_step [OF IH(1) sem_run_step.hyps(2,3)]) (use IH c l in auto)
  with IH show ?case by (cases e) (auto simp: sem_kept_def)
qed

lemma sem_inv_quiet:
  assumes I: "sem_inv m s"
    and q0: "\<forall>t. sm_pc s t \<in> {SIdle, SPanicked} \<or> (\<exists>b. sm_pc s t = SPark b \<and> \<not> bk_token (sm_blk s b))"
  shows "int (get_value s) = permits m s" and "sm_pc s t = SPark b \<Longrightarrow> b \<in> set (sm_queue s) \<and> has_waiters s \<and> permits m s = 0"
proof -
  have ok: "hand_ok (sem_hand s)" using I by (simp add: sem_inv_def)
  have pc: "sm_pc s t = SIdle \<or> sm_pc s t = SPanicked \<or> (\<exists>b. sm_pc s t = SPark b \<and> \<not> bk_token (sm_blk s b))" for t
    using q0 by auto
  have q: "hand_quiet (sem_hand s)" unfolding hand_quiet_def
  proof (intro conjI allI)
    fix t
    show "hd_g (sem_hand s) t = GNone" using pc [of t] by auto
    show "hd_w (sem_hand s) t = WNone \<or> (\<exists>b. hd_w (sem_hand s) t = WPark b \<and> \<not> bk_token (hd_blk (sem_hand s) b))"
      using pc [of t] by auto
  qed
  have "handed (sem_hand s) = {}" by (rule hand_quietD(1) [OF ok q])
  moreover have z: "total f m s = 0" if "f SIdle = 0" "f SPanicked = 0" "\<And>b. f (SPark b) = 0" for f
    unfolding total_def
  proof (rule sum.neutral, intro ballI)
    fix t show "f (sm_pc s t) = 0" using pc [of t] that by auto
  qed
  ultimately have p: "permits m s = max 0 (sm_cnt s)" unfolding permits_def by (simp add: z)
  then have gv: "int (get_value s) = permits m s" by (simp add: get_value_def)
  have len: "int (length (sm_queue s)) = max 0 (- sm_cnt s)" using I by (simp add: sem_inv_def z)
  have "b \<in> set (sm_queue s) \<and> sm_cnt s < 0" if "sm_pc s t = SPark b" for t b
  proof -
    have b: "b \<in> set (sm_queue s)" using hand_quietD(2) [OF ok q, of t b] that by simp
    then have "0 < int (length (sm_queue s))" by (cases "sm_queue s") auto
    then have "sm_cnt s < 0" using len by linarith
    with b show ?thesis by blast
  qed
  then show "int (get_value s) = permits m s" "sm_pc s t = SPark b \<Longrightarrow> b \<in> set (sm_queue s) \<and> has_waiters s \<and> permits m s = 0"
    using gv p by (auto simp: has_waiters_def)
qed

section \<open>Properties\<close>

text \<open>
  C8: no permit is created, lost or used twice. In every run of any number of tasks, with timeouts,
  cancellations and stopped waits at any point, the permits acquired plus those that are free or on their
  way to a waiter are the initial ones plus those posted; in particular never more are acquired than
  were there. No waiter is popped from an empty queue and the counter stays inside its 64 bits.
\<close>

theorem semphore_conserves:
  assumes "sem_run m init es s" and "init + length es < 2 ^ 62"
  shows "permits m s + int (count_list es SAcquired) = int init + int (count_list es SPosted) \<and>
    count_list es SAcquired \<le> init + count_list es SPosted \<and>
    (\<forall>t. sm_pc s t \<noteq> SBroken) \<and> \<bar>sm_cnt s\<bar> < 2 ^ 62"
proof -
  from sem_run_inv [OF assms] have I: "sem_inv m s" "sm_fresh s \<le> length es"
    and c: "permits m s + int (count_list es SAcquired) = int init + int (count_list es SPosted)" by auto
  have p: "0 \<le> permits m s" using total_nonneg [of m s] by (simp add: permits_def)
  have "spc_ok (sm_pc s t)" for t using I by (simp add: sem_inv_def)
  then have "sm_pc s t \<noteq> SBroken" for t by (metis spc_ok.simps(3))
  moreover have "int (init + length es) < int (2 ^ 62)" using assms(2) by (simp only: of_nat_less_iff)
  then have "\<bar>sm_cnt s\<bar> < 2 ^ 62"
    using sem_cnt_bounds [OF I(1)] I(2) c count_le_length [of es SPosted] by auto
  moreover have "count_list es SAcquired \<le> init + count_list es SPosted" using c p by linarith
  ultimately show ?thesis using c by blast
qed

text \<open>
  No lost wake-up. When every task is outside the semaphore or parked without a token, no permit
  is on its way: \<^verbatim>\<open>get_value\<close> is exactly the number of permits not acquired, and if a task is parked then
  every permit has been acquired, the counter shows waiters, and the blocker of the task is in the queue.
\<close>

theorem semphore_no_lost_wakeup:
  assumes "sem_run m init es s" and "init + length es < 2 ^ 62"
    and "\<forall>t. sm_pc s t \<in> {SIdle, SPanicked} \<or> (\<exists>b. sm_pc s t = SPark b \<and> \<not> bk_token (sm_blk s b))"
  shows "int (get_value s) + int (count_list es SAcquired) = int init + int (count_list es SPosted) \<and>
    (\<forall>t b. sm_pc s t = SPark b \<longrightarrow> b \<in> set (sm_queue s) \<and> has_waiters s \<and>
       count_list es SAcquired = init + count_list es SPosted)"
proof -
  from sem_run_inv [OF assms(1,2)] have I: "sem_inv m s"
    and c: "permits m s + int (count_list es SAcquired) = int init + int (count_list es SPosted)" by auto
  from sem_inv_quiet [OF I assms(3)] show ?thesis using c by auto
qed

text \<open>An action of one of the \<open>m\<close> tasks.\<close>

definition sem_act :: "nat \<Rightarrow> nat \<times> sact \<Rightarrow> semphore \<Rightarrow> (sev \<times> semphore) option" where
  "sem_act m x s = (if fst x < m then sem_next (fst x) (snd x) s else None)"

interpretation sem_runs: event_runs "sem_run m init" "sem_act m" for m init
  by unfold_locales (auto simp: sem_act_def intro: sem_run_step split: if_splits)

theorem semphore_conserves_witness:
  "\<exists>s. sem_run 2 1 [SQuiet, SQuiet, SAcquired] s \<and> permits 2 s = 0"
proof -
  obtain s0 where s0: "semphore_new 1 = Some s0" by (simp add: semphore_new_def isize_max_def)
  then obtain s where "exec_acts (sem_act 2) [(0, CallTryWait), (0, SRun), (0, SRun)] s0 = Some ([SQuiet, SQuiet, SAcquired], s)"
    by (auto simp: sem_act_def semphore_new_def isize_max_def sgoto_def)
  from sem_runs.exec_run_from [OF sem_run_new [OF s0, of 2] this]
  have run: "sem_run 2 1 [SQuiet, SQuiet, SAcquired] s" by simp
  from semphore_conserves [OF this] run show ?thesis by (intro exI [of _ s]) simp
qed

section \<open>The contract of the semaphore\<close>

text \<open>
  What a client that pairs permits with items relies on: a step posts a permit, acquires one or neither, and
  nothing else changes the number of permits. A client keeps \<open>q\<close> items, \<open>c\<close> acquired permits that have
  not been used and \<open>u\<close> items whose permit is not posted yet; \<open>x\<close> permits were posted, or items removed, without
  a partner, and \<open>v\<close> permits were used on an empty store.
\<close>

locale permit_contract =
  fixes inv :: "'s \<Rightarrow> bool" and perms :: "'s \<Rightarrow> int" and step :: "'s \<Rightarrow> sev \<Rightarrow> 's \<Rightarrow> bool"
  assumes step_inv: "inv s \<Longrightarrow> step s e s' \<Longrightarrow> inv s'"
    and step_perms: "inv s \<Longrightarrow> step s e s' \<Longrightarrow> perms s' = perms s + sdelta e"
    and perms_nonneg: "inv s \<Longrightarrow> 0 \<le> perms s"
begin

definition ledger :: "nat \<Rightarrow> nat \<Rightarrow> nat \<Rightarrow> nat \<Rightarrow> nat \<Rightarrow> 's \<Rightarrow> bool" where
  "ledger q x c u v s \<longleftrightarrow> int q + int x = perms s + int c + int u + int v \<and> v \<le> x"

lemma ledger_push: "ledger q x c u v s \<Longrightarrow> ledger (Suc q) x c (Suc u) v s"
  by (simp add: ledger_def)

lemma ledger_quiet: "inv s \<Longrightarrow> step s SQuiet s' \<Longrightarrow> ledger q x c u v s \<Longrightarrow> ledger q x c u v s'"
  using step_perms [of s SQuiet s'] by (simp add: ledger_def)

lemma ledger_post: "inv s \<Longrightarrow> step s SPosted s' \<Longrightarrow> ledger q x c (Suc u) v s \<Longrightarrow> ledger q x c u v s'"
  using step_perms [of s SPosted s'] by (simp add: ledger_def)

lemma ledger_extra: "inv s \<Longrightarrow> step s SPosted s' \<Longrightarrow> ledger q x c u v s \<Longrightarrow> ledger q (Suc x) c u v s'"
  using step_perms [of s SPosted s'] by (simp add: ledger_def)

lemma ledger_acquire: "inv s \<Longrightarrow> step s SAcquired s' \<Longrightarrow> ledger q x c u v s \<Longrightarrow> ledger q x (Suc c) u v s'"
  using step_perms [of s SAcquired s'] by (simp add: ledger_def)

lemma ledger_pop: "ledger (Suc q) x (Suc c) u v s \<Longrightarrow> ledger q x c u v s"
  by (simp add: ledger_def)

lemma ledger_clear: "ledger (Suc q) x c u v s \<Longrightarrow> ledger q (Suc x) c u v s"
  by (simp add: ledger_def)

text \<open>A permit that finds the store empty was posted without an item.\<close>

lemma ledger_void: "inv s \<Longrightarrow> ledger 0 x (Suc c) u v s \<Longrightarrow> ledger 0 x c u (Suc v) s \<and> 0 < x"
  using perms_nonneg [of s] by (simp add: ledger_def)

lemma ledger_rest: "ledger q x 0 0 v s \<Longrightarrow> int q \<le> perms s \<and> (x = 0 \<longrightarrow> int q = perms s)"
  by (auto simp: ledger_def)

end

definition sem_bounded :: "nat \<Rightarrow> semphore \<Rightarrow> bool" where
  "sem_bounded m s \<longleftrightarrow> int (sm_fresh s) < 2 ^ 62 \<and> permits m s < 2 ^ 62"

definition sem_rel :: "nat \<Rightarrow> semphore \<Rightarrow> sev \<Rightarrow> semphore \<Rightarrow> bool" where
  "sem_rel m s e s' \<longleftrightarrow> sem_bounded m s \<and> (\<exists>t a. t < m \<and> sem_next t a s = Some (e, s'))"

interpretation sem: permit_contract "sem_inv m" "permits m" "sem_rel m" for m
proof
  fix s e s' assume I: "sem_inv m s" and st: "sem_rel m s e s'"
  then have "sem_kept m s (e, s')" using sem_step [OF I] by (auto simp: sem_rel_def sem_bounded_def simp del: sem_next.simps)
  then show "sem_inv m s'" "permits m s' = permits m s + sdelta e" by (simp_all add: sem_kept_def)
next
  fix s assume "sem_inv m s"
  show "0 \<le> permits m s" using total_nonneg [of m s] by (simp add: permits_def)
qed

end
