(* ===== verification/Sync_Flag.thy ===== *)
theory Sync_Flag
  imports Handoff
begin

text \<open>
  The one-way flag of \<^verbatim>\<open>src/sync/sync_flag.rs\<close> as a transition system. Any number of tasks wait on the flag or fire
  it; every access to \<^verbatim>\<open>cnt\<close>, to the waiter queue and to the flags of a blocker is one step, and the waiters
  follow the hand-off protocol of \<^verbatim>\<open>SyncBlocker\<close>. The queue is \<^verbatim>\<open>crossbeam\<close>'s \<^verbatim>\<open>SegQueue\<close>, taken with its
  first-in-first-out meaning.
\<close>

section \<open>Model\<close>

text \<open>Where \<^verbatim>\<open>wakeup_all\<close> returns to: the wait, the client's \<^verbatim>\<open>fire\<close>, or a wait that failed.\<close>

datatype fcont = FKWait nat | FKFire | FKErr park_error

datatype fpc =
    FIdle
  | FTest                        \<comment> \<open>before \<^verbatim>\<open>is_fired\<close>\<close>
  | FPush                        \<comment> \<open>before \<^verbatim>\<open>to_wake.push(cur)\<close>\<close>
  | FSub nat                     \<comment> \<open>before \<^verbatim>\<open>cnt.fetch_sub(1)\<close>\<close>
  | FPark nat                    \<comment> \<open>in \<^verbatim>\<open>cur.park(dur)\<close>\<close>
  | FErr nat park_error          \<comment> \<open>\<^verbatim>\<open>park\<close> failed: before \<^verbatim>\<open>is_unparked\<close>\<close>
  | FErrRelease nat park_error   \<comment> \<open>before \<^verbatim>\<open>set_release\<close>\<close>
  | FErrRecheck nat park_error   \<comment> \<open>before the second \<^verbatim>\<open>is_unparked\<close>\<close>
  | FErrTake nat park_error      \<comment> \<open>before \<^verbatim>\<open>take_release\<close>\<close>
  | FStore fcont                 \<comment> \<open>\<^verbatim>\<open>fire\<close>: before \<^verbatim>\<open>cnt.store(isize::MAX)\<close>\<close>
  | FPop fcont                   \<comment> \<open>\<^verbatim>\<open>wakeup_all\<close>: before \<^verbatim>\<open>to_wake.pop()\<close>\<close>
  | FUnpark nat fcont            \<comment> \<open>\<^verbatim>\<open>w.unpark()\<close>: before \<^verbatim>\<open>unparked.store(true)\<close>\<close>
  | FWake nat fcont              \<comment> \<open>\<^verbatim>\<open>w.unpark()\<close>: before \<^verbatim>\<open>blocker.unpark()\<close>\<close>
  | FRelease nat fcont           \<comment> \<open>before \<^verbatim>\<open>w.take_release()\<close>\<close>
  | FPanicked

record sync_flag =
  fl_cnt :: int
  fl_queue :: "nat list"
  fl_blk :: "nat \<Rightarrow> blocker"
  fl_fresh :: nat
  fl_pc :: "nat \<Rightarrow> fpc"

definition sync_flag_new :: sync_flag where
  "sync_flag_new = \<lparr>fl_cnt = 0, fl_queue = [], fl_blk = (\<lambda>_. sync_blocker), fl_fresh = 0, fl_pc = (\<lambda>_. FIdle)\<rparr>"

definition fgoto :: "nat \<Rightarrow> fpc \<Rightarrow> sync_flag \<Rightarrow> sync_flag" where
  "fgoto t p s = s\<lparr>fl_pc := (fl_pc s)(t := p)\<rparr>"

definition fupd :: "nat \<Rightarrow> blocker \<Rightarrow> sync_flag \<Rightarrow> sync_flag" where
  "fupd b v s = s\<lparr>fl_blk := (fl_blk s)(b := v)\<rparr>"

fun fresume :: "fcont \<Rightarrow> fpc" where
  "fresume (FKWait b) = FPark b"
| "fresume FKFire = FIdle"
| "fresume (FKErr e) = (if e = Canceled then FPanicked else FIdle)"

definition is_fired :: "sync_flag \<Rightarrow> bool" where
  "is_fired s \<longleftrightarrow> fl_cnt s > 0"

text \<open>The result of a call of \<^verbatim>\<open>wait\<close>, shown by the step that returns it.\<close>

datatype fev = FQuiet | FWaited bool

fun wakeup_all :: "nat \<Rightarrow> sync_flag \<Rightarrow> sync_flag option" where
  "wakeup_all t s = (case fl_pc s t of
     FPop k \<Rightarrow> (case fl_queue s of
       [] \<Rightarrow> Some (fgoto t (fresume k) s)
     | w # q \<Rightarrow> Some (fgoto t (FUnpark w k) (s\<lparr>fl_queue := q\<rparr>)))
   | FUnpark w k \<Rightarrow> Some (fgoto t (FWake w k) (fupd w (unpark_flag (fl_blk s w)) s))
   | FWake w k \<Rightarrow> Some (fgoto t (FRelease w k) (fupd w (unpark_wake (fl_blk s w)) s))
   | FRelease w k \<Rightarrow> Some (fgoto t (FPop k) (fupd w (snd (take_release (fl_blk s w))) s))
   | _ \<Rightarrow> None)"

fun fire :: "nat \<Rightarrow> sync_flag \<Rightarrow> sync_flag option" where
  "fire t s = (case fl_pc s t of
     FStore k \<Rightarrow> Some (fgoto t (FPop k) (s\<lparr>fl_cnt := isize_max\<rparr>))
   | _ \<Rightarrow> wakeup_all t s)"

fun wait_timeout_impl :: "nat \<Rightarrow> sync_flag \<Rightarrow> (fev \<times> sync_flag) option" where
  "wait_timeout_impl t s = (case fl_pc s t of
     FTest \<Rightarrow> if is_fired s then Some (FWaited True, fgoto t FIdle s) else Some (FQuiet, fgoto t FPush s)
   | FPush \<Rightarrow>
       (let cur = fl_fresh s in
        Some (FQuiet, fgoto t (FSub cur)
          (s\<lparr>fl_queue := fl_queue s @ [cur], fl_blk := (fl_blk s)(cur := sync_blocker), fl_fresh := Suc cur\<rparr>)))
   | FSub cur \<Rightarrow>
       (let old = fl_cnt s in
        Some (FQuiet, fgoto t (if old > 0 then FPop (FKWait cur) else FPark cur) (s\<lparr>fl_cnt := isize (old - 1)\<rparr>)))
   | FPark cur \<Rightarrow>
       if bk_token (fl_blk s cur)
       then Some (FWaited True, fgoto t FIdle (fupd cur (park_return (fl_blk s cur)) s))
       else None
   | FErr cur e \<Rightarrow>
       Some (FQuiet, fgoto t (if is_unparked (fl_blk s cur) then FStore (FKErr e) else FErrRelease cur e) s)
   | FErrRelease cur e \<Rightarrow> Some (FQuiet, fgoto t (FErrRecheck cur e) (fupd cur (set_release (fl_blk s cur)) s))
   | FErrRecheck cur e \<Rightarrow>
       if is_unparked (fl_blk s cur) then Some (FQuiet, fgoto t (FErrTake cur e) s)
       else Some (FWaited False, fgoto t (fresume (FKErr e)) s)
   | FErrTake cur e \<Rightarrow>
       (let (r, b) = take_release (fl_blk s cur) in
        Some (if r then FQuiet else FWaited False,
              fgoto t (if r then FStore (FKErr e) else fresume (FKErr e)) (fupd cur b s)))
   | _ \<Rightarrow> None)"

text \<open>The client and the scheduler: calls of \<^verbatim>\<open>wait\<close> and \<^verbatim>\<open>fire\<close>, and a park that times out or is canceled.\<close>

datatype fact = FCallWait | FCallFire | FParkFails park_error | FRun

fun flag_next :: "nat \<Rightarrow> fact \<Rightarrow> sync_flag \<Rightarrow> (fev \<times> sync_flag) option" where
  "flag_next t FCallWait s = (if fl_pc s t \<in> {FIdle, FPanicked} then Some (FQuiet, fgoto t FTest s) else None)"
| "flag_next t FCallFire s = (if fl_pc s t \<in> {FIdle, FPanicked} then Some (FQuiet, fgoto t (FStore FKFire) s) else None)"
| "flag_next t (FParkFails e) s = (case fl_pc s t of
     FPark b \<Rightarrow> Some (FQuiet, fgoto t (FErr b e) (fupd b (park_return (fl_blk s b)) s))
   | _ \<Rightarrow> None)"
| "flag_next t FRun s = (case wait_timeout_impl t s of
     Some r \<Rightarrow> Some r
   | None \<Rightarrow> map_option (\<lambda>s'. (FQuiet, s')) (fire t s))"

text \<open>Runs with the events they show. A step lowers the counter by one at most, so that short runs cannot wrap it.\<close>

inductive flag_run :: "fev list \<Rightarrow> sync_flag \<Rightarrow> bool" where
  flag_run_new: "flag_run [] sync_flag_new"
| flag_run_step: "flag_run es s \<Longrightarrow> flag_next t a s = Some (e, s') \<Longrightarrow> flag_run (es @ [e]) s'"

section \<open>Invariant\<close>

fun fkview :: "fcont \<Rightarrow> wside" where
  "fkview (FKWait b) = WPark b"
| "fkview _ = WNone"

fun fwview :: "fpc \<Rightarrow> wside" where
  "fwview (FSub b) = WPark b"
| "fwview (FPark b) = WPark b"
| "fwview (FErr b _) = WLeave b"
| "fwview (FErrRelease b _) = WLeave b"
| "fwview (FErrRecheck b _) = WLate b"
| "fwview (FErrTake b _) = WTake b"
| "fwview (FStore k) = fkview k"
| "fwview (FPop k) = fkview k"
| "fwview (FUnpark _ k) = fkview k"
| "fwview (FWake _ k) = fkview k"
| "fwview (FRelease _ k) = fkview k"
| "fwview _ = WNone"

fun fgview :: "fpc \<Rightarrow> gside" where
  "fgview (FUnpark w _) = Give w"
| "fgview (FWake w _) = Wake w"
| "fgview (FRelease w _) = Rel w"
| "fgview _ = GNone"

definition flag_hand :: "sync_flag \<Rightarrow> hand" where
  "flag_hand s = \<lparr>hd_queue = fl_queue s, hd_fresh = fl_fresh s, hd_blk = fl_blk s,
     hd_w = (\<lambda>t. fwview (fl_pc s t)), hd_g = (\<lambda>t. fgview (fl_pc s t))\<rparr>"

text \<open>
  \<open>drains\<close>: the task is in \<^verbatim>\<open>wakeup_all\<close>, or will enter it if the flag is fired. \<open>after_fire\<close>: the task is at a point
  that is only reached when the flag is fired.
\<close>

fun drains :: "fpc \<Rightarrow> bool" where
  "drains (FSub _) = True"
| "drains (FPop _) = True"
| "drains (FUnpark _ _) = True"
| "drains (FWake _ _) = True"
| "drains (FRelease _ _) = True"
| "drains _ = False"

fun after_fire :: "fpc \<Rightarrow> bool" where
  "after_fire (FPop _) = True"
| "after_fire (FUnpark _ _) = True"
| "after_fire (FWake _ _) = True"
| "after_fire (FRelease _ _) = True"
| "after_fire (FErrTake _ _) = True"
| "after_fire (FStore (FKErr _)) = True"
| "after_fire _ = False"

definition fired_ok :: "sync_flag \<Rightarrow> bool" where
  "fired_ok s \<longleftrightarrow> (is_fired s \<longrightarrow> fl_queue s \<noteq> [] \<longrightarrow> (\<exists>t. drains (fl_pc s t))) \<and>
     (\<forall>t. after_fire (fl_pc s t) \<longrightarrow> is_fired s) \<and> (\<forall>b. bk_unparked (fl_blk s b) \<longrightarrow> is_fired s)"

definition fcnt_ok :: "nat \<Rightarrow> sync_flag \<Rightarrow> bool" where
  "fcnt_ok n s \<longleftrightarrow> - int n \<le> fl_cnt s \<and> fl_cnt s \<le> isize_max \<and> (is_fired s \<longrightarrow> isize_max - int n \<le> fl_cnt s)"

definition flag_inv :: "nat \<Rightarrow> sync_flag \<Rightarrow> bool" where
  "flag_inv n s \<longleftrightarrow> hand_ok (flag_hand s) \<and> fired_ok s \<and> fcnt_ok n s"

lemma fresume_simps [simp]:
  "fwview (fresume k) = fkview k" "fgview (fresume k) = GNone" "drains (fresume k) = False" "after_fire (fresume k) = False"
  by (cases k; simp)+

lemma fgoto_sel [simp]:
  "fl_queue (fgoto t p s) = fl_queue s" "fl_cnt (fgoto t p s) = fl_cnt s" "fl_blk (fgoto t p s) = fl_blk s"
  "fl_fresh (fgoto t p s) = fl_fresh s" "fl_pc (fgoto t p s) = (fl_pc s)(t := p)"
  "fl_queue (fupd b v s) = fl_queue s" "fl_cnt (fupd b v s) = fl_cnt s" "fl_blk (fupd b v s) = (fl_blk s)(b := v)"
  "fl_fresh (fupd b v s) = fl_fresh s" "fl_pc (fupd b v s) = fl_pc s"
  by (simp_all add: fgoto_def fupd_def)

lemma flag_hand_sel [simp]:
  "hd_queue (flag_hand s) = fl_queue s" "hd_fresh (flag_hand s) = fl_fresh s" "hd_blk (flag_hand s) = fl_blk s"
  "hd_w (flag_hand s) t = fwview (fl_pc s t)" "hd_g (flag_hand s) t = fgview (fl_pc s t)"
  by (simp_all add: flag_hand_def)

lemma flag_hand_eqI:
  assumes "fl_queue s' = hd_queue H" "fl_fresh s' = hd_fresh H" "fl_blk s' = hd_blk H"
    "\<And>t. fwview (fl_pc s' t) = hd_w H t" "\<And>t. fgview (fl_pc s' t) = hd_g H t"
  shows "H = flag_hand s'"
  using assms by (intro hand.equality) (auto simp: flag_hand_def)

text \<open>
  One step of task \<open>t\<close>: a step of the protocol, the new control point, and what it needs of the flag. A step never
  resets the flag, and it leaves a drained queue behind when it is the last one out of \<^verbatim>\<open>wakeup_all\<close>.
\<close>

lemma flag_move:
  assumes I: "flag_inv n s" and st: "hstep t (flag_hand s) e (flag_hand s')" and pc: "fl_pc s' = (fl_pc s)(t := p)"
    and mono: "is_fired s \<Longrightarrow> is_fired s'" and after: "after_fire p \<Longrightarrow> is_fired s'"
    and out: "is_fired s' \<Longrightarrow> \<not> drains p \<Longrightarrow> drains (fl_pc s t) \<Longrightarrow> fl_queue s' = []"
    and new: "is_fired s' \<Longrightarrow> \<not> is_fired s \<Longrightarrow> drains p"
    and grow: "length (fl_queue s') > length (fl_queue s) \<Longrightarrow> drains p"
    and unp: "\<And>b. bk_unparked (fl_blk s' b) \<Longrightarrow> bk_unparked (fl_blk s b) \<or> is_fired s'"
    and cnt: "fcnt_ok (Suc n) s'"
  shows "flag_inv (Suc n) s'"
proof -
  have ok: "hand_ok (flag_hand s')" using hstep_ok [OF st] I by (simp add: flag_inv_def)
  have F: "fired_ok s" using I by (simp add: flag_inv_def)
  have "\<exists>u. drains (fl_pc s' u)" if f: "is_fired s'" "fl_queue s' \<noteq> []"
  proof (cases "drains p")
    case False
    then have "is_fired s" "\<not> drains (fl_pc s t)" "fl_queue s \<noteq> []" using new out grow f by auto
    then obtain u where "drains (fl_pc s u)" "u \<noteq> t" using F unfolding fired_ok_def by metis
    then show ?thesis by (auto simp: pc)
  qed (auto simp: pc)
  moreover have "is_fired s'" if "after_fire (fl_pc s' u)" for u
    using that after mono F unfolding fired_ok_def pc by (auto split: if_splits)
  moreover have "is_fired s'" if "bk_unparked (fl_blk s' b)" for b
    using unp [OF that] mono F unfolding fired_ok_def by blast
  ultimately have "fired_ok s'" unfolding fired_ok_def by blast
  with ok cnt show ?thesis by (simp add: flag_inv_def)
qed

text \<open>A step that does not touch the counter.\<close>

lemma flag_keep:
  assumes I: "flag_inv n s" and st: "hstep t (flag_hand s) e (flag_hand (fgoto t p r))"
    and r: "fl_pc r = fl_pc s" "fl_cnt r = fl_cnt s"
    and after: "after_fire p \<Longrightarrow> is_fired s" and out: "is_fired s \<Longrightarrow> \<not> drains p \<Longrightarrow> drains (fl_pc s t) \<Longrightarrow> fl_queue r = []"
    and grow: "length (fl_queue r) > length (fl_queue s) \<Longrightarrow> drains p"
    and unp: "\<And>b. bk_unparked (fl_blk r b) \<Longrightarrow> bk_unparked (fl_blk s b) \<or> is_fired s"
  shows "flag_inv (Suc n) (fgoto t p r)"
proof (rule flag_move [OF I st])
  show "fcnt_ok (Suc n) (fgoto t p r)" using I r by (auto simp: flag_inv_def fcnt_ok_def is_fired_def)
qed (use assms in \<open>auto simp: is_fired_def\<close>)

lemma flag_stutter:
  assumes I: "flag_inv n s" and v: "fwview p = fwview (fl_pc s t)" "fgview p = fgview (fl_pc s t)"
    and after: "after_fire p \<Longrightarrow> is_fired s" and out: "is_fired s \<Longrightarrow> \<not> drains p \<Longrightarrow> drains (fl_pc s t) \<Longrightarrow> fl_queue s = []"
  shows "flag_inv (Suc n) (fgoto t p s)"
proof -
  have "flag_hand s = flag_hand (fgoto t p s)" by (rule flag_hand_eqI) (use v in auto)
  then have "hstep t (flag_hand s) Tau (flag_hand (fgoto t p s))" by (simp add: h_stutter)
  then show ?thesis by (rule flag_keep [OF I]) (use after out in auto)
qed

lemma flag_after: "flag_inv n s \<Longrightarrow> after_fire (fl_pc s t) \<Longrightarrow> is_fired s"
  "flag_inv n s \<Longrightarrow> bk_unparked (fl_blk s b) \<Longrightarrow> is_fired s"
  by (auto simp: flag_inv_def fired_ok_def)

lemma flag_wakeup_all:
  assumes I: "flag_inv n s" and st: "wakeup_all t s = Some s'"
  shows "flag_inv (Suc n) s'"
proof (cases "fl_pc s t")
  case (FPop k)
  show ?thesis
  proof (cases "fl_queue s")
    case Nil
    then have "s' = fgoto t (fresume k) s" using st FPop by simp
    then show ?thesis using FPop Nil by (auto intro!: flag_stutter [OF I])
  next
    case (Cons w q)
    have "hstep t (flag_hand s) Tau (flag_hand (fgoto t (FUnpark w k) (s\<lparr>fl_queue := q\<rparr>)))"
      by (rule hstep_eqI [OF h_pop [of "flag_hand s" w q t] flag_hand_eqI]) (use FPop Cons in auto)
    from flag_keep [OF I this] show ?thesis using st FPop Cons flag_after(1) [OF I, of t] flag_after(2) [OF I] by simp
  qed
next
  case (FUnpark w k)
  have "hstep t (flag_hand s) (Handed w) (flag_hand (fgoto t (FWake w k) (fupd w (unpark_flag (fl_blk s w)) s)))"
    by (rule hstep_eqI [OF h_unpark [of "flag_hand s" t w] flag_hand_eqI]) (use FUnpark in auto)
  from flag_keep [OF I this] show ?thesis using st FUnpark flag_after(1) [OF I, of t] by simp
next
  case (FWake w k)
  have "hstep t (flag_hand s) Tau (flag_hand (fgoto t (FRelease w k) (fupd w (unpark_wake (fl_blk s w)) s)))"
    by (rule hstep_eqI [OF h_wake [of "flag_hand s" t w] flag_hand_eqI]) (use FWake in auto)
  from flag_keep [OF I this] show ?thesis using st FWake flag_after(1) [OF I, of t] by simp
next
  case (FRelease w k)
  obtain r b where r: "take_release (fl_blk s w) = (r, b)" by fastforce
  have "hstep t (flag_hand s) (if r then Consumed w else Tau) (flag_hand (fgoto t (FPop k) (fupd w b s)))"
    by (rule hstep_eqI [OF h_rel [of "flag_hand s" t w r b] flag_hand_eqI]) (use FRelease r in auto)
  from flag_keep [OF I this] show ?thesis using st FRelease r flag_after(1) [OF I, of t] by simp
qed (use st in auto)

lemma flag_fire:
  assumes I: "flag_inv n s" and st: "fire t s = Some s'"
  shows "flag_inv (Suc n) s'"
proof (cases "\<exists>k. fl_pc s t = FStore k")
  case True
  then obtain k where k: "fl_pc s t = FStore k" by blast
  let ?s = "fgoto t (FPop k) (s\<lparr>fl_cnt := isize_max\<rparr>)"
  have "flag_hand s = flag_hand ?s" by (rule flag_hand_eqI) (use k in auto)
  then have h: "hstep t (flag_hand s) Tau (flag_hand ?s)" by (simp add: h_stutter)
  have "flag_inv (Suc n) ?s"
    by (rule flag_move [OF I h]) (auto simp: is_fired_def isize_max_def fcnt_ok_def)
  then show ?thesis using st k by simp
next
  case False
  then have "wakeup_all t s = Some s'" using st by (cases "fl_pc s t") auto
  then show ?thesis by (rule flag_wakeup_all [OF I])
qed

lemma flag_sub:
  assumes I: "flag_inv n s" and n: "int n < 2 ^ 62" and pc: "fl_pc s t = FSub b"
  shows "flag_inv (Suc n) (fgoto t (if fl_cnt s > 0 then FPop (FKWait b) else FPark b) (s\<lparr>fl_cnt := isize (fl_cnt s - 1)\<rparr>))"
    (is "flag_inv _ ?s")
proof -
  have C: "- int n \<le> fl_cnt s" "fl_cnt s \<le> isize_max" "fl_cnt s > 0 \<Longrightarrow> isize_max - int n \<le> fl_cnt s"
    using I by (auto simp: flag_inv_def fcnt_ok_def is_fired_def)
  have e: "isize (fl_cnt s - 1) = fl_cnt s - 1" by (rule isize_id) (use C n in \<open>auto simp: isize_max_def\<close>)
  have f: "is_fired ?s \<longleftrightarrow> is_fired s" using C n by (auto simp: is_fired_def e isize_max_def)
  have "flag_hand s = flag_hand ?s" by (rule flag_hand_eqI) (use pc in auto)
  then have h: "hstep t (flag_hand s) Tau (flag_hand ?s)" by (simp add: h_stutter)
  show ?thesis
  proof (rule flag_move [OF I h])
    show "fcnt_ok (Suc n) ?s" using C f by (auto simp: fcnt_ok_def e is_fired_def)
  qed (use f in \<open>auto simp: is_fired_def\<close>)
qed

lemma flag_wait:
  assumes I: "flag_inv n s" and n: "int n < 2 ^ 62" and st: "wait_timeout_impl t s = Some (e, s')"
  shows "flag_inv (Suc n) s'"
proof (cases "fl_pc s t")
  case FTest
  then have "s' = fgoto t (if is_fired s then FIdle else FPush) s" using st by (auto split: if_splits)
  then show ?thesis using FTest by (auto intro!: flag_stutter [OF I])
next
  case FPush
  let ?r = "s\<lparr>fl_queue := fl_queue s @ [fl_fresh s], fl_blk := (fl_blk s)(fl_fresh s := sync_blocker), fl_fresh := Suc (fl_fresh s)\<rparr>"
  have "hstep t (flag_hand s) Tau (flag_hand (fgoto t (FSub (fl_fresh s)) ?r))"
    by (rule hstep_eqI [OF h_push [of "flag_hand s" t "fl_fresh s"] flag_hand_eqI]) (use FPush in auto)
  then have "flag_inv (Suc n) (fgoto t (FSub (fl_fresh s)) ?r)" by (rule flag_keep [OF I]) (auto split: if_splits)
  then show ?thesis using st FPush by (simp add: Let_def)
next
  case (FSub b)
  from flag_sub [OF I n this] show ?thesis using st FSub by (simp add: Let_def)
next
  case (FPark b)
  then have tk: "bk_token (fl_blk s b)" using st by (simp split: if_splits)
  have "hstep t (flag_hand s) (Consumed b) (flag_hand (fgoto t FIdle (fupd b (park_return (fl_blk s b)) s)))"
    by (rule hstep_eqI [OF h_park [of "flag_hand s" t b] flag_hand_eqI]) (use FPark tk in auto)
  then have "flag_inv (Suc n) (fgoto t FIdle (fupd b (park_return (fl_blk s b)) s))"
    by (rule flag_keep [OF I]) (use FPark in \<open>auto split: if_splits\<close>)
  then show ?thesis using st FPark tk by simp
next
  case (FErr b x)
  show ?thesis
  proof (cases "bk_unparked (fl_blk s b)")
    case True
    have "hstep t (flag_hand s) (Consumed b) (flag_hand (fgoto t (FStore (FKErr x)) s))"
      by (rule hstep_eqI [OF h_take_now [of "flag_hand s" t b] flag_hand_eqI]) (use FErr True in auto)
    then have "flag_inv (Suc n) (fgoto t (FStore (FKErr x)) s)"
      by (rule flag_keep [OF I]) (use FErr flag_after(2) [OF I True] in auto)
    then show ?thesis using st FErr True by simp
  next
    case False
    then show ?thesis using st FErr by (auto intro!: flag_stutter [OF I])
  qed
next
  case (FErrRelease b x)
  have "hstep t (flag_hand s) Tau (flag_hand (fgoto t (FErrRecheck b x) (fupd b (set_release (fl_blk s b)) s)))"
    by (rule hstep_eqI [OF h_set_release [of "flag_hand s" t b] flag_hand_eqI]) (use FErrRelease in auto)
  then have "flag_inv (Suc n) (fgoto t (FErrRecheck b x) (fupd b (set_release (fl_blk s b)) s))"
    by (rule flag_keep [OF I]) (use FErrRelease in \<open>auto split: if_splits\<close>)
  then show ?thesis using st FErrRelease by simp
next
  case (FErrRecheck b x)
  show ?thesis
  proof (cases "bk_unparked (fl_blk s b)")
    case True
    have "hstep t (flag_hand s) Tau (flag_hand (fgoto t (FErrTake b x) s))"
      by (rule hstep_eqI [OF h_recheck [of "flag_hand s" t b] flag_hand_eqI]) (use FErrRecheck True in auto)
    then have "flag_inv (Suc n) (fgoto t (FErrTake b x) s)"
      by (rule flag_keep [OF I]) (use FErrRecheck flag_after(2) [OF I True] in auto)
    then show ?thesis using st FErrRecheck True by simp
  next
    case False
    have "hstep t (flag_hand s) Tau (flag_hand (fgoto t (fresume (FKErr x)) s))"
      by (rule hstep_eqI [OF h_gone [of "flag_hand s" t b] flag_hand_eqI]) (use FErrRecheck False in auto)
    then have "flag_inv (Suc n) (fgoto t (fresume (FKErr x)) s)"
      by (rule flag_keep [OF I]) (use FErrRecheck in \<open>auto split: if_splits\<close>)
    then show ?thesis using st FErrRecheck False by simp
  qed
next
  case (FErrTake b x)
  obtain r v where r: "take_release (fl_blk s b) = (r, v)" by fastforce
  let ?p = "if r then FStore (FKErr x) else fresume (FKErr x)"
  have "hstep t (flag_hand s) (if r then Consumed b else Tau) (flag_hand (fgoto t ?p (fupd b v s)))"
    by (rule hstep_eqI [OF h_take [of "flag_hand s" t b r v] flag_hand_eqI]) (use FErrTake r in auto)
  then have "flag_inv (Suc n) (fgoto t ?p (fupd b v s))"
    by (rule flag_keep [OF I]) (use FErrTake r flag_after(1) [OF I, of t] in \<open>auto split: if_splits\<close>)
  then show ?thesis using st FErrTake r by simp
qed (use st in auto)

lemma flag_step_inv:
  assumes I: "flag_inv n s" and n: "int n < 2 ^ 62" and st: "flag_next t a s = Some (e, s')"
  shows "flag_inv (Suc n) s'"
proof (cases a)
  case FRun
  then show ?thesis using st flag_wait [OF I n] flag_fire [OF I]
    by (auto simp del: wait_timeout_impl.simps fire.simps split: option.splits)
next
  case (FParkFails x)
  then obtain b where b: "fl_pc s t = FPark b" "s' = fgoto t (FErr b x) (fupd b (park_return (fl_blk s b)) s)"
    using st by (auto split: fpc.splits)
  have "hstep t (flag_hand s) Tau (flag_hand s')" unfolding b(2)
    by (rule hstep_eqI [OF h_cancel [of "flag_hand s" t b] flag_hand_eqI]) (use b in auto)
  then show ?thesis unfolding b(2) by (rule flag_keep [OF I]) (use b(1) in \<open>auto split: if_splits\<close>)
next
  case FCallWait
  then have "fl_pc s t = FIdle \<or> fl_pc s t = FPanicked" "s' = fgoto t FTest s" using st by (auto split: if_splits)
  then show ?thesis by (auto intro!: flag_stutter [OF I])
next
  case FCallFire
  then have "fl_pc s t = FIdle \<or> fl_pc s t = FPanicked" "s' = fgoto t (FStore FKFire) s" using st by (auto split: if_splits)
  then show ?thesis by (auto intro!: flag_stutter [OF I])
qed

lemma flag_run_inv:
  assumes "flag_run es s" "int (length es) < 2 ^ 62"
  shows "flag_inv (length es) s"
  using assms
proof (induction rule: flag_run.induct)
  case flag_run_new
  have "flag_hand sync_flag_new = hand_new" by (simp add: flag_hand_def sync_flag_new_def hand_new_def)
  then show ?case
    by (simp add: flag_inv_def hand_ok_new) (simp add: fired_ok_def fcnt_ok_def is_fired_def sync_flag_new_def isize_max_def sync_blocker_def)
next
  case (flag_run_step es s t a e s')
  then have "int (length es) < 2 ^ 62" by simp
  from flag_step_inv [OF flag_run_step.IH [OF this] this flag_run_step.hyps(2)] show ?case by simp
qed

section \<open>Properties\<close>

lemma flag_waited:
  assumes I: "flag_inv n s" and st: "flag_next t a s = Some (FWaited True, s')"
  shows "is_fired s"
proof (cases a)
  case FRun
  show ?thesis
  proof (cases "fl_pc s t")
    case (FPark b)
    then have "bk_token (fl_blk s b)" using st FRun by (auto split: if_splits)
    then have "bk_unparked (fl_blk s b)" using I by (simp add: flag_inv_def hand_ok_def hand_token_def)
    then show ?thesis by (rule flag_after(2) [OF I])
  qed (use st FRun in \<open>auto simp: Let_def split: if_splits list.splits prod.splits\<close>)
qed (use st in \<open>auto split: if_splits fpc.splits\<close>)

lemma flag_cnt:
  assumes "flag_next t a s = Some (e, s')"
  shows "fl_cnt s' = fl_cnt s \<or> fl_cnt s' = isize_max \<or> fl_cnt s' = isize (fl_cnt s - 1)"
proof (cases a)
  case FRun
  then show ?thesis using assms
    by (cases "fl_pc s t") (auto simp: Let_def split: if_splits list.splits prod.splits)
qed (use assms in \<open>auto split: if_splits fpc.splits\<close>)

lemma flag_mono:
  assumes I: "flag_inv n s" and n: "int n < 2 ^ 62" and f: "is_fired s" and st: "flag_next t a s = Some (e, s')"
  shows "is_fired s'"
proof -
  have C: "isize_max - int n \<le> fl_cnt s" "fl_cnt s \<le> isize_max" using I f by (auto simp: flag_inv_def fcnt_ok_def)
  then have "isize (fl_cnt s - 1) = fl_cnt s - 1" by (intro isize_id) (use n in \<open>auto simp: isize_max_def\<close>)
  then show ?thesis using flag_cnt [OF st] C n f by (auto simp: is_fired_def isize_max_def)
qed

text \<open>
  C30: the flag is fired once and for all and wakes everybody. In every run with timeouts and cancellations at any
  point, no step resets a fired flag, \<^verbatim>\<open>wait\<close> returns true only when the flag is fired, and when every task is outside
  its calls or parked without a token, no task is parked on a fired flag.
\<close>

theorem sync_flag_wakes_all:
  assumes "flag_run es s" and "length es + 1 < 2 ^ 62"
  shows "(\<forall>t a e s'. flag_next t a s = Some (e, s') \<longrightarrow> is_fired s \<longrightarrow> is_fired s') \<and>
    (\<forall>t a s'. flag_next t a s = Some (FWaited True, s') \<longrightarrow> is_fired s) \<and>
    ((\<forall>t. fl_pc s t \<in> {FIdle, FPanicked} \<or> (\<exists>b. fl_pc s t = FPark b \<and> \<not> bk_token (fl_blk s b))) \<longrightarrow>
       is_fired s \<longrightarrow> (\<forall>t. fl_pc s t \<in> {FIdle, FPanicked}))"
proof -
  have n: "int (length es) < 2 ^ 62" using assms(2) by simp
  from flag_run_inv [OF assms(1) n] have I: "flag_inv (length es) s" .
  have "fl_pc s t \<in> {FIdle, FPanicked}"
    if pc: "\<forall>t. fl_pc s t \<in> {FIdle, FPanicked} \<or> (\<exists>b. fl_pc s t = FPark b \<and> \<not> bk_token (fl_blk s b))" and f: "is_fired s" for t
  proof (rule ccontr)
    assume "fl_pc s t \<notin> {FIdle, FPanicked}"
    then obtain b where b: "fl_pc s t = FPark b" using pc by blast
    have pc': "fl_pc s u = FIdle \<or> fl_pc s u = FPanicked \<or> (\<exists>b. fl_pc s u = FPark b \<and> \<not> bk_token (fl_blk s b))" for u
      using pc by auto
    have "hand_quiet (flag_hand s)" unfolding hand_quiet_def
    proof (intro conjI allI)
      fix u
      show "hd_g (flag_hand s) u = GNone" using pc' [of u] by auto
      show "hd_w (flag_hand s) u = WNone \<or> (\<exists>b. hd_w (flag_hand s) u = WPark b \<and> \<not> bk_token (hd_blk (flag_hand s) b))"
        using pc' [of u] by auto
    qed
    then have "b \<in> set (fl_queue s)" using hand_quietD(2) [of "flag_hand s" t b] I b by (simp add: flag_inv_def)
    then obtain u where "drains (fl_pc s u)" using I f by (auto simp: flag_inv_def fired_ok_def)
    then show False using pc' [of u] by auto
  qed
  then show ?thesis using flag_mono [OF I n] flag_waited [OF I] by blast
qed

interpretation flag_runs: event_runs flag_run "\<lambda>(t, a). flag_next t a"
  by unfold_locales (auto intro: flag_run_step simp del: flag_next.simps)

theorem sync_flag_wakes_all_witness:
  "\<exists>s s'. flag_run (replicate 10 FQuiet) s \<and> flag_next 0 FRun s = Some (FWaited True, s') \<and> is_fired s'"
proof -
  let ?as = "[(0, FCallWait), (0, FRun), (0, FRun), (0, FRun), (1, FCallFire), (1, FRun), (1, FRun), (1, FRun), (1, FRun), (1, FRun)]"
  have i: "isize (- 1) = - 1" by (rule isize_id) simp_all
  obtain s where s: "exec_acts (\<lambda>(t, a). flag_next t a) ?as sync_flag_new = Some (replicate 10 FQuiet, s)" "fl_pc s 0 = FPark 0" "bk_token (fl_blk s 0)"
    by (auto simp: sync_flag_new_def is_fired_def Let_def eval_nat_numeral i blocker_defs)
  from flag_runs.exec_run_from [OF flag_run_new s(1)] have run: "flag_run (replicate 10 FQuiet) s" by simp
  obtain s' where s': "flag_next 0 FRun s = Some (FWaited True, s')" using s(2,3) by simp
  from sync_flag_wakes_all [OF run] s' have "is_fired s'" by (simp del: flag_next.simps) blast
  with run s' show ?thesis by blast
qed

end
