(* ===== verification/Barrier_Group.thy ===== *)
theory Barrier_Group
  imports Prelude
begin

text \<open>
  The two clients of a mutex with a condition variable: \<^verbatim>\<open>src/sync/barrier.rs\<close> and \<^verbatim>\<open>src/sync/wait_group.rs\<close>.
  Each critical section is one step, which is what the exclusion of the mutex gives; \<^verbatim>\<open>Condvar::wait\<close> enqueues the
  task in the critical section that releases the lock, and a woken task takes the lock again before it tests its
  condition. A cancellation may unwind a waiting task at any time, and wake-ups may be spurious.
\<close>

section \<open>Barrier\<close>

datatype bar_pc =
    BIdle
  | BWait usize      \<comment> \<open>in the queue of the condition variable, with its \<^verbatim>\<open>local_gen\<close>\<close>
  | BWoken usize     \<comment> \<open>woken, before the lock is taken again\<close>
  | BPassed bool     \<comment> \<open>returned; the flag is \<^verbatim>\<open>is_leader\<close>\<close>
  | BUnwound

record barrier =
  br_count :: usize
  br_gen :: usize
  br_pc :: "nat \<Rightarrow> bar_pc"

definition barrier_new :: barrier where
  "barrier_new = \<lparr>br_count = 0, br_gen = 0, br_pc = (\<lambda>_. BIdle)\<rparr>"

definition bgoto :: "nat \<Rightarrow> bar_pc \<Rightarrow> barrier \<Rightarrow> barrier" where
  "bgoto t p s = s\<lparr>br_pc := (br_pc s)(t := p)\<rparr>"

text \<open>\<^verbatim>\<open>cvar.notify_all()\<close>\<close>

fun bwake :: "bar_pc \<Rightarrow> bar_pc" where
  "bwake (BWait g) = BWoken g"
| "bwake p = p"

definition bnotify_all :: "barrier \<Rightarrow> barrier" where
  "bnotify_all s = s\<lparr>br_pc := (\<lambda>t. bwake (br_pc s t))\<rparr>"

definition barrier_wait :: "usize \<Rightarrow> nat \<Rightarrow> barrier \<Rightarrow> barrier" where
  "barrier_wait n t s =
     (let local_gen = br_gen s; count = br_count s + 1 in
      if count < n then bgoto t (BWait local_gen) (s\<lparr>br_count := count\<rparr>)
      else bgoto t (BPassed True) (bnotify_all (s\<lparr>br_count := 0, br_gen := br_gen s + 1\<rparr>)))"

text \<open>The test of \<^verbatim>\<open>wait_while\<close> after a wake-up.\<close>

definition barrier_retest :: "nat \<Rightarrow> usize \<Rightarrow> barrier \<Rightarrow> barrier" where
  "barrier_retest t local_gen s = (if local_gen = br_gen s then bgoto t (BWait local_gen) s else bgoto t (BPassed False) s)"

datatype bev = BQuiet | BArrived | BLeads

datatype bact = BCall nat | BSpurious nat | BRetest nat | BCancel nat

fun barrier_next :: "usize \<Rightarrow> bact \<Rightarrow> barrier \<Rightarrow> (bev \<times> barrier) option" where
  "barrier_next n (BCall t) s = (case br_pc s t of
     BWait _ \<Rightarrow> None
   | BWoken _ \<Rightarrow> None
   | _ \<Rightarrow> Some (if br_count s + 1 < n then BArrived else BLeads, barrier_wait n t s))"
| "barrier_next n (BSpurious t) s = (case br_pc s t of BWait g \<Rightarrow> Some (BQuiet, bgoto t (BWoken g) s) | _ \<Rightarrow> None)"
| "barrier_next n (BRetest t) s = (case br_pc s t of BWoken g \<Rightarrow> Some (BQuiet, barrier_retest t g s) | _ \<Rightarrow> None)"
| "barrier_next n (BCancel t) s = (case br_pc s t of
     BWait g \<Rightarrow> Some (BQuiet, bgoto t BUnwound s) | BWoken g \<Rightarrow> Some (BQuiet, bgoto t BUnwound s) | _ \<Rightarrow> None)"

inductive barrier_run :: "usize \<Rightarrow> bev list \<Rightarrow> barrier \<Rightarrow> bool" for n where
  barrier_run_new: "barrier_run n [] barrier_new"
| barrier_run_step: "barrier_run n es s \<Longrightarrow> barrier_next n a s = Some (e, s') \<Longrightarrow> barrier_run n (es @ [e]) s'"

text \<open>The calls of \<^verbatim>\<open>wait\<close> so far, and the rounds completed.\<close>

definition arrivals :: "bev list \<Rightarrow> nat" where
  "arrivals es = count_list es BArrived + count_list es BLeads"

definition rounds :: "bev list \<Rightarrow> nat" where
  "rounds es = count_list es BLeads"

text \<open>
  A queued task belongs to the current round, and a woken one to this or to an earlier one. The generation
  number would repeat after \<open>2\<^sup>6\<^sup>4\<close> rounds; runs are taken up to there.
\<close>

definition gen_ok :: "nat \<Rightarrow> bar_pc \<Rightarrow> bool" where
  "gen_ok r p \<longleftrightarrow> (case p of BWait g \<Rightarrow> unat g = r | BWoken g \<Rightarrow> unat g \<le> r | _ \<Rightarrow> True)"

definition barrier_inv :: "usize \<Rightarrow> bev list \<Rightarrow> barrier \<Rightarrow> bool" where
  "barrier_inv n es s \<longleftrightarrow> unat (br_gen s) = rounds es \<and> unat (br_count s) < unat n \<and>
     arrivals es = rounds es * unat n + unat (br_count s) \<and> (\<forall>t. gen_ok (rounds es) (br_pc s t))"

lemma bgoto_sel [simp]:
  "br_count (bgoto t p s) = br_count s" "br_gen (bgoto t p s) = br_gen s" "br_pc (bgoto t p s) = (br_pc s)(t := p)"
  "br_count (bnotify_all s) = br_count s" "br_gen (bnotify_all s) = br_gen s"
  "br_pc (bnotify_all s) t = bwake (br_pc s t)"
  by (simp_all add: bgoto_def bnotify_all_def)

lemma tally_snoc [simp]:
  "rounds (es @ [e]) = rounds es + (if e = BLeads then 1 else 0)"
  "arrivals (es @ [e]) = arrivals es + (if e = BQuiet then 0 else 1)"
  by (cases e; simp add: rounds_def arrivals_def)+

lemma unat_Suc: "Suc (unat x) < 2 ^ 64 \<Longrightarrow> unat ((x :: usize) + 1) = Suc (unat x)"
  by (simp add: unat_word_ariths)

lemma gen_ok_wake: "gen_ok r p \<Longrightarrow> gen_ok (Suc r) (bwake p)"
  by (cases p) (auto simp: gen_ok_def)

lemma barrier_inv_goto: "barrier_inv n es s \<Longrightarrow> gen_ok (rounds es) p \<Longrightarrow> barrier_inv n (es @ [BQuiet]) (bgoto t p s)"
  by (simp add: barrier_inv_def)

lemma barrier_step_inv:
  assumes I: "barrier_inv n es s" and st: "barrier_next n a s = Some (e, s')" and r: "rounds (es @ [e]) < 2 ^ 64"
  shows "barrier_inv n (es @ [e]) s'"
proof (cases a)
  case (BCall t)
  have c: "unat (br_count s) < unat n" using I by (simp add: barrier_inv_def)
  have "unat n < 2 ^ 64" using unsigned_less [of n] by simp
  with c have u: "unat (br_count s + 1) = Suc (unat (br_count s))" by (intro unat_Suc) linarith
  show ?thesis
  proof (cases "br_count s + 1 < n")
    case True
    then have "e = BArrived" "s' = bgoto t (BWait (br_gen s)) (s\<lparr>br_count := br_count s + 1\<rparr>)"
      using st BCall by (auto simp: barrier_wait_def Let_def split: bar_pc.splits)
    moreover have "Suc (unat (br_count s)) < unat n" using True u by (simp add: word_less_nat_alt)
    ultimately show ?thesis using I u by (auto simp: barrier_inv_def gen_ok_def)
  next
    case False
    then have e: "e = BLeads" and s': "s' = bgoto t (BPassed True) (bnotify_all (s\<lparr>br_count := 0, br_gen := br_gen s + 1\<rparr>))"
      using st BCall by (auto simp: barrier_wait_def Let_def split: bar_pc.splits)
    have n: "unat n = Suc (unat (br_count s))" using False u c by (simp add: word_less_nat_alt)
    have g: "unat (br_gen s + 1) = Suc (rounds es)"
      using r e I by (subst unat_Suc) (auto simp: barrier_inv_def)
    have "gen_ok (Suc (rounds es)) (br_pc s' u)" for u
      using I gen_ok_wake [of "rounds es" "br_pc s u"] by (auto simp: barrier_inv_def s' gen_ok_def)
    then show ?thesis using I g n by (simp add: barrier_inv_def e s')
  qed
next
  case (BRetest t)
  then obtain g where g: "br_pc s t = BWoken g" "e = BQuiet" "s' = barrier_retest t g s" using st by (auto split: bar_pc.splits)
  then have "g = br_gen s \<Longrightarrow> gen_ok (rounds es) (BWait g)" using I by (simp add: barrier_inv_def gen_ok_def)
  then show ?thesis using barrier_inv_goto [OF I] g by (simp add: barrier_retest_def gen_ok_def)
next
  case (BSpurious t)
  then obtain g where g: "br_pc s t = BWait g" "e = BQuiet" "s' = bgoto t (BWoken g) s" using st by (auto split: bar_pc.splits)
  moreover have "gen_ok (rounds es) (br_pc s t)" using I by (simp add: barrier_inv_def)
  ultimately show ?thesis using barrier_inv_goto [OF I] by (simp add: gen_ok_def)
next
  case (BCancel t)
  then have "e = BQuiet" "s' = bgoto t BUnwound s" using st by (auto split: bar_pc.splits)
  then show ?thesis using barrier_inv_goto [OF I] by (simp add: gen_ok_def)
qed

lemma barrier_run_inv:
  assumes "barrier_run n es s" "0 < n" "rounds es < 2 ^ 64"
  shows "barrier_inv n es s"
  using assms(1,3)
proof (induction rule: barrier_run.induct)
  case barrier_run_new
  then show ?case using assms(2)
    by (simp add: barrier_inv_def barrier_new_def gen_ok_def rounds_def arrivals_def word_less_nat_alt)
next
  case (barrier_run_step es s a e s')
  then have "rounds es < 2 ^ 64" by simp
  from barrier_step_inv [OF barrier_run_step.IH [OF this] barrier_run_step.hyps(2) barrier_run_step.prems] show ?case .
qed

text \<open>
  C35: the barrier opens exactly at every \<open>n\<close>-th call. In every run with spurious wake-ups and cancellations, the
  number of leaders is the number of calls divided by \<open>n\<close>, \<^verbatim>\<open>count\<close> is the remainder, no task of the current round
  passes as a follower, and a task that stays in the queue belongs to the current round, so that nobody is left behind
  by \<^verbatim>\<open>notify_all\<close>.
\<close>

theorem barrier_opens_every_nth:
  assumes "barrier_run n es s" and "0 < n" and "rounds es < 2 ^ 64"
  shows "rounds es = arrivals es div unat n \<and> unat (br_count s) = arrivals es mod unat n \<and>
    (\<forall>t g. br_pc s t = BWait g \<longrightarrow> g = br_gen s) \<and>
    (\<forall>t g. br_pc s t = BWoken g \<longrightarrow>
       (br_pc (barrier_retest t g s) t = BPassed False \<longleftrightarrow> (unat g + 1) * unat n \<le> arrivals es))"
proof -
  from barrier_run_inv [OF assms] have I: "barrier_inv n es s" .
  then have c: "unat (br_count s) < unat n" and a: "arrivals es = rounds es * unat n + unat (br_count s)"
    and g: "unat (br_gen s) = rounds es" by (auto simp: barrier_inv_def)
  have ok: "gen_ok (rounds es) (br_pc s t)" for t using I by (simp add: barrier_inv_def)
  have d: "rounds es = arrivals es div unat n" "unat (br_count s) = arrivals es mod unat n" using a c by auto
  have "x = br_gen s" if "br_pc s t = BWait x" for t x
    using ok [of t] that g by (simp add: gen_ok_def) (metis word_unat_eq_iff)
  moreover have "br_pc (barrier_retest t x s) t = BPassed False \<longleftrightarrow> (unat x + 1) * unat n \<le> arrivals es"
    if "br_pc s t = BWoken x" for t x
  proof -
    have x: "unat x \<le> rounds es" using ok [of t] that by (simp add: gen_ok_def)
    have "br_pc (barrier_retest t x s) t = BPassed False \<longleftrightarrow> x \<noteq> br_gen s" by (simp add: barrier_retest_def)
    also have "x \<noteq> br_gen s \<longleftrightarrow> unat x + 1 \<le> rounds es" using x g by (metis Suc_eq_plus1 Suc_leI le_neq_implies_less not_less_eq_eq word_unat_eq_iff order_refl)
    also have "\<dots> \<longleftrightarrow> (unat x + 1) * unat n \<le> arrivals es"
      unfolding d(1) using c by (subst less_eq_div_iff_mult_less_eq) auto
    finally show ?thesis .
  qed
  ultimately show ?thesis using d by blast
qed

interpretation barrier_runs: event_runs "barrier_run n" "barrier_next n" for n
  by unfold_locales (rule barrier_run_step)

theorem barrier_opens_every_nth_witness:
  "\<exists>s. barrier_run 2 [BArrived, BLeads] s \<and> br_pc s 0 = BWoken 0 \<and> br_pc (barrier_retest 0 0 s) 0 = BPassed False"
proof -
  obtain s where s: "exec_acts (barrier_next 2) [BCall 0, BCall 1] barrier_new = Some ([BArrived, BLeads], s)"
    "br_pc s 0 = BWoken 0"
    by (simp add: barrier_wait_def barrier_new_def Let_def)
  from barrier_runs.exec_run_from [OF barrier_run_new s(1)] have run: "barrier_run 2 [BArrived, BLeads] s" .
  have "br_pc (barrier_retest 0 0 s) 0 = BPassed False"
    using barrier_opens_every_nth [OF run] s(2) by (simp add: rounds_def arrivals_def)
  with run s(2) show ?thesis by blast
qed

section \<open>Wait group\<close>

datatype wg_pc =
    GNone         \<comment> \<open>no handle\<close>
  | GIdle         \<comment> \<open>a handle outside its calls\<close>
  | GReturning    \<comment> \<open>\<^verbatim>\<open>wait\<close> found \<^verbatim>\<open>count == 1\<close>: before the drop of the handle\<close>
  | GDropping     \<comment> \<open>\<^verbatim>\<open>wait\<close> found other handles: before \<^verbatim>\<open>drop(self)\<close>\<close>
  | GTesting      \<comment> \<open>before the lock and the test of \<^verbatim>\<open>while *count > 0\<close>\<close>
  | GQueued       \<comment> \<open>in the queue of the condition variable\<close>
  | GWaited       \<comment> \<open>\<^verbatim>\<open>wait\<close> returned\<close>

record wait_group =
  wg_count :: usize
  wg_pc :: "nat \<Rightarrow> wg_pc"

definition wait_group_new :: wait_group where
  "wait_group_new = \<lparr>wg_count = 1, wg_pc = (\<lambda>_. GNone)(0 := GIdle)\<rparr>"

definition ggoto :: "nat \<Rightarrow> wg_pc \<Rightarrow> wait_group \<Rightarrow> wait_group" where
  "ggoto t p s = s\<lparr>wg_pc := (wg_pc s)(t := p)\<rparr>"

fun gwake :: "wg_pc \<Rightarrow> wg_pc" where
  "gwake GQueued = GTesting"
| "gwake p = p"

definition gnotify_all :: "wait_group \<Rightarrow> wait_group" where
  "gnotify_all s = s\<lparr>wg_pc := (\<lambda>t. gwake (wg_pc s t))\<rparr>"

text \<open>The drop of a handle; \<open>None\<close> is the overflow check of \<^verbatim>\<open>*count -= 1\<close>.\<close>

definition wg_drop :: "nat \<Rightarrow> wg_pc \<Rightarrow> wait_group \<Rightarrow> wait_group option" where
  "wg_drop t p s = (if wg_count s = 0 then None else
     (let s1 = ggoto t p (s\<lparr>wg_count := wg_count s - 1\<rparr>) in
      Some (if wg_count s1 = 0 then gnotify_all s1 else s1)))"

definition wg_clone :: "nat \<Rightarrow> wait_group \<Rightarrow> wait_group option" where
  "wg_clone u s = (if wg_count s = - 1 then None else Some (ggoto u GIdle (s\<lparr>wg_count := wg_count s + 1\<rparr>)))"

fun wg_wait :: "nat \<Rightarrow> wait_group \<Rightarrow> wait_group option" where
  "wg_wait t s = (case wg_pc s t of
     GIdle \<Rightarrow> Some (ggoto t (if wg_count s = 1 then GReturning else GDropping) s)
   | GReturning \<Rightarrow> wg_drop t GWaited s
   | GDropping \<Rightarrow> wg_drop t GTesting s
   | GTesting \<Rightarrow> Some (ggoto t (if wg_count s > 0 then GQueued else GWaited) s)
   | _ \<Rightarrow> None)"

datatype wg_act = WgClone nat nat | WgDrop nat | WgWait nat | WgSpurious nat | WgCancel nat

fun wg_next :: "wg_act \<Rightarrow> wait_group \<Rightarrow> wait_group option" where
  "wg_next (WgClone t u) s = (if wg_pc s t = GIdle \<and> wg_pc s u \<in> {GNone, GWaited} then wg_clone u s else None)"
| "wg_next (WgDrop t) s = (if wg_pc s t = GIdle then wg_drop t GNone s else None)"
| "wg_next (WgWait t) s = wg_wait t s"
| "wg_next (WgSpurious t) s = (if wg_pc s t = GQueued then Some (ggoto t GTesting s) else None)"
| "wg_next (WgCancel t) s = (if wg_pc s t = GQueued then Some (ggoto t GNone s) else None)"

fun wg_tasks :: "wg_act \<Rightarrow> nat set" where
  "wg_tasks (WgClone t u) = {t, u}"
| "wg_tasks (WgDrop t) = {t}"
| "wg_tasks (WgWait t) = {t}"
| "wg_tasks (WgSpurious t) = {t}"
| "wg_tasks (WgCancel t) = {t}"

definition wg_step :: "nat \<Rightarrow> wait_group \<Rightarrow> wait_group \<Rightarrow> bool" where
  "wg_step m s s' \<longleftrightarrow> (\<exists>a. wg_next a s = Some s' \<and> wg_tasks a \<subseteq> {..<m})"

definition wg_start :: "wait_group \<Rightarrow> bool" where
  "wg_start s \<longleftrightarrow> s = wait_group_new"

text \<open>The handles counted in \<^verbatim>\<open>count\<close>.\<close>

fun has_handle :: "wg_pc \<Rightarrow> int" where
  "has_handle GIdle = 1"
| "has_handle GReturning = 1"
| "has_handle GDropping = 1"
| "has_handle _ = 0"

definition wg_inv :: "nat \<Rightarrow> wait_group \<Rightarrow> bool" where
  "wg_inv m s \<longleftrightarrow> int (unat (wg_count s)) = (\<Sum>t<m. has_handle (wg_pc s t)) \<and>
     (\<forall>t \<ge> m. wg_pc s t = GNone) \<and> (\<forall>t. wg_pc s t = GQueued \<longrightarrow> wg_count s > 0) \<and>
     (\<forall>t. wg_pc s t = GReturning \<longrightarrow> wg_count s = 1)"

lemma ggoto_sel [simp]:
  "wg_count (ggoto t p s) = wg_count s" "wg_pc (ggoto t p s) = (wg_pc s)(t := p)"
  "wg_count (gnotify_all s) = wg_count s" "wg_pc (gnotify_all s) t = gwake (wg_pc s t)"
  by (simp_all add: ggoto_def gnotify_all_def)

lemma handle_simps [simp]: "has_handle (gwake p) = has_handle p" "gwake p \<noteq> GQueued"
  "gwake p = GReturning \<longleftrightarrow> p = GReturning" "gwake p = GNone \<longleftrightarrow> p = GNone"
  by (cases p; simp)+

lemma handle_range: "0 \<le> has_handle p" "has_handle p \<le> 1"
  by (cases p; simp)+

lemma wg_handle_less:
  assumes "wg_inv m s" "has_handle (wg_pc s v) = 1"
  shows "v < m"
proof (rule ccontr)
  assume "\<not> v < m"
  then have "wg_pc s v = GNone" using assms(1) by (simp add: wg_inv_def)
  with assms(2) show False by simp
qed

lemma wg_single:
  assumes I: "wg_inv m s" and c: "wg_count s = 1" and t: "has_handle (wg_pc s t) = 1" "has_handle (wg_pc s u) = 1"
  shows "t = u"
proof (rule ccontr)
  assume n: "t \<noteq> u"
  have lt: "t < m" "u < m" using wg_handle_less [OF I] t by blast+
  have "(\<Sum>v\<in>{t, u}. has_handle (wg_pc s v)) \<le> (\<Sum>v<m. has_handle (wg_pc s v))"
    using lt by (intro sum_mono2) (auto simp: handle_range)
  then have "2 \<le> int (unat (wg_count s))" using I t n by (simp add: wg_inv_def)
  then show False by (simp add: c)
qed

lemma wg_inv_parts:
  assumes "wg_inv m s" "t < m" "wg_pc s' = (\<lambda>u. if u = t then p else f (wg_pc s u))" "\<And>q. has_handle (f q) = has_handle q"
    and "f GNone = GNone" "int (unat (wg_count s')) = int (unat (wg_count s)) - has_handle (wg_pc s t) + has_handle p"
    and "\<And>u. wg_pc s' u = GQueued \<Longrightarrow> wg_count s' > 0" "\<And>u. wg_pc s' u = GReturning \<Longrightarrow> wg_count s' = 1"
  shows "wg_inv m s'"
proof -
  have "(\<Sum>u<m. has_handle (wg_pc s' u)) = (\<Sum>u<m. has_handle (((wg_pc s)(t := p)) u))"
    by (rule sum.cong) (auto simp: assms(3,4))
  also have "\<dots> = (\<Sum>u<m. has_handle (wg_pc s u)) - has_handle (wg_pc s t) + has_handle p" by (rule sum_upd [OF assms(2)])
  finally show ?thesis using assms by (auto simp: wg_inv_def)
qed

lemma wg_drop_inv:
  assumes I: "wg_inv m s" and t: "t < m" "has_handle (wg_pc s t) = 1" and p: "p = GNone \<or> p = GTesting \<or> p = GWaited"
    and d: "wg_drop t p s = Some s'"
  shows "wg_inv m s'"
proof -
  have c: "wg_count s \<noteq> 0" using d by (auto simp: wg_drop_def)
  have "unat (wg_count s - 1) = unat (wg_count s) - 1" using c by (simp add: unat_minus_one)
  moreover have "unat (wg_count s) \<noteq> 0" using c by (simp add: unat_eq_0)
  ultimately have n: "int (unat (wg_count s - 1)) = int (unat (wg_count s)) - 1" by linarith
  define s1 where "s1 = ggoto t p (s\<lparr>wg_count := wg_count s - 1\<rparr>)"
  have s': "s' = (if wg_count s1 = 0 then gnotify_all s1 else s1)" using d c by (auto simp: wg_drop_def s1_def Let_def)
  have ret: "wg_pc s u \<noteq> GReturning" if "u \<noteq> t" for u
    using wg_single [OF I _ t(2), of u] I that by (auto simp: wg_inv_def)
  have h: "has_handle p = 0" "gwake p = p" using p by auto
  show ?thesis
  proof (cases "wg_count s1 = 0")
    case True
    have e: "wg_pc s' = (\<lambda>u. if u = t then p else gwake (wg_pc s u))" "wg_count s' = wg_count s - 1"
      using True h by (auto simp: s' s1_def)
    show ?thesis by (rule wg_inv_parts [OF I t(1) e(1)]) (use e h t n p ret in \<open>auto split: if_splits\<close>)
  next
    case False
    have e: "wg_pc s' = (\<lambda>u. if u = t then p else id (wg_pc s u))" "wg_count s' = wg_count s - 1" "wg_count s - 1 \<noteq> 0"
      using False by (auto simp: s' s1_def)
    show ?thesis by (rule wg_inv_parts [OF I t(1) e(1)]) (use e h t n p ret in \<open>auto simp: word_greater_zero_iff split: if_splits\<close>)
  qed
qed

lemma wg_goto_inv:
  assumes I: "wg_inv m s" and t: "t < m" "has_handle (wg_pc s t) = has_handle p"
    and p: "p = GQueued \<Longrightarrow> wg_count s > 0" "p = GReturning \<Longrightarrow> wg_count s = 1"
  shows "wg_inv m (ggoto t p s)"
proof -
  have e: "wg_pc (ggoto t p s) = (\<lambda>u. if u = t then p else id (wg_pc s u))" by auto
  show ?thesis by (rule wg_inv_parts [OF I t(1) e]) (use I t p in \<open>auto simp: wg_inv_def split: if_splits\<close>)
qed

lemma wg_clone_inv:
  assumes I: "wg_inv m s" and t: "wg_pc s t = GIdle" and u: "u < m" "wg_pc s u = GNone \<or> wg_pc s u = GWaited"
    and d: "wg_clone u s = Some s'"
  shows "wg_inv m s'"
proof -
  have c: "wg_count s \<noteq> - 1" and s': "s' = ggoto u GIdle (s\<lparr>wg_count := wg_count s + 1\<rparr>)"
    using d by (auto simp: wg_clone_def split: if_splits)
  have ret: "wg_pc s v \<noteq> GReturning" for v
    using wg_single [OF I, of t v] I t by (auto simp: wg_inv_def)
  have "unat (wg_count s + 1) = Suc (unat (wg_count s))"
    using c by (metis unatSuc add.commute eq_neg_iff_add_eq_0)
  then have n: "int (unat (wg_count s + 1)) = int (unat (wg_count s)) + 1" by simp
  have pos: "wg_count s + 1 \<noteq> 0" using c by (metis eq_neg_iff_add_eq_0)
  have e: "wg_pc s' = (\<lambda>v. if v = u then GIdle else id (wg_pc s v))" by (auto simp: s')
  have h: "has_handle (wg_pc s u) = 0" using u by auto
  show ?thesis by (rule wg_inv_parts [OF I u(1) e]) (use n h ret pos in \<open>auto simp: s' word_greater_zero_iff split: if_splits\<close>)
qed

lemma wg_step_inv:
  assumes I: "wg_inv m s" and st: "wg_step m s s'"
  shows "wg_inv m s'"
proof -
  from st obtain a where a: "wg_next a s = Some s'" "wg_tasks a \<subseteq> {..<m}" by (auto simp: wg_step_def)
  show ?thesis
  proof (cases a)
    case (WgClone t u)
    then show ?thesis using a by (auto intro: wg_clone_inv [OF I] split: if_splits)
  next
    case (WgDrop t)
    then show ?thesis using a by (auto intro: wg_drop_inv [OF I] split: if_splits)
  next
    case (WgWait t)
    then have w: "wg_wait t s = Some s'" "t < m" using a by auto
    then show ?thesis
      by (cases "wg_pc s t") (auto intro!: wg_goto_inv [OF I] intro: wg_drop_inv [OF I] split: if_splits)
  qed (use a in \<open>auto intro!: wg_goto_inv [OF I] split: if_splits\<close>)
qed

lemma wg_inv_new: "0 < m \<Longrightarrow> wg_inv m wait_group_new"
  using sum_upd [of 0 m has_handle "\<lambda>_. GNone" GIdle] by (auto simp: wg_inv_def wait_group_new_def)

interpretation wg_sys: invariant_system wg_start "wg_step (Suc m)" "wg_inv (Suc m)" for m
  by unfold_locales (auto simp: wg_start_def intro: wg_inv_new wg_step_inv)

text \<open>
  A wait group releases its waiters exactly when the last handle is gone. In every reachable state \<^verbatim>\<open>count\<close> is the
  number of live handles, so its overflow checks do not fail on a drop; a call of \<^verbatim>\<open>wait\<close> that returns leaves no
  handle alive at that moment; and a task stays in the queue only while a handle is alive.
\<close>

theorem wait_group_exact:
  assumes "reach wg_start (wg_step m) s" and "0 < m"
  shows "int (unat (wg_count s)) = (\<Sum>t<m. has_handle (wg_pc s t)) \<and>
    (\<forall>t. has_handle (wg_pc s t) = 1 \<longrightarrow> wg_drop t GNone s \<noteq> None) \<and>
    (\<forall>t s'. wg_wait t s = Some s' \<and> wg_pc s t \<noteq> GWaited \<and> wg_pc s' t = GWaited \<longrightarrow> wg_count s' = 0) \<and>
    (\<forall>t. wg_pc s t = GQueued \<longrightarrow> wg_count s > 0)"
proof -
  obtain k where k: "m = Suc k" using assms(2) by (cases m) auto
  have I: "wg_inv m s" using wg_sys.inv_reach assms(1) unfolding k .
  have nz: "wg_count s \<noteq> 0" if "has_handle (wg_pc s t) = 1" for t
  proof
    assume z: "wg_count s = 0"
    have m: "t < m" using wg_handle_less [OF I that] .
    have "(\<Sum>t<m. has_handle (wg_pc s t)) = 0" using I z by (simp add: wg_inv_def)
    then show False using m that by (subst (asm) sum_nonneg_eq_0_iff) (auto simp: handle_range)
  qed
  have "wg_count s' = 0" if w: "wg_wait t s = Some s'" "wg_pc s t \<noteq> GWaited" "wg_pc s' t = GWaited" for t s'
  proof (cases "wg_pc s t")
    case GReturning
    then have "wg_count s = 1" using I unfolding wg_inv_def by blast
    then show ?thesis using w(1) GReturning by (auto simp: wg_drop_def Let_def)
  next
    case GDropping
    then show ?thesis using w by (auto simp: wg_drop_def Let_def split: if_splits)
  qed (use w in \<open>auto split: if_splits simp: word_greater_zero_iff\<close>)
  moreover have "wg_drop t GNone s \<noteq> None" if "has_handle (wg_pc s t) = 1" for t
    using nz [OF that] by (simp add: wg_drop_def Let_def)
  ultimately show ?thesis using I unfolding wg_inv_def by blast
qed

end
