(* ===== verification/Chan_Base.thy ===== *)
theory Chan_Base
  imports Atomics
begin

text \<open>
  What the three channels of \<^verbatim>\<open>src/sync\<close> show to their clients: the answers of \<^verbatim>\<open>try_recv\<close>, the events of a run,
  and the values that entered and left the channel in it.
\<close>

text \<open>\<^verbatim>\<open>Result<T, TryRecvError>\<close>\<close>

datatype 'a answer = Got 'a | Empty | Disconnected

text \<open>
  What a step shows to the outside: a value enters the queue, a call of either side returns, or a receiver is
  unwound by a cancel panic.
\<close>

datatype 'a cev =
  Quiet | Pushed 'a | Rejected 'a | Returned "'a answer" | TimedOut | Drained 'a | Unwound

text \<open>The values that entered the queue, and those that left it towards the client or the drain loop.\<close>

definition pushed :: "'a cev list \<Rightarrow> 'a list" where
  "pushed es = concat (map (\<lambda>e. case e of Pushed v \<Rightarrow> [v] | _ \<Rightarrow> []) es)"

definition taken :: "'a cev list \<Rightarrow> 'a list" where
  "taken es = concat (map (\<lambda>e. case e of Returned (Got v) \<Rightarrow> [v] | Drained v \<Rightarrow> [v] | _ \<Rightarrow> []) es)"

lemma history_append [simp]: "pushed (es @ fs) = pushed es @ pushed fs" "taken (es @ fs) = taken es @ taken fs"
  by (simp_all add: pushed_def taken_def)

end
