(* ===== verification/Mpsc_Chan.thy ===== *)
theory Mpsc_Chan
  imports Chan_Base
begin

text \<open>
  The channel of \<^verbatim>\<open>src/sync/mpsc.rs\<close> as a transition system: any number of sender handles and one receiver.
  Every access to \<^verbatim>\<open>queue\<close>, \<^verbatim>\<open>to_wake\<close>, \<^verbatim>\<open>channels\<close>, \<^verbatim>\<open>port_dropped\<close> and to a blocker is one step. The queue is
  the one of \<^verbatim>\<open>may_queue::mpsc\<close>, taken with its first-in-first-out meaning. A \<^verbatim>\<open>Blocker\<close> is created for
  each wait and is named by a number; \<open>ch_token\<close> is its wake-up token.
\<close>

section \<open>State\<close>

datatype 'a tx_pc =
    TxNone         \<comment> \<open>no handle\<close>
  | TxIdle         \<comment> \<open>a \<^verbatim>\<open>Sender\<close> outside its calls\<close>
  | SLoad 'a       \<comment> \<open>\<^verbatim>\<open>send\<close>: before the load of \<^verbatim>\<open>port_dropped\<close>\<close>
  | SPush 'a       \<comment> \<open>before \<^verbatim>\<open>queue.push(t)\<close>\<close>
  | STake          \<comment> \<open>before \<^verbatim>\<open>to_wake.take()\<close>\<close>
  | SUnpark nat    \<comment> \<open>before \<^verbatim>\<open>w.unpark()\<close>\<close>
  | DSub           \<comment> \<open>\<^verbatim>\<open>drop_chan\<close>: before \<^verbatim>\<open>channels.fetch_sub(1)\<close>\<close>
  | DTake          \<comment> \<open>the last sender: before \<^verbatim>\<open>to_wake.take()\<close>\<close>
  | DUnpark nat    \<comment> \<open>the last sender: before \<^verbatim>\<open>w.unpark()\<close>\<close>
  | TxBroken       \<comment> \<open>\<^verbatim>\<open>panic!("bad number of channels left")\<close>\<close>

text \<open>The public call a receiver runs, and where its \<^verbatim>\<open>try_recv\<close> returns to.\<close>

datatype rcall = Blocking | Deadline

datatype rcont =
    KTry                 \<comment> \<open>\<^verbatim>\<open>Receiver::try_recv\<close>\<close>
  | KOptimistic          \<comment> \<open>the first \<^verbatim>\<open>try_recv\<close> of \<^verbatim>\<open>recv_timeout\<close>\<close>
  | KFast rcall          \<comment> \<open>the fast path of \<^verbatim>\<open>InnerQueue::recv\<close>\<close>
  | KRecheck nat rcall   \<comment> \<open>after the registration\<close>
  | KAgain rcall         \<comment> \<open>after the wait\<close>

datatype 'a rx_pc =
    RxIdle
  | RPop rcont           \<comment> \<open>\<^verbatim>\<open>try_recv\<close>: before \<^verbatim>\<open>queue.pop()\<close>\<close>
  | RLoad rcont          \<comment> \<open>before the load of \<^verbatim>\<open>channels\<close>\<close>
  | RPop2 rcont          \<comment> \<open>before the second \<^verbatim>\<open>queue.pop()\<close>\<close>
  | RStore rcall         \<comment> \<open>before \<^verbatim>\<open>to_wake.store(cur)\<close>\<close>
  | RPark nat rcall      \<comment> \<open>in \<^verbatim>\<open>cur.park(dur)\<close>\<close>
  | RLeave rcall         \<comment> \<open>after an error of \<^verbatim>\<open>park\<close>: before \<^verbatim>\<open>to_wake.clear()\<close>\<close>
  | RClear "'a answer"   \<comment> \<open>the re-check found something: before \<^verbatim>\<open>to_wake.clear()\<close>\<close>
  | RDeadline            \<comment> \<open>\<^verbatim>\<open>recv_max_until\<close>: before the test of the deadline\<close>
  | RDrop                \<comment> \<open>\<^verbatim>\<open>drop_port\<close>: before the store of \<^verbatim>\<open>port_dropped\<close>\<close>
  | RDrain               \<comment> \<open>\<^verbatim>\<open>drop_port\<close>: in the drain loop\<close>
  | RxGone

record 'a chan =
  ch_queue :: "'a list"
  ch_wake :: "nat atomic_option"
  ch_channels :: usize
  ch_port_dropped :: bool
  ch_token :: "nat \<Rightarrow> bool"
  ch_fresh :: nat
  ch_tx :: "nat \<Rightarrow> 'a tx_pc"
  ch_rx :: "'a rx_pc"

definition chan_new :: "'a chan" where
  "chan_new = \<lparr>ch_queue = [], ch_wake = ao_none, ch_channels = 1, ch_port_dropped = False, ch_token = (\<lambda>_. False),
     ch_fresh = 0, ch_tx = (\<lambda>_. TxNone)(0 := TxIdle), ch_rx = RxIdle\<rparr>"

definition tx_goto :: "nat \<Rightarrow> 'a tx_pc \<Rightarrow> 'a chan \<Rightarrow> 'a chan" where
  "tx_goto t p s = s\<lparr>ch_tx := (ch_tx s)(t := p)\<rparr>"

definition rx_goto :: "'a rx_pc \<Rightarrow> 'a chan \<Rightarrow> 'a chan" where
  "rx_goto p s = s\<lparr>ch_rx := p\<rparr>"

definition unpark :: "nat \<Rightarrow> 'a chan \<Rightarrow> 'a chan" where
  "unpark b s = s\<lparr>ch_token := (ch_token s)(b := True)\<rparr>"

section \<open>Senders\<close>

fun send :: "nat \<Rightarrow> 'a chan \<Rightarrow> ('a cev \<times> 'a chan) option" where
  "send t s = (case ch_tx s t of
     SLoad v \<Rightarrow>
       if ch_port_dropped s then Some (Rejected v, tx_goto t TxIdle s) else Some (Quiet, tx_goto t (SPush v) s)
   | SPush v \<Rightarrow> Some (Pushed v, tx_goto t STake (s\<lparr>ch_queue := ch_queue s @ [v]\<rparr>))
   | STake \<Rightarrow>
       (let (w, v) = ao_take (ch_wake s) in
        Some (Quiet, tx_goto t (case w of Some b \<Rightarrow> SUnpark b | None \<Rightarrow> TxIdle) (s\<lparr>ch_wake := v\<rparr>)))
   | SUnpark b \<Rightarrow> Some (Quiet, tx_goto t TxIdle (unpark b s))
   | _ \<Rightarrow> None)"

definition clone_chan :: "'a chan \<Rightarrow> 'a chan" where
  "clone_chan s = s\<lparr>ch_channels := ch_channels s + 1\<rparr>"

fun drop_chan :: "nat \<Rightarrow> 'a chan \<Rightarrow> ('a cev \<times> 'a chan) option" where
  "drop_chan t s = (case ch_tx s t of
     DSub \<Rightarrow>
       (let n = ch_channels s; s1 = s\<lparr>ch_channels := n - 1\<rparr> in
        Some (Quiet, tx_goto t (if n = 1 then DTake else if n > 1 then TxNone else TxBroken) s1))
   | DTake \<Rightarrow>
       (let (w, v) = ao_take (ch_wake s) in
        Some (Quiet, tx_goto t (case w of Some b \<Rightarrow> DUnpark b | None \<Rightarrow> TxNone) (s\<lparr>ch_wake := v\<rparr>)))
   | DUnpark b \<Rightarrow> Some (Quiet, tx_goto t TxNone (unpark b s))
   | _ \<Rightarrow> None)"

section \<open>Receiver\<close>

text \<open>\<^verbatim>\<open>return\<close> of \<^verbatim>\<open>try_recv\<close> into its caller.\<close>

fun rx_return :: "rcont \<Rightarrow> 'a answer \<Rightarrow> 'a chan \<Rightarrow> 'a cev \<times> 'a chan" where
  "rx_return KTry r s = (Returned r, rx_goto RxIdle s)"
| "rx_return KOptimistic r s =
     (case r of Empty \<Rightarrow> (Quiet, rx_goto RDeadline s) | _ \<Rightarrow> (Returned r, rx_goto RxIdle s))"
| "rx_return (KFast c) r s =
     (case r of Empty \<Rightarrow> (Quiet, rx_goto (RStore c) s) | _ \<Rightarrow> (Returned r, rx_goto RxIdle s))"
| "rx_return (KRecheck b c) r s =
     (case r of Empty \<Rightarrow> (Quiet, rx_goto (RPark b c) s) | _ \<Rightarrow> (Quiet, rx_goto (RClear r) s))"
| "rx_return (KAgain c) r s =
     (case r of
        Empty \<Rightarrow> (Quiet, rx_goto (case c of Blocking \<Rightarrow> RPop (KFast Blocking) | Deadline \<Rightarrow> RDeadline) s)
      | _ \<Rightarrow> (Returned r, rx_goto RxIdle s))"

fun try_recv :: "'a chan \<Rightarrow> ('a cev \<times> 'a chan) option" where
  "try_recv s = (case ch_rx s of
     RPop k \<Rightarrow> (case ch_queue s of
         v # q \<Rightarrow> Some (rx_return k (Got v) (s\<lparr>ch_queue := q\<rparr>))
       | [] \<Rightarrow> Some (Quiet, rx_goto (RLoad k) s))
   | RLoad k \<Rightarrow>
       if ch_channels s > 0 then Some (rx_return k Empty s) else Some (Quiet, rx_goto (RPop2 k) s)
   | RPop2 k \<Rightarrow> (case ch_queue s of
         v # q \<Rightarrow> Some (rx_return k (Got v) (s\<lparr>ch_queue := q\<rparr>))
       | [] \<Rightarrow> Some (rx_return k Disconnected s))
   | _ \<Rightarrow> None)"

text \<open>The steps of \<^verbatim>\<open>recv\<close> around its three calls of \<^verbatim>\<open>try_recv\<close>.\<close>

fun recv :: "'a chan \<Rightarrow> ('a cev \<times> 'a chan) option" where
  "recv s = (case ch_rx s of
     RStore c \<Rightarrow>
       (let cur = ch_fresh s in
        Some (Quiet, rx_goto (RPop (KRecheck cur c))
          (s\<lparr>ch_fresh := Suc cur, ch_token := (ch_token s)(cur := False), ch_wake := ao_store cur (ch_wake s)\<rparr>)))
   | RPark b c \<Rightarrow> if ch_token s b then Some (Quiet, rx_goto (RPop (KAgain c)) s) else None
   | RLeave c \<Rightarrow> Some (Quiet, rx_goto (RPop (KAgain c)) (s\<lparr>ch_wake := ao_clear (ch_wake s)\<rparr>))
   | RClear r \<Rightarrow> Some (Returned r, rx_goto RxIdle (s\<lparr>ch_wake := ao_clear (ch_wake s)\<rparr>))
   | _ \<Rightarrow> None)"

definition recv_max_until :: "bool \<Rightarrow> 'a chan \<Rightarrow> 'a cev \<times> 'a chan" where
  "recv_max_until expired s =
     (if expired then (TimedOut, rx_goto RxIdle s) else (Quiet, rx_goto (RPop (KFast Deadline)) s))"

fun drop_port :: "'a chan \<Rightarrow> ('a cev \<times> 'a chan) option" where
  "drop_port s = (case ch_rx s of
     RDrop \<Rightarrow> Some (Quiet, rx_goto RDrain (s\<lparr>ch_port_dropped := True\<rparr>))
   | RDrain \<Rightarrow> (case ch_queue s of
         v # q \<Rightarrow> Some (Drained v, s\<lparr>ch_queue := q\<rparr>)
       | [] \<Rightarrow> Some (Quiet, rx_goto RxGone s))
   | _ \<Rightarrow> None)"

section \<open>Runs\<close>

text \<open>
  What the clients and the scheduler decide: the calls on a sender handle, the calls on the receiver, the outcome
  of a deadline test, a park that returns an error or is unwound by a cancellation.
\<close>

datatype 'a cact =
    CallSend nat 'a | CallClone nat nat | CallDropTx nat | TxRun nat
  | CallTryRecv | CallRecv | CallRecvTimeout | CallDropRx | Expire bool | ParkErr | ParkCancel | RxRun

fun chan_next :: "'a cact \<Rightarrow> 'a chan \<Rightarrow> ('a cev \<times> 'a chan) option" where
  "chan_next (CallSend t v) s = (case ch_tx s t of TxIdle \<Rightarrow> Some (Quiet, tx_goto t (SLoad v) s) | _ \<Rightarrow> None)"
| "chan_next (CallClone t u) s = (case (ch_tx s t, ch_tx s u) of
     (TxIdle, TxNone) \<Rightarrow> Some (Quiet, tx_goto u TxIdle (clone_chan s)) | _ \<Rightarrow> None)"
| "chan_next (CallDropTx t) s = (case ch_tx s t of TxIdle \<Rightarrow> Some (Quiet, tx_goto t DSub s) | _ \<Rightarrow> None)"
| "chan_next (TxRun t) s = (case send t s of Some r \<Rightarrow> Some r | None \<Rightarrow> drop_chan t s)"
| "chan_next CallTryRecv s = (case ch_rx s of RxIdle \<Rightarrow> Some (Quiet, rx_goto (RPop KTry) s) | _ \<Rightarrow> None)"
| "chan_next CallRecv s = (case ch_rx s of RxIdle \<Rightarrow> Some (Quiet, rx_goto (RPop (KFast Blocking)) s) | _ \<Rightarrow> None)"
| "chan_next CallRecvTimeout s = (case ch_rx s of RxIdle \<Rightarrow> Some (Quiet, rx_goto (RPop KOptimistic) s) | _ \<Rightarrow> None)"
| "chan_next CallDropRx s = (case ch_rx s of RxIdle \<Rightarrow> Some (Quiet, rx_goto RDrop s) | _ \<Rightarrow> None)"
| "chan_next (Expire e) s = (case ch_rx s of RDeadline \<Rightarrow> Some (recv_max_until e s) | _ \<Rightarrow> None)"
| "chan_next ParkErr s = (case ch_rx s of RPark b c \<Rightarrow> Some (Quiet, rx_goto (RLeave c) s) | _ \<Rightarrow> None)"
| "chan_next ParkCancel s = (case ch_rx s of RPark b c \<Rightarrow> Some (Unwound, rx_goto RxIdle s) | _ \<Rightarrow> None)"
| "chan_next RxRun s = (case try_recv s of Some r \<Rightarrow> Some r
     | None \<Rightarrow> (case recv s of Some r \<Rightarrow> Some r | None \<Rightarrow> drop_port s))"

text \<open>The sender handles an action touches.\<close>

fun handles :: "'a cact \<Rightarrow> nat set" where
  "handles (CallSend t v) = {t}"
| "handles (CallClone t u) = {t, u}"
| "handles (CallDropTx t) = {t}"
| "handles (TxRun t) = {t}"
| "handles _ = {}"

text \<open>Runs with at most \<open>m\<close> sender handles alive at a time, and the events they show.\<close>

inductive chan_run :: "nat \<Rightarrow> 'a cev list \<Rightarrow> 'a chan \<Rightarrow> bool" for m where
  chan_run_new: "chan_run m [] chan_new"
| chan_run_step: "chan_run m es s \<Longrightarrow> handles a \<subseteq> {..<m} \<Longrightarrow> chan_next a s = Some (e, s') \<Longrightarrow> chan_run m (es @ [e]) s'"

section \<open>Invariant\<close>

text \<open>\<open>live\<close>: the handle is counted in \<^verbatim>\<open>channels\<close>.\<close>

fun live :: "'a tx_pc \<Rightarrow> int" where
  "live TxNone = 0"
| "live DTake = 0"
| "live (DUnpark _) = 0"
| "live TxBroken = 0"
| "live _ = 1"

definition counts_handles :: "nat \<Rightarrow> 'a chan \<Rightarrow> bool" where
  "counts_handles m s \<longleftrightarrow> int (unat (ch_channels s)) = (\<Sum>t<m. live (ch_tx s t)) \<and>
     (\<forall>t. ch_tx s t \<noteq> TxBroken) \<and> (\<forall>t \<ge> m. ch_tx s t = TxNone)"

definition sending :: "'a chan \<Rightarrow> bool" where
  "sending s \<longleftrightarrow> (\<exists>t. ch_tx s t = STake)"

definition closing :: "'a chan \<Rightarrow> bool" where
  "closing s \<longleftrightarrow> (\<exists>t. ch_tx s t = DTake)"

definition waking :: "nat \<Rightarrow> 'a chan \<Rightarrow> bool" where
  "waking b s \<longleftrightarrow> ch_token s b \<or> (\<exists>t. ch_tx s t = SUnpark b) \<or> (\<exists>t. ch_tx s t = DUnpark b)"

text \<open>
  The waiter \<open>b\<close> will be woken: it is registered or about to be unparked (\<open>armed\<close>); in the first case somebody
  will take the registration if there is a value in the queue (\<open>told\<close>) or no sender is left (\<open>safe\<close>).
\<close>

definition armed :: "nat \<Rightarrow> 'a chan \<Rightarrow> bool" where
  "armed b s \<longleftrightarrow> waking b s \<or> ch_wake s = Some b"

definition told :: "nat \<Rightarrow> 'a chan \<Rightarrow> bool" where
  "told b s \<longleftrightarrow> waking b s \<or> (ch_wake s = Some b \<and> (ch_queue s = [] \<or> sending s))"

definition safe :: "nat \<Rightarrow> 'a chan \<Rightarrow> bool" where
  "safe b s \<longleftrightarrow> waking b s \<or>
     (ch_wake s = Some b \<and> (ch_queue s = [] \<or> sending s) \<and> (ch_channels s > 0 \<or> closing s))"

text \<open>The receiver will clear the registration itself.\<close>

fun clearing :: "'a rx_pc \<Rightarrow> bool" where
  "clearing (RPop (KRecheck _ _)) = True"
| "clearing (RLoad (KRecheck _ _)) = True"
| "clearing (RPop2 (KRecheck _ _)) = True"
| "clearing (RLeave _) = True"
| "clearing (RClear _) = True"
| "clearing _ = False"

fun rx_ok :: "'a rx_pc \<Rightarrow> 'a chan \<Rightarrow> bool" where
  "rx_ok (RPop (KRecheck b _)) s = armed b s"
| "rx_ok (RLoad (KRecheck b _)) s = told b s"
| "rx_ok (RPark b _) s = safe b s"
| "rx_ok (RPop2 _) s = (ch_channels s = 0)"
| "rx_ok (RClear r) s = (r \<noteq> Empty \<and> (r = Disconnected \<longrightarrow> ch_channels s = 0 \<and> ch_queue s = []))"
| "rx_ok _ s = True"

definition chan_inv :: "nat \<Rightarrow> 'a chan \<Rightarrow> bool" where
  "chan_inv m s \<longleftrightarrow> counts_handles m s \<and> rx_ok (ch_rx s) s \<and>
     (ch_wake s \<noteq> None \<longrightarrow> ch_channels s > 0 \<or> closing s \<or> clearing (ch_rx s)) \<and>
     (ch_rx s = RxGone \<or> ch_rx s = RDrain \<longleftrightarrow> ch_port_dropped s)"

lemma goto_simps [simp]:
  "ch_queue (tx_goto t p s) = ch_queue s" "ch_wake (tx_goto t p s) = ch_wake s"
  "ch_channels (tx_goto t p s) = ch_channels s" "ch_port_dropped (tx_goto t p s) = ch_port_dropped s"
  "ch_token (tx_goto t p s) = ch_token s" "ch_fresh (tx_goto t p s) = ch_fresh s"
  "ch_tx (tx_goto t p s) = (ch_tx s)(t := p)" "ch_rx (tx_goto t p s) = ch_rx s"
  "ch_queue (rx_goto q s) = ch_queue s" "ch_wake (rx_goto q s) = ch_wake s"
  "ch_channels (rx_goto q s) = ch_channels s" "ch_port_dropped (rx_goto q s) = ch_port_dropped s"
  "ch_token (rx_goto q s) = ch_token s" "ch_fresh (rx_goto q s) = ch_fresh s"
  "ch_tx (rx_goto q s) = ch_tx s" "ch_rx (rx_goto q s) = q"
  "ch_queue (unpark b s) = ch_queue s" "ch_wake (unpark b s) = ch_wake s"
  "ch_channels (unpark b s) = ch_channels s" "ch_port_dropped (unpark b s) = ch_port_dropped s"
  "ch_token (unpark b s) = (ch_token s)(b := True)" "ch_fresh (unpark b s) = ch_fresh s"
  "ch_tx (unpark b s) = ch_tx s" "ch_rx (unpark b s) = ch_rx s"
  by (simp_all add: tx_goto_def rx_goto_def unpark_def)

lemma live_range: "0 \<le> live p" "live p \<le> 1"
  by (cases p; simp)+

lemma live_sum: "(\<Sum>t<m. live (f t)) \<ge> 0" "(\<Sum>t<m. live (f t)) \<le> int m"
  using sum_mono [of "{..<m}" "\<lambda>t. live (f t)" "\<lambda>_. 1"] by (auto intro: sum_nonneg live_range)

lemma counts_zero:
  assumes "counts_handles m s" "ch_channels s = 0"
  shows "live (ch_tx s t) = 0"
proof (cases "t < m")
  case True
  have "(\<Sum>t<m. live (ch_tx s t)) = 0" using assms by (simp add: counts_handles_def)
  then show ?thesis using True by (subst (asm) sum_nonneg_eq_0_iff) (auto simp: live_range)
qed (use assms in \<open>simp add: counts_handles_def\<close>)

lemma counts_pos: "counts_handles m s \<Longrightarrow> live (ch_tx s t) = 1 \<Longrightarrow> ch_channels s > 0"
  using counts_zero [of m s t] by (auto simp: word_greater_zero_iff)

lemma counts_move:
  assumes "counts_handles m s" "t < m" "ch_tx s' = (ch_tx s)(t := p)" "p \<noteq> TxBroken"
    and "int (unat (ch_channels s')) = int (unat (ch_channels s)) - live (ch_tx s t) + live p"
  shows "counts_handles m s'"
  using assms sum_upd [OF assms(2), of live "ch_tx s" p] by (auto simp: counts_handles_def)

text \<open>Moves of a sender that leave the shared state to the receiver's advantage.\<close>

lemma waking_move:
  assumes "waking b s" "ch_tx s' = (ch_tx s)(t := p)" "\<And>c. ch_token s c \<Longrightarrow> ch_token s' c"
    and "ch_tx s t = SUnpark b \<or> ch_tx s t = DUnpark b \<Longrightarrow> ch_token s' b"
  shows "waking b s'"
proof -
  consider "ch_token s b" | u where "ch_tx s u = SUnpark b \<or> ch_tx s u = DUnpark b"
    using assms(1) by (auto simp: waking_def)
  then show ?thesis
  proof cases
    case 2
    then show ?thesis using assms(2,4) by (cases "u = t") (auto simp: waking_def)
  qed (use assms(3) in \<open>auto simp: waking_def\<close>)
qed

lemma sending_move: "sending s \<Longrightarrow> ch_tx s' = (ch_tx s)(t := p) \<Longrightarrow> ch_tx s t \<noteq> STake \<Longrightarrow> sending s'"
  by (auto simp: sending_def)

lemma closing_move: "closing s \<Longrightarrow> ch_tx s' = (ch_tx s)(t := p) \<Longrightarrow> ch_tx s t \<noteq> DTake \<Longrightarrow> closing s'"
  by (auto simp: closing_def)

text \<open>\<open>better m s s'\<close>: whatever the receiver could rely on in \<open>s\<close> still holds in \<open>s'\<close>.\<close>

definition better :: "'a chan \<Rightarrow> 'a chan \<Rightarrow> bool" where
  "better s s' \<longleftrightarrow> (\<forall>b. armed b s \<longrightarrow> armed b s') \<and> (\<forall>b. told b s \<longrightarrow> told b s') \<and> (\<forall>b. safe b s \<longrightarrow> safe b s') \<and>
     (ch_channels s = 0 \<longrightarrow> ch_channels s' = 0 \<and> ch_queue s' = ch_queue s) \<and>
     (ch_wake s' \<noteq> None \<longrightarrow> ch_wake s \<noteq> None \<and> (ch_channels s > 0 \<or> closing s \<longrightarrow> ch_channels s' > 0 \<or> closing s')) \<and>
     ch_rx s' = ch_rx s \<and> ch_port_dropped s' = ch_port_dropped s"

lemma chan_inv_better:
  assumes "chan_inv m s" "better s s'" "counts_handles m s'"
  shows "chan_inv m s'"
proof -
  have "rx_ok (ch_rx s) s'"
    using assms(1,2) unfolding chan_inv_def better_def
    by (cases "(ch_rx s, s')" rule: rx_ok.cases) auto
  then show ?thesis using assms unfolding chan_inv_def better_def by auto
qed

text \<open>A sender step that takes the registration hands it to an unparking sender.\<close>

lemma better_take:
  assumes "ch_tx s' = (ch_tx s)(t := p)" "ch_wake s' = None" "ch_queue s' = ch_queue s" "ch_channels s' = ch_channels s"
    and "ch_token s' = ch_token s" "ch_rx s' = ch_rx s" "ch_port_dropped s' = ch_port_dropped s"
    and "ch_tx s t = STake \<or> ch_tx s t = DTake"
    and "\<And>b. ch_wake s = Some b \<Longrightarrow> p = SUnpark b \<or> p = DUnpark b"
  shows "better s s'"
proof -
  have w: "waking b s'" if "waking b s" for b
    by (rule waking_move [OF that assms(1)]) (use assms(5,8) in auto)
  have "waking b s'" if "ch_wake s = Some b" for b
    using assms(9) [OF that] assms(1) by (auto simp: waking_def)
  with w show ?thesis unfolding better_def armed_def told_def safe_def using assms by auto
qed

text \<open>The other steps of a sender leave the registration alone.\<close>

lemma better_keep:
  assumes tx: "ch_tx s' = (ch_tx s)(t := p)" and w: "ch_wake s' = ch_wake s"
    and tok: "\<And>c. ch_token s c \<Longrightarrow> ch_token s' c"
    and un: "\<And>b. ch_tx s t = SUnpark b \<or> ch_tx s t = DUnpark b \<Longrightarrow> ch_token s' b"
    and st: "ch_tx s t \<noteq> STake" "ch_tx s t \<noteq> DTake"
    and q: "ch_queue s' = ch_queue s \<or> p = STake" and z: "ch_channels s = 0 \<Longrightarrow> ch_channels s' = 0 \<and> ch_queue s' = ch_queue s"
    and c: "ch_channels s > 0 \<Longrightarrow> ch_channels s' > 0 \<or> p = DTake"
    and r: "ch_rx s' = ch_rx s" "ch_port_dropped s' = ch_port_dropped s"
  shows "better s s'"
proof -
  have W: "waking b s'" if "waking b s" for b
    by (rule waking_move [OF that tx tok]) (use un in auto)
  have "p = STake \<Longrightarrow> sending s'" using tx by (auto simp: sending_def)
  then have S: "ch_queue s' = [] \<or> sending s'" if "ch_queue s = [] \<or> sending s"
    using that q sending_move [OF _ tx st(1)] by auto
  have "p = DTake \<Longrightarrow> closing s'" using tx by (auto simp: closing_def)
  then have C: "ch_channels s' > 0 \<or> closing s'" if "ch_channels s > 0 \<or> closing s"
    using that c closing_move [OF _ tx st(2)] by auto
  show ?thesis unfolding better_def armed_def told_def safe_def using W S C w z r by auto
qed

lemma unat_pred: "(n :: usize) \<noteq> 0 \<Longrightarrow> int (unat (n - 1)) = int (unat n) - 1"
  by (metis One_nat_def Suc_pred' diff_add_cancel of_nat_1 of_nat_diff unat_1 unat_minus_one unat_gt_0 Suc_leI)

lemma unat_succ: "int (unat n) < int m \<Longrightarrow> m < 2 ^ 64 \<Longrightarrow> int (unat ((n :: usize) + 1)) = int (unat n) + 1"
proof -
  assume "int (unat n) < int m" "m < 2 ^ 64"
  then have "Suc (unat n) < 2 ^ 64" by (simp only: of_nat_less_iff)
  then show ?thesis by (simp only: unat_word_ariths unat_1) simp
qed

lemma chan_send_inv:
  assumes I: "chan_inv m s" and t: "t < m" and st: "send t s = Some (e, s')"
  shows "chan_inv m s'"
proof (rule chan_inv_better [OF I])
  have C: "counts_handles m s" using I by (simp add: chan_inv_def)
  show "better s s'"
  proof (cases "ch_tx s t")
    case (SPush v)
    then have "ch_channels s > 0" using counts_pos [OF C, of t] by simp
    then show ?thesis using st SPush by (intro better_keep [where t = t and p = STake]) auto
  next
    case (SLoad v)
    then show ?thesis using st by (intro better_keep [where t = t and p = "ch_tx s' t"]) (auto split: if_splits)
  next
    case (SUnpark b)
    then show ?thesis using st by (intro better_keep [where t = t and p = TxIdle]) auto
  next
    case STake
    then show ?thesis using st
      by (intro better_take [where t = t and p = "ch_tx s' t"]) (auto simp: ao_take_def split: option.splits)
  qed (use st in auto)
  have "ch_tx s' = (ch_tx s)(t := ch_tx s' t)" "ch_tx s' t \<noteq> TxBroken" "ch_channels s' = ch_channels s"
    "live (ch_tx s' t) = live (ch_tx s t)"
    using st by (auto simp: ao_take_def split: tx_pc.splits if_splits option.splits)
  then show "counts_handles m s'" by (intro counts_move [where p = "ch_tx s' t", OF C t]) auto
qed

lemma chan_drop_inv:
  assumes I: "chan_inv m s" and t: "t < m" and st: "drop_chan t s = Some (e, s')"
  shows "chan_inv m s'"
proof (rule chan_inv_better [OF I])
  have C: "counts_handles m s" using I by (simp add: chan_inv_def)
  have pos: "ch_channels s > 0" if "ch_tx s t = DSub" using counts_pos [OF C, of t] that by simp
  have n1: "n - 1 > 0" if "n > (1 :: usize)" for n
    using that by (metis diff_add_cancel word_greater_zero_iff add.left_neutral less_irrefl)
  have nz: "\<not> (1 :: usize) < n \<Longrightarrow> n \<noteq> 1 \<Longrightarrow> n = 0" for n :: usize
    by (metis linorder_cases word_less_1)
  show "better s s'"
  proof (cases "ch_tx s t")
    case DSub
    then show ?thesis using st pos n1 nz [of "ch_channels s"]
      by (intro better_keep [where t = t and p = "ch_tx s' t"]) (auto simp: Let_def split: if_splits)
  next
    case (DUnpark b)
    then show ?thesis using st by (intro better_keep [where t = t and p = TxNone]) auto
  next
    case DTake
    then show ?thesis using st
      by (intro better_take [where t = t and p = "ch_tx s' t"]) (auto simp: ao_take_def split: option.splits)
  qed (use st in auto)
  have "ch_tx s' = (ch_tx s)(t := ch_tx s' t)" "ch_tx s' t \<noteq> TxBroken"
    "int (unat (ch_channels s')) = int (unat (ch_channels s)) - live (ch_tx s t) + live (ch_tx s' t)"
    using st pos nz [of "ch_channels s"] unat_pred [of "ch_channels s"]
    by (auto simp: ao_take_def Let_def split: tx_pc.splits if_splits option.splits)
  then show "counts_handles m s'" by (intro counts_move [where p = "ch_tx s' t", OF C t]) auto
qed

text \<open>
  A step of the receiver: the senders do not move; the new control point has to be justified, and a
  registration is only left behind while a sender or the receiver itself will remove it.
\<close>

lemma chan_rx_move:
  assumes "chan_inv m s" "ch_tx s' = ch_tx s" "ch_channels s' = ch_channels s"
    and "rx_ok (ch_rx s') s'"
    and "ch_wake s' \<noteq> None \<longrightarrow> ch_channels s > 0 \<or> closing s \<or> clearing (ch_rx s')"
    and "ch_rx s' = RxGone \<or> ch_rx s' = RDrain \<longleftrightarrow> ch_port_dropped s'"
  shows "chan_inv m s'"
  using assms by (simp add: chan_inv_def counts_handles_def closing_def)

lemma rx_factsD:
  assumes "chan_inv m s"
  shows "rx_ok (ch_rx s) s"
    and "ch_wake s \<noteq> None \<Longrightarrow> \<not> clearing (ch_rx s) \<Longrightarrow> ch_channels s > 0 \<or> closing s"
    and "ch_port_dropped s \<longleftrightarrow> ch_rx s = RxGone \<or> ch_rx s = RDrain"
  using assms by (auto simp: chan_inv_def)

lemma view_simps [simp]:
  "waking b (rx_goto p s) = waking b s" "sending (rx_goto p s) = sending s" "closing (rx_goto p s) = closing s"
  "armed b (rx_goto p s) = armed b s" "told b (rx_goto p s) = told b s" "safe b (rx_goto p s) = safe b s"
  by (simp_all add: waking_def sending_def closing_def armed_def told_def safe_def)

lemma rx_ok_goto [simp]: "rx_ok p (rx_goto q s) = rx_ok p s"
  by (cases "(p, s)" rule: rx_ok.cases) simp_all

lemma try_recv_inv:
  assumes I: "chan_inv m s" and st: "try_recv s = Some (e, s')"
  shows "chan_inv m s'"
proof (cases "ch_rx s")
  case (RPop k)
  show ?thesis
  proof (cases "ch_queue s")
    case Nil
    then have "s' = rx_goto (RLoad k) s" using st RPop by simp
    moreover have "rx_ok (RLoad k) s" using rx_factsD(1) [OF I] RPop Nil
      by (cases k) (auto simp: armed_def told_def)
    ultimately show ?thesis using rx_factsD(2,3) [OF I] RPop
      by (intro chan_rx_move [OF I]) (auto, (cases k; auto)+)
  next
    case (Cons v q)
    then show ?thesis using st RPop rx_factsD(2,3) [OF I]
      by (intro chan_rx_move [OF I]) (cases k; auto)+
  qed
next
  case (RLoad k)
  show ?thesis
  proof (cases "ch_channels s > 0")
    case True
    then have "safe b s" if "told b s" for b using that by (auto simp: told_def safe_def)
    then show ?thesis using st RLoad True rx_factsD [OF I]
      by (intro chan_rx_move [OF I]) (cases k; auto split: rcall.splits)+
  next
    case False
    then have "s' = rx_goto (RPop2 k) s" using st RLoad by simp
    with False show ?thesis using RLoad rx_factsD(2,3) [OF I]
      by (intro chan_rx_move [OF I]) (auto simp: word_greater_zero_iff, (cases k; auto)+)
  qed
next
  case (RPop2 k)
  then show ?thesis using st rx_factsD [OF I]
    by (intro chan_rx_move [OF I]) (cases k; auto split: list.splits)+
qed (use st in auto)

lemma recv_inv:
  assumes I: "chan_inv m s" and st: "recv s = Some (e, s')"
  shows "chan_inv m s'"
proof (cases "ch_rx s")
  case (RStore c)
  then show ?thesis using st rx_factsD(3) [OF I]
    by (intro chan_rx_move [OF I]) (auto simp: Let_def ao_store_def armed_def)
next
  case (RPark b c)
  then show ?thesis using st rx_factsD(2,3) [OF I]
    by (intro chan_rx_move [OF I]) (auto split: if_splits)
qed (use st rx_factsD(3) [OF I] in \<open>auto intro!: chan_rx_move [OF I] simp: ao_clear_def\<close>)

lemma drop_port_inv:
  assumes I: "chan_inv m s" and st: "drop_port s = Some (e, s')"
  shows "chan_inv m s'"
proof (cases "ch_rx s")
  case RDrop
  then show ?thesis using st rx_factsD(2,3) [OF I] by (intro chan_rx_move [OF I]) auto
next
  case RDrain
  then show ?thesis using st rx_factsD(2,3) [OF I]
    by (intro chan_rx_move [OF I]) (auto split: list.splits)
qed (use st in auto)

lemma chan_call_tx_inv:
  assumes I: "chan_inv m s" and t: "t < m" "ch_tx s t = TxIdle" and p: "p = SLoad v \<or> p = DSub"
  shows "chan_inv m (tx_goto t p s)"
proof (rule chan_inv_better [OF I])
  have C: "counts_handles m s" using I by (simp add: chan_inv_def)
  show "better s (tx_goto t p s)" by (rule better_keep [where t = t and p = p]) (use t in simp_all)
  have "p \<noteq> TxBroken" "live p = 1" using p by auto
  then show "counts_handles m (tx_goto t p s)"
    by (intro counts_move [where p = p, OF C t(1)]) (use t in simp_all)
qed

lemma chan_clone_inv:
  assumes I: "chan_inv m s" and m: "m < 2 ^ 64" and t: "ch_tx s t = TxIdle" and u: "u < m" "ch_tx s u = TxNone"
  shows "chan_inv m (tx_goto u TxIdle (clone_chan s))"
proof (rule chan_inv_better [OF I])
  have C: "counts_handles m s" using I by (simp add: chan_inv_def)
  have "(\<Sum>v<m. live (((ch_tx s)(u := TxIdle)) v)) \<le> int m" by (rule live_sum)
  then have "int (unat (ch_channels s)) < int m"
    using C sum_upd [OF u(1), of live "ch_tx s" TxIdle] u(2) by (simp add: counts_handles_def)
  then have n: "int (unat (ch_channels s + 1)) = int (unat (ch_channels s)) + 1" using m by (rule unat_succ)
  then have "0 < int (unat (ch_channels s + 1))" by linarith
  then have "0 < unat (ch_channels s + 1)" by (simp only: of_nat_0_less_iff)
  then have "ch_channels s + 1 \<noteq> 0" by (rule iffD1 [OF unat_gt_0])
  then have n0: "ch_channels s + 1 > 0" by (rule iffD2 [OF word_greater_zero_iff])
  have c: "ch_channels s > 0" using counts_pos [OF C, of t] t by simp
  show "better s (tx_goto u TxIdle (clone_chan s))"
    using u c n0 by (intro better_keep [where t = u and p = TxIdle]) (auto simp: clone_chan_def)
  show "counts_handles m (tx_goto u TxIdle (clone_chan s))"
    using C u n by (intro counts_move [where p = TxIdle, OF C u(1)]) (auto simp: clone_chan_def)
qed

lemma chan_step_inv:
  assumes I: "chan_inv m s" and m: "m < 2 ^ 64" and h: "handles a \<subseteq> {..<m}" and st: "chan_next a s = Some (e, s')"
  shows "chan_inv m s'"
proof (cases a)
  case (CallSend t v)
  then show ?thesis using st h by (auto intro: chan_call_tx_inv [OF I] split: tx_pc.splits)
next
  case (CallDropTx t)
  then show ?thesis using st h by (auto intro: chan_call_tx_inv [OF I] split: tx_pc.splits)
next
  case (CallClone t u)
  then show ?thesis using st h by (auto intro: chan_clone_inv [OF I m] split: tx_pc.splits)
next
  case (TxRun t)
  then have "t < m" using h by simp
  then show ?thesis using TxRun st chan_send_inv [OF I] chan_drop_inv [OF I]
    by (auto simp del: send.simps drop_chan.simps split: option.splits)
next
  case RxRun
  then show ?thesis using st try_recv_inv [OF I] recv_inv [OF I] drop_port_inv [OF I]
    by (auto simp del: try_recv.simps recv.simps drop_port.simps split: option.splits)
next
  case (Expire b)
  then show ?thesis using st rx_factsD(2,3) [OF I]
    by (intro chan_rx_move [OF I]) (auto simp: recv_max_until_def split: rx_pc.splits if_splits)
qed (use st rx_factsD(2,3) [OF I] in \<open>auto intro!: chan_rx_move [OF I] split: rx_pc.splits\<close>)

lemma chan_inv_new: "0 < m \<Longrightarrow> chan_inv m chan_new"
  using sum_upd [of 0 m live "\<lambda>_. TxNone" TxIdle]
  by (auto simp: chan_inv_def chan_new_def counts_handles_def ao_none_def)

fun carried :: "'a rx_pc \<Rightarrow> 'a list" where
  "carried (RClear (Got v)) = [v]"
| "carried _ = []"

definition flow :: "'a chan \<Rightarrow> 'a list" where
  "flow s = carried (ch_rx s) @ ch_queue s"

lemma rx_return_flow:
  "rx_return k r s = (e, s') \<Longrightarrow> taken [e] @ flow s' = (case r of Got v \<Rightarrow> [v] | _ \<Rightarrow> []) @ ch_queue s \<and> pushed [e] = []"
  by (cases k; cases r) (auto simp: taken_def pushed_def flow_def split: rcall.splits)

lemma chan_step_flow:
  assumes "chan_next a s = Some (e, s')"
  shows "taken [e] @ flow s' = flow s @ pushed [e]"
proof (cases a)
  case RxRun
  show ?thesis
  proof (cases "try_recv s")
    case None
    then show ?thesis using RxRun assms
      by (auto simp: taken_def pushed_def flow_def ao_clear_def ao_store_def Let_def
            split: rx_pc.splits option.splits answer.splits if_splits list.splits)
  next
    case (Some r)
    then have "try_recv s = Some (e, s')" using RxRun assms by simp
    then show ?thesis
      by (auto dest!: rx_return_flow simp: flow_def split: rx_pc.splits if_splits list.splits)
        (auto simp: taken_def pushed_def)
  qed
next
  case (TxRun t)
  then show ?thesis using assms
    by (auto simp: taken_def pushed_def flow_def Let_def ao_take_def split: tx_pc.splits if_splits)
qed (use assms in \<open>auto simp: taken_def pushed_def flow_def clone_chan_def recv_max_until_def split: tx_pc.splits rx_pc.splits if_splits\<close>)

lemma chan_run_inv:
  assumes "chan_run m es s" "0 < m" "m < 2 ^ 64"
  shows "chan_inv m s \<and> taken es @ flow s = pushed es"
  using assms(1)
proof (induction rule: chan_run.induct)
  case chan_run_new
  have "flow (chan_new :: 'a chan) = []" by (simp add: flow_def chan_new_def)
  then show ?case using chan_inv_new [OF assms(2)] by (simp add: pushed_def taken_def)
next
  case (chan_run_step es s a e s')
  have "chan_inv m s'" by (rule chan_step_inv [OF _ assms(3) chan_run_step.hyps(2,3)]) (use chan_run_step.IH in blast)
  moreover have "taken es @ (taken [e] @ flow s') = pushed es @ pushed [e]"
    using chan_step_flow [OF chan_run_step.hyps(3)] chan_run_step.IH by (metis append.assoc)
  ultimately show ?case by simp
qed

text \<open>An answer \<^verbatim>\<open>Disconnected\<close> comes from the second \<^verbatim>\<open>pop\<close> of \<^verbatim>\<open>try_recv\<close>, possibly after the registration is cleared.\<close>

lemma rx_return_disc:
  "rx_return k r s = (Returned Disconnected, s') \<Longrightarrow> r = Disconnected \<and> ch_queue s' = ch_queue s \<and> ch_channels s' = ch_channels s"
  by (cases k; cases r) (auto split: rcall.splits)

lemma chan_step_disc:
  assumes I: "chan_inv m s" and st: "chan_next a s = Some (Returned Disconnected, s')"
  shows "ch_queue s' = [] \<and> ch_channels s' = 0"
proof (cases a)
  case RxRun
  show ?thesis
  proof (cases "try_recv s")
    case None
    then show ?thesis using RxRun st rx_factsD(1) [OF I]
      by (auto simp: Let_def split: rx_pc.splits option.splits if_splits list.splits)
  next
    case (Some r)
    then have "try_recv s = Some (Returned Disconnected, s')" using RxRun st by simp
    then show ?thesis using rx_factsD(1) [OF I]
      by (auto dest!: rx_return_disc split: rx_pc.splits if_splits list.splits)
  qed
next
  case (TxRun t)
  then show ?thesis using st by (auto simp: Let_def ao_take_def split: tx_pc.splits if_splits)
qed (use st in \<open>auto simp: recv_max_until_def split: tx_pc.splits rx_pc.splits if_splits\<close>)

section \<open>Properties\<close>

text \<open>
  C12: the channel delivers every value once and in order. In every run of any number of senders, with
  clones, drops, timeouts and cancellations at any point, the values returned by \<^verbatim>\<open>recv\<close>, \<^verbatim>\<open>try_recv\<close> and
  \<^verbatim>\<open>recv_timeout\<close>, together with those drained when the receiver is dropped, are a prefix of the values
  pushed, and the rest is still in the channel; \<^verbatim>\<open>drop_chan\<close> never finds a wrong count. A call returns
  \<^verbatim>\<open>Disconnected\<close> only when the queue is empty and every sender has been dropped.
\<close>

theorem mpsc_chan_delivers:
  assumes "chan_run m es s" and "0 < m" and "m < 2 ^ 64"
  shows "taken es @ carried (ch_rx s) @ ch_queue s = pushed es \<and> (\<forall>t. ch_tx s t \<noteq> TxBroken) \<and>
    (\<forall>a s'. chan_next a s = Some (Returned Disconnected, s') \<longrightarrow> pushed es = taken es \<and> (\<forall>t. live (ch_tx s' t) = 0))"
proof -
  from chan_run_inv [OF assms] have I: "chan_inv m s" and F: "taken es @ flow s = pushed es" by auto
  have "pushed es = taken es \<and> (\<forall>t. live (ch_tx s' t) = 0)" if st: "chan_next a s = Some (Returned Disconnected, s')" for a s'
  proof -
    have q: "ch_queue s' = [] \<and> ch_channels s' = 0" by (rule chan_step_disc [OF I st])
    have f: "taken [Returned Disconnected] @ flow s' = flow s @ pushed [Returned Disconnected]" by (rule chan_step_flow [OF st])
    have "ch_rx s' = RxIdle \<and> ch_channels s' = ch_channels s \<and> ch_tx s' = ch_tx s"
    proof (cases a)
      case RxRun
      have "rx_return k r u = (Returned Disconnected, s') \<Longrightarrow> ch_rx s' = RxIdle \<and> ch_channels s' = ch_channels u \<and> ch_tx s' = ch_tx u"
        for k r u by (cases k; cases r) (auto split: rcall.splits)
      then show ?thesis using RxRun st
        by (auto simp: Let_def split: rx_pc.splits option.splits if_splits list.splits)
    next
      case (TxRun t)
      then show ?thesis using st by (auto simp: Let_def ao_take_def split: tx_pc.splits if_splits)
    qed (use st in \<open>auto simp: recv_max_until_def split: tx_pc.splits rx_pc.splits if_splits\<close>)
    moreover from this f q have "flow s = []" by (simp add: flow_def taken_def pushed_def)
    ultimately show ?thesis using F q I counts_zero [of m s] by (simp add: chan_inv_def)
  qed
  then show ?thesis using F I by (auto simp: flow_def chan_inv_def counts_handles_def)
qed

text \<open>
  C27: no wake-up of the receiver is lost. When no sender is inside a call and the receiver is parked without
  a token, the queue is empty, at least one sender is alive and the receiver's registration is in place for
  it. When every handle is gone, \<^verbatim>\<open>to_wake\<close> is empty, as the drop of the channel asserts.
\<close>

theorem mpsc_chan_no_lost_wakeup:
  assumes "chan_run m es s" and "0 < m" and "m < 2 ^ 64" and "\<forall>t. ch_tx s t = TxNone \<or> ch_tx s t = TxIdle"
  shows "(\<forall>b c. ch_rx s = RPark b c \<and> \<not> ch_token s b \<longrightarrow>
      ch_queue s = [] \<and> ch_wake s = Some b \<and> (\<exists>t. ch_tx s t = TxIdle)) \<and>
    (ch_rx s = RxGone \<and> (\<forall>t. ch_tx s t = TxNone) \<longrightarrow> ch_channels s = 0 \<and> ch_wake s = None)"
proof -
  from chan_run_inv [OF assms(1-3)] have I: "chan_inv m s" by auto
  have tx: "ch_tx s t = TxNone \<or> ch_tx s t = TxIdle" for t using assms(4) by blast
  have no: "ch_tx s t \<noteq> STake" "ch_tx s t \<noteq> DTake" "ch_tx s t \<noteq> SUnpark b" "ch_tx s t \<noteq> DUnpark b" for t b
    using tx [of t] by auto
  have cz: "ch_channels s = 0" if "\<forall>t. ch_tx s t = TxNone"
    using I that by (simp add: chan_inv_def counts_handles_def) (simp add: uint_0_iff)
  have "ch_queue s = [] \<and> ch_wake s = Some b \<and> (\<exists>t. ch_tx s t = TxIdle)"
    if p: "ch_rx s = RPark b c" "\<not> ch_token s b" for b c
  proof -
    have "safe b s" using rx_factsD(1) [OF I] p by simp
    then have q: "ch_queue s = [] \<and> ch_wake s = Some b \<and> ch_channels s > 0"
      using p(2) no by (simp add: safe_def waking_def sending_def closing_def)
    with cz tx show ?thesis by (metis less_irrefl)
  qed
  moreover have "ch_wake s = None" if "ch_rx s = RxGone" "\<forall>t. ch_tx s t = TxNone"
    using rx_factsD(2) [OF I] that cz no by (cases "ch_wake s") (auto simp: closing_def)
  ultimately show ?thesis using cz by blast
qed

text \<open>An action that touches the first \<open>m\<close> sender handles only.\<close>

definition chan_act :: "nat \<Rightarrow> 'a cact \<Rightarrow> 'a chan \<Rightarrow> ('a cev \<times> 'a chan) option" where
  "chan_act m a s = (if \<forall>t \<in> handles a. t < m then chan_next a s else None)"

interpretation chan_runs: event_runs "chan_run m" "chan_act m" for m
  by unfold_locales (auto simp: chan_act_def intro!: chan_run_step simp del: chan_next.simps split: if_splits)

theorem mpsc_chan_delivers_witness:
  "\<exists>s :: nat chan. chan_run 1 [Quiet, Quiet, Pushed 7, Quiet, Quiet] s \<and> ch_queue s = [7]"
proof -
  obtain s :: "nat chan" where
    "exec_acts (chan_act 1) [CallSend 0 7, TxRun 0, TxRun 0, TxRun 0, CallRecv] chan_new = Some ([Quiet, Quiet, Pushed 7, Quiet, Quiet], s)"
    and r: "ch_rx s = RPop (KFast Blocking)"
    by (auto simp: chan_act_def chan_new_def ao_defs Let_def)
  from chan_runs.exec_run_from [OF chan_run_new this(1)] have run: "chan_run 1 [Quiet, Quiet, Pushed 7, Quiet, Quiet] s" by simp
  from mpsc_chan_delivers [OF run] r run show ?thesis by (intro exI [of _ s]) (simp add: taken_def pushed_def)
qed

theorem mpsc_chan_no_lost_wakeup_witness:
  "\<exists>s :: nat chan. chan_run 1 (replicate 6 Quiet) s \<and> ch_rx s = RPark 0 Blocking \<and> ch_wake s = Some 0"
proof -
  obtain s :: "nat chan" where s:
    "exec_acts (chan_act 1) [CallRecv, RxRun, RxRun, RxRun, RxRun, RxRun] chan_new = Some (replicate 6 Quiet, s)"
    "ch_rx s = RPark 0 Blocking" "ch_tx s = (\<lambda>_. TxNone)(0 := TxIdle)" "\<not> ch_token s 0"
    by (auto simp: chan_act_def chan_new_def ao_defs Let_def eval_nat_numeral)
  from chan_runs.exec_run_from [OF chan_run_new s(1)] have run: "chan_run 1 (replicate 6 Quiet) s" by simp
  from mpsc_chan_no_lost_wakeup [OF run] s(2-4) run show ?thesis by (intro exI [of _ s]) simp
qed

end
