(* ===== verification/Spsc_Chan.thy ===== *)
theory Spsc_Chan
  imports Chan_Base
begin

text \<open>
  The channel of \<^verbatim>\<open>src/sync/spsc.rs\<close> as a transition system with three actors: the sender, the receiver, and the
  \<^verbatim>\<open>subscribe\<close> of the event source a receiving coroutine yields with, which runs after the coroutine has left its
  stack and may still run when it has been resumed. The timer and the canceler of the coroutine act in
  between. A suspended coroutine sits in a slot (\<^verbatim>\<open>Arc<AtomicOption<CoroutineImpl>>\<close>); whoever takes it out of
  the slot schedules it. Slots are numbered; every access to a shared cell is one step.
\<close>

section \<open>State\<close>

text \<open>\<^verbatim>\<open>spsc::Blocker\<close>: a tagged handle to a coroutine slot or to a thread.\<close>

datatype waiter = WCo nat | WThread

text \<open>The result a coroutine is resumed with.\<close>

datatype para = NoPara | ParaTimedOut | ParaCanceled

text \<open>What follows the notification: \<^verbatim>\<open>send\<close> returns, or the sender is gone.\<close>

datatype after_notify = KSent | KGone

datatype 'a stx_pc =
    SxIdle
  | SxLoad 'a                     \<comment> \<open>\<^verbatim>\<open>send\<close>: before the load of \<^verbatim>\<open>port_dropped\<close>\<close>
  | SxPush 'a                     \<comment> \<open>before \<^verbatim>\<open>queue.push(t)\<close>\<close>
  | SxDrop                        \<comment> \<open>\<^verbatim>\<open>drop_chan\<close>: before \<^verbatim>\<open>channels.store(0)\<close>\<close>
  | NTakeW after_notify           \<comment> \<open>before \<^verbatim>\<open>wait_co.take()\<close>\<close>
  | NUnpark waiter after_notify   \<comment> \<open>before \<^verbatim>\<open>co.unpark()\<close>\<close>
  | NTakeT after_notify           \<comment> \<open>before \<^verbatim>\<open>timeout_wait.take()\<close>\<close>
  | NTakeSlot nat after_notify    \<comment> \<open>before the take of the slot found there\<close>
  | SxGone

text \<open>The two event sources a receiving coroutine yields with: \<^verbatim>\<open>Park\<close> and \<^verbatim>\<open>RecvTimeoutSource\<close>.\<close>

datatype source = SPark | STimed

text \<open>The outcome carried through the drop of an event source.\<close>

datatype 'a outcome = OAnswer "'a answer" | OTimeout | OPanic

datatype scont =
    SKTry            \<comment> \<open>\<^verbatim>\<open>Receiver::try_recv\<close>\<close>
  | SKFast bool      \<comment> \<open>\<^verbatim>\<open>InnerQueue::recv\<close>, first call; in a coroutine or not\<close>
  | SKCoAgain        \<comment> \<open>\<^verbatim>\<open>InnerQueue::recv\<close>, last call in a coroutine\<close>
  | SKThread         \<comment> \<open>\<^verbatim>\<open>InnerQueue::recv\<close> in a thread, after the registration\<close>
  | SKThreadAgain    \<comment> \<open>\<^verbatim>\<open>InnerQueue::recv\<close> in a thread, after the park\<close>
  | SKTimeout bool   \<comment> \<open>\<^verbatim>\<open>Receiver::recv_timeout\<close>, first call\<close>
  | SKQuick          \<comment> \<open>\<^verbatim>\<open>recv_timeout_co\<close>, quick check\<close>
  | SKBack para      \<comment> \<open>\<^verbatim>\<open>recv_timeout_co\<close>, after the yield\<close>
  | SKLoop           \<comment> \<open>\<^verbatim>\<open>recv_timeout_thread\<close>, after the registration\<close>
  | SKLast           \<comment> \<open>\<^verbatim>\<open>recv_timeout_thread\<close>, after the deadline\<close>

text \<open>What follows a clear of \<^verbatim>\<open>wait_co\<close> in the thread paths.\<close>

datatype 'a after_clear = AReturn "'a answer" | ALast | ALoop

datatype 'a srx_pc =
    SrIdle
  | SrPop scont                \<comment> \<open>\<^verbatim>\<open>try_recv\<close>: before \<^verbatim>\<open>queue.pop()\<close>\<close>
  | SrLoad scont               \<comment> \<open>before the load of \<^verbatim>\<open>channels\<close>\<close>
  | SrPop2 scont               \<comment> \<open>before the second \<^verbatim>\<open>queue.pop()\<close>\<close>
  | SrEnter source             \<comment> \<open>before \<^verbatim>\<open>yield_with\<close>\<close>
  | SrYield source nat         \<comment> \<open>suspended in the given slot\<close>
  | SrParkDrop bool            \<comment> \<open>drop of \<^verbatim>\<open>Park\<close>; the flag is a cancel panic\<close>
  | SrBack para                \<comment> \<open>before \<^verbatim>\<open>timeout_wait.clear()\<close>\<close>
  | SrTimedDrop "'a outcome"   \<comment> \<open>drop of \<^verbatim>\<open>RecvTimeoutSource\<close>\<close>
  | SrStore bool               \<comment> \<open>thread: before \<^verbatim>\<open>wait_co.store(blocker)\<close>, without or with a timeout\<close>
  | SrThreadPark bool          \<comment> \<open>thread: in \<^verbatim>\<open>thread::park_timeout\<close>\<close>
  | SrRemaining                \<comment> \<open>thread: before the test of the remaining time\<close>
  | SrClear "'a after_clear"   \<comment> \<open>thread: before \<^verbatim>\<open>wait_co.clear()\<close>\<close>
  | SrDrop                     \<comment> \<open>\<^verbatim>\<open>drop_port\<close>: before the store of \<^verbatim>\<open>port_dropped\<close>\<close>
  | SrDrain
  | SrGone

datatype kern =
    KNone
  | KPStore nat | KPCheckQ nat | KPCheckC nat | KPTake nat | KPTakeSlot nat
  | KPCancel nat | KPCancelCheck nat | KPStale
  | KTCancel nat | KTCancelCheck nat | KTStore nat | KTCheckQ nat | KTCheckC nat | KTTake nat | KTTimer nat
  | KBroken                    \<comment> \<open>\<^verbatim>\<open>into_coroutine\<close> on the handle of a thread\<close>

record 'a spsc_chan =
  sc_queue :: "'a list"
  sc_wait :: "waiter atomic_option"
  sc_twait :: "nat atomic_option"
  sc_channels :: usize
  sc_port_dropped :: bool
  sc_slot :: "nat \<Rightarrow> bool"           \<comment> \<open>the slot holds the suspended receiver\<close>
  sc_fresh :: nat
  sc_resumed :: "para option"        \<comment> \<open>the receiver has been scheduled, with this result\<close>
  sc_unparked :: bool                \<comment> \<open>the token of \<^verbatim>\<open>thread::park\<close>\<close>
  sc_cancel :: "nat atomic_option"   \<comment> \<open>the slot registered in the cancel data\<close>
  sc_timer :: "nat option"           \<comment> \<open>the slot an armed timer refers to\<close>
  sc_tx :: "'a stx_pc"
  sc_rx :: "'a srx_pc"
  sc_kern :: kern

definition spsc_chan_new :: "'a spsc_chan" where
  "spsc_chan_new = \<lparr>sc_queue = [], sc_wait = ao_none, sc_twait = ao_none, sc_channels = 1, sc_port_dropped = False,
     sc_slot = (\<lambda>_. False), sc_fresh = 0, sc_resumed = None, sc_unparked = False, sc_cancel = ao_none,
     sc_timer = None, sc_tx = SxIdle, sc_rx = SrIdle, sc_kern = KNone\<rparr>"

text \<open>Take the coroutine out of a slot and schedule it with a result.\<close>

definition resume_slot :: "nat \<Rightarrow> para \<Rightarrow> 'a spsc_chan \<Rightarrow> 'a spsc_chan" where
  "resume_slot i p s = (if sc_slot s i then s\<lparr>sc_slot := (sc_slot s)(i := False), sc_resumed := Some p\<rparr> else s)"

text \<open>\<^verbatim>\<open>Cancel::cancel\<close> on the cancel data of the receiver.\<close>

definition cancel_slot :: "'a spsc_chan \<Rightarrow> 'a spsc_chan" where
  "cancel_slot s = (let (r, v) = ao_take (sc_cancel s) in
     (case r of None \<Rightarrow> s | Some i \<Rightarrow> resume_slot i ParaCanceled (s\<lparr>sc_cancel := v\<rparr>)))"

section \<open>Sender\<close>

text \<open>\<^verbatim>\<open>Blocker::unpark\<close>\<close>

fun unpark_waiter :: "waiter \<Rightarrow> 'a spsc_chan \<Rightarrow> 'a spsc_chan" where
  "unpark_waiter (WCo i) s = resume_slot i NoPara s"
| "unpark_waiter WThread s = s\<lparr>sc_unparked := True\<rparr>"

fun notified_pc :: "after_notify \<Rightarrow> 'a stx_pc" where
  "notified_pc KSent = SxIdle"
| "notified_pc KGone = SxGone"

text \<open>The common end of \<^verbatim>\<open>send\<close> and \<^verbatim>\<open>drop_chan\<close>.\<close>

fun notify :: "'a spsc_chan \<Rightarrow> ('a cev \<times> 'a spsc_chan) option" where
  "notify s = (case sc_tx s of
     NTakeW k \<Rightarrow>
       (let (w, v) = ao_take (sc_wait s) in
        Some (Quiet, s\<lparr>sc_wait := v, sc_tx := (case w of Some b \<Rightarrow> NUnpark b k | None \<Rightarrow> NTakeT k)\<rparr>))
   | NUnpark b k \<Rightarrow> Some (Quiet, (unpark_waiter b s)\<lparr>sc_tx := NTakeT k\<rparr>)
   | NTakeT k \<Rightarrow>
       (let (w, v) = ao_take (sc_twait s) in
        Some (Quiet, s\<lparr>sc_twait := v, sc_tx := (case w of Some i \<Rightarrow> NTakeSlot i k | None \<Rightarrow> notified_pc k)\<rparr>))
   | NTakeSlot i k \<Rightarrow> Some (Quiet, (resume_slot i NoPara s)\<lparr>sc_tx := notified_pc k\<rparr>)
   | _ \<Rightarrow> None)"

fun sc_send :: "'a spsc_chan \<Rightarrow> ('a cev \<times> 'a spsc_chan) option" where
  "sc_send s = (case sc_tx s of
     SxLoad v \<Rightarrow>
       if sc_port_dropped s then Some (Rejected v, s\<lparr>sc_tx := SxIdle\<rparr>) else Some (Quiet, s\<lparr>sc_tx := SxPush v\<rparr>)
   | SxPush v \<Rightarrow> Some (Pushed v, s\<lparr>sc_queue := sc_queue s @ [v], sc_tx := NTakeW KSent\<rparr>)
   | _ \<Rightarrow> notify s)"

fun sc_drop_chan :: "'a spsc_chan \<Rightarrow> ('a cev \<times> 'a spsc_chan) option" where
  "sc_drop_chan s = (case sc_tx s of
     SxDrop \<Rightarrow> Some (Quiet, s\<lparr>sc_channels := 0, sc_tx := NTakeW KGone\<rparr>)
   | _ \<Rightarrow> notify s)"

section \<open>Event sources\<close>

text \<open>\<^verbatim>\<open>subscribe\<close> of \<^verbatim>\<open>Park\<close>; \<open>canceled\<close> is what \<^verbatim>\<open>cancel.is_canceled()\<close> returns.\<close>

fun park_subscribe :: "bool \<Rightarrow> 'a spsc_chan \<Rightarrow> 'a spsc_chan option" where
  "park_subscribe canceled s = (case sc_kern s of
     KPStore i \<Rightarrow> Some (s\<lparr>sc_wait := ao_store (WCo i) (sc_wait s), sc_kern := KPCheckQ i\<rparr>)
   | KPCheckQ i \<Rightarrow> Some (s\<lparr>sc_kern := if sc_queue s \<noteq> [] then KPTake i else KPCheckC i\<rparr>)
   | KPCheckC i \<Rightarrow> Some (s\<lparr>sc_kern := if sc_channels s = 0 then KPTake i else KPCancel i\<rparr>)
   | KPTake i \<Rightarrow>
       (let (w, v) = ao_take (sc_wait s) in
        Some (s\<lparr>sc_wait := v, sc_kern := (case w of None \<Rightarrow> KNone | Some (WCo j) \<Rightarrow> KPTakeSlot j | Some WThread \<Rightarrow> KBroken)\<rparr>))
   | KPTakeSlot j \<Rightarrow> Some ((resume_slot j NoPara s)\<lparr>sc_kern := KNone\<rparr>)
   | KPCancel i \<Rightarrow> Some (s\<lparr>sc_cancel := ao_store i (sc_cancel s), sc_kern := KPCancelCheck i\<rparr>)
   | KPCancelCheck i \<Rightarrow>
       if canceled then Some ((cancel_slot s)\<lparr>sc_kern := KPStale\<rparr>) else Some (s\<lparr>sc_kern := KNone\<rparr>)
   | KPStale \<Rightarrow> Some (s\<lparr>sc_wait := snd (ao_take (sc_wait s)), sc_kern := KNone\<rparr>)
   | _ \<Rightarrow> None)"

text \<open>\<^verbatim>\<open>subscribe\<close> of \<^verbatim>\<open>RecvTimeoutSource\<close>.\<close>

fun timed_subscribe :: "bool \<Rightarrow> 'a spsc_chan \<Rightarrow> 'a spsc_chan option" where
  "timed_subscribe canceled s = (case sc_kern s of
     KTCancel i \<Rightarrow> Some (s\<lparr>sc_cancel := ao_store i (sc_cancel s), sc_kern := KTCancelCheck i\<rparr>)
   | KTCancelCheck i \<Rightarrow>
       if canceled then Some ((cancel_slot s)\<lparr>sc_kern := KNone\<rparr>) else Some (s\<lparr>sc_kern := KTStore i\<rparr>)
   | KTStore i \<Rightarrow> Some (s\<lparr>sc_twait := ao_store i (sc_twait s), sc_kern := KTCheckQ i\<rparr>)
   | KTCheckQ i \<Rightarrow> Some (s\<lparr>sc_kern := if sc_queue s \<noteq> [] then KTTake i else KTCheckC i\<rparr>)
   | KTCheckC i \<Rightarrow> Some (s\<lparr>sc_kern := if sc_channels s = 0 then KTTake i else KTTimer i\<rparr>)
   | KTTake i \<Rightarrow> Some ((resume_slot i NoPara s)\<lparr>sc_kern := KNone\<rparr>)
   | KTTimer i \<Rightarrow> Some (s\<lparr>sc_timer := Some i, sc_kern := KNone\<rparr>)
   | _ \<Rightarrow> None)"

text \<open>
  \<^verbatim>\<open>yield_with\<close>: with a cancellation pending the coroutine does not leave its stack; otherwise it is put into
  a fresh slot and \<^verbatim>\<open>subscribe\<close> starts.
\<close>

fun enter_kern :: "source \<Rightarrow> nat \<Rightarrow> kern" where
  "enter_kern SPark i = KPStore i"
| "enter_kern STimed i = KTCancel i"

definition yield_with :: "source \<Rightarrow> bool \<Rightarrow> 'a spsc_chan \<Rightarrow> 'a spsc_chan" where
  "yield_with src canceled s =
     (let i = sc_fresh s; s1 = s\<lparr>sc_fresh := Suc i, sc_rx := SrYield src i\<rparr> in
      if canceled then s1\<lparr>sc_resumed := Some ParaCanceled\<rparr>
      else s1\<lparr>sc_slot := (sc_slot s)(i := True), sc_kern := enter_kern src i\<rparr>)"

section \<open>Receiver\<close>

fun sc_return :: "scont \<Rightarrow> 'a answer \<Rightarrow> 'a spsc_chan \<Rightarrow> 'a cev \<times> 'a spsc_chan" where
  "sc_return SKTry r s = (Returned r, s\<lparr>sc_rx := SrIdle\<rparr>)"
| "sc_return (SKFast co) r s = (case r of
     Empty \<Rightarrow> (Quiet, s\<lparr>sc_rx := if co then SrEnter SPark else SrStore False\<rparr>)
   | _ \<Rightarrow> (Returned r, s\<lparr>sc_rx := SrIdle\<rparr>))"
| "sc_return SKCoAgain r s = (case r of
     Empty \<Rightarrow> (Quiet, s\<lparr>sc_rx := SrPop (SKFast True)\<rparr>)
   | _ \<Rightarrow> (Returned r, s\<lparr>sc_rx := SrIdle\<rparr>))"
| "sc_return SKThread r s = (case r of
     Empty \<Rightarrow> (Quiet, s\<lparr>sc_rx := SrThreadPark False\<rparr>)
   | _ \<Rightarrow> (Quiet, s\<lparr>sc_rx := SrClear (AReturn r)\<rparr>))"
| "sc_return SKThreadAgain r s = (case r of
     Empty \<Rightarrow> (Quiet, s\<lparr>sc_rx := SrStore False\<rparr>)
   | _ \<Rightarrow> (Quiet, s\<lparr>sc_rx := SrClear (AReturn r)\<rparr>))"
| "sc_return (SKTimeout co) r s = (case r of
     Empty \<Rightarrow> (Quiet, s\<lparr>sc_rx := if co then SrPop SKQuick else SrStore True\<rparr>)
   | _ \<Rightarrow> (Returned r, s\<lparr>sc_rx := SrIdle\<rparr>))"
| "sc_return SKQuick r s = (case r of
     Empty \<Rightarrow> (Quiet, s\<lparr>sc_rx := SrEnter STimed\<rparr>)
   | _ \<Rightarrow> (Returned r, s\<lparr>sc_rx := SrIdle\<rparr>))"
| "sc_return (SKBack p) r s = (Quiet, s\<lparr>sc_rx := SrTimedDrop (case r of
     Empty \<Rightarrow> if p = ParaTimedOut then OTimeout else OAnswer Disconnected
   | _ \<Rightarrow> OAnswer r)\<rparr>)"
| "sc_return SKLoop r s = (case r of
     Empty \<Rightarrow> (Quiet, s\<lparr>sc_rx := SrRemaining\<rparr>)
   | _ \<Rightarrow> (Quiet, s\<lparr>sc_rx := SrClear (AReturn r)\<rparr>))"
| "sc_return SKLast r s = (case r of
     Empty \<Rightarrow> (TimedOut, s\<lparr>sc_rx := SrIdle\<rparr>)
   | _ \<Rightarrow> (Returned r, s\<lparr>sc_rx := SrIdle\<rparr>))"

fun sc_try_recv :: "'a spsc_chan \<Rightarrow> ('a cev \<times> 'a spsc_chan) option" where
  "sc_try_recv s = (case sc_rx s of
     SrPop k \<Rightarrow> (case sc_queue s of
         v # q \<Rightarrow> Some (sc_return k (Got v) (s\<lparr>sc_queue := q\<rparr>))
       | [] \<Rightarrow> Some (Quiet, s\<lparr>sc_rx := SrLoad k\<rparr>))
   | SrLoad k \<Rightarrow>
       if sc_channels s > 0 then Some (sc_return k Empty s) else Some (Quiet, s\<lparr>sc_rx := SrPop2 k\<rparr>)
   | SrPop2 k \<Rightarrow> (case sc_queue s of
         v # q \<Rightarrow> Some (sc_return k (Got v) (s\<lparr>sc_queue := q\<rparr>))
       | [] \<Rightarrow> Some (sc_return k Disconnected s))
   | _ \<Rightarrow> None)"

text \<open>The coroutine is resumed; \<open>panics\<close> is whether \<^verbatim>\<open>check_cancel\<close> unwinds it.\<close>

definition sc_resume :: "bool \<Rightarrow> source \<Rightarrow> para \<Rightarrow> 'a spsc_chan \<Rightarrow> 'a spsc_chan" where
  "sc_resume panics src p s = s\<lparr>sc_resumed := None, sc_rx := (case src of
     SPark \<Rightarrow> SrParkDrop panics
   | STimed \<Rightarrow> if panics then SrTimedDrop OPanic else SrBack p)\<rparr>"

text \<open>The drops of the two event sources wait until \<^verbatim>\<open>subscribe\<close> has finished.\<close>

fun park_drop :: "bool \<Rightarrow> 'a spsc_chan \<Rightarrow> ('a cev \<times> 'a spsc_chan) option" where
  "park_drop panics s = (if sc_kern s = KNone then
     (let s1 = s\<lparr>sc_wait := ao_clear (sc_wait s)\<rparr> in
      if panics then Some (Unwound, s1\<lparr>sc_rx := SrIdle\<rparr>) else Some (Quiet, s1\<lparr>sc_rx := SrPop SKCoAgain\<rparr>))
     else None)"

fun timed_drop :: "'a outcome \<Rightarrow> 'a spsc_chan \<Rightarrow> ('a cev \<times> 'a spsc_chan) option" where
  "timed_drop r s = (if sc_kern s = KNone then
     Some (case r of OAnswer a \<Rightarrow> Returned a | OTimeout \<Rightarrow> TimedOut | OPanic \<Rightarrow> Unwound,
       s\<lparr>sc_twait := ao_clear (sc_twait s), sc_timer := None, sc_rx := SrIdle\<rparr>)
     else None)"

text \<open>The thread path of \<^verbatim>\<open>InnerQueue::recv\<close>\<close>

fun thread_recv :: "'a spsc_chan \<Rightarrow> ('a cev \<times> 'a spsc_chan) option" where
  "thread_recv s = (case sc_rx s of
     SrStore False \<Rightarrow> Some (Quiet, s\<lparr>sc_wait := ao_store WThread (sc_wait s), sc_rx := SrPop SKThread\<rparr>)
   | SrThreadPark False \<Rightarrow> Some (Quiet, s\<lparr>sc_unparked := False, sc_rx := SrPop SKThreadAgain\<rparr>)
   | SrClear (AReturn r) \<Rightarrow> Some (Returned r, s\<lparr>sc_wait := ao_clear (sc_wait s), sc_rx := SrIdle\<rparr>)
   | _ \<Rightarrow> None)"

text \<open>\<^verbatim>\<open>recv_timeout_thread\<close>; \<open>expired\<close> is whether no time remains.\<close>

fun recv_timeout_thread :: "bool \<Rightarrow> 'a spsc_chan \<Rightarrow> ('a cev \<times> 'a spsc_chan) option" where
  "recv_timeout_thread expired s = (case sc_rx s of
     SrStore True \<Rightarrow> Some (Quiet, s\<lparr>sc_wait := ao_store WThread (sc_wait s), sc_rx := SrPop SKLoop\<rparr>)
   | SrRemaining \<Rightarrow> Some (Quiet, s\<lparr>sc_rx := if expired then SrClear ALast else SrThreadPark True\<rparr>)
   | SrThreadPark True \<Rightarrow> Some (Quiet, s\<lparr>sc_unparked := False, sc_rx := SrClear ALoop\<rparr>)
   | SrClear (AReturn r) \<Rightarrow> Some (Returned r, s\<lparr>sc_wait := ao_clear (sc_wait s), sc_rx := SrIdle\<rparr>)
   | SrClear ALast \<Rightarrow> Some (Quiet, s\<lparr>sc_wait := ao_clear (sc_wait s), sc_rx := SrPop SKLast\<rparr>)
   | SrClear ALoop \<Rightarrow> Some (Quiet, s\<lparr>sc_wait := ao_clear (sc_wait s), sc_rx := SrStore True\<rparr>)
   | _ \<Rightarrow> None)"

text \<open>The steps of \<^verbatim>\<open>recv\<close> and \<^verbatim>\<open>recv_timeout_co\<close> in a coroutine, around \<^verbatim>\<open>try_recv\<close> and the yield.\<close>

fun co_recv :: "'a spsc_chan \<Rightarrow> ('a cev \<times> 'a spsc_chan) option" where
  "co_recv s = (case sc_rx s of
     SrParkDrop panics \<Rightarrow> park_drop panics s
   | SrBack p \<Rightarrow> Some (Quiet, s\<lparr>sc_twait := ao_clear (sc_twait s), sc_rx := SrPop (SKBack p)\<rparr>)
   | SrTimedDrop r \<Rightarrow> timed_drop r s
   | _ \<Rightarrow> None)"

fun sc_drop_port :: "'a spsc_chan \<Rightarrow> ('a cev \<times> 'a spsc_chan) option" where
  "sc_drop_port s = (case sc_rx s of
     SrDrop \<Rightarrow> Some (Quiet, s\<lparr>sc_port_dropped := True, sc_rx := SrDrain\<rparr>)
   | SrDrain \<Rightarrow> (case sc_queue s of
         v # q \<Rightarrow> Some (Drained v, s\<lparr>sc_queue := q\<rparr>)
       | [] \<Rightarrow> Some (Quiet, s\<lparr>sc_rx := SrGone\<rparr>))
   | _ \<Rightarrow> None)"

section \<open>Runs\<close>

datatype 'a scact =
    ScSend 'a | ScDropTx | ScTx
  | ScTryRecv | ScRecv bool | ScRecvTimeout bool | ScDropRx
  | ScEnter bool | ScResume bool | ScThread bool | ScRx
  | ScKern bool | ScTimer | ScCancel

fun sc_next :: "'a scact \<Rightarrow> 'a spsc_chan \<Rightarrow> ('a cev \<times> 'a spsc_chan) option" where
  "sc_next (ScSend v) s = (if sc_tx s = SxIdle then Some (Quiet, s\<lparr>sc_tx := SxLoad v\<rparr>) else None)"
| "sc_next ScDropTx s = (if sc_tx s = SxIdle then Some (Quiet, s\<lparr>sc_tx := SxDrop\<rparr>) else None)"
| "sc_next ScTx s = (case sc_send s of Some r \<Rightarrow> Some r | None \<Rightarrow> sc_drop_chan s)"
| "sc_next ScTryRecv s = (if sc_rx s = SrIdle then Some (Quiet, s\<lparr>sc_rx := SrPop SKTry\<rparr>) else None)"
| "sc_next (ScRecv co) s = (if sc_rx s = SrIdle then Some (Quiet, s\<lparr>sc_rx := SrPop (SKFast co)\<rparr>) else None)"
| "sc_next (ScRecvTimeout co) s = (if sc_rx s = SrIdle then Some (Quiet, s\<lparr>sc_rx := SrPop (SKTimeout co)\<rparr>) else None)"
| "sc_next ScDropRx s = (if sc_rx s = SrIdle then Some (Quiet, s\<lparr>sc_rx := SrDrop\<rparr>) else None)"
| "sc_next (ScEnter canceled) s = (case sc_rx s of SrEnter src \<Rightarrow> Some (Quiet, yield_with src canceled s) | _ \<Rightarrow> None)"
| "sc_next (ScResume panics) s = (case (sc_rx s, sc_resumed s) of
     (SrYield src i, Some p) \<Rightarrow> Some (Quiet, sc_resume panics src p s) | _ \<Rightarrow> None)"
| "sc_next (ScThread expired) s = recv_timeout_thread expired s"
| "sc_next ScRx s = (case sc_try_recv s of Some r \<Rightarrow> Some r
     | None \<Rightarrow> (case co_recv s of Some r \<Rightarrow> Some r
         | None \<Rightarrow> (case thread_recv s of Some r \<Rightarrow> Some r | None \<Rightarrow> sc_drop_port s)))"
| "sc_next (ScKern canceled) s = (case park_subscribe canceled s of Some s' \<Rightarrow> Some (Quiet, s')
     | None \<Rightarrow> map_option (\<lambda>s'. (Quiet, s')) (timed_subscribe canceled s))"
| "sc_next ScTimer s = (case sc_timer s of
     Some i \<Rightarrow> Some (Quiet, resume_slot i ParaTimedOut (s\<lparr>sc_timer := None\<rparr>)) | None \<Rightarrow> None)"
| "sc_next ScCancel s = Some (Quiet, cancel_slot s)"

inductive sc_run :: "'a cev list \<Rightarrow> 'a spsc_chan \<Rightarrow> bool" where
  sc_run_new: "sc_run [] spsc_chan_new"
| sc_run_step: "sc_run es s \<Longrightarrow> sc_next a s = Some (e, s') \<Longrightarrow> sc_run (es @ [e]) s'"

section \<open>Invariant\<close>

text \<open>
  For each event source: the sender is about to take the coroutine out of its slot (\<open>hit\<close>), the slot is
  registered (\<open>registered\<close>), the sender is on its way to the registration (\<open>coming\<close>).
\<close>

fun hit :: "source \<Rightarrow> nat \<Rightarrow> 'a stx_pc \<Rightarrow> bool" where
  "hit SPark i (NUnpark (WCo j) _) = (j = i)"
| "hit STimed i (NTakeSlot j _) = (j = i)"
| "hit _ _ _ = False"

fun registered :: "source \<Rightarrow> nat \<Rightarrow> 'a spsc_chan \<Rightarrow> bool" where
  "registered SPark i s = (sc_wait s = Some (WCo i))"
| "registered STimed i s = (sc_twait s = Some i)"

fun coming :: "source \<Rightarrow> 'a stx_pc \<Rightarrow> bool" where
  "coming _ (NTakeW _) = True"
| "coming STimed (NUnpark _ _) = True"
| "coming STimed (NTakeT _) = True"
| "coming _ _ = False"

definition sc_armed :: "source \<Rightarrow> nat \<Rightarrow> 'a spsc_chan \<Rightarrow> bool" where
  "sc_armed src i s \<longleftrightarrow> hit src i (sc_tx s) \<or> registered src i s"

definition sc_told :: "source \<Rightarrow> nat \<Rightarrow> 'a spsc_chan \<Rightarrow> bool" where
  "sc_told src i s \<longleftrightarrow> hit src i (sc_tx s) \<or> (registered src i s \<and> (sc_queue s = [] \<or> coming src (sc_tx s)))"

definition sc_safe :: "source \<Rightarrow> nat \<Rightarrow> 'a spsc_chan \<Rightarrow> bool" where
  "sc_safe src i s \<longleftrightarrow> hit src i (sc_tx s) \<or>
     (registered src i s \<and> ((sc_queue s = [] \<and> sc_channels s > 0) \<or> coming src (sc_tx s)))"

text \<open>What holds while the coroutine is still in its slot, for each point of \<^verbatim>\<open>subscribe\<close>.\<close>

fun kern_ok :: "source \<Rightarrow> nat \<Rightarrow> kern \<Rightarrow> 'a spsc_chan \<Rightarrow> bool" where
  "kern_ok SPark i (KPStore j) s = (j = i)"
| "kern_ok SPark i (KPCheckQ j) s = (j = i \<and> sc_armed SPark i s)"
| "kern_ok SPark i (KPCheckC j) s = (j = i \<and> sc_told SPark i s)"
| "kern_ok SPark i (KPTake j) s = (j = i \<and> sc_armed SPark i s)"
| "kern_ok SPark i (KPTakeSlot j) s = (j = i \<or> sc_safe SPark i s)"
| "kern_ok SPark i (KPCancel j) s = (j = i \<and> sc_safe SPark i s)"
| "kern_ok SPark i (KPCancelCheck j) s = (j = i \<and> sc_safe SPark i s \<and> sc_cancel s = Some i)"
| "kern_ok SPark i KNone s = sc_safe SPark i s"
| "kern_ok STimed i (KTCancel j) s = (j = i)"
| "kern_ok STimed i (KTCancelCheck j) s = (j = i \<and> sc_cancel s = Some i)"
| "kern_ok STimed i (KTStore j) s = (j = i)"
| "kern_ok STimed i (KTCheckQ j) s = (j = i \<and> sc_armed STimed i s)"
| "kern_ok STimed i (KTCheckC j) s = (j = i \<and> sc_told STimed i s)"
| "kern_ok STimed i (KTTake j) s = (j = i)"
| "kern_ok STimed i (KTTimer j) s = (j = i \<and> sc_safe STimed i s)"
| "kern_ok STimed i KNone s = (sc_safe STimed i s \<and> sc_timer s = Some i)"
| "kern_ok _ _ _ _ = False"

fun tx_dropped :: "'a stx_pc \<Rightarrow> bool" where
  "tx_dropped (NTakeW k) = (k = KGone)"
| "tx_dropped (NUnpark _ k) = (k = KGone)"
| "tx_dropped (NTakeT k) = (k = KGone)"
| "tx_dropped (NTakeSlot _ k) = (k = KGone)"
| "tx_dropped SxGone = True"
| "tx_dropped _ = False"

text \<open>The control points of the receiver at which \<^verbatim>\<open>subscribe\<close> may still run.\<close>

fun is_back :: "scont \<Rightarrow> bool" where
  "is_back (SKBack _) = True"
| "is_back _ = False"

fun in_source :: "'a srx_pc \<Rightarrow> bool" where
  "in_source (SrYield _ _) = True"
| "in_source (SrParkDrop _) = True"
| "in_source (SrBack _) = True"
| "in_source (SrPop k) = is_back k"
| "in_source (SrLoad k) = is_back k"
| "in_source (SrPop2 k) = is_back k"
| "in_source (SrTimedDrop _) = True"
| "in_source _ = False"

fun park_kern :: "kern \<Rightarrow> bool" where
  "park_kern (KPCheckQ _) = True"
| "park_kern (KPCheckC _) = True"
| "park_kern (KPTake _) = True"
| "park_kern _ = False"

fun srx_ok :: "'a srx_pc \<Rightarrow> 'a spsc_chan \<Rightarrow> bool" where
  "srx_ok (SrPop2 _) s = (sc_channels s = 0)"
| "srx_ok (SrClear (AReturn r)) s = (r \<noteq> Empty \<and> (r = Disconnected \<longrightarrow> sc_channels s = 0 \<and> sc_queue s = []))"
| "srx_ok _ s = True"

definition slot_inv :: "'a spsc_chan \<Rightarrow> bool" where
  "slot_inv s \<longleftrightarrow>
     (\<forall>i. sc_slot s i \<longrightarrow> (\<exists>src. sc_rx s = SrYield src i \<and> sc_resumed s = None \<and> kern_ok src i (sc_kern s) s)) \<and>
     (\<forall>src i. sc_rx s = SrYield src i \<longrightarrow> sc_slot s i \<or> sc_resumed s \<noteq> None) \<and>
     (sc_resumed s \<noteq> None \<longrightarrow> (\<exists>src i. sc_rx s = SrYield src i))"

definition sc_inv :: "'a spsc_chan \<Rightarrow> bool" where
  "sc_inv s \<longleftrightarrow> slot_inv s \<and> (sc_channels s = 0 \<longleftrightarrow> tx_dropped (sc_tx s)) \<and> srx_ok (sc_rx s) s \<and>
     (sc_kern s \<noteq> KNone \<longrightarrow> in_source (sc_rx s)) \<and> sc_kern s \<noteq> KBroken \<and>
     (park_kern (sc_kern s) \<longrightarrow> sc_wait s \<noteq> Some WThread)"

lemmas sc_views = sc_armed_def sc_told_def sc_safe_def

lemma notified_pc_simps [simp]:
  "hit src i (notified_pc k) = False" "coming src (notified_pc k) = False" "tx_dropped (notified_pc k) = (k = KGone)"
  by (cases k; cases src; simp)+

lemma resume_slot_sel [simp]:
  "sc_queue (resume_slot i p s) = sc_queue s" "sc_wait (resume_slot i p s) = sc_wait s"
  "sc_twait (resume_slot i p s) = sc_twait s" "sc_channels (resume_slot i p s) = sc_channels s"
  "sc_port_dropped (resume_slot i p s) = sc_port_dropped s" "sc_fresh (resume_slot i p s) = sc_fresh s"
  "sc_slot (resume_slot i p s) = (sc_slot s)(i := False)"
  "sc_resumed (resume_slot i p s) = (if sc_slot s i then Some p else sc_resumed s)"
  "sc_unparked (resume_slot i p s) = sc_unparked s" "sc_cancel (resume_slot i p s) = sc_cancel s"
  "sc_timer (resume_slot i p s) = sc_timer s" "sc_tx (resume_slot i p s) = sc_tx s"
  "sc_rx (resume_slot i p s) = sc_rx s" "sc_kern (resume_slot i p s) = sc_kern s"
  by (auto simp: resume_slot_def fun_eq_iff)

text \<open>Moves that keep what a suspended coroutine relies on.\<close>

lemma kern_ok_mono:
  assumes "kern_ok src i k s" "sc_armed src i s \<Longrightarrow> sc_armed src i s'" "sc_told src i s \<Longrightarrow> sc_told src i s'"
    "sc_safe src i s \<Longrightarrow> sc_safe src i s'" "sc_cancel s' = sc_cancel s" "sc_timer s' = sc_timer s"
  shows "kern_ok src i k s'"
  using assms by (cases "(src, i, k, s)" rule: kern_ok.cases) auto

lemma slot_inv_keep:
  assumes "slot_inv s" "sc_slot s' = sc_slot s" "sc_rx s' = sc_rx s" "sc_resumed s' = sc_resumed s" "sc_kern s' = sc_kern s"
    "sc_cancel s' = sc_cancel s" "sc_timer s' = sc_timer s"
    and "\<And>src i. sc_rx s = SrYield src i \<Longrightarrow> sc_slot s i \<Longrightarrow> (sc_armed src i s \<longrightarrow> sc_armed src i s') \<and>
      (sc_told src i s \<longrightarrow> sc_told src i s') \<and> (sc_safe src i s \<longrightarrow> sc_safe src i s')"
  shows "slot_inv s'"
proof -
  have "kern_ok src i (sc_kern s') s'" if "sc_slot s i" "sc_rx s = SrYield src i" "kern_ok src i (sc_kern s) s" for src i
    unfolding assms(5) by (rule kern_ok_mono [OF that(3)]) (use assms(6-8) that in auto)
  then show ?thesis using assms(1-4) unfolding slot_inv_def by metis
qed

text \<open>Taking the coroutine out of its slot; \<open>s'\<close> may differ in everything that does not matter any more.\<close>

lemma slot_inv_resume:
  assumes I: "slot_inv s" and s': "sc_slot s' = (sc_slot s)(i := False)" "sc_rx s' = sc_rx s"
    "sc_resumed s' = (if sc_slot s i then Some p else sc_resumed s)"
    and other: "\<And>src j. \<not> sc_slot s i \<Longrightarrow> sc_slot s j \<Longrightarrow> sc_rx s = SrYield src j \<Longrightarrow> kern_ok src j (sc_kern s) s \<Longrightarrow>
      kern_ok src j (sc_kern s') s'"
  shows "slot_inv s'"
proof (cases "sc_slot s i")
  case True
  then obtain src where y: "sc_rx s = SrYield src i" using I by (auto simp: slot_inv_def)
  have "\<not> sc_slot s j" if "j \<noteq> i" for j using I y that by (auto simp: slot_inv_def)
  then show ?thesis using s' True y by (auto simp: slot_inv_def)
next
  case False
  then have "sc_slot s' = sc_slot s" "sc_resumed s' = sc_resumed s" using s' by (auto simp: fun_eq_iff)
  then show ?thesis using I s'(2) other [OF False] unfolding slot_inv_def by metis
qed

text \<open>Steps of the sender\<close>

lemma sc_inv_parts:
  assumes "sc_inv s" and "slot_inv s'" and "sc_channels s' = 0 \<longleftrightarrow> tx_dropped (sc_tx s')" and "srx_ok (sc_rx s') s'"
    and "sc_kern s' \<noteq> KNone \<Longrightarrow> in_source (sc_rx s')" and "sc_kern s' \<noteq> KBroken"
    and "park_kern (sc_kern s') \<Longrightarrow> sc_wait s' \<noteq> Some WThread"
  shows "sc_inv s'"
  using assms by (auto simp: sc_inv_def)

lemma sc_invD:
  assumes "sc_inv s"
  shows "slot_inv s" "sc_channels s = 0 \<longleftrightarrow> tx_dropped (sc_tx s)" "srx_ok (sc_rx s) s"
    "sc_kern s \<noteq> KNone \<Longrightarrow> in_source (sc_rx s)" "sc_kern s \<noteq> KBroken"
    "park_kern (sc_kern s) \<Longrightarrow> sc_wait s \<noteq> Some WThread"
  using assms by (auto simp: sc_inv_def)

lemma srx_ok_same: "sc_channels s' = sc_channels s \<Longrightarrow> sc_queue s' = sc_queue s \<Longrightarrow> srx_ok p s' = srx_ok p s"
  by (cases "(p, s)" rule: srx_ok.cases) simp_all

text \<open>A sender step that leaves the slots alone.\<close>

lemma sc_inv_tx:
  assumes I: "sc_inv s" and same: "sc_slot s' = sc_slot s" "sc_rx s' = sc_rx s" "sc_resumed s' = sc_resumed s"
    "sc_kern s' = sc_kern s" "sc_cancel s' = sc_cancel s" "sc_timer s' = sc_timer s"
    and w: "sc_wait s' = sc_wait s \<or> sc_wait s' = None"
    and q: "sc_queue s' = sc_queue s \<or> \<not> tx_dropped (sc_tx s)" "sc_channels s = 0 \<Longrightarrow> sc_channels s' = 0"
    and d: "sc_channels s' = 0 \<longleftrightarrow> tx_dropped (sc_tx s')"
    and v: "\<And>src i. (sc_armed src i s \<longrightarrow> sc_armed src i s') \<and>
      (sc_told src i s \<longrightarrow> sc_told src i s') \<and> (sc_safe src i s \<longrightarrow> sc_safe src i s')"
  shows "sc_inv s'"
proof (rule sc_inv_parts [OF I])
  show "slot_inv s'" by (rule slot_inv_keep [OF sc_invD(1) [OF I] same v])
  have "srx_ok (sc_rx s) s'" using sc_invD(2,3) [OF I] q
    by (cases "(sc_rx s, s')" rule: srx_ok.cases) auto
  then show "srx_ok (sc_rx s') s'" using same by simp
qed (use sc_invD(4-6) [OF I] same w d in auto)

lemma sc_inv_tx_resume:
  assumes I: "sc_inv s" and s': "s' = (resume_slot i NoPara s)\<lparr>sc_tx := p\<rparr>"
    and d: "tx_dropped p = tx_dropped (sc_tx s)"
    and v: "\<And>src j. j \<noteq> i \<Longrightarrow> hit src j (sc_tx s) \<Longrightarrow> hit src j p" "\<And>src. coming src (sc_tx s) \<Longrightarrow> coming src p"
  shows "sc_inv s'"
proof (rule sc_inv_parts [OF I])
  have views: "(sc_armed src j s \<longrightarrow> sc_armed src j s') \<and> (sc_told src j s \<longrightarrow> sc_told src j s') \<and> (sc_safe src j s \<longrightarrow> sc_safe src j s')"
    if "j \<noteq> i" for src j using v that by (cases src) (auto simp: s' sc_views)
  show "slot_inv s'"
  proof (rule slot_inv_resume [OF sc_invD(1) [OF I], where i = i and p = NoPara])
    fix src j assume "\<not> sc_slot s i" "sc_slot s j" "kern_ok src j (sc_kern s) s"
    moreover from this have "j \<noteq> i" by auto
    ultimately show "kern_ok src j (sc_kern s') s'"
      using views [of j src] by (auto simp: s' intro: kern_ok_mono)
  qed (simp_all add: s')
  show "srx_ok (sc_rx s') s'" using sc_invD(3) [OF I] srx_ok_same [of s' s] by (simp add: s')
qed (use sc_invD(2,4-6) [OF I] d in \<open>auto simp: s'\<close>)

lemma sc_notify_inv:
  assumes I: "sc_inv s" and st: "notify s = Some (e, s')"
  shows "sc_inv s'"
proof (cases "sc_tx s")
  case (NTakeW k)
  have v: "(sc_armed src i s \<longrightarrow> sc_armed src i s') \<and> (sc_told src i s \<longrightarrow> sc_told src i s') \<and> (sc_safe src i s \<longrightarrow> sc_safe src i s')" for src i
    using st NTakeW by (cases src) (auto simp: sc_views ao_take_def split: option.splits)
  show ?thesis using st NTakeW sc_invD(2) [OF I]
    by (intro sc_inv_tx [OF I _ _ _ _ _ _ _ _ _ _ v]) (auto simp: ao_take_def split: option.splits)
next
  case (NTakeT k)
  have v: "(sc_armed src i s \<longrightarrow> sc_armed src i s') \<and> (sc_told src i s \<longrightarrow> sc_told src i s') \<and> (sc_safe src i s \<longrightarrow> sc_safe src i s')" for src i
    using st NTakeT by (cases src) (auto simp: sc_views ao_take_def split: option.splits)
  show ?thesis using st NTakeT sc_invD(2) [OF I]
    by (intro sc_inv_tx [OF I _ _ _ _ _ _ _ _ _ _ v]) (auto simp: ao_take_def split: option.splits)
next
  case (NTakeSlot i k)
  then have e: "s' = (resume_slot i NoPara s)\<lparr>sc_tx := notified_pc k\<rparr>" using st by simp
  show ?thesis by (rule sc_inv_tx_resume [OF I e]) (use NTakeSlot in \<open>auto elim: hit.elims coming.elims\<close>)
next
  case (NUnpark b k)
  show ?thesis
  proof (cases b)
    case (WCo i)
    then have e: "s' = (resume_slot i NoPara s)\<lparr>sc_tx := NTakeT k\<rparr>" using st NUnpark by simp
    show ?thesis by (rule sc_inv_tx_resume [OF I e]) (use NUnpark WCo in \<open>auto elim: hit.elims coming.elims\<close>)
  next
    case WThread
    then have s': "s' = s\<lparr>sc_unparked := True, sc_tx := NTakeT k\<rparr>" using st NUnpark by simp
    have v: "(sc_armed src i s \<longrightarrow> sc_armed src i s') \<and> (sc_told src i s \<longrightarrow> sc_told src i s') \<and> (sc_safe src i s \<longrightarrow> sc_safe src i s')" for src i
      using NUnpark WThread by (cases src) (auto simp: s' sc_views)
    show ?thesis using NUnpark sc_invD(2) [OF I]
      by (intro sc_inv_tx [OF I _ _ _ _ _ _ _ _ _ _ v]) (auto simp: s')
  qed
qed (use st in auto)

lemma sc_send_inv:
  assumes I: "sc_inv s" and st: "sc_send s = Some (e, s') \<or> sc_drop_chan s = Some (e, s')"
  shows "sc_inv s'"
proof (cases "notify s")
  case None
  have v: "(sc_armed src i s \<longrightarrow> sc_armed src i s') \<and> (sc_told src i s \<longrightarrow> sc_told src i s') \<and> (sc_safe src i s \<longrightarrow> sc_safe src i s')" for src i
    using st None by (cases src; cases "sc_tx s") (auto simp: sc_views split: if_splits)
  show ?thesis using st None sc_invD(2) [OF I]
    by (intro sc_inv_tx [OF I _ _ _ _ _ _ _ _ _ _ v]; cases "sc_tx s") (auto split: if_splits)
next
  case (Some r)
  then have "notify s = Some (e, s')" using st by (cases "sc_tx s") (auto split: if_splits)
  then show ?thesis by (rule sc_notify_inv [OF I])
qed

text \<open>Steps of \<^verbatim>\<open>subscribe\<close>, of the timer and of the canceler: without and with a resumption\<close>

lemma sc_inv_kern:
  assumes I: "sc_inv s" and same: "sc_slot s' = sc_slot s" "sc_rx s' = sc_rx s" "sc_resumed s' = sc_resumed s"
    "sc_tx s' = sc_tx s" "sc_queue s' = sc_queue s" "sc_channels s' = sc_channels s"
    and k: "sc_kern s \<noteq> KNone" "sc_kern s' \<noteq> KBroken" "park_kern (sc_kern s') \<Longrightarrow> sc_wait s' \<noteq> Some WThread"
    and v: "\<And>src i. kern_ok src i (sc_kern s) s \<Longrightarrow> kern_ok src i (sc_kern s') s'"
  shows "sc_inv s'"
proof (rule sc_inv_parts [OF I])
  show "slot_inv s'" using sc_invD(1) [OF I] same v unfolding slot_inv_def by metis
  show "srx_ok (sc_rx s') s'" using sc_invD(3) [OF I] srx_ok_same [of s' s] same by simp
qed (use sc_invD(2,4) [OF I] same k in auto)

lemma sc_inv_kern_resume:
  assumes I: "sc_inv s" and s': "sc_slot s' = (sc_slot s)(i := False)" "sc_rx s' = sc_rx s"
    "sc_resumed s' = (if sc_slot s i then Some p else sc_resumed s)" "sc_tx s' = sc_tx s" "sc_queue s' = sc_queue s"
    "sc_channels s' = sc_channels s"
    and k: "sc_kern s' \<noteq> KBroken" "park_kern (sc_kern s') \<Longrightarrow> sc_wait s' \<noteq> Some WThread"
      "sc_kern s' \<noteq> KNone \<Longrightarrow> sc_kern s \<noteq> KNone"
    and v: "\<And>src j. j \<noteq> i \<Longrightarrow> kern_ok src j (sc_kern s) s \<Longrightarrow> kern_ok src j (sc_kern s') s'"
  shows "sc_inv s'"
proof (rule sc_inv_parts [OF I])
  show "slot_inv s'"
  proof (rule slot_inv_resume [OF sc_invD(1) [OF I] s'(1-3)])
    fix src j assume "\<not> sc_slot s i" "sc_slot s j" "kern_ok src j (sc_kern s) s"
    then show "kern_ok src j (sc_kern s') s'" using v [of j src] by (cases "j = i") auto
  qed
  show "srx_ok (sc_rx s') s'" using sc_invD(3) [OF I] srx_ok_same [of s' s] s' by simp
qed (use sc_invD(2,4) [OF I] s' k in auto)

lemma cancel_slot_cases:
  obtains "cancel_slot s = s" "sc_cancel s = None"
  | i where "sc_cancel s = Some i" "cancel_slot s = resume_slot i ParaCanceled (s\<lparr>sc_cancel := None\<rparr>)"
  by (cases "sc_cancel s") (auto simp: cancel_slot_def ao_take_def)

lemma kern_simps:
  "kern_ok src i (KPCancelCheck j) s \<longleftrightarrow> src = SPark \<and> j = i \<and> sc_safe SPark i s \<and> sc_cancel s = Some i"
  "kern_ok src i (KTCancelCheck j) s \<longleftrightarrow> src = STimed \<and> j = i \<and> sc_cancel s = Some i"
  "kern_ok src i (KTTake j) s \<longleftrightarrow> src = STimed \<and> j = i" "kern_ok src i (KPTakeSlot j) s \<longleftrightarrow> src = SPark \<and> (j = i \<or> sc_safe SPark i s)"
  "kern_ok src i KPStale s \<longleftrightarrow> False" "kern_ok src i (KPStore j) s \<longleftrightarrow> src = SPark \<and> j = i"
  "kern_ok src i (KPCheckQ j) s \<longleftrightarrow> src = SPark \<and> j = i \<and> sc_armed SPark i s"
  "kern_ok src i (KPCheckC j) s \<longleftrightarrow> src = SPark \<and> j = i \<and> sc_told SPark i s"
  "kern_ok src i (KPTake j) s \<longleftrightarrow> src = SPark \<and> j = i \<and> sc_armed SPark i s"
  "kern_ok src i (KPCancel j) s \<longleftrightarrow> src = SPark \<and> j = i \<and> sc_safe SPark i s"
  "kern_ok src i (KTCancel j) s \<longleftrightarrow> src = STimed \<and> j = i" "kern_ok src i (KTStore j) s \<longleftrightarrow> src = STimed \<and> j = i"
  "kern_ok src i (KTCheckQ j) s \<longleftrightarrow> src = STimed \<and> j = i \<and> sc_armed STimed i s"
  "kern_ok src i (KTCheckC j) s \<longleftrightarrow> src = STimed \<and> j = i \<and> sc_told STimed i s"
  "kern_ok src i (KTTimer j) s \<longleftrightarrow> src = STimed \<and> j = i \<and> sc_safe STimed i s"
  "kern_ok src i KNone s \<longleftrightarrow> sc_safe src i s \<and> (src = STimed \<longrightarrow> sc_timer s = Some i)"
  by (cases src; auto)+

lemma view_same:
  assumes "sc_tx s' = sc_tx s" "sc_wait s' = sc_wait s" "sc_twait s' = sc_twait s" "sc_queue s' = sc_queue s"
    "sc_channels s' = sc_channels s"
  shows "sc_armed src i s' = sc_armed src i s" "sc_told src i s' = sc_told src i s" "sc_safe src i s' = sc_safe src i s"
  by (cases src; use assms in \<open>simp add: sc_views\<close>)+

lemma sc_cancel_inv:
  assumes I: "sc_inv s" shows "sc_inv (cancel_slot s)"
proof (cases rule: cancel_slot_cases [of s])
  case (2 i)
  show ?thesis
  proof (rule sc_inv_kern_resume [OF I, of _ i ParaCanceled])
    fix src j assume "j \<noteq> i" "kern_ok src j (sc_kern s) s"
    then show "kern_ok src j (sc_kern (cancel_slot s)) (cancel_slot s)" using 2 view_same [of "cancel_slot s" s]
      by (cases "(src, j, sc_kern s, s)" rule: kern_ok.cases) auto
  qed (use sc_invD(5,6) [OF I] in \<open>auto simp: 2 fun_eq_iff\<close>)
qed (use I in simp)

lemma sc_timer_inv:
  assumes I: "sc_inv s" and t: "sc_timer s = Some i"
  shows "sc_inv (resume_slot i ParaTimedOut (s\<lparr>sc_timer := None\<rparr>))" (is "sc_inv ?s")
proof (rule sc_inv_kern_resume [OF I, of _ i ParaTimedOut])
  fix src j assume "j \<noteq> i" "kern_ok src j (sc_kern s) s"
  then show "kern_ok src j (sc_kern ?s) ?s" using t view_same [of ?s s]
    by (cases "(src, j, sc_kern s, s)" rule: kern_ok.cases) auto
qed (use sc_invD(5,6) [OF I] in \<open>auto simp: fun_eq_iff\<close>)

lemma sc_park_subscribe_inv:
  assumes I: "sc_inv s" and st: "park_subscribe canceled s = Some s'"
  shows "sc_inv s'"
proof (cases "sc_kern s")
  case (KPTakeSlot j)
  then have "s' = (resume_slot j NoPara s)\<lparr>sc_kern := KNone\<rparr>" using st by simp
  then show ?thesis using KPTakeSlot view_same [of s' s]
    by (intro sc_inv_kern_resume [OF I, of _ j NoPara]) (auto simp: kern_simps)
next
  case (KPCancelCheck j)
  show ?thesis
  proof (cases canceled)
    case True
    then have s': "s' = (cancel_slot s)\<lparr>sc_kern := KPStale\<rparr>" using st KPCancelCheck by simp
    show ?thesis
    proof (cases rule: cancel_slot_cases [of s])
      case 1
      then show ?thesis using KPCancelCheck by (intro sc_inv_kern [OF I]) (auto simp: s' kern_simps)
    next
      case (2 i)
      then show ?thesis using KPCancelCheck
        by (intro sc_inv_kern_resume [OF I, of _ i ParaCanceled]) (auto simp: s' kern_simps fun_eq_iff)
    qed
  next
    case False
    then show ?thesis using st KPCancelCheck view_same [of s' s] by (intro sc_inv_kern [OF I]) (auto simp: kern_simps)
  qed
next
  case (KPTake j)
  have w: "sc_wait s \<noteq> Some WThread" using sc_invD(6) [OF I] KPTake by simp
  define k where "k = (case sc_wait s of None \<Rightarrow> KNone | Some (WCo j) \<Rightarrow> KPTakeSlot j | Some WThread \<Rightarrow> KBroken)"
  have s': "s' = s\<lparr>sc_wait := None, sc_kern := k\<rparr>" using st KPTake by (simp add: k_def ao_take_def)
  have k: "k \<noteq> KBroken" "\<not> park_kern k" using w by (auto simp: k_def split: option.splits waiter.splits)
  have "kern_ok SPark i k s'" if "sc_armed SPark i s" for i
    using that w by (auto simp: k_def s' sc_views kern_simps split: option.splits waiter.splits)
  then show ?thesis using KPTake k by (intro sc_inv_kern [OF I]) (auto simp: s' kern_simps(9))
qed (use st sc_invD(6) [OF I] in \<open>auto intro!: sc_inv_kern [OF I] simp: kern_simps ao_store_def sc_views ao_take_def word_greater_zero_iff split: if_splits\<close>)

lemma sc_timed_subscribe_inv:
  assumes I: "sc_inv s" and st: "timed_subscribe canceled s = Some s'"
  shows "sc_inv s'"
proof (cases "sc_kern s")
  case (KTCancelCheck j)
  show ?thesis
  proof (cases canceled)
    case True
    then have s': "s' = (cancel_slot s)\<lparr>sc_kern := KNone\<rparr>" using st KTCancelCheck by simp
    show ?thesis
    proof (cases rule: cancel_slot_cases [of s])
      case 1
      then show ?thesis using KTCancelCheck by (intro sc_inv_kern [OF I]) (auto simp: s' kern_simps)
    next
      case (2 i)
      then show ?thesis using KTCancelCheck
        by (intro sc_inv_kern_resume [OF I, of _ i ParaCanceled]) (auto simp: s' kern_simps fun_eq_iff)
    qed
  next
    case False
    then show ?thesis using st KTCancelCheck by (intro sc_inv_kern [OF I]) (auto simp: kern_simps)
  qed
next
  case (KTTake j)
  then have "s' = (resume_slot j NoPara s)\<lparr>sc_kern := KNone\<rparr>" using st by simp
  then show ?thesis using KTTake by (intro sc_inv_kern_resume [OF I, of _ j NoPara]) (auto simp: kern_simps)
qed (use st in \<open>auto intro!: sc_inv_kern [OF I] simp: kern_simps ao_store_def sc_views word_greater_zero_iff split: if_splits\<close>)

text \<open>Steps of the receiver outside a yield\<close>

fun yields :: "'a srx_pc \<Rightarrow> bool" where
  "yields (SrYield _ _) = True"
| "yields _ = False"

lemma slot_inv_idle: "\<not> yields (sc_rx s) \<Longrightarrow> slot_inv s \<longleftrightarrow> (\<forall>i. \<not> sc_slot s i) \<and> sc_resumed s = None"
  by (cases "sc_rx s") (auto simp: slot_inv_def)

lemma sc_inv_rx:
  assumes I: "sc_inv s" and rx: "\<not> yields (sc_rx s)" "\<not> yields (sc_rx s')"
    and same: "sc_slot s' = sc_slot s" "sc_resumed s' = sc_resumed s" "sc_kern s' = sc_kern s"
      "sc_channels s' = sc_channels s" "sc_tx s' = sc_tx s"
    and r: "srx_ok (sc_rx s') s'" "in_source (sc_rx s) \<Longrightarrow> in_source (sc_rx s') \<or> sc_kern s = KNone"
    and w: "sc_wait s' = sc_wait s \<or> sc_wait s' = None \<or> \<not> in_source (sc_rx s)"
  shows "sc_inv s'"
proof (rule sc_inv_parts [OF I])
  show "slot_inv s'" using sc_invD(1) [OF I] rx same by (simp add: slot_inv_idle)
  show "sc_wait s' \<noteq> Some WThread" if "park_kern (sc_kern s')"
  proof -
    have "sc_kern s \<noteq> KNone" using that same(3) by auto
    then show ?thesis using sc_invD(4,6) [OF I] that w same(3) by auto
  qed
qed (use sc_invD(2,4,5) [OF I] same r in auto)

lemma sc_return_facts:
  assumes "sc_return k r s = (e, s')"
  shows "sc_queue s' = sc_queue s" "sc_wait s' = sc_wait s" "sc_slot s' = sc_slot s" "sc_resumed s' = sc_resumed s"
    "sc_kern s' = sc_kern s" "sc_channels s' = sc_channels s" "sc_tx s' = sc_tx s" "\<not> yields (sc_rx s')"
    "(r = Disconnected \<longrightarrow> sc_channels s = 0 \<and> sc_queue s = []) \<Longrightarrow> srx_ok (sc_rx s') s'"
    "is_back k \<Longrightarrow> in_source (sc_rx s')"
  using assms by (cases k; cases r; auto split: if_splits)+

lemma sc_try_recv_inv:
  assumes I: "sc_inv s" and st: "sc_try_recv s = Some (e, s')"
  shows "sc_inv s'"
proof -
  consider (ret) k r q where "sc_return k r (s\<lparr>sc_queue := q\<rparr>) = (e, s')" "in_source (sc_rx s) = is_back k"
      "r = Disconnected \<longrightarrow> sc_channels s = 0 \<and> q = []" "\<not> yields (sc_rx s)"
    | (load) k where "sc_rx s = SrPop k" "s' = s\<lparr>sc_rx := SrLoad k\<rparr>"
    | (pop2) k where "sc_rx s = SrLoad k" "s' = s\<lparr>sc_rx := SrPop2 k\<rparr>" "sc_channels s = 0"
  proof (cases "sc_rx s")
    case (SrPop k)
    then show ?thesis using st that(2) [of k] that(1) [of k "Got (hd (sc_queue s))" "tl (sc_queue s)"]
      by (cases "sc_queue s") auto
  next
    case (SrLoad k)
    then show ?thesis using st that(1) [of k Empty "sc_queue s"] that(3) [of k]
      by (auto simp: word_greater_zero_iff split: if_splits)
  next
    case (SrPop2 k)
    show ?thesis
    proof (cases "sc_queue s")
      case Nil
      then have eq: "s\<lparr>sc_queue := []\<rparr> = s" by simp
      show ?thesis using st SrPop2 Nil sc_invD(3) [OF I] that(1) [of k Disconnected "[]", unfolded eq] by simp
    next
      case (Cons v q)
      then show ?thesis using st SrPop2 that(1) [of k "Got v" q] by simp
    qed
  qed (use st in auto)
  then show ?thesis
  proof cases
    case ret
    note f = sc_return_facts [OF ret(1)]
    show ?thesis by (rule sc_inv_rx [OF I ret(4) f(8)]) (use f ret in auto)
  next
    case load
    then show ?thesis by (intro sc_inv_rx [OF I]) auto
  next
    case pop2
    then show ?thesis by (intro sc_inv_rx [OF I]) auto
  qed
qed

lemma sc_co_recv_inv:
  assumes I: "sc_inv s" and st: "co_recv s = Some (e, s')"
  shows "sc_inv s'"
  by (cases "sc_rx s") (use st in \<open>auto intro!: sc_inv_rx [OF I] simp: Let_def ao_clear_def split: if_splits outcome.splits\<close>)

lemma sc_thread_recv_inv:
  assumes I: "sc_inv s" and st: "thread_recv s = Some (e, s') \<or> recv_timeout_thread x s = Some (e, s') \<or> sc_drop_port s = Some (e, s')"
  shows "sc_inv s'"
  by (cases "sc_rx s") (use st in \<open>auto intro!: sc_inv_rx [OF I] simp: Let_def ao_clear_def split: if_splits after_clear.splits list.splits bool.splits\<close>)

lemma sc_yield_inv:
  assumes I: "sc_inv s" and rx: "sc_rx s = SrEnter src"
  shows "sc_inv (yield_with src canceled s)"
proof -
  have e: "\<forall>i. \<not> sc_slot s i" "sc_resumed s = None" using sc_invD(1) [OF I] by (auto simp: rx slot_inv_idle)
  have k: "sc_kern s = KNone" using sc_invD(4) [OF I] by (auto simp: rx)
  have "slot_inv (yield_with src canceled s)"
    using e by (cases src) (auto simp: slot_inv_def yield_with_def Let_def)
  then show ?thesis
    by (rule sc_inv_parts [OF I]; use sc_invD(2) [OF I] in \<open>cases src; cases canceled; simp add: yield_with_def Let_def k\<close>)
qed

lemma sc_resume_inv:
  assumes I: "sc_inv s" and rx: "sc_rx s = SrYield src i" "sc_resumed s = Some p"
  shows "sc_inv (sc_resume panics src p s)"
proof -
  have e: "\<forall>i. \<not> sc_slot s i" using sc_invD(1) [OF I] rx by (auto simp: slot_inv_def)
  show ?thesis
    by (rule sc_inv_parts [OF I])
      (use sc_invD [OF I] e in \<open>auto simp: sc_resume_def slot_inv_def split: source.splits\<close>)
qed

lemma sc_step_inv:
  assumes I: "sc_inv s" and st: "sc_next a s = Some (e, s')"
  shows "sc_inv s'"
proof (cases a)
  case ScTx
  then show ?thesis using st sc_send_inv [OF I]
    by (auto simp del: sc_send.simps sc_drop_chan.simps split: option.splits)
next
  case ScRx
  then show ?thesis using st sc_try_recv_inv [OF I] sc_co_recv_inv [OF I] sc_thread_recv_inv [OF I]
    by (auto simp del: sc_try_recv.simps co_recv.simps thread_recv.simps sc_drop_port.simps split: option.splits)
next
  case (ScKern c)
  then show ?thesis using st sc_park_subscribe_inv [OF I] sc_timed_subscribe_inv [OF I]
    by (auto simp del: park_subscribe.simps timed_subscribe.simps split: option.splits)
next
  case (ScThread x)
  then show ?thesis using st sc_thread_recv_inv [OF I] by (simp del: recv_timeout_thread.simps) blast
next
  case ScCancel
  then show ?thesis using st sc_cancel_inv [OF I] by simp
next
  case ScTimer
  then show ?thesis using st sc_timer_inv [OF I] by (auto split: option.splits)
next
  case (ScEnter c)
  then show ?thesis using st sc_yield_inv [OF I] by (auto split: srx_pc.splits)
next
  case (ScResume p)
  then show ?thesis using st sc_resume_inv [OF I] by (auto split: srx_pc.splits option.splits)
next
  case (ScSend v)
  then have s': "sc_tx s = SxIdle" "s' = s\<lparr>sc_tx := SxLoad v\<rparr>" using st by (auto split: if_splits)
  have v: "(sc_armed src i s \<longrightarrow> sc_armed src i s') \<and> (sc_told src i s \<longrightarrow> sc_told src i s') \<and> (sc_safe src i s \<longrightarrow> sc_safe src i s')" for src i
    using s' by (cases src) (auto simp: sc_views)
  show ?thesis using s' sc_invD(2) [OF I] by (intro sc_inv_tx [OF I _ _ _ _ _ _ _ _ _ _ v]) auto
next
  case ScDropTx
  then have s': "sc_tx s = SxIdle" "s' = s\<lparr>sc_tx := SxDrop\<rparr>" using st by (auto split: if_splits)
  have v: "(sc_armed src i s \<longrightarrow> sc_armed src i s') \<and> (sc_told src i s \<longrightarrow> sc_told src i s') \<and> (sc_safe src i s \<longrightarrow> sc_safe src i s')" for src i
    using s' by (cases src) (auto simp: sc_views)
  show ?thesis using s' sc_invD(2) [OF I] by (intro sc_inv_tx [OF I _ _ _ _ _ _ _ _ _ _ v]) auto
qed (use st in \<open>auto intro!: sc_inv_rx [OF I] split: if_splits srx_pc.splits\<close>)

text \<open>Values\<close>

fun sc_carried :: "'a srx_pc \<Rightarrow> 'a list" where
  "sc_carried (SrClear (AReturn (Got v))) = [v]"
| "sc_carried (SrTimedDrop (OAnswer (Got v))) = [v]"
| "sc_carried _ = []"

definition sc_flow :: "'a spsc_chan \<Rightarrow> 'a list" where
  "sc_flow s = sc_carried (sc_rx s) @ sc_queue s"

lemma sc_return_flow:
  "sc_return k r s = (e, s') \<Longrightarrow> taken [e] @ sc_flow s' = (case r of Got v \<Rightarrow> [v] | _ \<Rightarrow> []) @ sc_queue s \<and> pushed [e] = []"
  by (cases k; cases r) (auto simp: taken_def pushed_def sc_flow_def split: if_splits)

lemma cancel_slot_sel [simp]: "sc_queue (cancel_slot s) = sc_queue s" "sc_rx (cancel_slot s) = sc_rx s"
  by (cases rule: cancel_slot_cases [of s]; simp)+

lemma unpark_waiter_sel [simp]: "sc_queue (unpark_waiter b s) = sc_queue s" "sc_rx (unpark_waiter b s) = sc_rx s"
  by (cases b; simp)+

lemma sc_step_flow:
  assumes "sc_next a s = Some (e, s')"
  shows "taken [e] @ sc_flow s' = sc_flow s @ pushed [e]"
proof (cases a)
  case ScRx
  show ?thesis
  proof (cases "sc_try_recv s")
    case None
    then have "co_recv s = Some (e, s') \<or> thread_recv s = Some (e, s') \<or> sc_drop_port s = Some (e, s')"
      using ScRx assms by (auto simp del: sc_try_recv.simps co_recv.simps thread_recv.simps sc_drop_port.simps split: option.splits)
    then show ?thesis
      by (cases "sc_rx s") (auto simp: taken_def pushed_def sc_flow_def Let_def
        split: option.splits answer.splits if_splits list.splits outcome.splits after_clear.splits bool.splits)
  next
    case (Some r)
    then have "sc_try_recv s = Some (e, s')" using ScRx assms by simp
    then show ?thesis
      by (auto dest!: sc_return_flow simp: sc_flow_def split: srx_pc.splits if_splits list.splits)
        (auto simp: taken_def pushed_def)
  qed
next
  case ScTx
  then show ?thesis using assms
    by (cases "sc_tx s") (auto simp: taken_def pushed_def sc_flow_def Let_def ao_take_def split: if_splits)
next
  case (ScKern c)
  then show ?thesis using assms
    by (cases "sc_kern s") (auto simp: taken_def pushed_def sc_flow_def Let_def ao_take_def split: if_splits)
next
  case (ScThread x)
  then show ?thesis using assms
    by (cases "sc_rx s") (auto simp: taken_def pushed_def sc_flow_def split: answer.splits after_clear.splits bool.splits)
next
  case (ScEnter c)
  then show ?thesis using assms
    by (auto simp: taken_def pushed_def sc_flow_def Let_def yield_with_def split: if_splits srx_pc.splits)
next
  case (ScResume p)
  then show ?thesis using assms
    by (auto simp: taken_def pushed_def sc_flow_def sc_resume_def split: source.splits srx_pc.splits option.splits)
qed (use assms in \<open>auto simp: taken_def pushed_def sc_flow_def split: srx_pc.splits if_splits option.splits\<close>)

lemma sc_run_inv:
  assumes "sc_run es s"
  shows "sc_inv s \<and> taken es @ sc_flow s = pushed es"
  using assms
proof (induction rule: sc_run.induct)
  case sc_run_new
  show ?case by (simp add: sc_inv_def slot_inv_def spsc_chan_new_def sc_flow_def taken_def pushed_def)
next
  case (sc_run_step es s a e s')
  have "sc_inv s'" by (rule sc_step_inv [OF _ sc_run_step.hyps(2)]) (use sc_run_step.IH in blast)
  moreover have "taken es @ (taken [e] @ sc_flow s') = pushed es @ pushed [e]"
    using sc_step_flow [OF sc_run_step.hyps(2)] sc_run_step.IH by (metis append.assoc)
  ultimately show ?case by simp
qed

section \<open>Properties\<close>

lemma sc_return_disc:
  "sc_return k r s = (Returned Disconnected, s') \<Longrightarrow>
     r = Disconnected \<and> sc_queue s' = sc_queue s \<and> sc_channels s' = sc_channels s \<and> sc_rx s' = SrIdle"
  by (cases k; cases r) (auto split: if_splits)

lemma sc_step_disc:
  assumes I: "sc_inv s" and st: "sc_next a s = Some (Returned Disconnected, s')"
  shows "sc_rx s = SrTimedDrop (OAnswer Disconnected) \<or> (sc_queue s' = [] \<and> sc_channels s' = 0 \<and> sc_rx s' = SrIdle)"
proof (cases a)
  case ScRx
  show ?thesis
  proof (cases "sc_try_recv s")
    case None
    then have "co_recv s = Some (Returned Disconnected, s') \<or> thread_recv s = Some (Returned Disconnected, s') \<or>
      sc_drop_port s = Some (Returned Disconnected, s')"
      using ScRx st by (auto simp del: sc_try_recv.simps co_recv.simps thread_recv.simps sc_drop_port.simps split: option.splits)
    then show ?thesis using sc_invD(3) [OF I]
      by (cases "sc_rx s") (auto simp: Let_def split: if_splits list.splits outcome.splits after_clear.splits bool.splits)
  next
    case (Some r)
    then have "sc_try_recv s = Some (Returned Disconnected, s')" using ScRx st by simp
    then show ?thesis using sc_invD(3) [OF I]
      by (auto dest!: sc_return_disc split: srx_pc.splits if_splits list.splits)
  qed
next
  case ScTx
  then show ?thesis using st by (cases "sc_tx s") (auto simp: Let_def ao_take_def split: if_splits)
next
  case (ScThread x)
  then show ?thesis using st sc_invD(3) [OF I] by (cases "sc_rx s") (auto split: after_clear.splits bool.splits)
next
  case (ScKern c)
  then show ?thesis using st by (cases "sc_kern s") (auto simp: Let_def ao_take_def split: if_splits)
qed (use st in \<open>auto split: srx_pc.splits if_splits option.splits\<close>)

text \<open>
  C18: the channel delivers every value once and in order. In every run, with both kinds of receiver, timeouts
  and cancellations at any point, the values returned or drained are a prefix of the values pushed and the rest
  is still in the channel; the handle of a thread is never taken for a coroutine. A call returns \<^verbatim>\<open>Disconnected\<close>
  only when everything has been delivered and the sender is gone, except for \<^verbatim>\<open>recv_timeout\<close> in a coroutine.
\<close>

theorem spsc_chan_delivers:
  assumes "sc_run es s"
  shows "taken es @ sc_carried (sc_rx s) @ sc_queue s = pushed es \<and> sc_kern s \<noteq> KBroken \<and>
    (\<forall>a s'. sc_next a s = Some (Returned Disconnected, s') \<longrightarrow>
       sc_rx s = SrTimedDrop (OAnswer Disconnected) \<or> (pushed es = taken es \<and> sc_channels s' = 0))"
proof -
  from sc_run_inv [OF assms] have I: "sc_inv s" and F: "taken es @ sc_flow s = pushed es" by auto
  have "pushed es = taken es \<and> sc_channels s' = 0"
    if st: "sc_next a s = Some (Returned Disconnected, s')" "sc_rx s \<noteq> SrTimedDrop (OAnswer Disconnected)" for a s'
  proof -
    have q: "sc_queue s' = []" "sc_channels s' = 0" "sc_rx s' = SrIdle" using sc_step_disc [OF I st(1)] st(2) by auto
    then have "sc_flow s = []" using sc_step_flow [OF st(1)] by (simp add: sc_flow_def taken_def pushed_def)
    then show ?thesis using F q by simp
  qed
  then show ?thesis using F sc_invD(5) [OF I] by (auto simp: sc_flow_def)
qed

text \<open>
  C3: a suspended receiver is held by exactly one slot until exactly one party resumes it, and no wake-up is
  lost. A yielded coroutine is either in its slot or scheduled, never both. When the sender is outside its calls and
  \<^verbatim>\<open>subscribe\<close> has finished, a coroutine still in its slot is registered where the sender looks for it,
  the queue is empty and the sender is alive; if it waits with a timeout, its timer is armed.
\<close>

theorem spsc_chan_no_lost_wakeup:
  assumes "sc_run es s" and "sc_rx s = SrYield src i"
  shows "(sc_slot s i \<longleftrightarrow> sc_resumed s = None) \<and>
    (sc_slot s i \<and> sc_kern s = KNone \<and> (sc_tx s = SxIdle \<or> sc_tx s = SxGone) \<longrightarrow>
       registered src i s \<and> sc_queue s = [] \<and> sc_channels s > 0 \<and> (src = STimed \<longrightarrow> sc_timer s = Some i))"
proof -
  from sc_run_inv [OF assms(1)] have S: "slot_inv s" by (simp add: sc_inv_def)
  have one: "sc_slot s i \<longleftrightarrow> sc_resumed s = None" using S assms(2) by (auto simp: slot_inv_def)
  have "registered src i s \<and> sc_queue s = [] \<and> sc_channels s > 0 \<and> (src = STimed \<longrightarrow> sc_timer s = Some i)"
    if w: "sc_slot s i" "sc_kern s = KNone" "sc_tx s = SxIdle \<or> sc_tx s = SxGone"
  proof -
    obtain r where "sc_rx s = SrYield r i" "kern_ok r i (sc_kern s) s" using S w(1) unfolding slot_inv_def by blast
    then have "kern_ok src i KNone s" using w(2) assms(2) by simp
    moreover have "\<not> hit src i (sc_tx s)" "\<not> coming src (sc_tx s)" using w(3) by (cases src; auto)+
    ultimately show ?thesis by (simp add: kern_simps(16) sc_safe_def)
  qed
  with one show ?thesis by blast
qed

interpretation sc_runs: event_runs sc_run sc_next
  by unfold_locales (rule sc_run_step)

text \<open>
  C19: \<^verbatim>\<open>recv_timeout\<close> in a coroutine can report \<^verbatim>\<open>Disconnected\<close> while the sender is alive. The sender pushes a
  value and is delayed before it looks at \<^verbatim>\<open>timeout_wait\<close>; the receiver takes the value, calls \<^verbatim>\<open>recv_timeout\<close>
  and suspends; the delayed sender then resumes it, and \<^verbatim>\<open>recv_timeout_co\<close> finds an empty queue without a
  timeout result.
\<close>

theorem spsc_chan_spurious_disconnect:
  "\<exists>es (s :: nat spsc_chan) a s'. sc_run es s \<and> sc_next a s = Some (Returned Disconnected, s') \<and>
     sc_tx s' = SxIdle \<and> sc_channels s' = 1"
proof -
  let ?sub = "replicate 6 (ScKern False)"
  let ?as = "[ScSend 7, ScTx, ScTx, ScTx, ScTryRecv, ScRx, ScRecvTimeout True, ScRx, ScRx, ScRx, ScRx, ScEnter False]
    @ ?sub @ [ScTx, ScTx, ScResume False, ScRx, ScRx, ScRx]"
  obtain es and s :: "nat spsc_chan" where s: "exec_acts sc_next ?as spsc_chan_new = Some (es, s)"
    "sc_rx s = SrTimedDrop (OAnswer Disconnected)" "sc_tx s = SxIdle" "sc_channels s = 1" "sc_kern s = KNone"
    by (auto simp: spsc_chan_new_def ao_defs Let_def eval_nat_numeral yield_with_def resume_slot_def sc_resume_def)
  from sc_runs.exec_run_from [OF sc_run_new s(1)] have "sc_run es s" by simp
  moreover obtain s' where "sc_next ScRx s = Some (Returned Disconnected, s')" "sc_tx s' = SxIdle" "sc_channels s' = 1"
    using s(2-5) by simp
  ultimately show ?thesis by blast
qed

theorem spsc_chan_delivers_witness:
  "\<exists>s :: nat spsc_chan. sc_run [Quiet, Quiet, Pushed 7] s \<and> sc_queue s = [7]"
proof -
  obtain s :: "nat spsc_chan" where
    "exec_acts sc_next [ScSend 7, ScTx, ScTx] spsc_chan_new = Some ([Quiet, Quiet, Pushed 7], s)" and r: "sc_rx s = SrIdle"
    by (auto simp: spsc_chan_new_def)
  from sc_runs.exec_run_from [OF sc_run_new this(1)] have run: "sc_run [Quiet, Quiet, Pushed 7] s" by simp
  from spsc_chan_delivers [OF run] r run show ?thesis by (intro exI [of _ s]) (simp add: taken_def pushed_def)
qed

theorem spsc_chan_no_lost_wakeup_witness:
  "\<exists>es (s :: nat spsc_chan). sc_run es s \<and> sc_rx s = SrYield SPark 0 \<and> sc_slot s 0 \<and> registered SPark 0 s"
proof -
  obtain es and s :: "nat spsc_chan" where s:
    "exec_acts sc_next ([ScRecv True, ScRx, ScRx, ScEnter False] @ replicate 5 (ScKern False)) spsc_chan_new = Some (es, s)"
    "sc_rx s = SrYield SPark 0" "sc_slot s 0" "sc_kern s = KNone" "sc_tx s = SxIdle"
    by (auto simp: spsc_chan_new_def ao_defs Let_def eval_nat_numeral yield_with_def)
  from sc_runs.exec_run_from [OF sc_run_new s(1)] have run: "sc_run es s" by simp
  from spsc_chan_no_lost_wakeup [OF run s(2)] run s show ?thesis by blast
qed

end
