(* ===== verification/Mpmc_Chan.thy ===== *)
theory Mpmc_Chan
  imports Semphore Chan_Base
begin

text \<open>
  The multi-producer multi-consumer channel of \<^verbatim>\<open>src/sync/mpmc.rs\<close>: the queue, the semaphore whose permits
  count the queued items, and the counts of the two kinds of handles, as a transition system of \<open>m\<close> tasks
  over the transition system of the semaphore. Each access to the queue, to a handle count or to the memory of the
  semaphore is one step. A task uses a handle that is alive during the whole call, as the borrow checker
  demands: the last handle of a side is dropped only when no call of this side is running.
\<close>

section \<open>State\<close>

text \<open>Whether \<^verbatim>\<open>try_recv\<close> runs for the client or inside \<^verbatim>\<open>recv\<close>, and then whether with a timeout.\<close>

datatype rmode = RTry | RRecv bool

datatype 'a mmpc =
    MIdle
  | MSendLoad 'a        \<comment> \<open>\<^verbatim>\<open>send\<close>: before \<^verbatim>\<open>rx_ports.load\<close>\<close>
  | MSendPush 'a        \<comment> \<open>before \<^verbatim>\<open>queue.push(t)\<close>\<close>
  | MSendPost bool      \<comment> \<open>in \<^verbatim>\<open>sem.post()\<close>; the permit is posted or not yet\<close>
  | MTryWait rmode      \<comment> \<open>\<^verbatim>\<open>try_recv\<close>: in \<^verbatim>\<open>sem.try_wait()\<close>\<close>
  | MTryLoad rmode      \<comment> \<open>no permit: before \<^verbatim>\<open>tx_ports.load\<close>\<close>
  | MTryPop rmode       \<comment> \<open>before \<^verbatim>\<open>queue.pop()\<close>\<close>
  | MTryPopLoad rmode   \<comment> \<open>nothing popped: before \<^verbatim>\<open>tx_ports.load\<close>\<close>
  | MWait bool          \<comment> \<open>\<^verbatim>\<open>recv\<close>: in \<^verbatim>\<open>sem.wait_timeout_until\<close>\<close>
  | MPop                \<comment> \<open>before \<^verbatim>\<open>queue.pop()\<close>\<close>
  | MPopLoad            \<comment> \<open>nothing popped: before \<^verbatim>\<open>tx_ports.load\<close>\<close>
  | MHasWaiters         \<comment> \<open>\<^verbatim>\<open>drop_tx\<close> of the last sender: before \<^verbatim>\<open>sem.has_waiters()\<close>\<close>
  | MDropPost bool      \<comment> \<open>in \<^verbatim>\<open>sem.post()\<close>\<close>
  | MClear              \<comment> \<open>\<^verbatim>\<open>drop_rx\<close> of the last receiver: before \<^verbatim>\<open>queue.pop()\<close>\<close>
  | MPanicked           \<comment> \<open>left by a cancel panic\<close>

text \<open>
  The last three fields are ghost: the permits posted for the disconnect, the items removed by the last
  receiver, and the permits that found the queue empty.
\<close>

record 'a mpmc =
  mm_queue :: "'a list"
  mm_sem :: semphore
  mm_tx :: usize
  mm_rx :: usize
  mm_pc :: "nat \<Rightarrow> 'a mmpc"
  mm_extra :: nat
  mm_cleared :: nat
  mm_void :: nat

definition mpmc_new :: "'a mpmc option" where
  "mpmc_new = map_option (\<lambda>sem. \<lparr>mm_queue = [], mm_sem = sem, mm_tx = 1, mm_rx = 1, mm_pc = (\<lambda>_. MIdle),
     mm_extra = 0, mm_cleared = 0, mm_void = 0\<rparr>) (semphore_new 0)"

definition mgoto :: "nat \<Rightarrow> 'a mmpc \<Rightarrow> 'a mpmc \<Rightarrow> 'a mpmc" where
  "mgoto t p s = s\<lparr>mm_pc := (mm_pc s)(t := p)\<rparr>"

section \<open>Operations\<close>

text \<open>Entering a call of the semaphore, and a step of the semaphore with its event.\<close>

definition sem_call :: "nat \<Rightarrow> sact \<Rightarrow> 'a mmpc \<Rightarrow> 'a mpmc \<Rightarrow> 'a mpmc option" where
  "sem_call t a p s = map_option (\<lambda>r. mgoto t p (s\<lparr>mm_sem := snd r\<rparr>)) (sem_next t a (mm_sem s))"

definition sem_go :: "nat \<Rightarrow> sact \<Rightarrow> 'a mpmc \<Rightarrow> (sev \<times> 'a mpmc) option" where
  "sem_go t a s = map_option (\<lambda>r. (fst r, s\<lparr>mm_sem := snd r\<rparr>)) (sem_next t a (mm_sem s))"

definition quiet_step :: "'a mpmc option \<Rightarrow> ('a cev \<times> 'a mpmc) option" where
  "quiet_step r = map_option (\<lambda>s. (Quiet, s)) r"

fun mm_send :: "nat \<Rightarrow> sact \<Rightarrow> 'a mpmc \<Rightarrow> ('a cev \<times> 'a mpmc) option" where
  "mm_send t a s = (case mm_pc s t of
     MSendLoad v \<Rightarrow>
       if mm_rx s = 0 then Some (Rejected v, mgoto t MIdle s) else Some (Quiet, mgoto t (MSendPush v) s)
   | MSendPush v \<Rightarrow>
       map_option (\<lambda>s'. (Pushed v, s')) (sem_call t CallPost (MSendPost False) (s\<lparr>mm_queue := mm_queue s @ [v]\<rparr>))
   | MSendPost dn \<Rightarrow>
       if sm_pc (mm_sem s) t = SIdle then Some (Quiet, mgoto t MIdle s)
       else (case sem_go t a s of
           Some (e, s') \<Rightarrow> Some (Quiet, mgoto t (MSendPost (dn \<or> e = SPosted)) s')
         | None \<Rightarrow> None)
   | _ \<Rightarrow> None)"

text \<open>What the end of \<^verbatim>\<open>try_recv\<close> with an error means to its caller.\<close>

definition try_recv_empty :: "nat \<Rightarrow> rmode \<Rightarrow> 'a mpmc \<Rightarrow> ('a cev \<times> 'a mpmc) option" where
  "try_recv_empty t r s = (case r of
     RTry \<Rightarrow> Some (Returned Empty, mgoto t MIdle s)
   | RRecv dur \<Rightarrow> quiet_step (sem_call t CallWait (MWait dur) s))"

fun mm_try_recv :: "nat \<Rightarrow> sact \<Rightarrow> 'a mpmc \<Rightarrow> ('a cev \<times> 'a mpmc) option" where
  "mm_try_recv t a s = (case mm_pc s t of
     MTryWait r \<Rightarrow> (case sem_go t a s of
         Some (e, s') \<Rightarrow>
           Some (Quiet, mgoto t (if e = SAcquired then MTryPop r
             else if sm_pc (mm_sem s') t = SIdle then MTryLoad r else MTryWait r) s')
       | None \<Rightarrow> None)
   | MTryLoad r \<Rightarrow>
       if mm_tx s = 0 then Some (Returned Disconnected, mgoto t MIdle s) else try_recv_empty t r s
   | MTryPop r \<Rightarrow> (case mm_queue s of
       v # q \<Rightarrow> Some (Returned (Got v), mgoto t MIdle (s\<lparr>mm_queue := q\<rparr>))
     | [] \<Rightarrow> Some (Quiet, mgoto t (MTryPopLoad r) (s\<lparr>mm_void := Suc (mm_void s)\<rparr>)))
   | MTryPopLoad r \<Rightarrow>
       if mm_tx s = 0 then Some (Returned Disconnected, mgoto t MIdle s) else try_recv_empty t r s
   | _ \<Rightarrow> None)"

text \<open>\<^verbatim>\<open>wait_timeout_until\<close> stopped by the disconnect, not by the timeout.\<close>

fun stopping :: "spc \<Rightarrow> bool" where
  "stopping (SStopRecheck _) = True"
| "stopping (SStopTake _) = True"
| "stopping _ = False"

text \<open>
  The wait of \<^verbatim>\<open>recv\<close>: the closure \<^verbatim>\<open>stop\<close> loads \<^verbatim>\<open>tx_ports\<close>, and a wait without a duration does not time out.
\<close>

definition wait_act :: "bool \<Rightarrow> nat \<Rightarrow> sact \<Rightarrow> 'a mpmc \<Rightarrow> sact option" where
  "wait_act dur t a s = (case sm_pc (mm_sem s) t of
     SStop _ \<Rightarrow> Some (if mm_tx s = 0 then StopTrue else SRun)
   | _ \<Rightarrow> if a = ParkFails Timeout \<and> \<not> dur then None else Some a)"

fun mm_recv :: "nat \<Rightarrow> sact \<Rightarrow> 'a mpmc \<Rightarrow> ('a cev \<times> 'a mpmc) option" where
  "mm_recv t a s = (case mm_pc s t of
     MWait dur \<Rightarrow> (case wait_act dur t a s of
         None \<Rightarrow> None
       | Some b \<Rightarrow> (case sem_go t b s of
             Some (e, s') \<Rightarrow>
               if e = SAcquired then Some (Quiet, mgoto t MPop s')
               else if sm_pc (mm_sem s') t = SIdle then
                 if stopping (sm_pc (mm_sem s) t) then Some (Returned Disconnected, mgoto t MIdle s')
                 else Some (TimedOut, mgoto t MIdle s')
               else if sm_pc (mm_sem s') t = SPanicked then Some (Unwound, mgoto t MPanicked s')
               else Some (Quiet, s')
           | None \<Rightarrow> None))
   | MPop \<Rightarrow> (case mm_queue s of
       v # q \<Rightarrow> Some (Returned (Got v), mgoto t MIdle (s\<lparr>mm_queue := q\<rparr>))
     | [] \<Rightarrow> Some (Quiet, mgoto t MPopLoad (s\<lparr>mm_void := Suc (mm_void s)\<rparr>)))
   | MPopLoad \<Rightarrow> Some (Returned Disconnected, mgoto t MIdle s)
   | _ \<Rightarrow> None)"

definition mm_clone_tx :: "'a mpmc \<Rightarrow> 'a mpmc" where
  "mm_clone_tx s = s\<lparr>mm_tx := mm_tx s + 1\<rparr>"

definition mm_call_drop_tx :: "nat \<Rightarrow> 'a mpmc \<Rightarrow> 'a mpmc" where
  "mm_call_drop_tx t s =
     (let n = mm_tx s; s1 = s\<lparr>mm_tx := n - 1\<rparr> in
      if n = 1 then mgoto t MHasWaiters s1 else mgoto t MIdle s1)"

fun mm_drop_tx :: "nat \<Rightarrow> sact \<Rightarrow> 'a mpmc \<Rightarrow> ('a cev \<times> 'a mpmc) option" where
  "mm_drop_tx t a s = (case mm_pc s t of
     MHasWaiters \<Rightarrow>
       if has_waiters (mm_sem s) then quiet_step (sem_call t CallPost (MDropPost False) s)
       else Some (Quiet, mgoto t MIdle s)
   | MDropPost dn \<Rightarrow>
       if sm_pc (mm_sem s) t = SIdle then Some (Quiet, mgoto t MHasWaiters s)
       else (case sem_go t a s of
           Some (e, s') \<Rightarrow> Some (Quiet, mgoto t (MDropPost (dn \<or> e = SPosted))
             (s'\<lparr>mm_extra := (if e = SPosted then Suc (mm_extra s) else mm_extra s)\<rparr>))
         | None \<Rightarrow> None)
   | _ \<Rightarrow> None)"

definition mm_clone_rx :: "'a mpmc \<Rightarrow> 'a mpmc" where
  "mm_clone_rx s = s\<lparr>mm_rx := mm_rx s + 1\<rparr>"

definition mm_call_drop_rx :: "nat \<Rightarrow> 'a mpmc \<Rightarrow> 'a mpmc" where
  "mm_call_drop_rx t s =
     (let n = mm_rx s; s1 = s\<lparr>mm_rx := n - 1\<rparr> in
      if n = 1 then mgoto t MClear s1 else mgoto t MIdle s1)"

fun mm_drop_rx :: "nat \<Rightarrow> 'a mpmc \<Rightarrow> ('a cev \<times> 'a mpmc) option" where
  "mm_drop_rx t s = (case mm_pc s t of
     MClear \<Rightarrow> (case mm_queue s of
       v # q \<Rightarrow> Some (Drained v, s\<lparr>mm_queue := q, mm_cleared := Suc (mm_cleared s)\<rparr>)
     | [] \<Rightarrow> Some (Quiet, mgoto t MIdle s))
   | _ \<Rightarrow> None)"

text \<open>\<^verbatim>\<open>Sender::pressure\<close>\<close>

definition pressure :: "'a mpmc \<Rightarrow> nat" where
  "pressure s = get_value (mm_sem s)"

section \<open>Runs\<close>

fun sending :: "'a mmpc \<Rightarrow> bool" where
  "sending (MSendLoad _) = True"
| "sending (MSendPush _) = True"
| "sending (MSendPost _) = True"
| "sending _ = False"

fun receiving :: "'a mmpc \<Rightarrow> bool" where
  "receiving (MTryWait _) = True"
| "receiving (MTryLoad _) = True"
| "receiving (MTryPop _) = True"
| "receiving (MTryPopLoad _) = True"
| "receiving (MWait _) = True"
| "receiving MPop = True"
| "receiving MPopLoad = True"
| "receiving _ = False"

fun ready :: "'a mmpc \<Rightarrow> bool" where
  "ready MIdle = True"
| "ready MPanicked = True"
| "ready _ = False"

text \<open>
  The client calls an operation through a live handle; otherwise the task runs on, with the action of the
  semaphore it takes if it is inside the semaphore.
\<close>

datatype 'a mact = Send 'a | TryRecv | Recv bool | CloneTx | DropTx | CloneRx | DropRx | Step sact

definition mm_step :: "nat \<Rightarrow> sact \<Rightarrow> 'a mpmc \<Rightarrow> ('a cev \<times> 'a mpmc) option" where
  "mm_step t a s = (case mm_send t a s of Some r \<Rightarrow> Some r | None \<Rightarrow>
     (case mm_try_recv t a s of Some r \<Rightarrow> Some r | None \<Rightarrow>
     (case mm_recv t a s of Some r \<Rightarrow> Some r | None \<Rightarrow>
     (case mm_drop_tx t a s of Some r \<Rightarrow> Some r | None \<Rightarrow> mm_drop_rx t s))))"

fun mm_next :: "nat \<Rightarrow> nat \<Rightarrow> 'a mact \<Rightarrow> 'a mpmc \<Rightarrow> ('a cev \<times> 'a mpmc) option" where
  "mm_next m t (Send v) s = (if ready (mm_pc s t) \<and> mm_tx s \<noteq> 0 then Some (Quiet, mgoto t (MSendLoad v) s) else None)"
| "mm_next m t TryRecv s =
     (if ready (mm_pc s t) \<and> mm_rx s \<noteq> 0 then quiet_step (sem_call t CallTryWait (MTryWait RTry) s) else None)"
| "mm_next m t (Recv dur) s =
     (if ready (mm_pc s t) \<and> mm_rx s \<noteq> 0 then quiet_step (sem_call t CallTryWait (MTryWait (RRecv dur)) s) else None)"
| "mm_next m t CloneTx s =
     (if ready (mm_pc s t) \<and> mm_tx s \<noteq> 0 \<and> mm_tx s + 1 \<noteq> 0 then Some (Quiet, mm_clone_tx s) else None)"
| "mm_next m t DropTx s =
     (if ready (mm_pc s t) \<and> mm_tx s \<noteq> 0 \<and> (mm_tx s = 1 \<longrightarrow> (\<forall>u<m. \<not> sending (mm_pc s u)))
      then Some (Quiet, mm_call_drop_tx t s) else None)"
| "mm_next m t CloneRx s =
     (if ready (mm_pc s t) \<and> mm_rx s \<noteq> 0 \<and> mm_rx s + 1 \<noteq> 0 then Some (Quiet, mm_clone_rx s) else None)"
| "mm_next m t DropRx s =
     (if ready (mm_pc s t) \<and> mm_rx s \<noteq> 0 \<and> (mm_rx s = 1 \<longrightarrow> (\<forall>u<m. \<not> receiving (mm_pc s u)))
      then Some (Quiet, mm_call_drop_rx t s) else None)"
| "mm_next m t (Step a) s = (if a \<in> {SRun, SpuriousCas, ParkFails Timeout, ParkFails Canceled} then mm_step t a s else None)"

inductive mm_run :: "nat \<Rightarrow> 'a cev list \<Rightarrow> 'a mpmc \<Rightarrow> bool" for m where
  mm_run_new: "mpmc_new = Some s \<Longrightarrow> mm_run m [] s"
| mm_run_step: "mm_run m es s \<Longrightarrow> t < m \<Longrightarrow> mm_next m t a s = Some (e, s') \<Longrightarrow> mm_run m (es @ [e]) s'"

section \<open>A task inside the semaphore\<close>

fun posting :: "bool \<Rightarrow> spc \<Rightarrow> bool" where
  "posting dn (PLoad k own) \<longleftrightarrow> k = KIdle \<and> \<not> own \<and> \<not> dn"
| "posting dn (PCas k own _) \<longleftrightarrow> k = KIdle \<and> \<not> own \<and> \<not> dn"
| "posting dn SOverflow \<longleftrightarrow> \<not> dn"
| "posting dn SIdle \<longleftrightarrow> dn"
| "posting dn SBroken \<longleftrightarrow> dn"
| "posting dn (KPop k) \<longleftrightarrow> dn \<and> k = KIdle"
| "posting dn (KUnpark _ k) \<longleftrightarrow> dn \<and> k = KIdle"
| "posting dn (KWake _ k) \<longleftrightarrow> dn \<and> k = KIdle"
| "posting dn (KRelease _ k) \<longleftrightarrow> dn \<and> k = KIdle"
| "posting dn (KAdd k) \<longleftrightarrow> dn \<and> k = KIdle"
| "posting dn _ \<longleftrightarrow> False"

fun trying :: "spc \<Rightarrow> bool" where
  "trying (TLoad c) \<longleftrightarrow> c = CTry"
| "trying (TCas c _) \<longleftrightarrow> c = CTry"
| "trying _ \<longleftrightarrow> False"

fun waiting :: "spc \<Rightarrow> bool" where
  "waiting (TLoad c) \<longleftrightarrow> c = CWait"
| "waiting (TCas c _) \<longleftrightarrow> c = CWait"
| "waiting (KPop k) \<longleftrightarrow> k \<noteq> KIdle"
| "waiting (KUnpark _ k) \<longleftrightarrow> k \<noteq> KIdle"
| "waiting (KWake _ k) \<longleftrightarrow> k \<noteq> KIdle"
| "waiting (KRelease _ k) \<longleftrightarrow> k \<noteq> KIdle"
| "waiting (KAdd k) \<longleftrightarrow> k \<noteq> KIdle"
| "waiting (PLoad k own) \<longleftrightarrow> k \<noteq> KIdle \<and> own"
| "waiting (PCas k own _) \<longleftrightarrow> k \<noteq> KIdle \<and> own"
| "waiting SIdle \<longleftrightarrow> False"
| "waiting SPanicked \<longleftrightarrow> False"
| "waiting _ \<longleftrightarrow> True"

text \<open>The wait has seen the disconnect.\<close>

fun stopped :: "spc \<Rightarrow> bool" where
  "stopped (SStopCheck _) = True"
| "stopped (SStopRelease _) = True"
| "stopped (SStopRecheck _) = True"
| "stopped (SStopTake _) = True"
| "stopped _ = False"

lemma sem_next_frame: "sem_next t a s = Some (e, s') \<Longrightarrow> u \<noteq> t \<Longrightarrow> sm_pc s' u = sm_pc s u"
  by (cases a) (auto simp: Let_def split: option.splits spc.splits list.splits prod.splits if_splits)

lemma posting_step:
  assumes "sem_next t a s = Some (e, s')" "posting dn (sm_pc s t)" "sm_pc s t \<noteq> SIdle" "a \<in> {SRun, SpuriousCas, ParkFails Timeout, ParkFails Canceled}"
  shows "e \<noteq> SAcquired" "e = SPosted \<Longrightarrow> \<not> dn" "posting (dn \<or> e = SPosted) (sm_pc s' t)"
  using assms by (cases "sm_pc s t"; auto simp: Let_def split: list.splits prod.splits if_splits)+

lemma trying_step:
  assumes "sem_next t a s = Some (e, s')" "trying (sm_pc s t)" "a \<in> {SRun, SpuriousCas, ParkFails Timeout, ParkFails Canceled}"
  shows "e \<noteq> SPosted" "e = SAcquired \<Longrightarrow> sm_pc s' t = SIdle" "e = SAcquired \<or> sm_pc s' t = SIdle \<or> trying (sm_pc s' t)"
  using assms by (cases "sm_pc s t"; auto split: if_splits)+

definition wait_end :: "spc \<Rightarrow> bool" where
  "wait_end p \<longleftrightarrow> p = SIdle \<or> p = SPanicked \<or> waiting p"

lemma wait_end_simps [simp]: "waiting p \<Longrightarrow> wait_end p" "wait_end SIdle" "wait_end SPanicked"
  "k \<noteq> KIdle \<Longrightarrow> wait_end (sresume k)" "\<not> stopped (sresume k)"
  by (cases k; simp add: wait_end_def)+

lemma waiting_step_all:
  assumes "sem_next t a s = Some (e, s')" "waiting (sm_pc s t)"
    "a \<in> {SRun, SpuriousCas, ParkFails Timeout, ParkFails Canceled, StopTrue}"
  shows "e \<noteq> SPosted \<and> (e = SAcquired \<longrightarrow> sm_pc s' t = SIdle) \<and> wait_end (sm_pc s' t) \<and>
    (stopped (sm_pc s' t) \<longrightarrow> stopped (sm_pc s t) \<or> a = StopTrue)"
proof (cases "a = SRun")
  case True
  then show ?thesis using assms(1,2)
    by (cases "sm_pc s t") (simp_all add: Let_def split: list.splits prod.splits if_splits, auto)
next
  case False
  then show ?thesis using assms by (cases "sm_pc s t") auto
qed

lemma waiting_step:
  assumes "sem_next t a s = Some (e, s')" "waiting (sm_pc s t)"
    "a \<in> {SRun, SpuriousCas, ParkFails Timeout, ParkFails Canceled, StopTrue}"
  shows "e \<noteq> SPosted" "e = SAcquired \<Longrightarrow> sm_pc s' t = SIdle" "wait_end (sm_pc s' t)"
    "stopped (sm_pc s' t) \<Longrightarrow> stopped (sm_pc s t) \<or> a = StopTrue"
  using waiting_step_all [OF assms] by blast+

section \<open>Invariant\<close>

abbreviation rests :: "spc \<Rightarrow> bool" where
  "rests p \<equiv> p = SIdle \<or> p = SPanicked"

text \<open>Where a task is in the semaphore, and what it knows of the handle counts.\<close>

fun mplace :: "usize \<Rightarrow> usize \<Rightarrow> 'a mmpc \<Rightarrow> spc \<Rightarrow> bool" where
  "mplace tx rx (MSendPost dn) p \<longleftrightarrow> posting dn p"
| "mplace tx rx (MTryWait _) p \<longleftrightarrow> trying p \<and> rx \<noteq> 0"
| "mplace tx rx (MTryLoad _) p \<longleftrightarrow> rests p \<and> rx \<noteq> 0"
| "mplace tx rx (MTryPop _) p \<longleftrightarrow> rests p \<and> rx \<noteq> 0"
| "mplace tx rx (MTryPopLoad _) p \<longleftrightarrow> rests p \<and> rx \<noteq> 0 \<and> tx = 0"
| "mplace tx rx (MWait _) p \<longleftrightarrow> waiting p \<and> rx \<noteq> 0 \<and> (stopped p \<longrightarrow> tx = 0)"
| "mplace tx rx MPop p \<longleftrightarrow> rests p \<and> rx \<noteq> 0"
| "mplace tx rx MPopLoad p \<longleftrightarrow> rests p \<and> rx \<noteq> 0 \<and> tx = 0"
| "mplace tx rx MHasWaiters p \<longleftrightarrow> rests p \<and> tx = 0"
| "mplace tx rx (MDropPost dn) p \<longleftrightarrow> posting dn p \<and> tx = 0"
| "mplace tx rx MClear p \<longleftrightarrow> rests p \<and> rx = 0"
| "mplace tx rx _ p \<longleftrightarrow> rests p"

fun claiming :: "'a mmpc \<Rightarrow> bool" where
  "claiming (MTryPop _) = True"
| "claiming MPop = True"
| "claiming _ = False"

fun unposted :: "'a mmpc \<Rightarrow> bool" where
  "unposted (MSendPost dn) = (\<not> dn)"
| "unposted _ = False"

definition nclaims :: "'a mpmc \<Rightarrow> nat" where
  "nclaims s = card {t. claiming (mm_pc s t)}"

definition nunposted :: "'a mpmc \<Rightarrow> nat" where
  "nunposted s = card {t. unposted (mm_pc s t)}"

text \<open>
  Items and permits: every queued item has a permit that is free, on its way, acquired and not used, or about to be
  posted, up to the permits of the disconnect.
\<close>

definition mm_ledger :: "nat \<Rightarrow> 'a mpmc \<Rightarrow> bool" where
  "mm_ledger m s \<longleftrightarrow> finite {t. claiming (mm_pc s t)} \<and> finite {t. unposted (mm_pc s t)} \<and>
     sem.ledger m (length (mm_queue s)) (mm_extra s + mm_cleared s) (nclaims s) (nunposted s) (mm_void s) (mm_sem s)"

definition mm_inv :: "nat \<Rightarrow> 'a mpmc \<Rightarrow> bool" where
  "mm_inv m s \<longleftrightarrow> sem_inv m (mm_sem s) \<and> (\<forall>t. mplace (mm_tx s) (mm_rx s) (mm_pc s t) (sm_pc (mm_sem s) t)) \<and>
     mm_ledger m s \<and> (mm_tx s \<noteq> 0 \<longrightarrow> mm_extra s = 0) \<and> (mm_rx s \<noteq> 0 \<longrightarrow> mm_cleared s = 0)"

lemma mm_invD:
  assumes "mm_inv m s"
  shows "sem_inv m (mm_sem s)" "mplace (mm_tx s) (mm_rx s) (mm_pc s t) (sm_pc (mm_sem s) t)" "mm_ledger m s"
    "mm_tx s \<noteq> 0 \<Longrightarrow> mm_extra s = 0" "mm_rx s \<noteq> 0 \<Longrightarrow> mm_cleared s = 0"
  using assms by (simp_all add: mm_inv_def)

lemma mgoto_sel [simp]:
  "mm_queue (mgoto t p s) = mm_queue s" "mm_sem (mgoto t p s) = mm_sem s" "mm_tx (mgoto t p s) = mm_tx s"
  "mm_rx (mgoto t p s) = mm_rx s" "mm_pc (mgoto t p s) = (mm_pc s)(t := p)" "mm_extra (mgoto t p s) = mm_extra s"
  "mm_cleared (mgoto t p s) = mm_cleared s" "mm_void (mgoto t p s) = mm_void s"
  by (simp_all add: mgoto_def)

lemma mplace_mono:
  assumes "mplace tx rx q p" "tx = 0 \<longrightarrow> tx' = 0" "rx = 0 \<longrightarrow> rx' = 0" "receiving q \<and> rx \<noteq> 0 \<longrightarrow> rx' \<noteq> 0"
  shows "mplace tx' rx' q p"
  using assms by (cases q) auto

text \<open>One step of task \<open>t\<close>.\<close>

lemma mm_counts:
  assumes "mm_ledger m s" "mm_pc s' = (mm_pc s)(t := p)"
  shows "finite {t. claiming (mm_pc s' t)}" "finite {t. unposted (mm_pc s' t)}"
    "nclaims s' + (if claiming (mm_pc s t) then 1 else 0) = nclaims s + (if claiming p then 1 else 0)"
    "nunposted s' + (if unposted (mm_pc s t) then 1 else 0) = nunposted s + (if unposted p then 1 else 0)"
  using card_fun_upd [of claiming "mm_pc s" t p] card_fun_upd [of unposted "mm_pc s" t p] assms
  unfolding mm_ledger_def nclaims_def nunposted_def by auto

lemma mm_inv_move:
  assumes I: "mm_inv m s" and pc: "mm_pc s' = (mm_pc s)(t := p)"
    and sem: "sem_inv m (mm_sem s')" "\<And>u. u \<noteq> t \<Longrightarrow> sm_pc (mm_sem s') u = sm_pc (mm_sem s) u"
    and pl: "mplace (mm_tx s') (mm_rx s') p (sm_pc (mm_sem s') t)"
    and tx: "mm_tx s = 0 \<longrightarrow> mm_tx s' = 0" "mm_tx s' \<noteq> 0 \<longrightarrow> mm_extra s' = 0"
    and rx: "mm_rx s \<noteq> 0 \<longrightarrow> mm_rx s' \<noteq> 0 \<or> (\<forall>u. \<not> receiving (mm_pc s u))" "mm_rx s' \<noteq> 0 \<longrightarrow> mm_cleared s' = 0"
      "mm_rx s = 0 \<longrightarrow> mm_rx s' = 0"
    and L: "\<And>c u. nclaims s' = c \<Longrightarrow> nunposted s' = u \<Longrightarrow>
      sem.ledger m (length (mm_queue s')) (mm_extra s' + mm_cleared s') c u (mm_void s') (mm_sem s')"
  shows "mm_inv m s'"
proof -
  have "mplace (mm_tx s') (mm_rx s') (mm_pc s' u) (sm_pc (mm_sem s') u)" for u
  proof (cases "u = t")
    case False
    from mplace_mono [OF mm_invD(2) [OF I, of u] tx(1) rx(3)] rx(1) sem(2) [OF False] False show ?thesis
      by (auto simp: pc)
  qed (use pl in \<open>simp add: pc\<close>)
  moreover have "mm_ledger m s'" using mm_counts(1,2) [OF mm_invD(3) [OF I] pc] L unfolding mm_ledger_def by blast
  ultimately show ?thesis using sem(1) tx(2) rx(2) unfolding mm_inv_def by blast
qed

text \<open>A step that does not touch the semaphore.\<close>

lemma mm_inv_local:
  assumes I: "mm_inv m s" and pc: "mm_pc s' = (mm_pc s)(t := p)"
    and eq: "mm_sem s' = mm_sem s" "mm_tx s' = mm_tx s" "mm_rx s' = mm_rx s" "mm_queue s' = mm_queue s"
      "mm_extra s' = mm_extra s" "mm_cleared s' = mm_cleared s" "mm_void s' = mm_void s"
    and p: "mplace (mm_tx s) (mm_rx s) p (sm_pc (mm_sem s) t)" "claiming p = claiming (mm_pc s t)" "unposted p = unposted (mm_pc s t)"
  shows "mm_inv m s'"
proof (rule mm_inv_move [OF I pc])
  fix c u assume "nclaims s' = c" "nunposted s' = u"
  then show "sem.ledger m (length (mm_queue s')) (mm_extra s' + mm_cleared s') c u (mm_void s') (mm_sem s')"
    using mm_counts(3,4) [OF mm_invD(3) [OF I] pc] p(2,3) mm_invD(3) [OF I] unfolding mm_ledger_def eq by auto
qed (use eq p mm_invD [OF I] in auto)

text \<open>A step of the semaphore.\<close>

lemma sem_rel_next: "sem_bounded m s \<Longrightarrow> t < m \<Longrightarrow> sem_next t a s = Some (e, s') \<Longrightarrow> sem_rel m s e s'"
  by (auto simp: sem_rel_def simp del: sem_next.simps)

lemma mm_inv_sem:
  assumes I: "mm_inv m s" and b: "sem_bounded m (mm_sem s)" and t: "t < m"
    and st: "sem_next t a (mm_sem s) = Some (e, mm_sem s')"
    and pc: "mm_pc s' = (mm_pc s)(t := p)"
    and eq: "mm_tx s' = mm_tx s" "mm_rx s' = mm_rx s"  "mm_cleared s' = mm_cleared s" "mm_void s' = mm_void s"
    and pl: "mplace (mm_tx s) (mm_rx s) p (sm_pc (mm_sem s') t)" "mm_tx s \<noteq> 0 \<longrightarrow> mm_extra s' = 0" "mm_extra s \<le> mm_extra s'"
    and n: "length (mm_queue s') + mm_extra s' + (if claiming (mm_pc s t) then 1 else 0) + (if unposted (mm_pc s t) then 1 else 0)
        + (if e = SAcquired then 1 else 0) =
      length (mm_queue s) + mm_extra s + (if claiming p then 1 else 0) + (if unposted p then 1 else 0)
        + (if e = SPosted then 1 else 0)"
  shows "mm_inv m s'"
proof (rule mm_inv_move [OF I pc])
  have r: "sem_rel m (mm_sem s) e (mm_sem s')" by (rule sem_rel_next [OF b t st])
  note J = mm_invD(1) [OF I]
  show "sem_inv m (mm_sem s')" by (rule sem.step_inv [OF J r])
  fix c u assume "nclaims s' = c" "nunposted s' = u"
  moreover have "sem.ledger m (length (mm_queue s)) (mm_extra s + mm_cleared s) (nclaims s) (nunposted s) (mm_void s) (mm_sem s)"
    using mm_invD(3) [OF I] by (simp add: mm_ledger_def)
  ultimately show "sem.ledger m (length (mm_queue s')) (mm_extra s' + mm_cleared s') c u (mm_void s') (mm_sem s')"
    using mm_counts(3,4) [OF mm_invD(3) [OF I] pc] sem.step_perms [OF J r] n pl(3) unfolding sem.ledger_def eq
    by (cases e) auto
qed (use eq pl mm_invD [OF I] sem_next_frame [OF st] in auto)

section \<open>Every step keeps the invariant\<close>

lemma sem_callE:
  assumes "sem_call t a p s = Some s'"
  obtains e sm where "sem_next t a (mm_sem s) = Some (e, sm)" "s' = mgoto t p (s\<lparr>mm_sem := sm\<rparr>)"
  using assms by (auto simp: sem_call_def simp del: sem_next.simps)

lemma sem_goE:
  assumes "sem_go t a s = Some (e, s')"
  obtains sm where "sem_next t a (mm_sem s) = Some (e, sm)" "s' = s\<lparr>mm_sem := sm\<rparr>"
  using assms by (auto simp: sem_go_def simp del: sem_next.simps)

lemma sem_call_inv:
  assumes I: "mm_inv m s" and b: "sem_bounded m (mm_sem s)" and t: "t < m" and st: "sem_call t a p s = Some s'"
    and a: "a = CallTryWait \<and> (\<exists>r. p = MTryWait r) \<or> a = CallWait \<and> (\<exists>r. p = MWait r) \<or> a = CallPost \<and> p = MDropPost False"
    and q: "receiving p \<longrightarrow> mm_rx s \<noteq> 0" "p = MDropPost False \<longrightarrow> mm_tx s = 0" "\<not> claiming (mm_pc s t)" "\<not> unposted (mm_pc s t)"
  shows "mm_inv m s'"
proof -
  from sem_callE [OF st] obtain e sm where m: "sem_next t a (mm_sem s) = Some (e, sm)" "s' = mgoto t p (s\<lparr>mm_sem := sm\<rparr>)" .
  have e: "e = SQuiet" "mplace (mm_tx s) (mm_rx s) p (sm_pc sm t)" using m(1) a q(1,2) by (auto split: if_splits)
  have c: "\<not> claiming p" "\<not> unposted p \<or> p = MDropPost False" using a by auto
  show ?thesis
    by (rule mm_inv_sem [where a = a and p = p, OF I b t]) (use m e q c mm_invD(4) [OF I] a in auto)
qed

lemma mm_send_inv:
  assumes I: "mm_inv m s" and b: "sem_bounded m (mm_sem s)" and t: "t < m" and st: "mm_send t a s = Some (e, s')"
    and a: "a \<in> {SRun, SpuriousCas, ParkFails Timeout, ParkFails Canceled}"
  shows "mm_inv m s'"
proof (cases "mm_pc s t")
  case (MSendLoad v)
  have r: "rests (sm_pc (mm_sem s) t)" using mm_invD(2) [OF I, of t] MSendLoad by simp
  show ?thesis
  proof (cases "mm_rx s = 0")
    case True
    then have "s' = mgoto t MIdle s" using st MSendLoad by simp
    then show ?thesis by (intro mm_inv_local [where p = MIdle and t = t, OF I]) (use MSendLoad r in auto)
  next
    case False
    then have "s' = mgoto t (MSendPush v) s" using st MSendLoad by simp
    then show ?thesis by (intro mm_inv_local [where p = "MSendPush v" and t = t, OF I]) (use MSendLoad r in auto)
  qed
next
  case (MSendPush v)
  then have "sem_call t CallPost (MSendPost False) (s\<lparr>mm_queue := mm_queue s @ [v]\<rparr>) = Some s'" using st by auto
  from sem_callE [OF this] obtain ev sm where m: "sem_next t CallPost (mm_sem s) = Some (ev, sm)"
    "s' = mgoto t (MSendPost False) (s\<lparr>mm_queue := mm_queue s @ [v], mm_sem := sm\<rparr>)" by auto
  then have e: "ev = SQuiet" "posting False (sm_pc sm t)" by (auto split: if_splits)
  show ?thesis
    by (rule mm_inv_sem [where a = CallPost and p = "MSendPost False", OF I b t]) (use m e MSendPush mm_invD(4) [OF I] in auto)
next
  case (MSendPost dn)
  have pl: "posting dn (sm_pc (mm_sem s) t)" using mm_invD(2) [OF I, of t] MSendPost by simp
  show ?thesis
  proof (cases "sm_pc (mm_sem s) t = SIdle")
    case True
    then have "s' = mgoto t MIdle s" using st MSendPost by simp
    then show ?thesis by (intro mm_inv_local [where p = MIdle and t = t, OF I]) (use MSendPost True pl in auto)
  next
    case False
    then obtain ev r where g: "sem_go t a s = Some (ev, r)" "s' = mgoto t (MSendPost (dn \<or> ev = SPosted)) r"
      using st MSendPost by (auto split: option.splits)
    from sem_goE [OF g(1)] obtain sm where m: "sem_next t a (mm_sem s) = Some (ev, sm)" "r = s\<lparr>mm_sem := sm\<rparr>" .
    note P = posting_step [OF m(1) pl False a]
    show ?thesis
      by (rule mm_inv_sem [where a = a and e = ev and p = "MSendPost (dn \<or> ev = SPosted)", OF I b t])
        (use m g P MSendPost mm_invD(4) [OF I] in \<open>cases ev; auto\<close>)+
  qed
qed (use st in auto)

lemma try_recv_empty_inv:
  assumes I: "mm_inv m s" and b: "sem_bounded m (mm_sem s)" and t: "t < m" and st: "try_recv_empty t r s = Some (e, s')"
    and p: "rests (sm_pc (mm_sem s) t)" "mm_rx s \<noteq> 0" "\<not> claiming (mm_pc s t)" "\<not> unposted (mm_pc s t)"
  shows "mm_inv m s'"
proof (cases r)
  case RTry
  then have "s' = mgoto t MIdle s" using st by (simp add: try_recv_empty_def)
  then show ?thesis by (intro mm_inv_local [where p = MIdle and t = t, OF I]) (use p in auto)
next
  case (RRecv dur)
  then have "sem_call t CallWait (MWait dur) s = Some s'" using st by (auto simp: try_recv_empty_def quiet_step_def)
  then show ?thesis by (rule sem_call_inv [OF I b t]) (use p in auto)
qed

text \<open>A pop by a task that has acquired a permit; it finds nothing only after the last sender is gone.\<close>

lemma pop_inv:
  assumes I: "mm_inv m s" and c: "claiming (mm_pc s t)"
  shows "mm_queue s = v # q \<Longrightarrow> mm_inv m (mgoto t MIdle (s\<lparr>mm_queue := q\<rparr>))"
    and "mm_queue s = [] \<Longrightarrow> p = MPopLoad \<or> (\<exists>r. p = MTryPopLoad r) \<Longrightarrow> mm_inv m (mgoto t p (s\<lparr>mm_void := Suc (mm_void s)\<rparr>)) \<and> mm_tx s = 0"
proof -
  have pl: "rests (sm_pc (mm_sem s) t)" "mm_rx s \<noteq> 0" "\<not> unposted (mm_pc s t)"
    using mm_invD(2) [OF I, of t] c by (cases "mm_pc s t"; auto)+
  have L: "sem.ledger m (length (mm_queue s)) (mm_extra s + mm_cleared s) (nclaims s) (nunposted s) (mm_void s) (mm_sem s)"
    using mm_invD(3) [OF I] by (simp add: mm_ledger_def)
  {
    assume q: "mm_queue s = v # q"
    let ?s = "mgoto t MIdle (s\<lparr>mm_queue := q\<rparr>)"
    have pc: "mm_pc ?s = (mm_pc s)(t := MIdle)" by simp
    note N = mm_counts(3,4) [OF mm_invD(3) [OF I] pc]
    show "mm_inv m ?s"
    proof (rule mm_inv_move [OF I pc])
      fix k u assume "nclaims ?s = k" "nunposted ?s = u"
      then show "sem.ledger m (length (mm_queue ?s)) (mm_extra ?s + mm_cleared ?s) k u (mm_void ?s) (mm_sem ?s)"
        using N c pl q sem.ledger_pop [of m "length q" "mm_extra s + mm_cleared s" k u "mm_void s" "mm_sem s"] L by auto
    qed (use pl mm_invD [OF I] in auto)
  next
    assume q: "mm_queue s = []" and p: "p = MPopLoad \<or> (\<exists>r. p = MTryPopLoad r)"
    let ?s = "mgoto t p (s\<lparr>mm_void := Suc (mm_void s)\<rparr>)"
    have pc: "mm_pc ?s = (mm_pc s)(t := p)" by simp
    note N = mm_counts(3,4) [OF mm_invD(3) [OF I] pc]
    have np: "\<not> claiming p" "\<not> unposted p" using p by auto
    have V: "sem.ledger m 0 (mm_extra s + mm_cleared s) (nclaims ?s) (nunposted ?s) (Suc (mm_void s)) (mm_sem s) \<and> 0 < mm_extra s + mm_cleared s"
      using sem.ledger_void [OF mm_invD(1) [OF I], of "mm_extra s + mm_cleared s" "nclaims ?s" "nunposted ?s" "mm_void s"] N c pl q L np by simp
    then have tx: "mm_tx s = 0" using mm_invD(4,5) [OF I] pl(2) by fastforce
    have "mm_inv m ?s"
    proof (rule mm_inv_move [OF I pc])
      fix k u assume "nclaims ?s = k" "nunposted ?s = u"
      then show "sem.ledger m (length (mm_queue ?s)) (mm_extra ?s + mm_cleared ?s) k u (mm_void ?s) (mm_sem ?s)"
        using V q by simp
    qed (use pl tx p mm_invD [OF I] in auto)
    then show "mm_inv m ?s \<and> mm_tx s = 0" using tx by simp
  }
qed

lemma mm_try_recv_inv:
  assumes I: "mm_inv m s" and b: "sem_bounded m (mm_sem s)" and t: "t < m" and st: "mm_try_recv t a s = Some (e, s')"
    and a: "a \<in> {SRun, SpuriousCas, ParkFails Timeout, ParkFails Canceled}"
  shows "mm_inv m s'"
proof (cases "mm_pc s t")
  case (MTryWait r)
  have pl: "trying (sm_pc (mm_sem s) t)" "mm_rx s \<noteq> 0" using mm_invD(2) [OF I, of t] MTryWait by auto
  obtain ev q where g: "sem_go t a s = Some (ev, q)" and s': "s' = mgoto t (if ev = SAcquired then MTryPop r
      else if sm_pc (mm_sem q) t = SIdle then MTryLoad r else MTryWait r) q"
    using st MTryWait by (auto split: option.splits)
  from sem_goE [OF g] obtain sm where m: "sem_next t a (mm_sem s) = Some (ev, sm)" "q = s\<lparr>mm_sem := sm\<rparr>" .
  note P = trying_step [OF m(1) pl(1) a]
  let ?p = "if ev = SAcquired then MTryPop r else if sm_pc sm t = SIdle then MTryLoad r else MTryWait r"
  show ?thesis
    by (rule mm_inv_sem [where a = a and e = ev and p = ?p, OF I b t])
      (use m s' P pl MTryWait mm_invD(4) [OF I] in \<open>auto split: if_splits\<close>)
next
  case (MTryLoad r)
  have pl: "rests (sm_pc (mm_sem s) t)" "mm_rx s \<noteq> 0" using mm_invD(2) [OF I, of t] MTryLoad by auto
  show ?thesis
  proof (cases "mm_tx s = 0")
    case True
    then have "s' = mgoto t MIdle s" using st MTryLoad by simp
    then show ?thesis by (intro mm_inv_local [where p = MIdle and t = t, OF I]) (use MTryLoad pl in auto)
  next
    case False
    then show ?thesis using st MTryLoad try_recv_empty_inv [OF I b t _ pl] by simp
  qed
next
  case (MTryPop r)
  then show ?thesis using st pop_inv [OF I, of t] by (auto split: list.splits)
next
  case (MTryPopLoad r)
  have pl: "rests (sm_pc (mm_sem s) t)" "mm_rx s \<noteq> 0" "mm_tx s = 0" using mm_invD(2) [OF I, of t] MTryPopLoad by auto
  then have "s' = mgoto t MIdle s" using st MTryPopLoad by simp
  then show ?thesis by (intro mm_inv_local [where p = MIdle and t = t, OF I]) (use MTryPopLoad pl in auto)
qed (use st in auto)

lemma mm_recv_inv:
  assumes I: "mm_inv m s" and b: "sem_bounded m (mm_sem s)" and t: "t < m" and st: "mm_recv t a s = Some (e, s')"
    and a: "a \<in> {SRun, SpuriousCas, ParkFails Timeout, ParkFails Canceled}"
  shows "mm_inv m s'"
proof (cases "mm_pc s t")
  case (MWait dur)
  have pl: "waiting (sm_pc (mm_sem s) t)" "mm_rx s \<noteq> 0" "stopped (sm_pc (mm_sem s) t) \<longrightarrow> mm_tx s = 0"
    using mm_invD(2) [OF I, of t] MWait by auto
  obtain c ev q where c: "wait_act dur t a s = Some c" and g: "sem_go t c s = Some (ev, q)"
    using st MWait by (auto split: option.splits)
  from sem_goE [OF g] obtain sm where m: "sem_next t c (mm_sem s) = Some (ev, sm)" "q = s\<lparr>mm_sem := sm\<rparr>" .
  have ca: "c \<in> {SRun, SpuriousCas, ParkFails Timeout, ParkFails Canceled, StopTrue}" "c = StopTrue \<longrightarrow> mm_tx s = 0"
    using c a by (auto simp: wait_act_def split: spc.splits if_splits)
  note P = waiting_step [OF m(1) pl(1) ca(1)]
  let ?p = "if ev = SAcquired then MPop else if sm_pc sm t = SIdle then MIdle else if sm_pc sm t = SPanicked then MPanicked else MWait dur"
  have pc: "mm_pc s' = (mm_pc s)(t := ?p)" and eq: "mm_sem s' = sm" "mm_tx s' = mm_tx s" "mm_rx s' = mm_rx s"
    "mm_cleared s' = mm_cleared s" "mm_void s' = mm_void s" "mm_extra s' = mm_extra s" "mm_queue s' = mm_queue s"
    using st MWait c g m(2) by (auto split: if_splits)
  have pp: "mplace (mm_tx s) (mm_rx s) ?p (sm_pc sm t)" using P pl ca(2) by (auto simp: wait_end_def)
  show ?thesis
    by (rule mm_inv_sem [where a = c and e = ev and p = ?p, OF I b t])
      (use m(1) eq pc pp P MWait mm_invD(4) [OF I] in \<open>auto split: if_splits\<close>)
next
  case MPop
  then show ?thesis using st pop_inv [OF I, of t] by (auto split: list.splits)
next
  case MPopLoad
  then show ?thesis using st mm_invD(2) [OF I, of t] by (intro mm_inv_local [where p = MIdle and t = t, OF I]) auto
qed (use st in auto)

lemma mm_drop_tx_inv:
  assumes I: "mm_inv m s" and b: "sem_bounded m (mm_sem s)" and t: "t < m" and st: "mm_drop_tx t a s = Some (e, s')"
    and a: "a \<in> {SRun, SpuriousCas, ParkFails Timeout, ParkFails Canceled}"
  shows "mm_inv m s'"
proof (cases "mm_pc s t")
  case MHasWaiters
  have pl: "rests (sm_pc (mm_sem s) t)" "mm_tx s = 0" using mm_invD(2) [OF I, of t] MHasWaiters by auto
  show ?thesis
  proof (cases "has_waiters (mm_sem s)")
    case True
    then have "sem_call t CallPost (MDropPost False) s = Some s'" using st MHasWaiters by (auto simp: quiet_step_def)
    then show ?thesis by (rule sem_call_inv [OF I b t]) (use pl MHasWaiters in auto)
  next
    case False
    then have "s' = mgoto t MIdle s" using st MHasWaiters by simp
    then show ?thesis by (intro mm_inv_local [where p = MIdle and t = t, OF I]) (use MHasWaiters pl in auto)
  qed
next
  case (MDropPost dn)
  have pl: "posting dn (sm_pc (mm_sem s) t)" "mm_tx s = 0" using mm_invD(2) [OF I, of t] MDropPost by auto
  show ?thesis
  proof (cases "sm_pc (mm_sem s) t = SIdle")
    case True
    then have "s' = mgoto t MHasWaiters s" using st MDropPost by simp
    then show ?thesis by (intro mm_inv_local [where p = MHasWaiters and t = t, OF I]) (use MDropPost True pl in auto)
  next
    case False
    then obtain ev r where g: "sem_go t a s = Some (ev, r)" and s': "s' = mgoto t (MDropPost (dn \<or> ev = SPosted))
        (r\<lparr>mm_extra := (if ev = SPosted then Suc (mm_extra s) else mm_extra s)\<rparr>)"
      using st MDropPost by (auto split: option.splits)
    from sem_goE [OF g] obtain sm where m: "sem_next t a (mm_sem s) = Some (ev, sm)" "r = s\<lparr>mm_sem := sm\<rparr>" .
    note P = posting_step [OF m(1) pl(1) False a]
    show ?thesis
      by (rule mm_inv_sem [where a = a and e = ev and p = "MDropPost (dn \<or> ev = SPosted)", OF I b t])
        (use m s' P pl MDropPost in \<open>cases ev; auto\<close>)+
  qed
qed (use st in auto)

lemma mm_drop_rx_inv:
  assumes I: "mm_inv m s" and st: "mm_drop_rx t s = Some (e, s')"
  shows "mm_inv m s'"
proof (cases "mm_pc s t")
  case MClear
  have pl: "rests (sm_pc (mm_sem s) t)" and rx: "mm_rx s = 0" using mm_invD(2) [OF I, of t] MClear by auto
  show ?thesis
  proof (cases "mm_queue s")
    case Nil
    then have "s' = mgoto t MIdle s" using st MClear by simp
    then show ?thesis by (intro mm_inv_local [where p = MIdle and t = t, OF I]) (use MClear pl in auto)
  next
    case (Cons v q)
    then have s': "s' = s\<lparr>mm_queue := q, mm_cleared := Suc (mm_cleared s)\<rparr>" using st MClear by simp
    have L: "sem.ledger m (Suc (length q)) (mm_extra s + mm_cleared s) (nclaims s) (nunposted s) (mm_void s) (mm_sem s)"
      using mm_invD(3) [OF I] Cons by (simp add: mm_ledger_def)
    have "nclaims s' = nclaims s" "nunposted s' = nunposted s" by (simp_all add: s' nclaims_def nunposted_def)
    then show ?thesis using I sem.ledger_clear [OF L] rx MClear unfolding mm_inv_def mm_ledger_def by (simp add: s')
  qed
qed (use st in auto)

lemma mm_step_inv:
  assumes I: "mm_inv m s" and b: "sem_bounded m (mm_sem s)" and t: "t < m" and st: "mm_step t a s = Some (e, s')"
    and a: "a \<in> {SRun, SpuriousCas, ParkFails Timeout, ParkFails Canceled}"
  shows "mm_inv m s'"
proof -
  consider "mm_send t a s = Some (e, s')" | "mm_try_recv t a s = Some (e, s')" | "mm_recv t a s = Some (e, s')"
    | "mm_drop_tx t a s = Some (e, s')" | "mm_drop_rx t s = Some (e, s')"
    using st by (auto simp: mm_step_def simp del: mm_send.simps mm_try_recv.simps mm_recv.simps mm_drop_tx.simps
      mm_drop_rx.simps split: option.splits)
  then show ?thesis
    using mm_send_inv [OF I b t _ a] mm_try_recv_inv [OF I b t _ a] mm_recv_inv [OF I b t _ a]
      mm_drop_tx_inv [OF I b t _ a] mm_drop_rx_inv [OF I] by cases blast+
qed

lemma ready_simps: "ready p \<Longrightarrow> \<not> claiming p \<and> \<not> unposted p \<and> \<not> receiving p"
  by (cases p) auto

lemma ready_rests: "mm_inv m s \<Longrightarrow> ready (mm_pc s t) \<Longrightarrow> rests (sm_pc (mm_sem s) t)"
  using mm_invD(2) [of m s t] by (cases "mm_pc s t") auto

lemma mm_idle_others:
  assumes "mm_run m es s" "m \<le> t"
  shows "mm_pc s t = MIdle"
  using assms
proof (induction rule: mm_run.induct)
  case (mm_run_new s)
  then show ?case by (auto simp: mpmc_new_def)
next
  case (mm_run_step es s u a e s')
  have "mm_pc s' t = mm_pc s t"
    using mm_run_step.hyps(2,3) mm_run_step.prems
    by (cases a) (auto simp: mm_step_def sem_call_def sem_go_def quiet_step_def try_recv_empty_def mm_clone_tx_def mm_clone_rx_def
      mm_call_drop_tx_def mm_call_drop_rx_def Let_def simp del: sem_next.simps
      split: option.splits mmpc.splits list.splits rmode.splits if_splits)
  then show ?case using mm_run_step by simp
qed

text \<open>A change of the handle counts.\<close>

lemma mm_inv_ports:
  assumes I: "mm_inv m s" and r: "ready (mm_pc s t)"
    and pc: "mm_pc s' = (mm_pc s)(t := p)" "\<not> claiming p" "\<not> unposted p" "mplace (mm_tx s') (mm_rx s') p (sm_pc (mm_sem s) t)"
    and eq: "mm_sem s' = mm_sem s" "mm_queue s' = mm_queue s" "mm_extra s' = mm_extra s" "mm_cleared s' = mm_cleared s"
      "mm_void s' = mm_void s"
    and tx: "mm_tx s = 0 \<longrightarrow> mm_tx s' = 0" "mm_tx s' \<noteq> 0 \<longrightarrow> mm_tx s \<noteq> 0"
    and rx: "mm_rx s \<noteq> 0 \<longrightarrow> mm_rx s' \<noteq> 0 \<or> (\<forall>u. \<not> receiving (mm_pc s u))" "mm_rx s = 0 \<longrightarrow> mm_rx s' = 0"
  shows "mm_inv m s'"
proof (rule mm_inv_move [OF I pc(1)])
  fix c u assume "nclaims s' = c" "nunposted s' = u"
  then show "sem.ledger m (length (mm_queue s')) (mm_extra s' + mm_cleared s') c u (mm_void s') (mm_sem s')"
    using mm_counts(3,4) [OF mm_invD(3) [OF I] pc(1)] pc(2,3) ready_simps [OF r] mm_invD(3) [OF I] unfolding mm_ledger_def eq by auto
qed (use eq pc tx rx mm_invD [OF I] in auto)

lemma mm_next_inv:
  assumes I: "mm_inv m s" and b: "sem_bounded m (mm_sem s)" and t: "t < m" and st: "mm_next m t a s = Some (e, s')"
    and out: "\<And>u. m \<le> u \<Longrightarrow> mm_pc s u = MIdle"
  shows "mm_inv m s'"
proof (cases a)
  case (Send v)
  then have r: "ready (mm_pc s t)" "s' = mgoto t (MSendLoad v) s" using st by (auto split: if_splits)
  then show ?thesis using ready_simps [OF r(1)] ready_rests [OF I r(1)]
    by (intro mm_inv_local [where p = "MSendLoad v" and t = t, OF I]) auto
next
  case TryRecv
  then have r: "ready (mm_pc s t)" "mm_rx s \<noteq> 0" "sem_call t CallTryWait (MTryWait RTry) s = Some s'"
    using st by (auto simp: quiet_step_def split: if_splits)
  then show ?thesis using ready_simps [OF r(1)] by (intro sem_call_inv [OF I b t r(3)]) auto
next
  case (Recv dur)
  then have r: "ready (mm_pc s t)" "mm_rx s \<noteq> 0" "sem_call t CallTryWait (MTryWait (RRecv dur)) s = Some s'"
    using st by (auto simp: quiet_step_def split: if_splits)
  then show ?thesis using ready_simps [OF r(1)] by (intro sem_call_inv [OF I b t r(3)]) auto
next
  case CloneTx
  then have r: "ready (mm_pc s t)" "mm_tx s \<noteq> 0" "s' = mm_clone_tx s" using st by (auto split: if_splits)
  have "mm_tx s + 1 \<noteq> 0" using st CloneTx by (auto split: if_splits)
  with r show ?thesis using ready_simps [OF r(1)] mm_invD(2) [OF I, of t]
    by (intro mm_inv_ports [where p = "mm_pc s t" and t = t, OF I r(1)])
      (cases "mm_pc s t", auto simp: mm_clone_tx_def)+
next
  case CloneRx
  then have r: "ready (mm_pc s t)" "mm_rx s \<noteq> 0" "s' = mm_clone_rx s" using st by (auto split: if_splits)
  have "mm_rx s + 1 \<noteq> 0" using st CloneRx by (auto split: if_splits)
  with r show ?thesis using ready_simps [OF r(1)] mm_invD(2) [OF I, of t]
    by (intro mm_inv_ports [where p = "mm_pc s t" and t = t, OF I r(1)])
      (cases "mm_pc s t", auto simp: mm_clone_rx_def)+
next
  case DropTx
  then have r: "ready (mm_pc s t)" "mm_tx s \<noteq> 0" "s' = mm_call_drop_tx t s" using st by (auto split: if_splits)
  then show ?thesis using ready_rests [OF I r(1)]
    by (intro mm_inv_ports [where p = "if mm_tx s = 1 then MHasWaiters else MIdle" and t = t, OF I r(1)])
      (auto simp: mm_call_drop_tx_def Let_def)
next
  case DropRx
  then have r: "ready (mm_pc s t)" "mm_rx s \<noteq> 0" "s' = mm_call_drop_rx t s"
    and d: "mm_rx s = 1 \<longrightarrow> (\<forall>u<m. \<not> receiving (mm_pc s u))" using st by (auto split: if_splits)
  have "\<forall>u. \<not> receiving (mm_pc s u)" if "mm_rx s = 1" using d that out by (metis not_le receiving.simps(8))
  with r show ?thesis using ready_rests [OF I r(1)]
    by (intro mm_inv_ports [where p = "if mm_rx s = 1 then MClear else MIdle" and t = t, OF I r(1)])
      (auto simp: mm_call_drop_rx_def Let_def)
next
  case (Step c)
  then show ?thesis using st mm_step_inv [OF I b t, of c e s'] by (auto split: if_splits)
qed

section \<open>Runs keep the invariant\<close>

lemma mm_inv_new: "mpmc_new = Some s \<Longrightarrow> mm_inv m s \<and> sm_fresh (mm_sem s) = 0 \<and> permits m (mm_sem s) = 0 \<and> mm_queue s = []"
proof -
  assume "mpmc_new = Some s"
  then obtain q where q: "semphore_new 0 = Some q" and s: "s = \<lparr>mm_queue = [], mm_sem = q, mm_tx = 1, mm_rx = 1,
    mm_pc = (\<lambda>_. MIdle), mm_extra = 0, mm_cleared = 0, mm_void = 0\<rparr>" by (auto simp: mpmc_new_def)
  have "sem_inv m q \<and> permits m q = 0 \<and> sm_fresh q = 0" using sem_inv_new [OF q] by simp
  moreover have "sm_pc q t = SIdle" for t using q by (auto simp: semphore_new_def split: if_splits)
  ultimately show ?thesis
    by (auto simp: s mm_inv_def mm_ledger_def sem.ledger_def nclaims_def nunposted_def)
qed

lemma mm_next_sem:
  assumes "mm_next m t a s = Some (e, s')"
  shows "mm_sem s' = mm_sem s \<or> (\<exists>c ev. sem_next t c (mm_sem s) = Some (ev, mm_sem s'))"
  using assms
  by (cases a) (auto simp: mm_step_def sem_call_def sem_go_def quiet_step_def try_recv_empty_def mm_clone_tx_def mm_clone_rx_def
    mm_call_drop_tx_def mm_call_drop_rx_def Let_def simp del: sem_next.simps
    split: option.splits mmpc.splits list.splits rmode.splits if_splits)

lemma mm_next_history:
  assumes "mm_next m t a s = Some (e, s')"
  shows "taken [e] @ mm_queue s' = mm_queue s @ pushed [e]"
  using assms
  by (cases a) (auto simp: mm_step_def sem_call_def sem_go_def quiet_step_def try_recv_empty_def mm_clone_tx_def mm_clone_rx_def
    mm_call_drop_tx_def mm_call_drop_rx_def Let_def taken_def pushed_def simp del: sem_next.simps
    split: option.splits mmpc.splits list.splits rmode.splits if_splits)

lemma mm_run_inv:
  assumes "mm_run m es s" "length es < 2 ^ 62"
  shows "mm_inv m s \<and> sm_fresh (mm_sem s) \<le> length es \<and> permits m (mm_sem s) \<le> int (length es) \<and>
    pushed es = taken es @ mm_queue s"
  using assms
proof (induction rule: mm_run.induct)
  case (mm_run_new s)
  then show ?case using mm_inv_new [of s m] by (simp add: pushed_def taken_def)
next
  case (mm_run_step es s t a e s')
  then have IH: "mm_inv m s" "sm_fresh (mm_sem s) \<le> length es" "permits m (mm_sem s) \<le> int (length es)"
    "pushed es = taken es @ mm_queue s" by auto
  have "int (length es) < int (2 ^ 62)" using mm_run_step.prems by (simp only: of_nat_less_iff length_append)
  then have l: "int (length es) < 2 ^ 62" by simp
  have b: "sem_bounded m (mm_sem s)" using IH(2,3) l by (simp add: sem_bounded_def)
  have I: "mm_inv m s'"
    by (rule mm_next_inv [OF IH(1) b mm_run_step.hyps(2,3)]) (use mm_idle_others [OF mm_run_step.hyps(1)] in blast)
  have "sm_fresh (mm_sem s') \<le> length (es @ [e]) \<and> permits m (mm_sem s') \<le> int (length (es @ [e]))"
    using mm_next_sem [OF mm_run_step.hyps(3)]
  proof
    assume "\<exists>c ev. sem_next t c (mm_sem s) = Some (ev, mm_sem s')"
    then obtain c ev where c: "sem_next t c (mm_sem s) = Some (ev, mm_sem s')" by blast
    have "sem_kept m (mm_sem s) (ev, mm_sem s')"
      by (rule sem_step [OF mm_invD(1) [OF IH(1)] mm_run_step.hyps(2) c]) (use b in \<open>simp_all add: sem_bounded_def\<close>)
    then show ?thesis using IH(2,3) by (cases ev) (auto simp: sem_kept_def)
  qed (use IH in auto)
  moreover have "pushed (es @ [e]) = taken (es @ [e]) @ mm_queue s'"
    using IH(4) mm_next_history [OF mm_run_step.hyps(3)] by simp
  ultimately show ?case using I by blast
qed

section \<open>Properties\<close>

lemma mm_disconnected:
  assumes I: "mm_inv m s" and st: "mm_next m t a s = Some (Returned Disconnected, s')"
  shows "mm_tx s = 0"
proof (rule ccontr)
  assume n: "mm_tx s \<noteq> 0"
  have pl: "mplace (mm_tx s) (mm_rx s) (mm_pc s t) (sm_pc (mm_sem s) t)" by (rule mm_invD(2) [OF I])
  have "stopped p" if "stopping p" for p using that by (cases p) auto
  then show False using st pl n
    by (cases a; cases "mm_pc s t") (auto simp: mm_step_def quiet_step_def try_recv_empty_def simp del: sem_next.simps
      split: option.splits list.splits rmode.splits if_splits)
qed

text \<open>
  C13: the channel delivers. In every run of any number of senders and receivers, with timeouts and cancellations,
  the values handed out by \<^verbatim>\<open>recv\<close> and \<^verbatim>\<open>try_recv\<close> or dropped by the last receiver are, in this order,
  a prefix of the values pushed, and the rest is in the queue: no value is lost, duplicated or reordered.
  \<^verbatim>\<open>Disconnected\<close> is returned only when every sender is gone, \<^verbatim>\<open>send\<close> fails only when every receiver is gone,
  and while a sender is alive an acquired permit always finds a value, so that the two
  \<^verbatim>\<open>debug_assert!(false, ..)\<close> are never reached.
\<close>

theorem mpmc_chan_delivers:
  assumes "mm_run m es s" and "length es < 2 ^ 62"
  shows "pushed es = taken es @ mm_queue s \<and>
    (\<forall>t a s'. mm_next m t a s = Some (Returned Disconnected, s') \<longrightarrow> mm_tx s = 0) \<and>
    (\<forall>t a v s'. mm_next m t a s = Some (Rejected v, s') \<longrightarrow> mm_rx s = 0) \<and>
    (\<forall>t. mm_pc s t = MPopLoad \<or> (\<exists>r. mm_pc s t = MTryPopLoad r) \<longrightarrow> mm_tx s = 0)"
proof -
  from mm_run_inv [OF assms] have I: "mm_inv m s" and h: "pushed es = taken es @ mm_queue s" by auto
  have "mm_rx s = 0" if "mm_next m t a s = Some (Rejected v, s')" for t a v s'
    using that by (cases a; cases "mm_pc s t") (auto simp: mm_step_def quiet_step_def try_recv_empty_def simp del: sem_next.simps
      split: option.splits list.splits rmode.splits if_splits)
  moreover have "mm_tx s = 0" if "mm_pc s t = MPopLoad \<or> (\<exists>r. mm_pc s t = MTryPopLoad r)" for t
    using that mm_invD(2) [OF I, of t] by auto
  ultimately show ?thesis using h mm_disconnected [OF I] by blast
qed

text \<open>The tasks are outside the channel, or parked in \<^verbatim>\<open>recv\<close> without a token.\<close>

definition mm_rest :: "'a mpmc \<Rightarrow> bool" where
  "mm_rest s \<longleftrightarrow> (\<forall>t. ready (mm_pc s t) \<or>
     (\<exists>dur b. mm_pc s t = MWait dur \<and> sm_pc (mm_sem s) t = SPark b \<and> \<not> bk_token (sm_blk (mm_sem s) b)))"

text \<open>
  C28: no lost wake-up while a sender is alive. When every task is outside the channel or parked in \<^verbatim>\<open>recv\<close> without a
  token, \<^verbatim>\<open>pressure\<close> is at least the number of queued values, and exactly this number while a sender is
  alive; and then a receiver is parked only if the queue is empty.
\<close>

theorem mpmc_chan_no_lost_value:
  assumes "mm_run m es s" and "length es < 2 ^ 62" and "mm_rest s" and "mm_rx s \<noteq> 0"
  shows "length (mm_queue s) \<le> pressure s \<and> (mm_tx s \<noteq> 0 \<longrightarrow> pressure s = length (mm_queue s) \<and>
    ((\<exists>t dur. mm_pc s t = MWait dur) \<longrightarrow> mm_queue s = []))"
proof -
  from mm_run_inv [OF assms(1,2)] have I: "mm_inv m s" by blast
  have r: "ready (mm_pc s t) \<or> (\<exists>dur b. mm_pc s t = MWait dur \<and> sm_pc (mm_sem s) t = SPark b \<and> \<not> bk_token (sm_blk (mm_sem s) b))" for t
    using assms(3) by (simp add: mm_rest_def)
  have q: "\<forall>t. sm_pc (mm_sem s) t \<in> {SIdle, SPanicked} \<or> (\<exists>b. sm_pc (mm_sem s) t = SPark b \<and> \<not> bk_token (sm_blk (mm_sem s) b))"
  proof
    fix t show "sm_pc (mm_sem s) t \<in> {SIdle, SPanicked} \<or> (\<exists>b. sm_pc (mm_sem s) t = SPark b \<and> \<not> bk_token (sm_blk (mm_sem s) b))"
      using r [of t] ready_rests [OF I, of t] by auto
  qed
  note Q = sem_inv_quiet [OF mm_invD(1) [OF I] q]
  have "\<not> claiming (mm_pc s t)" "\<not> unposted (mm_pc s t)" for t using r [of t] ready_simps [of "mm_pc s t"] by auto
  then have z: "nclaims s = 0" "nunposted s = 0" by (simp_all add: nclaims_def nunposted_def)
  have L: "int (length (mm_queue s)) \<le> permits m (mm_sem s) \<and>
    (mm_extra s + mm_cleared s = 0 \<longrightarrow> int (length (mm_queue s)) = permits m (mm_sem s))"
    by (rule sem.ledger_rest [where v = "mm_void s"]) (use mm_invD(3) [OF I] in \<open>simp add: mm_ledger_def z\<close>)
  have le: "length (mm_queue s) \<le> pressure s" using L Q(1) by (simp add: pressure_def)
  moreover {
    assume "mm_tx s \<noteq> 0"
    then have e: "int (length (mm_queue s)) = permits m (mm_sem s)" using L mm_invD(4,5) [OF I] assms(4) by simp
    then have "pressure s = length (mm_queue s)" using Q(1) by (simp add: pressure_def)
    moreover have "mm_queue s = []" if "mm_pc s t = MWait dur" for t dur
    proof -
      have "\<exists>b. sm_pc (mm_sem s) t = SPark b" using r [of t] that by auto
      then show ?thesis using Q(2) [of t] e by auto
    qed
    ultimately have "pressure s = length (mm_queue s) \<and> ((\<exists>t dur. mm_pc s t = MWait dur) \<longrightarrow> mm_queue s = [])" by blast
  }
  ultimately show ?thesis by blast
qed

section \<open>Runs that witness the properties\<close>

definition mm_act :: "nat \<Rightarrow> nat \<times> 'a mact \<Rightarrow> 'a mpmc \<Rightarrow> ('a cev \<times> 'a mpmc) option" where
  "mm_act m x s = (if fst x < m then mm_next m (fst x) (snd x) s else None)"

interpretation mm_runs: event_runs "mm_run m" "mm_act m" for m
  by unfold_locales (auto simp: mm_act_def simp del: mm_next.simps intro: mm_run_step split: if_splits)

abbreviation run_on :: "nat \<Rightarrow> nat \<times> 'a mact" where
  "run_on t \<equiv> (t, Step SRun)"

lemma isize_small: "isize (- 1) = - 1" "isize 0 = 0" "isize 1 = 1"
  by (rule isize_id; simp)+

lemmas mm_exec = mm_act_def mm_step_def sem_call_def sem_go_def quiet_step_def try_recv_empty_def wait_act_def
  mm_call_drop_tx_def mm_call_drop_rx_def mm_clone_tx_def mm_clone_rx_def mgoto_def sgoto_def supd_def has_waiters_def
  mpmc_new_def semphore_new_def isize_max_def isize_small sync_blocker_def unpark_flag_def unpark_wake_def
  park_return_def is_unparked_def take_release_def

lemma all_less_3: "(\<forall>u<3::nat. P u) \<longleftrightarrow> P 0 \<and> P 1 \<and> P 2"
  by (auto simp: eval_nat_numeral less_Suc_eq)

lemma mm_exec_run:
  assumes "map_option f (exec_acts (mm_act m) as (the mpmc_new)) = Some x"
  obtains es s where "mm_run m es s" "f (es, s) = x" "length es = length as"
proof -
  have n: "mpmc_new = Some (the mpmc_new)" by (simp add: mpmc_new_def semphore_new_def isize_max_def)
  from assms obtain es s where r: "exec_acts (mm_act m) as (the mpmc_new) = Some (es, s)" "f (es, s) = x" by auto
  have "length es = length as" by (rule exec_acts_length [OF r(1)])
  with that mm_runs.exec_run_from [OF mm_run_new [OF n] r(1)] r(2) show thesis by blast
qed

text \<open>
  C25: a disconnect can leave a receiver parked for ever. Receiver 0 has pushed its blocker but not yet decremented the
  counter of the semaphore, receiver 1 is parked behind it. The last sender goes away, finds one counted
  waiter, posts one permit, which wakes receiver 0, and finds no waiter any more. Receiver 0 counts itself,
  sees the disconnect, consumes the permit and returns \<^verbatim>\<open>Disconnected\<close>; receiver 1 stays parked although
  no sender is left and no call is running.
\<close>

theorem mpmc_disconnect_strands_receiver:
  "\<exists>es (s :: nat mpmc). mm_run 3 es s \<and> mm_rest s \<and> mm_tx s = 0 \<and> sm_pc (mm_sem s) 1 = SPark 1 \<and>
     mm_pc s = (\<lambda>_. MIdle)(1 := MWait False) \<and> last es = Returned Disconnected"
proof -
  let ?as = "[(0, Recv False), run_on 0, run_on 0, run_on 0, run_on 0,
    (1, Recv False), run_on 1, run_on 1, run_on 1, run_on 1, run_on 1, run_on 1,
    (2, DropTx), run_on 2, run_on 2, run_on 2, run_on 2, run_on 2, run_on 2, run_on 2, run_on 2, run_on 2,
    run_on 0, run_on 0, run_on 0, run_on 0, run_on 0] :: (nat \<times> nat mact) list"
  have "map_option (\<lambda>(es, s). (last es, mm_pc s, mm_tx s, sm_pc (mm_sem s) 1, bk_token (sm_blk (mm_sem s) 1)))
      (exec_acts (mm_act 3) ?as (the mpmc_new)) = Some (Returned Disconnected, (\<lambda>_. MIdle)(1 := MWait False), 0, SPark 1, False)"
    by (simp add: mm_exec Let_def all_less_3 fun_eq_iff)
  then obtain es and s :: "nat mpmc" where "mm_run 3 es s" and p: "last es = Returned Disconnected" "mm_pc s = (\<lambda>_. MIdle)(1 := MWait False)"
    "mm_tx s = 0" "sm_pc (mm_sem s) 1 = SPark 1" "\<not> bk_token (sm_blk (mm_sem s) 1)"
    by (rule mm_exec_run) auto
  moreover have "mm_rest s" unfolding mm_rest_def using p by (metis fun_upd_apply ready.simps(1))
  ultimately show ?thesis by (intro exI [of _ es] exI [of _ s]) simp
qed

text \<open>One value is sent while a receiver is parked; it is handed over.\<close>

theorem mpmc_chan_delivers_witness:
  "\<exists>es (s :: nat mpmc). mm_run 2 es s \<and> length es = 9 \<and> pushed es = [7] \<and> taken es = [7]"
proof -
  let ?as = "[(0, Send 7), run_on 0, run_on 0, run_on 0, run_on 0, (1, TryRecv), run_on 1, run_on 1, run_on 1] :: (nat \<times> nat mact) list"
  have "map_option (\<lambda>(es, s). (pushed es, mm_queue s)) (exec_acts (mm_act 2) ?as (the mpmc_new)) = Some ([7], [])"
    by (simp add: mm_exec Let_def pushed_def)
  then obtain es and s :: "nat mpmc" where r: "mm_run 2 es s" "pushed es = [7]" "mm_queue s = []" "length es = length ?as"
    by (rule mm_exec_run) auto
  then have "length es < 2 ^ 62" by simp
  from mpmc_chan_delivers [OF r(1) this] r(2-4) have "taken es = [7]" by simp
  with r show ?thesis by auto
qed

theorem mpmc_chan_no_lost_value_witness:
  "\<exists>s :: nat mpmc. mm_pc s 1 = MWait False \<and> mm_tx s \<noteq> 0 \<and> pressure s = 0 \<and> mm_queue s = []"
proof -
  let ?as = "[(1, Recv False), run_on 1, run_on 1, run_on 1, run_on 1, run_on 1, run_on 1] :: (nat \<times> nat mact) list"
  have "map_option (\<lambda>(es, s). (mm_pc s, mm_tx s, mm_rx s, sm_pc (mm_sem s) 1, bk_token (sm_blk (mm_sem s) 0)))
      (exec_acts (mm_act 2) ?as (the mpmc_new)) = Some ((\<lambda>_. MIdle)(1 := MWait False), 1, 1, SPark 0, False)"
    by (simp add: mm_exec Let_def fun_eq_iff)
  then obtain es and s :: "nat mpmc" where r: "mm_run 2 es s" "length es = length ?as"
    and p: "mm_pc s = (\<lambda>_. MIdle)(1 := MWait False)" "mm_tx s = 1" "mm_rx s = 1" "sm_pc (mm_sem s) 1 = SPark 0"
      "\<not> bk_token (sm_blk (mm_sem s) 0)"
    by (rule mm_exec_run) auto
  have "mm_rest s" unfolding mm_rest_def using p by (metis fun_upd_apply ready.simps(1))
  moreover have "length es < 2 ^ 62" using r(2) by simp
  ultimately have "pressure s = length (mm_queue s) \<and> ((\<exists>t dur. mm_pc s t = MWait dur) \<longrightarrow> mm_queue s = [])"
    using mpmc_chan_no_lost_value [OF r(1)] p(2,3) by simp
  moreover have "mm_pc s 1 = MWait False" using p(1) by simp
  ultimately show ?thesis using p(2) by (intro exI [of _ s]) auto
qed

end
