(* ===== verification/Config_Pool.thy ===== *)
theory Config_Pool
  imports Prelude
begin

text \<open>
  The process-wide configuration of \<^verbatim>\<open>src/config.rs\<close> and the pool of prepared coroutines of
  \<^verbatim>\<open>src/pool.rs\<close>. The pool is a transition system over any number of threads: \<^verbatim>\<open>get\<close> and \<^verbatim>\<open>put\<close> change the
  counter and the queue in separate steps.
\<close>

section \<open>Configuration\<close>

definition DEFAULT_STACK_SIZE :: usize where
  "DEFAULT_STACK_SIZE = 0x1000"

definition DEFAULT_POOL_CAPACITY :: usize where
  "DEFAULT_POOL_CAPACITY = 1000"

record config =
  cf_workers :: usize
  cf_stack_size :: usize
  cf_pool_capacity :: usize
  cf_poll_timeout_ns :: u64
  cf_pin_workers :: bool

definition config_init :: config where
  "config_init = \<lparr>cf_workers = 0, cf_stack_size = DEFAULT_STACK_SIZE, cf_pool_capacity = DEFAULT_POOL_CAPACITY,
     cf_poll_timeout_ns = 10000000, cf_pin_workers = True\<rparr>"

definition set_workers :: "usize \<Rightarrow> config \<Rightarrow> config" where
  "set_workers n c = c\<lparr>cf_workers := n\<rparr>"

text \<open>\<open>num_cpus\<close> is what the crate of that name returns.\<close>

definition get_workers :: "usize \<Rightarrow> config \<Rightarrow> usize \<times> config" where
  "get_workers num_cpus c =
     (if cf_workers c \<noteq> 0 then (cf_workers c, c) else (num_cpus, c\<lparr>cf_workers := num_cpus\<rparr>))"

definition set_io_workers :: "usize \<Rightarrow> config \<Rightarrow> config" where
  "set_io_workers n c = c"

definition set_pool_capacity :: "usize \<Rightarrow> config \<Rightarrow> config" where
  "set_pool_capacity n c = c\<lparr>cf_pool_capacity := n\<rparr>"

definition get_pool_capacity :: "config \<Rightarrow> usize" where
  "get_pool_capacity c = (if cf_pool_capacity c \<noteq> 0 then cf_pool_capacity c else DEFAULT_POOL_CAPACITY)"

definition set_stack_size :: "usize \<Rightarrow> config \<Rightarrow> config" where
  "set_stack_size n c = c\<lparr>cf_stack_size := n\<rparr>"

definition get_stack_size :: "config \<Rightarrow> usize" where
  "get_stack_size c = cf_stack_size c"

definition set_timeout_ns :: "u64 \<Rightarrow> config \<Rightarrow> config" where
  "set_timeout_ns n c = c\<lparr>cf_poll_timeout_ns := n\<rparr>"

definition get_timeout_ns :: "config \<Rightarrow> u64" where
  "get_timeout_ns c = cf_poll_timeout_ns c"

definition set_worker_pin :: "bool \<Rightarrow> config \<Rightarrow> config" where
  "set_worker_pin b c = c\<lparr>cf_pin_workers := b\<rparr>"

definition get_worker_pin :: "config \<Rightarrow> bool" where
  "get_worker_pin c = cf_pin_workers c"

lemmas config_defs = set_workers_def get_workers_def set_io_workers_def set_pool_capacity_def
  get_pool_capacity_def set_stack_size_def get_stack_size_def set_timeout_ns_def get_timeout_ns_def
  set_worker_pin_def get_worker_pin_def config_init_def DEFAULT_STACK_SIZE_def DEFAULT_POOL_CAPACITY_def

datatype config_op = SetWorkers usize | SetPool usize | SetStack usize | SetTimeout u64 | SetPin bool | ReadWorkers

fun config_exec :: "usize \<Rightarrow> config_op list \<Rightarrow> config \<Rightarrow> config" where
  "config_exec cpus [] c = c"
| "config_exec cpus (SetWorkers n # os) c = config_exec cpus os (set_workers n c)"
| "config_exec cpus (SetPool n # os) c = config_exec cpus os (set_pool_capacity n c)"
| "config_exec cpus (SetStack n # os) c = config_exec cpus os (set_stack_size n c)"
| "config_exec cpus (SetTimeout n # os) c = config_exec cpus os (set_timeout_ns n c)"
| "config_exec cpus (SetPin b # os) c = config_exec cpus os (set_worker_pin b c)"
| "config_exec cpus (ReadWorkers # os) c = config_exec cpus os (snd (get_workers cpus c))"

text \<open>
  \<^verbatim>\<open>get_workers\<close> and \<^verbatim>\<open>get_pool_capacity\<close> never return zero on a machine with a processor, whatever
  was set before, and the number of workers is sticky: once read it stays until it is set again. The
  stack size has no such default: a size of zero, documented to select the internal default, is handed
  out as zero.
\<close>

theorem config_defaults:
  assumes "cpus \<noteq> 0"
  shows "fst (get_workers cpus (config_exec cpus os config_init)) \<noteq> 0 \<and>
    get_pool_capacity (config_exec cpus os config_init) \<noteq> 0 \<and>
    get_workers cpus' (snd (get_workers cpus c)) = get_workers cpus c \<and>
    get_stack_size (set_stack_size 0 c) = 0 \<and> DEFAULT_STACK_SIZE \<noteq> 0"
  using assms by (auto simp: config_defs)

section \<open>Coroutine pool\<close>

text \<open>
  The queue (\<^verbatim>\<open>SegQueue\<close> of the crate \<^verbatim>\<open>crossbeam\<close>) is taken with its first-in-first-out meaning. A new
  coroutine is \<open>Fresh\<close>; \<open>Pooled i\<close> is the \<open>i\<close>-th one that came with the pool or was put back.
\<close>

datatype pool_pc =
    PIdle
  | GetPop              \<comment> \<open>\<^verbatim>\<open>get\<close>: after \<^verbatim>\<open>size.fetch_sub(1)\<close>\<close>
  | GetUndo             \<comment> \<open>\<^verbatim>\<open>get\<close>: the queue was empty, before \<^verbatim>\<open>size.fetch_add(1)\<close>\<close>
  | PutFull             \<comment> \<open>\<^verbatim>\<open>put\<close>: over capacity, before \<^verbatim>\<open>size.fetch_sub(1)\<close>\<close>
  | PutPush             \<comment> \<open>\<^verbatim>\<open>put\<close>: before \<^verbatim>\<open>pool.push(co)\<close>\<close>

record pool =
  pl_len :: nat
  pl_size :: usize
  pl_pc :: "nat \<Rightarrow> pool_pc"

definition pool_new :: "config \<Rightarrow> pool" where
  "pool_new c = \<lparr>pl_len = unat (get_pool_capacity c), pl_size = get_pool_capacity c, pl_pc = (\<lambda>_. PIdle)\<rparr>"

datatype pool_act = CallGet | CallPut | PoolRun

definition pgoto :: "nat \<Rightarrow> pool_pc \<Rightarrow> pool \<Rightarrow> pool" where
  "pgoto t p s = s\<lparr>pl_pc := (pl_pc s)(t := p)\<rparr>"

fun pool_get :: "nat \<Rightarrow> pool \<Rightarrow> pool option" where
  "pool_get t s = (case pl_pc s t of
     PIdle \<Rightarrow> Some (pgoto t GetPop (s\<lparr>pl_size := pl_size s - 1\<rparr>))
   | GetPop \<Rightarrow> (case pl_len s of
       0 \<Rightarrow> Some (pgoto t GetUndo s)
     | Suc n \<Rightarrow> Some (pgoto t PIdle (s\<lparr>pl_len := n\<rparr>)))
   | GetUndo \<Rightarrow> Some (pgoto t PIdle (s\<lparr>pl_size := pl_size s + 1\<rparr>))
   | _ \<Rightarrow> None)"

fun pool_put :: "usize \<Rightarrow> nat \<Rightarrow> pool \<Rightarrow> pool option" where
  "pool_put cap t s = (case pl_pc s t of
     PIdle \<Rightarrow>
       (let m = pl_size s; s1 = s\<lparr>pl_size := m + 1\<rparr> in
        Some (pgoto t (if m \<ge> cap then PutFull else PutPush) s1))
   | PutFull \<Rightarrow> Some (pgoto t PIdle (s\<lparr>pl_size := pl_size s - 1\<rparr>))
   | PutPush \<Rightarrow> Some (pgoto t PIdle (s\<lparr>pl_len := Suc (pl_len s)\<rparr>))
   | _ \<Rightarrow> None)"

text \<open>\<open>m\<close> threads use the pool; the capacity is not changed after the start.\<close>

inductive pool_step :: "nat \<Rightarrow> usize \<Rightarrow> pool \<Rightarrow> pool \<Rightarrow> bool" for m cap where
  pool_step_get: "t < m \<Longrightarrow> pool_get t s = Some s' \<Longrightarrow> pool_step m cap s s'"
| pool_step_put: "t < m \<Longrightarrow> pool_put cap t s = Some s' \<Longrightarrow> pool_step m cap s s'"

definition pool_start :: "config \<Rightarrow> pool \<Rightarrow> bool" where
  "pool_start c s \<longleftrightarrow> s = pool_new c"

text \<open>How far the counter is off the length of the queue because of a thread inside an operation.\<close>

fun pool_off :: "pool_pc \<Rightarrow> int" where
  "pool_off PIdle = 0"
| "pool_off GetPop = - 1"
| "pool_off GetUndo = - 1"
| "pool_off PutFull = 1"
| "pool_off PutPush = 1"

fun pool_ins :: "pool_pc \<Rightarrow> int" where
  "pool_ins PutPush = 1"
| "pool_ins _ = 0"

definition offs :: "nat \<Rightarrow> pool \<Rightarrow> int" where
  "offs m s = (\<Sum>t<m. pool_off (pl_pc s t))"

definition inss :: "nat \<Rightarrow> pool \<Rightarrow> int" where
  "inss m s = (\<Sum>t<m. pool_ins (pl_pc s t))"

definition pool_inv :: "nat \<Rightarrow> usize \<Rightarrow> pool \<Rightarrow> bool" where
  "pool_inv m cap s \<longleftrightarrow> pl_size s = of_int (int (pl_len s) + offs m s) \<and>
     int (pl_len s) + inss m s \<le> uint cap + int m"

lemma pool_sums_goto:
  assumes "t < m"
  shows "offs m (pgoto t p s) = offs m s - pool_off (pl_pc s t) + pool_off p"
    and "inss m (pgoto t p s) = inss m s - pool_ins (pl_pc s t) + pool_ins p"
  using sum_upd [OF assms, of pool_off "pl_pc s" p] sum_upd [OF assms, of pool_ins "pl_pc s" p]
  by (simp_all add: offs_def inss_def pgoto_def)

lemma pool_sums_same [simp]:
  "offs m (s\<lparr>pl_size := x\<rparr>) = offs m s" "inss m (s\<lparr>pl_size := x\<rparr>) = inss m s"
  "offs m (s\<lparr>pl_len := n\<rparr>) = offs m s" "inss m (s\<lparr>pl_len := n\<rparr>) = inss m s"
  by (simp_all add: offs_def inss_def)

lemma pgoto_sel [simp]: "pl_len (pgoto t p s) = pl_len s" "pl_size (pgoto t p s) = pl_size s"
  by (simp_all add: pgoto_def)

lemma inss_nonneg: "0 \<le> inss m s"
  unfolding inss_def by (rule sum_nonneg) (metis pool_ins.elims order_refl zero_le_one)

lemma pool_off_bounds: "\<bar>offs m s\<bar> \<le> int m"
proof -
  have "\<bar>\<Sum>t<m. pool_off (pl_pc s t)\<bar> \<le> (\<Sum>t<m. \<bar>pool_off (pl_pc s t)\<bar>)" by (rule sum_abs)
  also have "\<dots> \<le> (\<Sum>t<m. 1)"
  proof (rule sum_mono)
    fix t show "\<bar>pool_off (pl_pc s t)\<bar> \<le> 1" by (cases "pl_pc s t") auto
  qed
  finally show ?thesis by (simp add: offs_def)
qed

lemma pool_ins_off:
  assumes "t < m" "pl_pc s t = PIdle"
  shows "inss m s + 1 \<le> offs m s + int m"
proof -
  have "(\<Sum>u<m. pool_ins (pl_pc s u)) = pool_ins (pl_pc s t) + (\<Sum>u\<in>{..<m} - {t}. pool_ins (pl_pc s u))"
    using assms(1) by (subst sum.remove [of _ t]) auto
  also have "(\<Sum>u\<in>{..<m} - {t}. pool_ins (pl_pc s u)) \<le> (\<Sum>u\<in>{..<m} - {t}. pool_off (pl_pc s u) + 1)"
  proof (rule sum_mono)
    fix u show "pool_ins (pl_pc s u) \<le> pool_off (pl_pc s u) + 1" by (cases "pl_pc s u") auto
  qed
  also have "(\<Sum>u\<in>{..<m} - {t}. pool_off (pl_pc s u) + 1) = (\<Sum>u\<in>{..<m} - {t}. pool_off (pl_pc s u)) + int (m - 1)"
    using assms(1) by (simp add: sum.distrib)
  also have "(\<Sum>u\<in>{..<m} - {t}. pool_off (pl_pc s u)) = (\<Sum>u<m. pool_off (pl_pc s u))"
    using assms by (subst sum.remove [of "{..<m}" t]) auto
  finally show ?thesis using assms by (simp add: of_nat_diff offs_def inss_def)
qed

text \<open>The counter seen as a signed number; a negative one reads as a huge size.\<close>

lemma pool_size_less:
  assumes "pl_size s = of_int z" "- int m \<le> z" "z < 2 ^ 64" "uint cap + int m < 2 ^ 64" "pl_size s < cap"
  shows "0 \<le> z \<and> z < uint cap"
proof -
  have u: "uint (pl_size s) = z mod 2 ^ 64" using assms(1) by (simp add: uint_word_of_int)
  have lt: "z mod 2 ^ 64 < uint cap" using assms(5) unfolding word_less_def u [symmetric] .
  have "0 \<le> uint cap" by simp
  then have m: "int m < 2 ^ 64" using assms(4) by linarith
  show ?thesis
  proof (cases "0 \<le> z")
    case True
    then show ?thesis using lt assms(3) by simp
  next
    case False
    have "z mod 2 ^ 64 = (z + 2 ^ 64) mod 2 ^ 64" by simp
    also have "\<dots> = z + 2 ^ 64" using False assms(2) m by (intro mod_pos_pos_trivial) auto
    finally show ?thesis using lt assms(2,4) by simp
  qed
qed

lemma pool_inv_step:
  assumes I: "pool_inv m cap s" and b: "uint cap + 3 * int m < 2 ^ 64" and st: "pool_step m cap s s'"
  shows "pool_inv m cap s'"
  using st
proof cases
  case (pool_step_get t)
  then show ?thesis using I
    by (cases "pl_pc s t"; cases "pl_len s") (auto simp: pool_inv_def pool_sums_goto)
next
  case (pool_step_put t)
  show ?thesis
  proof (cases "pl_pc s t = PIdle \<and> pl_size s < cap")
    case True
    have len: "int (pl_len s) \<le> uint cap + int m" using I inss_nonneg [of m s] by (simp add: pool_inv_def)
    have "0 \<le> int (pl_len s) + offs m s \<and> int (pl_len s) + offs m s < uint cap"
      by (rule pool_size_less [of s _ m]) (use I True b len pool_off_bounds [of m s] in \<open>auto simp: pool_inv_def\<close>)
    then have "int (pl_len s) + inss m s + 1 \<le> uint cap + int m"
      using pool_ins_off [OF pool_step_put(1), of s] True by linarith
    then show ?thesis using I True pool_step_put by (auto simp: pool_inv_def pool_sums_goto Let_def)
  next
    case False
    then show ?thesis using I pool_step_put
      by (cases "pl_pc s t") (auto simp: pool_inv_def pool_sums_goto Let_def not_less)
  qed
qed



end
