(* ===== verification/Join.thy ===== *)
theory Join
  imports Atomics
begin

text \<open>
  Joining a coroutine (\<^verbatim>\<open>src/join.rs\<close>) as a transition system: one coroutine that ends with \<^verbatim>\<open>trigger\<close>, and
  tasks that call \<^verbatim>\<open>wait\<close> on its handle. Every access to \<^verbatim>\<open>state\<close>, \<^verbatim>\<open>to_wake\<close> and a blocker is one step.
\<close>

section \<open>Model\<close>

datatype join_pc =
    JIdle      \<comment> \<open>before the first load of \<^verbatim>\<open>state\<close>\<close>
  | JStore     \<comment> \<open>before \<^verbatim>\<open>to_wake.store(cur)\<close>\<close>
  | JRecheck   \<comment> \<open>before the second load of \<^verbatim>\<open>state\<close>\<close>
  | JPark      \<comment> \<open>in \<^verbatim>\<open>cur.park(None)\<close>\<close>
  | JTake      \<comment> \<open>before \<^verbatim>\<open>to_wake.take()\<close>\<close>
  | JDone

datatype trigger_pc =
    TRun         \<comment> \<open>the coroutine runs\<close>
  | TTake        \<comment> \<open>\<^verbatim>\<open>state\<close> is false, before \<^verbatim>\<open>to_wake.take()\<close>\<close>
  | TUnpark nat  \<comment> \<open>before \<^verbatim>\<open>w.unpark()\<close>\<close>
  | TEnd

text \<open>The blocker of a waiting task is named by the task; \<open>jn_token\<close> is its wake-up token.\<close>

record 'r join =
  jn_wake :: "nat atomic_option"
  jn_state :: bool
  jn_panic :: "'r atomic_option"
  jn_token :: "nat \<Rightarrow> bool"
  jn_pc :: "nat \<Rightarrow> join_pc"
  jn_trig :: trigger_pc

definition join_new :: "'r join" where
  "join_new = \<lparr>jn_wake = ao_none, jn_state = True, jn_panic = ao_none, jn_token = (\<lambda>_. False),
     jn_pc = (\<lambda>_. JIdle), jn_trig = TRun\<rparr>"

definition set_panic_data :: "'r \<Rightarrow> 'r join \<Rightarrow> 'r join" where
  "set_panic_data p s = s\<lparr>jn_panic := ao_store p (jn_panic s)\<rparr>"

fun trigger_step :: "'r join \<Rightarrow> 'r join option" where
  "trigger_step s = (case jn_trig s of
     TRun \<Rightarrow> Some (s\<lparr>jn_state := False, jn_trig := TTake\<rparr>)
   | TTake \<Rightarrow>
       (let (w, v) = ao_take (jn_wake s) in
        Some (s\<lparr>jn_wake := v, jn_trig := (case w of None \<Rightarrow> TEnd | Some b \<Rightarrow> TUnpark b)\<rparr>))
   | TUnpark b \<Rightarrow> Some (s\<lparr>jn_token := (jn_token s)(b := True), jn_trig := TEnd\<rparr>)
   | TEnd \<Rightarrow> None)"

definition jgoto :: "nat \<Rightarrow> join_pc \<Rightarrow> 'r join \<Rightarrow> 'r join" where
  "jgoto t p s = s\<lparr>jn_pc := (jn_pc s)(t := p)\<rparr>"

fun wait_step :: "nat \<Rightarrow> 'r join \<Rightarrow> 'r join option" where
  "wait_step t s = (case jn_pc s t of
     JIdle \<Rightarrow> Some (jgoto t (if jn_state s then JStore else JDone) s)
   | JStore \<Rightarrow> Some (jgoto t JRecheck (s\<lparr>jn_wake := ao_store t (jn_wake s)\<rparr>))
   | JRecheck \<Rightarrow> Some (jgoto t (if jn_state s then JPark else JTake) s)
   | JPark \<Rightarrow> if jn_token s t then Some (jgoto t JDone s) else None
   | JTake \<Rightarrow> Some (jgoto t JDone (s\<lparr>jn_wake := snd (ao_take (jn_wake s))\<rparr>))
   | JDone \<Rightarrow> None)"

definition is_done :: "'r join \<Rightarrow> bool" where
  "is_done s = (\<not> jn_state s)"

text \<open>\<^verbatim>\<open>JoinHandle::join\<close> after the wait: the result, or the panic, or \<^verbatim>\<open>Error::Cancel\<close>.\<close>

definition join_result :: "'a atomic_option \<Rightarrow> 'r \<Rightarrow> 'r join \<Rightarrow> 'r + 'a" where
  "join_result packet cancel_err s = (case fst (ao_take packet) of
     Some r \<Rightarrow> Inr r
   | None \<Rightarrow> Inl (case fst (ao_take (jn_panic s)) of Some p \<Rightarrow> p | None \<Rightarrow> cancel_err))"

datatype actor = Host | Waiting nat

fun join_next :: "actor \<Rightarrow> 'r join \<Rightarrow> 'r join option" where
  "join_next Host s = trigger_step s"
| "join_next (Waiting t) s = wait_step t s"

text \<open>Runs in which only the tasks in \<open>T\<close> wait on the handle.\<close>

definition join_step :: "nat set \<Rightarrow> 'r join \<Rightarrow> 'r join \<Rightarrow> bool" where
  "join_step T s s' \<longleftrightarrow> (\<exists>a. join_next a s = Some s' \<and> (\<forall>t. a = Waiting t \<longrightarrow> t \<in> T))"

definition join_start :: "'r join \<Rightarrow> bool" where
  "join_start s \<longleftrightarrow> s = join_new"

section \<open>One waiter\<close>

definition join_inv :: "nat \<Rightarrow> 'r join \<Rightarrow> bool" where
  "join_inv t s \<longleftrightarrow> (jn_state s \<longleftrightarrow> jn_trig s = TRun) \<and>
     (jn_token s t \<longrightarrow> jn_trig s = TEnd) \<and>
     (jn_pc s t = JDone \<or> jn_pc s t = JTake \<longrightarrow> \<not> jn_state s) \<and>
     (jn_pc s t = JPark \<longrightarrow> (jn_wake s = Some t \<and> jn_trig s \<in> {TRun, TTake}) \<or>
        jn_trig s = TUnpark t \<or> (jn_trig s = TEnd \<and> jn_token s t)) \<and>
     (jn_pc s t = JRecheck \<longrightarrow> jn_trig s = TRun \<longrightarrow> jn_wake s = Some t) \<and>
     (jn_wake s = None \<or> jn_wake s = Some t) \<and>
     (jn_trig s = TRun \<or> jn_trig s = TTake \<or> jn_trig s = TUnpark t \<or> jn_trig s = TEnd)"

lemma join_inv_step:
  assumes "join_inv t s" "join_step {t} s s'"
  shows "join_inv t s'"
proof -
  from assms(2) obtain a where a: "join_next a s = Some s'" "a = Host \<or> a = Waiting t"
    unfolding join_step_def by (metis actor.exhaust singletonD)
  from a(2) show ?thesis
  proof
    assume "a = Host"
    with a(1) have tr: "trigger_step s = Some s'" by simp
    show ?thesis
    proof (cases "jn_trig s")
      case TRun
      with tr have "s' = s\<lparr>jn_state := False, jn_trig := TTake\<rparr>" by simp
      with TRun assms(1) show ?thesis by (simp add: join_inv_def)
    next
      case TTake
      then have "s' = s\<lparr>jn_wake := None, jn_trig := case jn_wake s of None \<Rightarrow> TEnd | Some b \<Rightarrow> TUnpark b\<rparr>"
        using tr by (simp add: ao_take_def)
      with TTake assms(1) show ?thesis by (cases "jn_wake s") (simp_all add: join_inv_def)
    next
      case (TUnpark b)
      with tr have "s' = s\<lparr>jn_token := (jn_token s)(b := True), jn_trig := TEnd\<rparr>" by simp
      with TUnpark assms(1) show ?thesis by (simp add: join_inv_def)
    qed (use tr in simp)
  next
    assume "a = Waiting t"
    with a(1) have w: "wait_step t s = Some s'" by simp
    show ?thesis
    proof (cases "jn_pc s t")
      case JPark
      with w have "jn_token s t" "s' = jgoto t JDone s" by (simp_all split: if_splits)
      with JPark assms(1) show ?thesis by (simp add: join_inv_def jgoto_def)
    next
      case JIdle
      with w have "s' = jgoto t (if jn_state s then JStore else JDone) s" by simp
      with JIdle assms(1) show ?thesis by (simp add: join_inv_def jgoto_def)
    next
      case JStore
      with w have "s' = jgoto t JRecheck (s\<lparr>jn_wake := Some t\<rparr>)" by (simp add: ao_store_def)
      with JStore assms(1) show ?thesis by (simp add: join_inv_def jgoto_def)
    next
      case JRecheck
      with w have "s' = jgoto t (if jn_state s then JPark else JTake) s" by simp
      with JRecheck assms(1) show ?thesis by (simp add: join_inv_def jgoto_def)
    next
      case JTake
      with w have "s' = jgoto t JDone (s\<lparr>jn_wake := None\<rparr>)" by (simp add: ao_take_def)
      with JTake assms(1) show ?thesis by (auto simp: join_inv_def jgoto_def)
    qed (use w in simp)
  qed
qed

interpretation join_sys: invariant_system join_start "join_step {t}" "join_inv t" for t
proof
  show "join_inv t s" if "join_start s" for s :: "'r join"
    using that by (simp add: join_start_def join_new_def join_inv_def ao_none_def)
qed (rule join_inv_step)


lemma join_stepI: "join_next a s = Some s' \<Longrightarrow> join_step UNIV s s'"
  by (auto simp: join_step_def)


section \<open>Two waiters\<close>

text \<open>
  C33: \<^verbatim>\<open>JoinHandle::wait\<close> takes a shared reference and the handle can be shared between threads, but the
  second waiter overwrites the registration of the first. There is a run in which the coroutine has
  ended, the second waiter has returned, and the first one is parked without a token and with nobody left to
  wake it: no step is possible any more.
\<close>

theorem join_two_waiters_stuck:
  "\<exists>s :: nat join. reach join_start (join_step {0, 1}) s \<and> jn_trig s = TEnd \<and> is_done s \<and>
     jn_pc s 1 = JDone \<and> jn_pc s 0 = JPark \<and> \<not> (\<exists>s'. join_step {0, 1} s s')"
proof -
  let ?as = "[Waiting 0, Waiting 0, Waiting 0, Waiting 1, Waiting 1, Waiting 1, Host, Host, Host, Waiting 1]"
  let ?next = "\<lambda>a s. case a of Host \<Rightarrow> join_next Host s
    | Waiting t \<Rightarrow> if t \<in> {0, 1} then join_next (Waiting t) s else None"
  obtain s :: "nat join" where s: "run_acts ?next ?as join_new = Some s" "jn_trig s = TEnd" "jn_pc s 0 = JPark"
    "jn_pc s 1 = JDone" "\<not> jn_token s 0" "is_done s"
    by (simp add: join_new_def jgoto_def ao_defs Let_def is_done_def)
  have "reach join_start (join_step {0, 1}) s"
    by (rule run_acts_reach [OF _ s(1)])
      (auto simp: join_step_def join_start_def intro!: reach_start simp del: join_next.simps split: actor.splits if_splits)
  moreover have "\<not> (\<exists>s'. join_step {0, 1} s s')"
  proof -
    have "join_next a s = None" if "\<forall>t. a = Waiting t \<longrightarrow> t \<in> {0, 1}" for a
      using that s by (cases a) auto
    then show ?thesis unfolding join_step_def by (metis option.distinct(1))
  qed
  ultimately show ?thesis using s by blast
qed

text \<open>
  \<^verbatim>\<open>JoinHandle::join\<close> returns the value of the coroutine if it left one, otherwise its panic, and
  \<^verbatim>\<open>Error::Cancel\<close> only if it left neither.
\<close>

theorem join_result_exact:
  fixes r :: 'a
  shows "(join_result (Some r) e s = Inr r) \<and>
   (join_result (None :: 'a option) e (set_panic_data p s) = Inl p) \<and>
   (jn_panic s = None \<longrightarrow> join_result (None :: 'a option) e s = Inl e)"
  by (simp add: join_result_def set_panic_data_def ao_defs)

end
