(* ===== verification/Scoped_Local.thy ===== *)
theory Scoped_Local
  imports Atomics
begin

text \<open>
  Scoped coroutines (\<^verbatim>\<open>src/scoped.rs\<close>) and coroutine-local storage (\<^verbatim>\<open>src/local.rs\<close>). Both run on one stack
  and are modelled as functions on explicit state.
\<close>

section \<open>Scopes\<close>

text \<open>
  The join of a handle is \<^verbatim>\<open>JoinHandle::join\<close>: it returns after the coroutine has ended, with its panic if it had
  one (\<open>fails h\<close>). \<open>sp_state\<close> holds the shared \<^verbatim>\<open>JoinState\<close> cells, numbered by spawn; \<open>sp_log\<close> records
  what has been joined and which deferred closures have run.
\<close>

datatype join_state = Running nat | Joined

datatype dtor = DJoin nat | DUser nat

datatype scope_ev = EJoin nat | EUser nat

record scope =
  sp_dtors :: "dtor list"
  sp_state :: "nat \<Rightarrow> join_state"
  sp_fresh :: nat
  sp_log :: "scope_ev list"

definition scope_new :: scope where
  "scope_new = \<lparr>sp_dtors = [], sp_state = (\<lambda>_. Joined), sp_fresh = 0, sp_log = []\<rparr>"

text \<open>\<^verbatim>\<open>JoinState::join\<close>; the flag returned is whether it unwinds.\<close>

definition state_join :: "(nat \<Rightarrow> bool) \<Rightarrow> bool \<Rightarrow> nat \<Rightarrow> scope \<Rightarrow> bool \<times> scope" where
  "state_join fails panicking i s = (case sp_state s i of
     Joined \<Rightarrow> (False, s)
   | Running h \<Rightarrow>
       (\<not> panicking \<and> fails h, s\<lparr>sp_state := (sp_state s)(i := Joined), sp_log := sp_log s @ [EJoin h]\<rparr>))"

text \<open>Running a destructor; \<open>boom k\<close> is whether the deferred closure \<open>k\<close> panics.\<close>

fun dtor_call :: "(nat \<Rightarrow> bool) \<Rightarrow> (nat \<Rightarrow> bool) \<Rightarrow> bool \<Rightarrow> dtor \<Rightarrow> scope \<Rightarrow> bool \<times> scope" where
  "dtor_call fails boom panicking (DJoin i) s = state_join fails panicking i s"
| "dtor_call fails boom panicking (DUser k) s = (boom k, s\<lparr>sp_log := sp_log s @ [EUser k]\<rparr>)"

lemma state_join_sel: "sp_dtors (snd (state_join fails p i s)) = sp_dtors s" "sp_fresh (snd (state_join fails p i s)) = sp_fresh s"
  by (auto simp: state_join_def split: join_state.splits)

lemma dtor_call_sel [simp]:
  "sp_dtors (snd (dtor_call fails boom p d s)) = sp_dtors s" "sp_fresh (snd (dtor_call fails boom p d s)) = sp_fresh s"
  by (cases d; simp add: state_join_sel)+

text \<open>\<^verbatim>\<open>drop_all\<close> unlinks a destructor before it runs it, so that it can be resumed after a panic.\<close>

function drop_all :: "(nat \<Rightarrow> bool) \<Rightarrow> (nat \<Rightarrow> bool) \<Rightarrow> bool \<Rightarrow> scope \<Rightarrow> bool \<times> scope" where
  "drop_all fails boom panicking s = (case sp_dtors s of
     [] \<Rightarrow> (False, s)
   | d # ds \<Rightarrow>
       (let (raised, s1) = dtor_call fails boom panicking d (s\<lparr>sp_dtors := ds\<rparr>) in
        if raised then (True, s1) else drop_all fails boom panicking s1))"
  by pat_completeness auto

termination
proof (relation "measure (\<lambda>(_, _, _, s). length (sp_dtors s))")
  fix fails boom panicking s d ds x raised s1
  assume "sp_dtors s = d # ds" "x = dtor_call fails boom panicking d (s\<lparr>sp_dtors := ds\<rparr>)" "(raised, s1) = x"
  then have "sp_dtors s1 = ds" using dtor_call_sel(1) [of fails boom panicking d "s\<lparr>sp_dtors := ds\<rparr>"] by (metis scope.select_convs(1) scope.surjective scope.update_convs(1) snd_conv)
  then show "((fails, boom, panicking, s1), fails, boom, panicking, s) \<in> measure (\<lambda>(_, _, _, s). length (sp_dtors s))"
    using \<open>sp_dtors s = d # ds\<close> by simp
qed simp

declare drop_all.simps [simp del]

definition defer_dtor :: "dtor \<Rightarrow> scope \<Rightarrow> scope" where
  "defer_dtor d s = s\<lparr>sp_dtors := d # sp_dtors s\<rparr>"

definition spawn_impl :: "scope \<Rightarrow> scope" where
  "spawn_impl s =
     (let i = sp_fresh s in defer_dtor (DJoin i) (s\<lparr>sp_state := (sp_state s)(i := Running i), sp_fresh := Suc i\<rparr>))"

text \<open>The closure given to \<^verbatim>\<open>scope\<close>: spawns, deferred closures and joins, and possibly a panic of its own.\<close>

datatype scope_op = OpSpawn | OpDefer nat | OpJoin nat | OpPanic

fun scope_body :: "(nat \<Rightarrow> bool) \<Rightarrow> scope_op list \<Rightarrow> scope \<Rightarrow> bool \<times> scope" where
  "scope_body fails [] s = (False, s)"
| "scope_body fails (OpSpawn # os) s = scope_body fails os (spawn_impl s)"
| "scope_body fails (OpDefer k # os) s = scope_body fails os (defer_dtor (DUser k) s)"
| "scope_body fails (OpJoin i # os) s =
     (let (raised, s1) = state_join fails False i s in if raised then (True, s1) else scope_body fails os s1)"
| "scope_body fails (OpPanic # os) s = (True, s)"

text \<open>A panic in the drop of the scope during an unwinding aborts the process.\<close>

datatype scope_result = Returned | Unwinds | Aborts

definition scope_unwind :: "(nat \<Rightarrow> bool) \<Rightarrow> (nat \<Rightarrow> bool) \<Rightarrow> scope \<Rightarrow> scope_result \<times> scope" where
  "scope_unwind fails boom s = (let (raised, s1) = drop_all fails boom True s in (if raised then Aborts else Unwinds, s1))"

definition scope_call :: "(nat \<Rightarrow> bool) \<Rightarrow> (nat \<Rightarrow> bool) \<Rightarrow> scope_op list \<Rightarrow> scope_result \<times> scope" where
  "scope_call fails boom os =
     (let (panics, s) = scope_body fails os scope_new in
      if panics then scope_unwind fails boom s
      else (let (raised, s1) = drop_all fails boom False s in
            if raised then scope_unwind fails boom s1 else (Returned, s1)))"

subsection \<open>What the destructors do\<close>

fun todo :: "scope \<Rightarrow> dtor \<Rightarrow> scope_ev list" where
  "todo s (DUser k) = [EUser k]"
| "todo s (DJoin i) = (case sp_state s i of Running h \<Rightarrow> [EJoin h] | Joined \<Rightarrow> [])"

definition pending :: "scope \<Rightarrow> scope_ev list" where
  "pending s = concat (map (todo s) (sp_dtors s))"

fun join_ids :: "dtor list \<Rightarrow> nat list" where
  "join_ids [] = []"
| "join_ids (DJoin i # ds) = i # join_ids ds"
| "join_ids (DUser _ # ds) = join_ids ds"

lemma pending_nil [simp]: "sp_dtors s = [] \<Longrightarrow> pending s = []"
  by (simp add: pending_def)

text \<open>
  The log and the destructors split the work: what has been done and what is still pending never changes as a
  whole, as long as every cell is joined by one destructor only.
\<close>

lemma todo_cong: "sp_state s' = sp_state s \<Longrightarrow> todo s' = todo s"
  by (rule ext) (metis (full_types) dtor.exhaust todo.simps)

lemma dtor_call_pending:
  assumes "dtor_call fails boom p d (s\<lparr>sp_dtors := ds\<rparr>) = (raised, s1)" "sp_dtors s = d # ds" "distinct (join_ids (d # ds))"
  shows "sp_log s1 @ pending s1 = sp_log s @ pending s \<and> sp_dtors s1 = ds"
proof (cases d)
  case (DUser k)
  then have "s1 = s\<lparr>sp_dtors := ds, sp_log := sp_log s @ [EUser k]\<rparr>" using assms(1) by simp
  then show ?thesis using DUser assms(2) todo_cong [of s1 s] by (simp add: pending_def)
next
  case (DJoin i)
  show ?thesis
  proof (cases "sp_state s i")
    case Joined
    then have "s1 = s\<lparr>sp_dtors := ds\<rparr>" using assms(1) DJoin by (simp add: state_join_def)
    then show ?thesis using DJoin Joined assms(2) todo_cong [of s1 s] by (simp add: pending_def)
  next
    case (Running h)
    then have s1: "s1 = s\<lparr>sp_dtors := ds, sp_state := (sp_state s)(i := Joined), sp_log := sp_log s @ [EJoin h]\<rparr>"
      using assms(1) DJoin by (simp add: state_join_def)
    have "i \<notin> set (join_ids ds)" using assms(3) DJoin by simp
    then have "map (todo s1) ds = map (todo s) ds"
    proof (induction ds)
      case (Cons x ds)
      then show ?case by (cases x) (auto simp: s1)
    qed simp
    moreover have "sp_dtors s1 = ds" "sp_log s1 = sp_log s @ [EJoin h]" by (simp_all add: s1)
    ultimately show ?thesis using DJoin Running assms(2) by (simp add: pending_def del: map_eq_conv)
  qed
qed

lemma join_ids_tl: "distinct (join_ids (d # ds)) \<Longrightarrow> distinct (join_ids ds)"
  by (cases d) auto

lemma drop_all_pending:
  assumes "drop_all fails boom p s = (raised, s')" "distinct (join_ids (sp_dtors s))"
  shows "sp_log s' @ pending s' = sp_log s @ pending s \<and> distinct (join_ids (sp_dtors s')) \<and>
    (\<not> raised \<longrightarrow> sp_dtors s' = []) \<and> sp_fresh s' = sp_fresh s"
  using assms
proof (induction fails boom p s arbitrary: raised s' rule: drop_all.induct)
  case (1 fails boom p s)
  show ?case
  proof (cases "sp_dtors s")
    case Nil
    then show ?thesis using "1.prems" by (auto simp: drop_all.simps)
  next
    case (Cons d ds)
    obtain r s1 where c: "dtor_call fails boom p d (s\<lparr>sp_dtors := ds\<rparr>) = (r, s1)" by fastforce
    have P: "sp_log s1 @ pending s1 = sp_log s @ pending s" "sp_dtors s1 = ds"
      using dtor_call_pending [OF c Cons] "1.prems"(2) Cons by auto
    have f: "sp_fresh s1 = sp_fresh s" using dtor_call_sel(2) [of fails boom p d "s\<lparr>sp_dtors := ds\<rparr>"] c by simp
    have d: "distinct (join_ids ds)" using "1.prems"(2) Cons by (auto intro: join_ids_tl)
    show ?thesis
    proof (cases r)
      case True
      then have "s' = s1" "raised" using "1.prems"(1) Cons c by (auto simp: drop_all.simps [of _ _ _ s])
      then show ?thesis using P f d by simp
    next
      case False
      then have "drop_all fails boom p s1 = (raised, s')" using "1.prems"(1) Cons c by (simp add: drop_all.simps [of _ _ _ s])
      from "1.IH" [OF Cons c [symmetric] _ False this] P f d show ?thesis by simp
    qed
  qed
qed

definition scope_ok :: "scope \<Rightarrow> bool" where
  "scope_ok s \<longleftrightarrow> distinct (join_ids (sp_dtors s)) \<and> set (join_ids (sp_dtors s)) = {..<sp_fresh s} \<and>
     (\<forall>i h. sp_state s i = Running h \<longrightarrow> h = i \<and> i < sp_fresh s) \<and>
     (\<forall>i. count_list (sp_log s) (EJoin i) = (if i < sp_fresh s \<and> sp_state s i = Joined then 1 else 0))"

lemma pending_count:
  assumes "distinct (join_ids ds)" "\<And>i h. sp_state s i = Running h \<Longrightarrow> h = i"
  shows "count_list (concat (map (todo s) ds)) (EJoin h) = (if h \<in> set (join_ids ds) \<and> sp_state s h = Running h then 1 else 0)"
  using assms(1)
proof (induction ds rule: join_ids.induct)
  case (2 i ds)
  then show ?case using assms(2) [of i] by (auto split: join_state.splits)
qed auto

lemma state_join_ok:
  assumes "scope_ok s" "state_join fails p i s = (raised, s')"
  shows "scope_ok s'"
proof (cases "sp_state s i")
  case (Running h)
  then have h: "h = i" "i < sp_fresh s" and s': "s' = s\<lparr>sp_state := (sp_state s)(i := Joined), sp_log := sp_log s @ [EJoin i]\<rparr>"
    using assms by (auto simp: scope_ok_def state_join_def)
  have "count_list (sp_log s) (EJoin i) = 0" using assms(1) Running by (simp add: scope_ok_def)
  then show ?thesis using assms(1) h(2) by (auto simp: scope_ok_def s' split: if_splits)
qed (use assms in \<open>simp add: state_join_def\<close>)

lemma scope_body_ok: "scope_ok s \<Longrightarrow> scope_body fails os s = (panics, s') \<Longrightarrow> scope_ok s'"
proof (induction fails os s arbitrary: panics s' rule: scope_body.induct)
  case (2 fails os s)
  have "count_list (sp_log s) (EJoin (sp_fresh s)) = 0" "sp_fresh s \<notin> set (join_ids (sp_dtors s))"
    using "2.prems"(1) by (auto simp: scope_ok_def)
  then have "scope_ok (spawn_impl s)" using "2.prems"(1)
    by (auto simp: scope_ok_def spawn_impl_def defer_dtor_def Let_def less_Suc_eq split: if_splits)
  then show ?case using "2.IH" "2.prems"(2) by simp
next
  case (3 fails k os s)
  have "scope_ok (defer_dtor (DUser k) s)" using "3.prems"(1) by (auto simp: scope_ok_def defer_dtor_def)
  then show ?case using "3.IH" "3.prems"(2) by simp
next
  case (4 fails i os s)
  obtain r s1 where j: "state_join fails False i s = (r, s1)" by fastforce
  then have "scope_ok s1" by (rule state_join_ok [OF "4.prems"(1)])
  then show ?case using "4.IH" [OF j [symmetric] refl] "4.prems"(2) j by (cases r) auto
qed auto

lemma scope_ok_new: "scope_ok scope_new"
  by (auto simp: scope_ok_def scope_new_def)

lemma scope_unwind_pending:
  assumes "scope_unwind fails boom s = (r, s')" "distinct (join_ids (sp_dtors s))" "r \<noteq> Aborts"
  shows "r = Unwinds \<and> sp_dtors s' = [] \<and> sp_log s' = sp_log s @ pending s \<and> sp_fresh s' = sp_fresh s"
proof -
  obtain x s1 where d: "drop_all fails boom True s = (x, s1)" by fastforce
  have x: "\<not> x" "s' = s1" "r = Unwinds" using assms(1,3) d by (auto simp: scope_unwind_def split: if_splits)
  from drop_all_pending [OF d assms(2)] x show ?thesis by auto
qed



section \<open>Coroutine-local storage\<close>

text \<open>
  A map of values by the type id of the key, one per coroutine and one per thread. \<^verbatim>\<open>get_co_local_data\<close> decides by
  the running context; \<open>lc_inits\<close> records the initialisers that ran.
\<close>

datatype run_context = InCoroutine nat | InThread nat

record 'v locals =
  lc_co :: "nat \<Rightarrow> (u64 \<rightharpoonup> 'v)"
  lc_thread :: "nat \<Rightarrow> (u64 \<rightharpoonup> 'v)"
  lc_inits :: "(run_context \<times> u64) list"

definition locals_new :: "'v locals" where
  "locals_new = \<lparr>lc_co = (\<lambda>_. Map.empty), lc_thread = (\<lambda>_. Map.empty), lc_inits = []\<rparr>"

fun local_map :: "run_context \<Rightarrow> 'v locals \<Rightarrow> (u64 \<rightharpoonup> 'v)" where
  "local_map (InCoroutine c) s = lc_co s c"
| "local_map (InThread t) s = lc_thread s t"

fun set_local_map :: "run_context \<Rightarrow> (u64 \<rightharpoonup> 'v) \<Rightarrow> 'v locals \<Rightarrow> 'v locals" where
  "set_local_map (InCoroutine c) m s = s\<lparr>lc_co := (lc_co s)(c := m)\<rparr>"
| "set_local_map (InThread t) m s = s\<lparr>lc_thread := (lc_thread s)(t := m)\<rparr>"

text \<open>\<^verbatim>\<open>LocalKey::with\<close> up to the call of the closure: the entry of the key, initialised on first use.\<close>

definition local_with :: "run_context \<Rightarrow> u64 \<Rightarrow> 'v \<Rightarrow> 'v locals \<Rightarrow> 'v \<times> 'v locals" where
  "local_with ctx key init s = (case local_map ctx s key of
     Some v \<Rightarrow> (v, s)
   | None \<Rightarrow> (init, (set_local_map ctx ((local_map ctx s)(key \<mapsto> init)) s)\<lparr>lc_inits := lc_inits s @ [(ctx, key)]\<rparr>))"

fun local_exec :: "(run_context \<times> u64 \<times> 'v) list \<Rightarrow> 'v locals \<Rightarrow> 'v list \<times> 'v locals" where
  "local_exec [] s = ([], s)"
| "local_exec ((ctx, key, init) # as) s =
     (let (v, s1) = local_with ctx key init s; (vs, s2) = local_exec as s1 in (v # vs, s2))"

lemma local_map_set: "local_map ctx' (set_local_map ctx m s) = (if ctx' = ctx then m else local_map ctx' s)"
  by (cases ctx; cases ctx') auto

lemma local_map_log [simp]: "local_map ctx (s\<lparr>lc_inits := l\<rparr>) = local_map ctx s"
  by (cases ctx) auto

lemma set_local_map_log [simp]: "lc_inits (set_local_map ctx m s) = lc_inits s"
  by (cases ctx) auto

lemma local_with_map:
  "local_map ctx' (snd (local_with ctx key init s)) =
     (if ctx' = ctx then (local_map ctx s)(key \<mapsto> fst (local_with ctx key init s)) else local_map ctx' s)"
  by (auto simp: local_with_def local_map_set fun_eq_iff split: option.splits)

lemma local_exec_keeps: "local_map ctx s key = Some v \<Longrightarrow> local_map ctx (snd (local_exec as s)) key = Some v"
proof (induction as s rule: local_exec.induct)
  case (2 c k i as s)
  have "local_map ctx (snd (local_with c k i s)) key = Some v"
    using "2.prems" by (auto simp: local_with_def local_map_set split: option.splits)
  then show ?case using "2.IH" by (auto simp: Let_def split: prod.splits)
qed simp

definition locals_inv :: "'v locals \<Rightarrow> bool" where
  "locals_inv s \<longleftrightarrow> distinct (lc_inits s) \<and> (\<forall>ctx key. (ctx, key) \<in> set (lc_inits s) \<longleftrightarrow> local_map ctx s key \<noteq> None)"

lemma local_with_inv: "locals_inv s \<Longrightarrow> locals_inv (snd (local_with ctx key init s))"
  by (auto simp: locals_inv_def local_with_def local_map_set split: option.splits if_splits)

lemma local_exec_inv: "locals_inv s \<Longrightarrow> locals_inv (snd (local_exec as s))"
proof (induction as s rule: local_exec.induct)
  case (2 c k i as s)
  then show ?case using local_with_inv [of s c k i] by (auto simp: Let_def split: prod.splits)
qed simp

text \<open>
  Coroutine-local values are initialised once per coroutine (or thread) and key, and are private to it. After any
  sequence of accesses no initialiser has run twice; an access returns the stored value, and from then on every
  access to that key in that context returns the same value; no access changes the map of another context.
\<close>

theorem local_keys_isolated:
  assumes "s = snd (local_exec as locals_new)" and "local_with ctx key init s = (v, s')"
  shows "distinct (lc_inits s) \<and> (local_map ctx s key = Some w \<longrightarrow> v = w) \<and>
    fst (local_with ctx key init' (snd (local_exec bs s'))) = v \<and>
    (ctx' \<noteq> ctx \<longrightarrow> local_map ctx' s' = local_map ctx' s)"
proof -
  have "locals_inv (locals_new :: 'a locals)"
    unfolding locals_inv_def by (auto simp: locals_new_def) (metis local_map.elims locals.select_convs)
  then have "distinct (lc_inits s)" using local_exec_inv [of locals_new as] assms(1) by (simp add: locals_inv_def)
  moreover have m: "local_map ctx s' key = Some v" using local_with_map [of ctx ctx key init s] assms(2) by simp
  then have "fst (local_with ctx key init' (snd (local_exec bs s'))) = v"
    using local_exec_keeps [OF m, of bs] by (simp add: local_with_def)
  moreover have "local_map ctx s key = Some w \<longrightarrow> v = w" using assms(2) by (auto simp: local_with_def)
  moreover have "ctx' \<noteq> ctx \<longrightarrow> local_map ctx' s' = local_map ctx' s" using local_with_map [of ctx' ctx key init s] assms(2) by simp
  ultimately show ?thesis by blast
qed

end
