(* ===== verification/Spec2Isabelle.thy ===== *)
theory Spec2Isabelle
  imports Spsc_Queue Mpsc_Queue Spmc_Queue Mpsc_List Timer_Thread Co_Park Scheduler RwLock Condvar
    Semphore Sync_Flag Barrier_Group Mpsc_Chan Spsc_Chan Mpmc_Chan Cancel_Data Config_Pool Join Scoped_Local
begin

text \<open>
  A verification library for \<^verbatim>\<open>may\<close>, a stackful coroutine runtime for Rust.

  \<^bold>\<open>The program.\<close> Coroutines are generators that a pool of worker threads runs. A coroutine that has to wait
  yields an event source; its \<^verbatim>\<open>subscribe\<close> puts the suspended coroutine into a slot, and whoever takes it out of the
  slot (a sender, a timer, a canceler) schedules it again. The crate \<^verbatim>\<open>may_queue\<close> holds the lock-free queues:
  block queues for one producer and one consumer, for many producers, and for many consumers with work
  stealing, and two linked lists, one with removable entries. On top of them, \<^verbatim>\<open>src/timeout_list.rs\<close> keeps the
  timers, and \<^verbatim>\<open>src/sync\<close> offers the usual synchronization types, usable from coroutines and threads alike: a waiting
  task pushes a \<^verbatim>\<open>SyncBlocker\<close> into a queue and parks; a releasing task pops it, unparks it, and takes back
  what a waiter that has left by a timeout or a cancellation did not want.

  \<^bold>\<open>Theories.\<close>
  \<^item> \<open>Prelude\<close>: machine words, results with faults, a heap of boxes and its allocator, masked indices, sums over tasks,
    and the two interfaces of the transition systems, \<open>invariant_system\<close> (an initial predicate, a step relation and an
    invariant) and \<open>event_runs\<close> (runs that record the events of their steps).
  \<^item> \<open>Queue_Spec\<close>: the contracts of the queues as locales: \<open>pop_queue\<close>, \<open>fifo_queue\<close>, \<open>handle_queue\<close>.
    \<open>Block_Layout\<close> and \<open>Numbered_Blocks\<close>: lists laid out in chains of blocks.
  \<^item> \<open>Spsc_Queue\<close>, \<open>Mpsc_Queue\<close>, \<open>Spmc_Queue\<close>, \<open>Mpsc_List\<close>, \<open>Mpsc_List_V1\<close> (\<^verbatim>\<open>may_queue/src\<close>): the blocks and nodes in an explicit
    heap, every operation with its pointer arithmetic on 64-bit words. A dereference of a freed block, a leak, a double free
    and a wait that no other thread will end are faults of the model; the theorems show that none occurs, and that the
    queues implement their contracts for every run of operations.
  \<^item> \<open>Timeout_List\<close>, \<open>Timer_Thread\<close> (\<^verbatim>\<open>src/timeout_list.rs\<close>): the heap of interval queues, adding, removing and firing timers; and the thread
    that sleeps until the first deadline, with its clients and a moving clock, as a transition system over the list.
  \<^item> \<open>Co_Park\<close> (\<^verbatim>\<open>src/park.rs\<close>): the parker of a coroutine. The coroutine, the thread in its \<^verbatim>\<open>subscribe\<close>, unparkers, cancelers and the timer
    thread share the slot, the state flag, the timer handle and the drop guard.
  \<^item> \<open>Scheduler\<close> (\<^verbatim>\<open>src/scheduler.rs\<close>, \<^verbatim>\<open>src/io/event_loop.rs\<close>, \<^verbatim>\<open>select\<close> of \<^verbatim>\<open>src/io/sys/unix/epoll.rs\<close>): the workers with their event loop, the
    local and global run queues, stealing, and the calls that schedule and spawn.
  \<^item> \<open>Blocking\<close>, \<open>Handoff\<close> (\<^verbatim>\<open>src/sync/blocking.rs\<close>): the parker of a thread, the two flags of a \<^verbatim>\<open>SyncBlocker\<close>, and the
    protocol between waiters and givers as a step relation \<open>hstep\<close>, with its invariant \<open>hand_ok\<close>: every resource
    handed over is consumed exactly once.
  \<^item> \<open>Mutex\<close>, \<open>Semphore\<close>, \<open>Sync_Flag\<close> (\<^verbatim>\<open>src/sync\<close>): transition systems over this protocol. Each maps its control points to the two
    sides of the protocol (\<open>wview\<close>/\<open>gview\<close> and so on), shows that each of its steps is a step of the protocol, and adds
    what it counts: the owner of the lock, the permits, the fired flag.
    \<open>Semphore\<close> states what a client of the semaphore may use as the locale \<open>permit_contract\<close>, and \<open>Mutex_Client\<close> what a client of the mutex may.
  \<^item> \<open>RwLock\<close>, \<open>Condvar\<close> (\<^verbatim>\<open>rwlock.rs\<close>, \<^verbatim>\<open>condvar.rs\<close>): the reader-writer lock over its two mutexes, and the condition variable with its mutex.
  \<^item> \<open>Barrier_Group\<close> (\<^verbatim>\<open>barrier.rs\<close>, \<^verbatim>\<open>wait_group.rs\<close>): clients of a mutex with a condition variable, one step per critical section.
  \<^item> \<open>Chan_Base\<close>, \<open>Mpsc_Chan\<close>, \<open>Spsc_Chan\<close>, \<open>Mpmc_Chan\<close> (\<^verbatim>\<open>mpsc.rs\<close>, \<^verbatim>\<open>spsc.rs\<close>, \<^verbatim>\<open>mpmc.rs\<close> of \<^verbatim>\<open>src/sync\<close>): the channels as transition systems; the mpmc
    channel is one over the system of the semaphore. The spsc channel
    includes the event sources of a receiving coroutine, whose \<^verbatim>\<open>subscribe\<close> runs concurrently with the sender, the timer,
    the canceler and the resumed coroutine.
  \<^item> \<open>Atomics\<close> (\<^verbatim>\<open>atomic_option.rs\<close>, \<^verbatim>\<open>atomic_dur.rs\<close>, \<^verbatim>\<open>delay_drop.rs\<close>), \<open>Cancel_Data\<close> (\<^verbatim>\<open>cancel.rs\<close>, \<^verbatim>\<open>poison.rs\<close>),
    \<open>Config_Pool\<close> (\<^verbatim>\<open>config.rs\<close>, \<^verbatim>\<open>pool.rs\<close>), \<open>Join\<close> (\<^verbatim>\<open>join.rs\<close>), \<open>Scoped_Local\<close> (\<^verbatim>\<open>scoped.rs\<close>, \<^verbatim>\<open>local.rs\<close>).

  \<^bold>\<open>How to read the models.\<close> A struct is a record with the source's fields. In the transition systems every task has a control
  point (\<open>pc\<close>, named after the access it is about to make), and every access to a shared atomic, queue or slot is one step of a
  function that returns \<open>None\<close> where the task is blocked or is elsewhere; the actions of clients and of the scheduler (calls,
  timeouts, cancellations, spurious failures) are the arguments of a \<open>next\<close> function, so that runs quantify over all
  interleavings. The atomics are taken to be sequentially consistent; most of them are \<^verbatim>\<open>SeqCst\<close> in the source, and the
  others are ordered by them. Errors and panics are control points (\<open>Broken\<close>, \<open>TxBroken\<close>, \<open>KBroken\<close>) that are shown
  unreachable, or outcomes of a call. In the theories of \<^verbatim>\<open>may_queue\<close> each operation runs to its end without interference, which is the
  meaning under which the other theories use the queues; \<^verbatim>\<open>crossbeam\<close>'s \<^verbatim>\<open>SegQueue\<close> is used with its documented
  first-in-first-out meaning.

  \<^bold>\<open>What the theorems show.\<close> For the queues: refinement of a list for every run, no memory fault, exact freeing on drop.
  For the timers: exactly the expired timers fire, no deadline is overslept, the loop ends, and the timer thread does not miss a wake-up. For the
  locks: exclusion, conservation of permits and signals, no lost wake-up (in a state where nobody can move, nobody waits for something that
  is there), for any number of tasks with timeouts and cancellations at any point. For the channels: delivery once and in order,
  disconnection, no lost wake-up. For barriers, joins and scopes: who is released when. For the parker: one owner of
  a suspended coroutine, no lost wake-up. For the scheduler: every index in range, every coroutine in exactly one place, no worker asleep while its
  global queue has a coroutine that nobody will report. Some theorems exhibit a run that ends badly: a second waiter on a join handle is
  never woken; a handle of the timer list dangles after the drop of its list; \<^verbatim>\<open>recv_timeout\<close> of the spsc channel reports a
  disconnection while its sender is alive; \<^verbatim>\<open>try_read\<close> of a poisoned reader-writer lock coexists with a writer; the drop of the last
  sender strands a receiver of the mpmc channel; \<^verbatim>\<open>wait_timeout_while\<close> starts its timeout again with every notification; a parker loses a
  timeout that expires too early, and its drop can wait for itself; and a worker goes to sleep with a coroutine in its local queue after an
  I/O timeout.

  \<^bold>\<open>Bounds.\<close> Loops that end by themselves are recursive functions; the busy waits of the queues and the loop of \<^verbatim>\<open>schedule_timer\<close> take
  fuel, and the theorems give an amount that is enough and show that the result does not depend on it. Counters are kept
  at 64 bits; where a run of more than \<open>2\<^sup>6\<^sup>2\<close> steps could wrap one, the theorem bounds the length of the run.

  The theorem on the timer thread bounds the number of interval queues by 1024, above which the source may remove a queue that has become empty.

  \<^bold>\<open>Not modelled.\<close> The completion queue and \<^verbatim>\<open>sleep\<close>. The generator crate switches stacks and has no definition here: what a coroutine does between
  two yields is arbitrary in the models. The registration of descriptors, the sockets and the Windows bindings are system calls behind thin
  wrappers. Iterators, \<^verbatim>\<open>Debug\<close> output and handle types that only forward are left out, as are the non-default features of the
  scheduler.
\<close>

end
